(* ===== verification/Prelude.thy ===== *)
theory Prelude
  imports
    Main
    "HOL-Library.AList"
    "HOL-Library.Multiset"
    "HOL-Library.Char_ord"
    "HOL-Library.List_Lexorder"
    "HOL-Library.Product_Lexorder"
begin

text \<open>
  What every component of the development shares: unsigned 64-bit arithmetic
  (\<open>idx_t\<close> and \<open>size_t\<close>) written out on \<open>nat\<close> with its wrap-around, byte ranges of a
  list, the memory a caller's buffer points into, the errors the code raises, and the
  named collections of rewrite rules used by the component proofs.
\<close>

section \<open>Collections of rules\<close>

named_theorems u64_exact \<open>unsigned 64-bit operations that do not wrap around\<close>
named_theorems range_simps \<open>rewriting byte ranges and memory writes\<close>

section \<open>Errors\<close>

text \<open>
  A C++ exception or a failed \<open>ALWAYS_ASSERT\<close> ends the operation that raises it; an
  operation that can fail returns \<open>Inl\<close> of one of these.
\<close>

datatype cpp_error =
    InvalidInputException string
  | InternalException string
  | IOException string
  | AssertionFailure string
  | DivisionByZero

type_synonym 'a result = "cpp_error + 'a"

section \<open>Unsigned 64-bit arithmetic\<close>

type_synonym idx_t = nat

definition U64 :: nat where
  "U64 = 18446744073709551616"

lemma U64_pos [simp]: "0 < U64"
  by (simp add: U64_def)

lemma U64_eq_power: "U64 = 2 ^ 64"
  by (simp add: U64_def)

definition u64_add :: "idx_t \<Rightarrow> idx_t \<Rightarrow> idx_t" where
  "u64_add a b = (a + b) mod U64"

definition u64_sub :: "idx_t \<Rightarrow> idx_t \<Rightarrow> idx_t" where
  "u64_sub a b = (a + (U64 - b mod U64)) mod U64"

definition u64_mul :: "idx_t \<Rightarrow> idx_t \<Rightarrow> idx_t" where
  "u64_mul a b = (a * b) mod U64"

lemma u64_add_exact [u64_exact]: "a + b < U64 \<Longrightarrow> u64_add a b = a + b"
  by (simp add: u64_add_def)

lemma u64_mul_exact [u64_exact]: "a * b < U64 \<Longrightarrow> u64_mul a b = a * b"
  by (simp add: u64_mul_def)

lemma u64_sub_exact [u64_exact]: "b \<le> a \<Longrightarrow> a < U64 \<Longrightarrow> u64_sub a b = a - b"
proof -
  assume "b \<le> a" "a < U64"
  then have "a + (U64 - b mod U64) = (a - b) + U64" by simp
  then have "u64_sub a b = ((a - b) + U64) mod U64" unfolding u64_sub_def by simp
  also have "\<dots> = (a - b) mod U64" by simp
  finally show ?thesis using \<open>a < U64\<close> by simp
qed

lemma u64_add_less [simp]: "u64_add a b < U64"
  by (simp add: u64_add_def)

lemma u64_sub_less [simp]: "u64_sub a b < U64"
  by (simp add: u64_sub_def)

text \<open>A subtraction below zero wraps around to a huge value.\<close>

lemma u64_sub_wraps: "a < b \<Longrightarrow> b < U64 \<Longrightarrow> u64_sub a b = U64 - (b - a)"
proof -
  assume "a < b" "b < U64"
  then have "a + (U64 - b) < U64" by arith
  with \<open>b < U64\<close> \<open>a < b\<close> show ?thesis by (simp add: u64_sub_def)
qed

lemma u64_sub_add_cancel:
  assumes "a + b < U64"
  shows "u64_sub (u64_add a b) b = a"
  using assms by (simp add: u64_exact)

lemma div_mult_floor:
  fixes a b :: nat
  shows "a div b * b \<le> a" and "0 < b \<Longrightarrow> a < a div b * b + b"
proof -
  show "a div b * b \<le> a" by simp
  assume "0 < b"
  then have "a mod b < b" by simp
  then show "a < a div b * b + b"
    using div_mult_mod_eq [of a b] by linarith
qed

section \<open>Byte ranges\<close>

text \<open>The bytes \<open>[off, off + len)\<close> of a file or a buffer.\<close>

definition slice :: "nat \<Rightarrow> nat \<Rightarrow> 'a list \<Rightarrow> 'a list" where
  "slice off len xs = take len (drop off xs)"

lemma length_slice [range_simps, simp]: "off + len \<le> length xs \<Longrightarrow> length (slice off len xs) = len"
  by (simp add: slice_def)

lemma slice_nth [range_simps]: "i < len \<Longrightarrow> off + len \<le> length xs \<Longrightarrow> slice off len xs ! i = xs ! (off + i)"
  by (simp add: slice_def)

lemma slice_0 [simp]: "slice off 0 xs = []"
  by (simp add: slice_def)

lemma slice_slice [range_simps]:
  "a + n \<le> len \<Longrightarrow> slice a n (slice off len xs) = slice (off + a) n xs"
  by (simp add: slice_def drop_take min_def add.commute)

lemma slice_append_slice [range_simps]:
  "slice off m xs @ slice (off + m) n xs = slice off (m + n) xs"
  by (simp add: slice_def take_add add.commute)

lemma slice_all [simp]: "slice 0 (length xs) xs = xs"
  by (simp add: slice_def)

section \<open>The memory a destination buffer points into\<close>

text \<open>
  The readers copy into a caller-supplied buffer through raw pointers. A pointer is an
  address, and memory maps addresses to bytes; a copy of a block writes consecutive
  addresses and leaves every other address alone.
\<close>

type_synonym byte = nat
type_synonym addr = nat
type_synonym memory = "addr \<Rightarrow> byte"

definition mem_write :: "addr \<Rightarrow> byte list \<Rightarrow> memory \<Rightarrow> memory" where
  "mem_write p bs m = (\<lambda>a. if p \<le> a \<and> a < p + length bs then bs ! (a - p) else m a)"

definition mem_read :: "addr \<Rightarrow> nat \<Rightarrow> memory \<Rightarrow> byte list" where
  "mem_read p n m = map m [p ..< p + n]"

lemma length_mem_read [simp]: "length (mem_read p n m) = n"
  by (simp add: mem_read_def)

lemma mem_write_in [range_simps]:
  "p \<le> a \<Longrightarrow> a < p + length bs \<Longrightarrow> mem_write p bs m a = bs ! (a - p)"
  by (simp add: mem_write_def)

lemma mem_write_out [range_simps]:
  "a < p \<or> p + length bs \<le> a \<Longrightarrow> mem_write p bs m a = m a"
  by (auto simp: mem_write_def)

lemma mem_write_Nil [simp]: "mem_write p [] m = m"
  by (auto simp: mem_write_def)

lemma mem_read_eqI:
  assumes "length bs = n" "\<And>i. i < n \<Longrightarrow> m (p + i) = bs ! i"
  shows "mem_read p n m = bs"
  using assms by (auto simp: mem_read_def intro!: nth_equalityI)

lemma mem_read_nth: "i < n \<Longrightarrow> mem_read p n m ! i = m (p + i)"
  by (simp add: mem_read_def)

section \<open>Association lists\<close>

text \<open>
  A \<open>std::unordered_map\<close> is an association list whose order stands for the unspecified
  iteration order; look-up, \<open>m[k] = v\<close> and \<open>erase\<close> are \<open>map_of\<close>, \<open>AList.update\<close> and
  \<open>AList.delete\<close> of the library.
\<close>

lemma map_of_delete [simp]: "map_of (AList.delete k m) = (map_of m)(k := None)"
  by (simp add: delete_conv')

lemma map_of_update [simp]: "map_of (AList.update k v m) = (map_of m)(k \<mapsto> v)"
  by (simp add: update_conv')

lemma keys_delete [simp]: "fst ` set (AList.delete k m) = fst ` set m - {k}"
  by (auto simp: AList.delete_eq)

lemma keys_map_of: "fst ` set m = dom (map_of m)"
  by (simp add: dom_map_of_conv_image_fst)

lemma map_leI: "(\<And>k v. m k = Some v \<Longrightarrow> m' k = Some v) \<Longrightarrow> m \<subseteq>\<^sub>m m'"
  by (auto simp: map_le_def dom_def)

lemma map_leD: "m \<subseteq>\<^sub>m m' \<Longrightarrow> m k = Some v \<Longrightarrow> m' k = Some v"
  by (metis domI map_le_def)

lemma map_fst_delete: "map fst (AList.delete k m) = filter (\<lambda>k'. k' \<noteq> k) (map fst m)"
  by (induction m) (auto simp: AList.delete_eq)

lemma map_of_butlast: "k \<in> fst ` set (butlast xs) \<Longrightarrow> map_of (butlast xs) k = map_of xs k"
proof (cases xs rule: rev_cases)
  case (snoc ys y)
  assume "k \<in> fst ` set (butlast xs)"
  with snoc have "k \<in> dom (map_of ys)" by (simp add: dom_map_of_conv_image_fst)
  with snoc show ?thesis by (auto simp: map_add_def split: option.splits)
qed simp

text \<open>The sum of a measure over the entries of a map whose keys are distinct.\<close>

definition entry_sum :: "('v \<Rightarrow> nat) \<Rightarrow> ('k \<times> 'v) list \<Rightarrow> nat" where
  "entry_sum f m = sum_list (map (f \<circ> snd) m)"

lemma entry_sum_simps [simp]:
  "entry_sum f [] = 0"
  "entry_sum f (kv # m) = f (snd kv) + entry_sum f m"
  by (simp_all add: entry_sum_def)

lemma entry_sum_delete:
  assumes "distinct (map fst m)" "map_of m k = Some v"
  shows "entry_sum f m = f v + entry_sum f (AList.delete k m)"
  using assms
proof (induction m)
  case (Cons kv m)
  show ?case
  proof (cases "fst kv = k")
    case True
    with Cons.prems have "AList.delete k m = m" "snd kv = v"
      by (auto intro: delete_id)
    with True show ?thesis by (cases kv) simp
  next
    case False
    with Cons show ?thesis by (cases kv) auto
  qed
qed simp

lemma entry_sum_update_new:
  assumes "k \<notin> fst ` set m"
  shows "entry_sum f (AList.update k v m) = f v + entry_sum f m"
  using assms by (induction m) auto

section \<open>Ordered maps\<close>

text \<open>
  A \<open>std::map\<close> is an association list in ascending order of its keys: iteration runs
  along the list, and \<open>lower_bound(k)\<close> is the suffix that starts at the first key not
  less than \<open>k\<close>.
\<close>

abbreviation om_sorted :: "('k::linorder \<times> 'v) list \<Rightarrow> bool" where
  "om_sorted m \<equiv> sorted_wrt (<) (map fst m)"

fun om_insert :: "'k::linorder \<Rightarrow> 'v \<Rightarrow> ('k \<times> 'v) list \<Rightarrow> ('k \<times> 'v) list" where
  "om_insert k v [] = [(k, v)]"
| "om_insert k v ((k', v') # m) =
     (if k < k' then (k, v) # (k', v') # m
      else if k = k' then (k, v) # m
      else (k', v') # om_insert k v m)"

definition om_lower_bound :: "'k::linorder \<Rightarrow> ('k \<times> 'v) list \<Rightarrow> ('k \<times> 'v) list" where
  "om_lower_bound k m = dropWhile (\<lambda>kv. fst kv < k) m"

lemma map_of_om_insert [simp]: "map_of (om_insert k v m) = (map_of m)(k \<mapsto> v)"
  by (induction k v m rule: om_insert.induct) auto

lemma keys_om_insert [simp]: "fst ` set (om_insert k v m) = insert k (fst ` set m)"
  by (induction k v m rule: om_insert.induct) auto

lemma om_sorted_insert [intro]: "om_sorted m \<Longrightarrow> om_sorted (om_insert k v m)"
proof (induction k v m rule: om_insert.induct)
  case (2 k v k' v' m)
  then have tail: "om_sorted m" "\<forall>x \<in> fst ` set m. k' < x"
    by auto
  show ?case
  proof (cases "k' < k")
    case True
    then have "\<forall>x \<in> fst ` set (om_insert k v m). k' < x"
      using tail(2) by simp
    moreover have "om_sorted (om_insert k v m)"
      using "2.IH" True tail(1) by auto
    ultimately show ?thesis using True by auto
  next
    case False
    with "2.prems" show ?thesis by auto
  qed
qed simp

lemma om_sorted_delete [intro]: "om_sorted m \<Longrightarrow> om_sorted (AList.delete k m)"
  by (simp add: map_fst_delete sorted_wrt_filter)

lemma om_sorted_distinct: "om_sorted m \<Longrightarrow> distinct (map fst m)"
  by (simp add: strict_sorted_iff)

lemma om_lower_bound_set:
  assumes "om_sorted m"
  shows "set (om_lower_bound k m) = {kv \<in> set m. k \<le> fst kv}"
  using assms
proof (induction m)
  case (Cons kv m)
  show ?case
  proof (cases "fst kv < k")
    case True
    with Cons show ?thesis by (auto simp: om_lower_bound_def)
  next
    case False
    with Cons.prems show ?thesis by (fastforce simp: om_lower_bound_def)
  qed
qed (simp add: om_lower_bound_def)

lemma om_sorted_lower_bound [intro]: "om_sorted m \<Longrightarrow> om_sorted (om_lower_bound k m)"
  unfolding om_lower_bound_def
  by (induction m) auto

text \<open>
  Scanning from \<open>lower_bound\<close> and stopping at the first key outside an up-closed block
  of keys finds exactly the keys of the block.
\<close>

lemma takeWhile_sorted_block:
  assumes "sorted_wrt (<) (ks :: 'k::linorder list)"
    and "\<And>x y. x \<in> set ks \<Longrightarrow> y \<in> set ks \<Longrightarrow> \<not> P x \<Longrightarrow> x < y \<Longrightarrow> \<not> P y"
  shows "set (takeWhile P ks) = {x \<in> set ks. P x}"
  using assms
proof (induction ks)
  case (Cons a ks)
  show ?case
  proof (cases "P a")
    case True
    have "set (takeWhile P ks) = {x \<in> set ks. P x}"
      using Cons.prems by (intro Cons.IH) auto
    with True show ?thesis by auto
  next
    case False
    with Cons.prems have "\<forall>y \<in> set ks. \<not> P y" by auto
    with False show ?thesis by auto
  qed
qed simp

lemma delete_om_insert [simp]: "AList.delete k (om_insert k v m) = AList.delete k m"
  by (induction k v m rule: om_insert.induct) auto

text \<open>Taking one entry out of a map of sequences splits the multiset of all their items.\<close>

lemma mset_concat_delete:
  assumes "distinct (map fst m)" "map_of m k = Some v"
  shows "mset (concat (map f m)) = mset (f (k, v)) + mset (concat (map f (AList.delete k m)))"
  using assms
proof (induction m)
  case (Cons kv m)
  show ?case
  proof (cases "fst kv = k")
    case True
    with Cons.prems have "AList.delete k m = m" "kv = (k, v)"
      by (cases kv, auto intro: delete_id)+
    then show ?thesis by simp
  next
    case False
    with Cons show ?thesis by (cases kv) auto
  qed
qed simp

lemma mset_concat_om_insert:
  assumes "om_sorted m"
  shows "mset (concat (map f (om_insert k v m))) =
    mset (f (k, v)) + mset (concat (map f (AList.delete k m)))"
  using mset_concat_delete [of "om_insert k v m" k v f] assms
  by (simp add: om_sorted_insert om_sorted_distinct)

text \<open>Counting a list by the class of its elements.\<close>

lemma length_by_class:
  assumes "distinct ks" "g ` set ns \<subseteq> set ks"
  shows "length ns = sum_list (map (\<lambda>k. length (filter (\<lambda>n. g n = k) ns)) ks)"
  using assms(2)
proof (induction ns)
  case (Cons n ns)
  have "sum_list (map (\<lambda>k. length (filter (\<lambda>x. g x = k) (n # ns))) ks) =
      sum_list (map (\<lambda>k. (if g n = k then 1 else 0) + length (filter (\<lambda>x. g x = k) ns)) ks)"
    by (intro arg_cong [where f = sum_list] map_cong) auto
  also have "\<dots> = sum_list (map (\<lambda>k. if g n = k then 1 else 0) ks) + length ns"
    using Cons by (simp add: sum_list_addf)
  also have "sum_list (map (\<lambda>k. if g n = k then 1 else 0) ks) = (1 :: nat)"
    using Cons.prems assms(1) by (simp add: sum_list_distinct_conv_sum_set)
  finally show ?case by simp
qed simp

section \<open>Computations that may fail or not return\<close>

text \<open>
  \<open>None\<close> is a loop that does not return, \<open>Some (Inl e)\<close> an exception, \<open>Some (Inr x)\<close> a result.
\<close>

type_synonym 'a run = "'a result option"

definition run_bind :: "'a run \<Rightarrow> ('a \<Rightarrow> 'b run) \<Rightarrow> 'b run" where
  "run_bind m f = (case m of None \<Rightarrow> None | Some (Inl e) \<Rightarrow> Some (Inl e) | Some (Inr x) \<Rightarrow> f x)"

lemma run_bind_simps [simp]:
  "run_bind (Some (Inr x)) f = f x"
  "run_bind (Some (Inl e)) f = Some (Inl e)"
  "run_bind None f = None"
  by (simp_all add: run_bind_def)

text \<open>Overwriting a range of a buffer.\<close>

definition overwrite :: "nat \<Rightarrow> 'a list \<Rightarrow> 'a list \<Rightarrow> 'a list" where
  "overwrite i bs xs = take i xs @ bs @ drop (i + length bs) xs"

lemma length_overwrite [simp]: "i + length bs \<le> length xs \<Longrightarrow> length (overwrite i bs xs) = length xs"
  by (simp add: overwrite_def)

lemma take_overwrite: "i \<le> length xs \<Longrightarrow> take (i + length bs) (overwrite i bs xs) = take i xs @ bs"
  by (simp add: overwrite_def)

end
