(* ===== verification/Std_List.thy ===== *)
theory Std_List
  imports Prelude
begin

text \<open>
  The part of \<open>std::list\<close> the caches and the eviction policies use. A list is a sequence
  of nodes, and an iterator stays attached to its node while other nodes come and go, so
  every node carries an identity: \<open>erase\<close>, \<open>splice\<close> and \<open>insert\<close> take the identity of a
  node, as the code takes an iterator. The iterator \<open>end()\<close> is \<open>None\<close>.
\<close>

record 'a std_list =
  sl_nodes :: "(nat \<times> 'a) list"
  sl_fresh :: nat

type_synonym list_iterator = "nat option"

definition sl_empty :: "'a std_list" where
  "sl_empty = \<lparr>sl_nodes = [], sl_fresh = 0\<rparr>"

definition sl_size :: "'a std_list \<Rightarrow> nat" where
  "sl_size l = length (sl_nodes l)"

definition sl_items :: "'a std_list \<Rightarrow> 'a list" where
  "sl_items l = map snd (sl_nodes l)"

definition sl_ids :: "'a std_list \<Rightarrow> nat list" where
  "sl_ids l = map fst (sl_nodes l)"

text \<open>\<open>emplace_front\<close>; the iterator to the new node is \<open>sl_fresh l\<close>.\<close>

definition sl_push_front :: "'a \<Rightarrow> 'a std_list \<Rightarrow> 'a std_list" where
  "sl_push_front x l =
     \<lparr>sl_nodes = (sl_fresh l, x) # sl_nodes l, sl_fresh = Suc (sl_fresh l)\<rparr>"

definition sl_erase :: "nat \<Rightarrow> 'a std_list \<Rightarrow> 'a std_list" where
  "sl_erase i l = l\<lparr>sl_nodes := filter (\<lambda>n. fst n \<noteq> i) (sl_nodes l)\<rparr>"

definition sl_back :: "'a std_list \<Rightarrow> 'a option" where
  "sl_back l = (if sl_nodes l = [] then None else Some (snd (last (sl_nodes l))))"

definition sl_front :: "'a std_list \<Rightarrow> 'a option" where
  "sl_front l = (case sl_nodes l of [] \<Rightarrow> None | n # _ \<Rightarrow> Some (snd n))"

definition sl_pop_back :: "'a std_list \<Rightarrow> 'a std_list" where
  "sl_pop_back l = l\<lparr>sl_nodes := butlast (sl_nodes l)\<rparr>"

definition sl_pop_front :: "'a std_list \<Rightarrow> 'a std_list" where
  "sl_pop_front l = l\<lparr>sl_nodes := tl (sl_nodes l)\<rparr>"

text \<open>\<open>l.splice(l.begin(), l, it)\<close>: move one node to the front.\<close>

definition sl_splice_front :: "nat \<Rightarrow> 'a std_list \<Rightarrow> 'a std_list" where
  "sl_splice_front i l =
     l\<lparr>sl_nodes := filter (\<lambda>n. fst n = i) (sl_nodes l) @ filter (\<lambda>n. fst n \<noteq> i) (sl_nodes l)\<rparr>"

definition sl_begin :: "'a std_list \<Rightarrow> list_iterator" where
  "sl_begin l = (case sl_nodes l of [] \<Rightarrow> None | n # _ \<Rightarrow> Some (fst n))"

text \<open>\<open>++it\<close>, and the iterator \<open>erase(it)\<close> returns.\<close>

definition sl_next :: "nat \<Rightarrow> 'a std_list \<Rightarrow> list_iterator" where
  "sl_next i l =
     (case dropWhile (\<lambda>n. fst n \<noteq> i) (sl_nodes l) of
        _ # n # _ \<Rightarrow> Some (fst n)
      | _ \<Rightarrow> None)"

text \<open>\<open>insert(pos, x)\<close>: the new node comes before \<open>pos\<close>, at the end for \<open>end()\<close>.\<close>

definition sl_insert :: "list_iterator \<Rightarrow> 'a \<Rightarrow> 'a std_list \<Rightarrow> 'a std_list" where
  "sl_insert pos x l =
     \<lparr>sl_nodes =
        (case pos of
           None \<Rightarrow> sl_nodes l @ [(sl_fresh l, x)]
         | Some i \<Rightarrow> takeWhile (\<lambda>n. fst n \<noteq> i) (sl_nodes l) @ (sl_fresh l, x)
                      # dropWhile (\<lambda>n. fst n \<noteq> i) (sl_nodes l)),
      sl_fresh = Suc (sl_fresh l)\<rparr>"

text \<open>\<open>*it = y\<close> through an iterator.\<close>

definition sl_assign :: "nat \<Rightarrow> 'a \<Rightarrow> 'a std_list \<Rightarrow> 'a std_list" where
  "sl_assign i y l = l\<lparr>sl_nodes := map (\<lambda>n. if fst n = i then (i, y) else n) (sl_nodes l)\<rparr>"

definition sl_deref :: "nat \<Rightarrow> 'a std_list \<Rightarrow> 'a option" where
  "sl_deref i l = map_of (sl_nodes l) i"

section \<open>Well-formed lists: distinct node identities, all of them allocated\<close>

definition sl_wf :: "'a std_list \<Rightarrow> bool" where
  "sl_wf l \<longleftrightarrow> distinct (sl_ids l) \<and> (\<forall>i \<in> set (sl_ids l). i < sl_fresh l)"

lemmas sl_defs =
  sl_ids_def sl_items_def sl_size_def sl_push_front_def sl_erase_def sl_pop_back_def
  sl_pop_front_def sl_splice_front_def

lemma sl_wf_empty [simp]: "sl_wf sl_empty"
  by (simp add: sl_wf_def sl_empty_def sl_ids_def)

lemma sl_nodes_empty [simp]: "sl_nodes sl_empty = []"
  by (simp add: sl_empty_def)

lemma sl_nodes_push_front [simp]:
  "sl_nodes (sl_push_front x l) = (sl_fresh l, x) # sl_nodes l"
  by (simp add: sl_push_front_def)

lemma sl_nodes_erase [simp]: "sl_nodes (sl_erase i l) = filter (\<lambda>n. fst n \<noteq> i) (sl_nodes l)"
  by (simp add: sl_erase_def)

lemma sl_nodes_pop_back [simp]: "sl_nodes (sl_pop_back l) = butlast (sl_nodes l)"
  by (simp add: sl_pop_back_def)

lemma sl_nodes_pop_front [simp]: "sl_nodes (sl_pop_front l) = tl (sl_nodes l)"
  by (simp add: sl_pop_front_def)

lemma sl_nodes_splice_front [simp]:
  "sl_nodes (sl_splice_front i l) =
     filter (\<lambda>n. fst n = i) (sl_nodes l) @ filter (\<lambda>n. fst n \<noteq> i) (sl_nodes l)"
  by (simp add: sl_splice_front_def)

lemma sl_wf_push_front [intro]: "sl_wf l \<Longrightarrow> sl_wf (sl_push_front x l)"
  by (fastforce simp: sl_wf_def sl_ids_def sl_push_front_def)

lemma sl_wf_erase [intro]: "sl_wf l \<Longrightarrow> sl_wf (sl_erase i l)"
  by (auto simp: sl_wf_def sl_ids_def sl_erase_def distinct_map inj_on_def)

lemma sl_wf_pop_back [intro]: "sl_wf l \<Longrightarrow> sl_wf (sl_pop_back l)"
  by (fastforce simp: sl_wf_def sl_ids_def sl_pop_back_def map_butlast distinct_butlast
      dest: in_set_butlastD)

lemma sl_wf_pop_front [intro]: "sl_wf l \<Longrightarrow> sl_wf (sl_pop_front l)"
  by (cases "sl_nodes l") (auto simp: sl_wf_def sl_ids_def sl_pop_front_def)

lemma sl_wf_splice_front [intro]: "sl_wf l \<Longrightarrow> sl_wf (sl_splice_front i l)"
  by (auto simp: sl_wf_def sl_ids_def sl_splice_front_def distinct_map inj_on_def)

lemma sl_wf_fresh: "sl_wf l \<Longrightarrow> (sl_fresh l, x) \<notin> set (sl_nodes l)"
  by (force simp: sl_wf_def sl_ids_def)

lemma sl_wf_unique:
  "sl_wf l \<Longrightarrow> (i, x) \<in> set (sl_nodes l) \<Longrightarrow> (i, y) \<in> set (sl_nodes l) \<Longrightarrow> x = y"
  by (auto simp: sl_wf_def sl_ids_def dest: eq_key_imp_eq_value)

lemma sl_deref_iff:
  "sl_wf l \<Longrightarrow> sl_deref i l = Some x \<longleftrightarrow> (i, x) \<in> set (sl_nodes l)"
  by (simp add: sl_wf_def sl_ids_def sl_deref_def)

text \<open>Erasing the node of a valid iterator splits the list at that node.\<close>

lemma filter_node_split:
  assumes "distinct (map fst (xs @ (i, x) # ys))"
  shows "filter (\<lambda>n. fst n \<noteq> i) (xs @ (i, x) # ys) = xs @ ys"
    and "filter (\<lambda>n. fst n = i) (xs @ (i, x) # ys) = [(i, x)]"
proof -
  have "\<forall>n \<in> set xs. fst n \<noteq> i" "\<forall>n \<in> set ys. fst n \<noteq> i"
    using assms by auto
  then show "filter (\<lambda>n. fst n \<noteq> i) (xs @ (i, x) # ys) = xs @ ys"
    and "filter (\<lambda>n. fst n = i) (xs @ (i, x) # ys) = [(i, x)]"
    by (simp_all add: filter_empty_conv)
qed

lemma sl_split_node:
  assumes "sl_wf l" "(i, x) \<in> set (sl_nodes l)"
  obtains xs ys where "sl_nodes l = xs @ (i, x) # ys"
    and "sl_nodes (sl_erase i l) = xs @ ys"
    and "sl_nodes (sl_splice_front i l) = (i, x) # xs @ ys"
proof -
  from assms(2) obtain xs ys where split: "sl_nodes l = xs @ (i, x) # ys"
    by (meson split_list)
  with assms(1) have d: "distinct (map fst (xs @ (i, x) # ys))"
    by (simp add: sl_wf_def sl_ids_def)
  show ?thesis
    using that [OF split] filter_node_split [OF d] split by simp
qed

lemma sl_size_erase:
  assumes "sl_wf l" "(i, x) \<in> set (sl_nodes l)"
  shows "Suc (sl_size (sl_erase i l)) = sl_size l"
  using assms by (auto elim!: sl_split_node simp: sl_size_def)

end
