(* ===== verification/Lru_Spec.thy ===== *)
theory Lru_Spec
  imports Std_List
begin

text \<open>
  What an LRU cache promises, and the locale through which its clients see it.

  The abstract cache is the list of its entries \<open>(key, (value, insertion time))\<close>, most
  recently used first. Every cache of \<open>src/utils/include\<close> that evicts by recency is shown
  to implement these list operations (theories \<open>Shared_Value_Lru\<close>, \<open>Copiable_Value_Lru\<close>,
  \<open>Exclusive_Lru\<close>); the consequences are proved once, inside the locale.
\<close>

section \<open>The abstract cache\<close>

type_synonym ('k, 'v) lru_model = "('k \<times> 'v \<times> nat) list"

definition lru_expired :: "nat \<Rightarrow> nat \<Rightarrow> nat \<Rightarrow> bool" where
  "lru_expired timeout now ts \<longleftrightarrow> 0 < timeout \<and> timeout < u64_sub now ts"

definition spec_trim :: "nat \<Rightarrow> ('k, 'v) lru_model \<Rightarrow> ('k, 'v) lru_model" where
  "spec_trim cap xs = (if 0 < cap \<and> cap < length xs then butlast xs else xs)"

definition spec_put ::
  "nat \<Rightarrow> 'k \<Rightarrow> 'v \<Rightarrow> nat \<Rightarrow> ('k, 'v) lru_model \<Rightarrow> ('k, 'v) lru_model" where
  "spec_put cap k v now xs = spec_trim cap ((k, v, now) # AList.delete k xs)"

definition spec_get ::
  "nat \<Rightarrow> 'k \<Rightarrow> nat \<Rightarrow> ('k, 'v) lru_model \<Rightarrow> 'v option \<times> ('k, 'v) lru_model" where
  "spec_get timeout k now xs =
     (case map_of xs k of
        None \<Rightarrow> (None, xs)
      | Some (v, ts) \<Rightarrow>
          if lru_expired timeout now ts then (None, AList.delete k xs)
          else (Some v, (k, v, ts) # AList.delete k xs))"

definition spec_delete :: "'k \<Rightarrow> ('k, 'v) lru_model \<Rightarrow> bool \<times> ('k, 'v) lru_model" where
  "spec_delete k xs = (map_of xs k \<noteq> None, AList.delete k xs)"

definition lru_ok :: "nat \<Rightarrow> ('k, 'v) lru_model \<Rightarrow> bool" where
  "lru_ok cap xs \<longleftrightarrow> distinct (map fst xs) \<and> (0 < cap \<longrightarrow> length xs \<le> cap)"

lemma length_delete: "distinct (map fst xs) \<Longrightarrow>
    length (AList.delete k xs) = (if k \<in> fst ` set xs then length xs - 1 else length xs)"
proof (induction xs)
  case (Cons x xs)
  then show ?case
    by (cases x; cases "fst x = k"; cases xs) (auto simp: image_iff)
qed simp

lemma length_delete_le: "length (AList.delete k xs) \<le> length xs"
  by (simp add: AList.delete_eq)

lemma distinct_spec_trim [intro]: "distinct (map fst xs) \<Longrightarrow> distinct (map fst (spec_trim cap xs))"
  by (simp add: spec_trim_def map_butlast distinct_butlast)

lemma lru_ok_put:
  assumes "lru_ok cap xs"
  shows "lru_ok cap (spec_put cap k v now xs)"
proof -
  have d: "distinct (map fst ((k, v, now) # AList.delete k xs))"
    using assms by (auto simp: lru_ok_def map_fst_delete)
  have "0 < cap \<Longrightarrow> length ((k, v, now) # AList.delete k xs) \<le> Suc cap"
    using assms length_delete_le [of k xs] by (auto simp: lru_ok_def)
  moreover have "distinct (map fst (spec_trim cap ((k, v, now) # AList.delete k xs)))"
    using d by (rule distinct_spec_trim)
  ultimately show ?thesis
    by (auto simp: lru_ok_def spec_put_def spec_trim_def)
qed

lemma lru_ok_delete: "lru_ok cap xs \<Longrightarrow> lru_ok cap (AList.delete k xs)"
  using length_delete_le [of k xs] by (auto simp: lru_ok_def map_fst_delete)

lemma lru_ok_get: "lru_ok cap xs \<Longrightarrow> lru_ok cap (snd (spec_get timeout k now xs))"
proof (cases "map_of xs k")
  case (Some vt)
  assume ok: "lru_ok cap xs"
  have "k \<in> fst ` set xs"
    using Some by (auto simp: keys_map_of)
  then have "xs \<noteq> []" "length (AList.delete k xs) = length xs - 1"
    using ok by (auto simp: lru_ok_def length_delete)
  then have "lru_ok cap ((k, v, ts) # AList.delete k xs)" for v ts
    using ok by (cases xs) (auto simp: lru_ok_def map_fst_delete)
  with Some ok show ?thesis
    by (auto simp: spec_get_def lru_ok_delete split: prod.splits)
qed (simp add: spec_get_def)

section \<open>Which entries a run of operations can evict\<close>

datatype ('k, 'v) lru_op = OpPut 'k 'v nat | OpGet 'k nat | OpDelete 'k

fun op_key :: "('k, 'v) lru_op \<Rightarrow> 'k" where
  "op_key (OpPut k _ _) = k"
| "op_key (OpGet k _) = k"
| "op_key (OpDelete k) = k"

text \<open>The keys more recently used than \<open>k\<close>.\<close>

definition ahead :: "'k \<Rightarrow> ('k \<times> 'a) list \<Rightarrow> 'k set" where
  "ahead k xs = set (takeWhile (\<lambda>j. j \<noteq> k) (map fst xs))"

lemma ahead_simps [simp]:
  "ahead k [] = {}"
  "ahead k (x # xs) = (if fst x = k then {} else insert (fst x) (ahead k xs))"
  by (auto simp: ahead_def)

lemma ahead_delete: "j \<noteq> k \<Longrightarrow> ahead k (AList.delete j xs) \<subseteq> ahead k xs"
proof (induction xs)
  case (Cons x xs)
  then show ?case by (cases x) auto
qed simp

lemma ahead_butlast: "ahead k (butlast xs) \<subseteq> ahead k xs"
  by (induction xs) auto

lemma card_ahead_last:
  assumes "distinct (map fst xs)" "k \<in> fst ` set xs" "k \<notin> fst ` set (butlast xs)"
  shows "Suc (card (ahead k xs)) = length xs"
proof -
  from assms(2) obtain ys y where xs: "xs = ys @ [y]"
    by (cases xs rule: rev_cases) auto
  with assms(2,3) have "fst y = k" by auto
  with xs assms(3) have "takeWhile (\<lambda>j. j \<noteq> k) (map fst xs) = map fst ys"
    by (auto simp: takeWhile_append image_iff)
  then have "ahead k xs = set (map fst ys)" by (simp add: ahead_def)
  moreover have "distinct (map fst ys)" using assms(1) xs by simp
  ultimately have "card (ahead k xs) = length ys"
    by (metis distinct_card length_map)
  with xs show ?thesis by simp
qed

lemma spec_put_keeps:
  assumes ok: "lru_ok cap xs" and kin: "k \<in> fst ` set xs" and jk: "j \<noteq> k"
    and room: "card (insert j (ahead k xs)) < cap"
  shows "k \<in> fst ` set (spec_put cap j v now xs) \<and>
         map_of (spec_put cap j v now xs) k = map_of xs k \<and>
         ahead k (spec_put cap j v now xs) \<subseteq> insert j (ahead k xs)"
proof -
  let ?ys = "(j, v, now) # AList.delete j xs"
  have d: "distinct (map fst ?ys)" using ok by (auto simp: lru_ok_def map_fst_delete)
  have ky: "k \<in> fst ` set ?ys" using kin jk by auto
  have ah: "ahead k ?ys \<subseteq> insert j (ahead k xs)"
    using jk ahead_delete [of j k xs] by auto
  have fin: "finite (insert j (ahead k xs))" by (simp add: ahead_def)
  have kb: "k \<in> fst ` set (butlast ?ys)" if "cap < length ?ys"
  proof (rule ccontr)
    assume "k \<notin> fst ` set (butlast ?ys)"
    then have "Suc (card (ahead k ?ys)) = length ?ys" using d ky by (intro card_ahead_last) auto
    moreover have "card (ahead k ?ys) \<le> card (insert j (ahead k xs))"
      using ah fin by (rule card_mono [rotated])
    ultimately show False using that room by linarith
  qed
  have mb: "map_of (butlast ?ys) k = map_of ?ys k" if "k \<in> fst ` set (butlast ?ys)"
    using that by (rule map_of_butlast)
  show ?thesis
    using ky kb mb ah ahead_butlast [of k ?ys] jk
    unfolding spec_put_def spec_trim_def by (auto split: if_splits)
qed

section \<open>The interface\<close>

locale lru_cache =
  fixes put :: "'k \<Rightarrow> 'v \<Rightarrow> nat \<Rightarrow> 's \<Rightarrow> 's"
    and get :: "'k \<Rightarrow> nat \<Rightarrow> 's \<Rightarrow> 'v option \<times> 's"
    and del :: "'k \<Rightarrow> 's \<Rightarrow> bool \<times> 's"
    and abs :: "'s \<Rightarrow> ('k, 'v) lru_model"
    and inv :: "'s \<Rightarrow> bool"
    and cap :: "'s \<Rightarrow> nat"
    and timeout :: "'s \<Rightarrow> nat"
  assumes inv_ok: "inv s \<Longrightarrow> lru_ok (cap s) (abs s)"
    and inv_put: "inv s \<Longrightarrow> inv (put k v now s)"
    and inv_get: "inv s \<Longrightarrow> inv (snd (get k now s))"
    and inv_del: "inv s \<Longrightarrow> inv (snd (del k s))"
    and abs_put: "inv s \<Longrightarrow> abs (put k v now s) = spec_put (cap s) k v now (abs s)"
    and abs_get: "inv s \<Longrightarrow> fst (get k now s) = fst (spec_get (timeout s) k now (abs s))"
      "inv s \<Longrightarrow> abs (snd (get k now s)) = snd (spec_get (timeout s) k now (abs s))"
    and abs_del: "inv s \<Longrightarrow> fst (del k s) = fst (spec_delete k (abs s))"
      "inv s \<Longrightarrow> abs (snd (del k s)) = snd (spec_delete k (abs s))"
    and config: "cap (put k v now s) = cap s" "timeout (put k v now s) = timeout s"
      "cap (snd (get k now s)) = cap s" "timeout (snd (get k now s)) = timeout s"
      "cap (snd (del k s)) = cap s" "timeout (snd (del k s)) = timeout s"
begin

fun step :: "('k, 'v) lru_op \<Rightarrow> 's \<Rightarrow> 's" where
  "step (OpPut k v now) s = put k v now s"
| "step (OpGet k now) s = snd (get k now s)"
| "step (OpDelete k) s = snd (del k s)"

fun run :: "('k, 'v) lru_op list \<Rightarrow> 's \<Rightarrow> 's" where
  "run [] s = s"
| "run (x # xs) s = run xs (step x s)"

lemma step_inv: "inv s \<Longrightarrow> inv (step x s) \<and> cap (step x s) = cap s"
  by (cases x) (simp_all add: inv_put inv_get inv_del config)

lemma run_inv: "inv s \<Longrightarrow> inv (run xs s) \<and> cap (run xs s) = cap s"
  by (induction xs arbitrary: s) (auto simp: step_inv)

lemma run_bounded: "inv s \<Longrightarrow> 0 < cap s \<Longrightarrow> length (abs (run xs s)) \<le> cap s"
  using run_inv [of s xs] inv_ok [of "run xs s"] by (simp add: lru_ok_def)

lemma get_after_put:
  assumes "inv s" and fresh: "\<not> lru_expired (timeout s) now' now"
  shows "fst (get k now' (put k v now s)) = Some v"
proof -
  have "cap s = 0 \<or> 1 \<le> cap s" by arith
  then have "map_of (spec_put (cap s) k v now (abs s)) k = Some (v, now)"
    by (cases "abs s") (auto simp: spec_put_def spec_trim_def)
  then show ?thesis
    using assms by (simp add: abs_get inv_put abs_put config spec_get_def)
qed

lemma get_after_delete: "inv s \<Longrightarrow> fst (get k now (snd (del k s))) = None"
  by (simp add: abs_get abs_del inv_del spec_get_def spec_delete_def)

lemma get_expired:
  assumes "inv s" "map_of (abs s) k = Some (v, ts)" "lru_expired (timeout s) now ts"
  shows "fst (get k now s) = None \<and> map_of (abs (snd (get k now s))) k = None"
  using assms by (simp add: abs_get spec_get_def)

lemma step_keeps:
  assumes "inv s" "k \<in> fst ` set (abs s)" "op_key x \<noteq> k"
    and "card (insert (op_key x) (ahead k (abs s))) < cap s"
  shows "k \<in> fst ` set (abs (step x s)) \<and> map_of (abs (step x s)) k = map_of (abs s) k \<and>
         ahead k (abs (step x s)) \<subseteq> insert (op_key x) (ahead k (abs s))"
proof (cases x)
  case (OpPut j v now)
  with assms show ?thesis
    using spec_put_keeps [OF inv_ok] by (simp add: abs_put)
next
  case (OpGet j now)
  with assms show ?thesis
    using ahead_delete [of j k "abs s"]
    by (auto simp: abs_get spec_get_def split: option.splits prod.splits)
next
  case (OpDelete j)
  with assms show ?thesis
    using ahead_delete [of j k "abs s"] by (auto simp: abs_del spec_delete_def)
qed

text \<open>
  The working-set guarantee: an entry survives every run of operations on other keys as
  long as the keys used since and before it are fewer than the capacity.
\<close>

lemma run_keeps:
  assumes "inv s" "k \<in> fst ` set (abs s)" "k \<notin> op_key ` set xs"
    and "card (ahead k (abs s) \<union> op_key ` set xs) < cap s"
  shows "map_of (abs (run xs s)) k = map_of (abs s) k \<and> k \<in> fst ` set (abs (run xs s))"
  using assms
proof (induction xs arbitrary: s)
  case (Cons x xs)
  let ?A = "ahead k (abs s)" and ?s = "step x s"
  have fin: "finite (?A \<union> op_key ` set (x # xs))" by (simp add: ahead_def)
  have "card (insert (op_key x) ?A) \<le> card (?A \<union> op_key ` set (x # xs))"
    using fin by (intro card_mono) auto
  then have st: "k \<in> fst ` set (abs ?s)" "map_of (abs ?s) k = map_of (abs s) k"
      "ahead k (abs ?s) \<subseteq> insert (op_key x) ?A"
    using Cons.prems step_keeps [of s k x] by auto
  have "card (ahead k (abs ?s) \<union> op_key ` set xs) \<le> card (?A \<union> op_key ` set (x # xs))"
    using fin st(3) by (intro card_mono) auto
  then have "card (ahead k (abs ?s) \<union> op_key ` set xs) < cap ?s"
    using Cons.prems step_inv [of s x] by simp
  then have "map_of (abs (run xs ?s)) k = map_of (abs ?s) k \<and> k \<in> fst ` set (abs (run xs ?s))"
    using Cons.prems st(1) step_inv [of s x] by (intro Cons.IH) auto
  with st(2) show ?case by simp
qed simp

end

end
