(* ===== verification/Lru_Core.thy ===== *)
theory Lru_Core
  imports Lru_Spec
begin

text \<open>
  The representation the LRU caches of \<open>src/utils/include\<close> share: a map from keys to
  entries and a list of keys in order of use, where each entry holds an iterator to its
  key's node. The invariant says that map and list agree, the abstraction function reads
  the recency list off them, and one lemma per primitive update (unlink an entry, link a
  fresh one, move one to the front, drop the last) carries the proofs of the operations.
\<close>

record 'v lru_entry =
  le_value :: 'v
  le_timestamp :: nat
  le_iterator :: nat

record ('k, 'v) lru_state =
  max_entries :: nat
  timeout_millisec :: nat
  entry_map :: "('k \<times> 'v lru_entry) list"
  lru_list :: "'k std_list"

definition lru_new :: "nat \<Rightarrow> nat \<Rightarrow> ('k, 'v) lru_state" where
  "lru_new max_entries_p timeout_millisec_p =
     \<lparr>max_entries = max_entries_p, timeout_millisec = timeout_millisec_p,
      entry_map = [], lru_list = sl_empty\<rparr>"

definition lru_agree :: "('k \<rightharpoonup> 'v lru_entry) \<Rightarrow> 'k std_list \<Rightarrow> bool" where
  "lru_agree em l \<longleftrightarrow>
     (\<forall>i k. (i, k) \<in> set (sl_nodes l) \<longrightarrow> (\<exists>e. em k = Some e \<and> le_iterator e = i)) \<and>
     (\<forall>k e. em k = Some e \<longrightarrow> (le_iterator e, k) \<in> set (sl_nodes l))"

lemma agreeI:
  assumes "\<And>i k. (i, k) \<in> set (sl_nodes l) \<Longrightarrow> \<exists>e. em k = Some e \<and> le_iterator e = i"
    and "\<And>k e. em k = Some e \<Longrightarrow> (le_iterator e, k) \<in> set (sl_nodes l)"
  shows "lru_agree em l"
  using assms by (auto simp: lru_agree_def)

lemma agree_node:
  assumes "lru_agree em l" "(i, k) \<in> set (sl_nodes l)"
  obtains e where "em k = Some e" "le_iterator e = i"
  using assms by (auto simp: lru_agree_def)

lemma agree_entry: "lru_agree em l \<Longrightarrow> em k = Some e \<Longrightarrow> (le_iterator e, k) \<in> set (sl_nodes l)"
  by (simp add: lru_agree_def)

definition lru_rep :: "('k, 'v) lru_state \<Rightarrow> bool" where
  "lru_rep c \<longleftrightarrow> sl_wf (lru_list c) \<and> distinct (map fst (entry_map c)) \<and>
     lru_agree (map_of (entry_map c)) (lru_list c)"

definition lru_inv :: "('k, 'v) lru_state \<Rightarrow> bool" where
  "lru_inv c \<longleftrightarrow> lru_rep c \<and> (0 < max_entries c \<longrightarrow> sl_size (lru_list c) \<le> max_entries c)"

definition node_entry :: "('k \<rightharpoonup> 'v lru_entry) \<Rightarrow> nat \<times> 'k \<Rightarrow> 'k \<times> 'v \<times> nat" where
  "node_entry em n =
     (snd n, le_value (the (em (snd n))), le_timestamp (the (em (snd n))))"

definition lru_abs :: "('k, 'v) lru_state \<Rightarrow> ('k, 'v) lru_model" where
  "lru_abs c = map (node_entry (map_of (entry_map c))) (sl_nodes (lru_list c))"

section \<open>Reading the abstraction\<close>

lemma lru_new_inv [simp]: "lru_inv (lru_new m t)"
  by (simp add: lru_inv_def lru_rep_def lru_new_def lru_agree_def sl_size_def)

lemma lru_new_config [simp]: "max_entries (lru_new m t) = m" "timeout_millisec (lru_new m t) = t"
  by (simp_all add: lru_new_def)

lemma lru_abs_new [simp]: "lru_abs (lru_new m t) = []"
  by (simp add: lru_abs_def lru_new_def)

lemma length_lru_abs [simp]: "length (lru_abs c) = sl_size (lru_list c)"
  by (simp add: lru_abs_def sl_size_def)

lemma keys_lru_abs: "map fst (lru_abs c) = sl_items (lru_list c)"
  by (simp add: lru_abs_def sl_items_def node_entry_def)

lemma agree_distinct:
  assumes "sl_wf l" "lru_agree em l"
  shows "distinct (sl_items l)"
proof -
  have "inj_on snd (set (sl_nodes l))"
  proof (rule inj_onI)
    fix x y
    assume "x \<in> set (sl_nodes l)" "y \<in> set (sl_nodes l)" "snd x = snd y"
    with assms(2) have "fst x = fst y"
      unfolding lru_agree_def by (metis option.inject prod.collapse)
    with \<open>snd x = snd y\<close> show "x = y" by (simp add: prod_eq_iff)
  qed
  moreover have "distinct (sl_nodes l)"
    using assms(1) by (simp add: sl_wf_def sl_ids_def distinct_map)
  ultimately show ?thesis by (simp add: sl_items_def distinct_map)
qed

lemma lru_rep_distinct: "lru_rep c \<Longrightarrow> distinct (map fst (lru_abs c))"
  by (auto simp: keys_lru_abs lru_rep_def intro: agree_distinct)

lemma lru_inv_ok: "lru_inv c \<Longrightarrow> lru_ok (max_entries c) (lru_abs c)"
  by (auto simp: lru_inv_def lru_ok_def lru_rep_distinct)

lemma keys_entry_map:
  assumes "lru_rep c"
  shows "fst ` set (lru_abs c) = fst ` set (entry_map c)"
proof -
  have ag: "lru_agree (map_of (entry_map c)) (lru_list c)"
    using assms by (simp add: lru_rep_def)
  have "k \<in> snd ` set (sl_nodes (lru_list c)) \<longleftrightarrow> k \<in> dom (map_of (entry_map c))" for k
    using agree_entry [OF ag, of k] by (auto elim!: agree_node [OF ag] intro: rev_image_eqI)
  then have "snd ` set (sl_nodes (lru_list c)) = dom (map_of (entry_map c))" by blast
  then show ?thesis
    by (simp add: lru_abs_def node_entry_def image_image keys_map_of)
qed

lemma map_of_lru_abs:
  assumes "lru_rep c"
  shows "map_of (lru_abs c) k =
    map_option (\<lambda>e. (le_value e, le_timestamp e)) (map_of (entry_map c) k)"
proof (cases "map_of (entry_map c) k")
  case None
  then have "k \<notin> fst ` set (lru_abs c)"
    using keys_entry_map [OF assms] by (simp add: map_of_eq_None_iff)
  then have "map_of (lru_abs c) k = None" by (simp add: map_of_eq_None_iff)
  then show ?thesis using None by simp
next
  case (Some e)
  then have "(le_iterator e, k) \<in> set (sl_nodes (lru_list c))"
    using assms by (simp add: lru_rep_def lru_agree_def)
  then have "node_entry (map_of (entry_map c)) (le_iterator e, k) \<in> set (lru_abs c)"
    by (simp add: lru_abs_def)
  with Some have "(k, le_value e, le_timestamp e) \<in> set (lru_abs c)"
    by (simp add: node_entry_def)
  with Some lru_rep_distinct [OF assms] show ?thesis by simp
qed

lemma delete_absent:
  "lru_rep c \<Longrightarrow> map_of (entry_map c) k = None \<Longrightarrow> AList.delete k (lru_abs c) = lru_abs c"
  by (simp add: map_of_eq_None_iff keys_entry_map)

section \<open>Primitive updates\<close>

text \<open>\<open>lru_list.erase(e.lru_iterator); entry_map.erase(k)\<close>\<close>

definition lru_unlink :: "'k \<Rightarrow> 'v lru_entry \<Rightarrow> ('k, 'v) lru_state \<Rightarrow> ('k, 'v) lru_state" where
  "lru_unlink k e c =
     c\<lparr>lru_list := sl_erase (le_iterator e) (lru_list c),
       entry_map := AList.delete k (entry_map c)\<rparr>"

lemma unlink_rep:
  assumes "lru_rep c" "map_of (entry_map c) k = Some e"
  shows "lru_rep (lru_unlink k e c)" "lru_abs (lru_unlink k e c) = AList.delete k (lru_abs c)"
proof -
  let ?l = "lru_list c" and ?em = "map_of (entry_map c)"
  have wf: "sl_wf ?l" and ag: "lru_agree ?em ?l"
    using assms(1) by (auto simp: lru_rep_def)
  have same: "fst n = le_iterator e \<longleftrightarrow> snd n = k" if n: "n \<in> set (sl_nodes ?l)" for n
  proof
    assume "fst n = le_iterator e"
    with n have "(le_iterator e, snd n) \<in> set (sl_nodes ?l)" by (metis prod.collapse)
    then show "snd n = k" using agree_entry [OF ag assms(2)] sl_wf_unique [OF wf] by blast
  next
    assume "snd n = k"
    with n have "(fst n, k) \<in> set (sl_nodes ?l)" by (metis prod.collapse)
    with ag obtain e' where "?em k = Some e'" "le_iterator e' = fst n" by (rule agree_node)
    with assms(2) show "fst n = le_iterator e" by simp
  qed
  have "lru_agree (?em(k := None)) (sl_erase (le_iterator e) ?l)"
  proof (rule agreeI)
    fix i k'
    assume "(i, k') \<in> set (sl_nodes (sl_erase (le_iterator e) ?l))"
    then have n: "(i, k') \<in> set (sl_nodes ?l)" "k' \<noteq> k" using same [of "(i, k')"] by auto
    with ag show "\<exists>e'. (?em(k := None)) k' = Some e' \<and> le_iterator e' = i"
      by (auto elim: agree_node)
  next
    fix k' e'
    assume "(?em(k := None)) k' = Some e'"
    then have n: "?em k' = Some e'" "k' \<noteq> k" by (auto split: if_splits)
    with ag have "(le_iterator e', k') \<in> set (sl_nodes ?l)" by (blast intro: agree_entry)
    with n same [of "(le_iterator e', k')"]
    show "(le_iterator e', k') \<in> set (sl_nodes (sl_erase (le_iterator e) ?l))" by auto
  qed
  then show "lru_rep (lru_unlink k e c)"
    using assms(1) by (auto simp: lru_rep_def lru_unlink_def intro: distinct_delete)
  have "filter (\<lambda>n. fst n \<noteq> le_iterator e) (sl_nodes ?l) = filter (\<lambda>n. snd n \<noteq> k) (sl_nodes ?l)"
    using same by (auto intro: filter_cong)
  moreover have "map (node_entry (?em(k := None))) (filter (\<lambda>n. snd n \<noteq> k) ns) =
      AList.delete k (map (node_entry ?em) ns)" for ns
    by (induction ns) (auto simp: node_entry_def)
  ultimately show "lru_abs (lru_unlink k e c) = AList.delete k (lru_abs c)"
    by (simp add: lru_abs_def lru_unlink_def)
qed

text \<open>
  \<open>lru_list.emplace_front(k)\<close> and the entry for it stored in the map, in whatever order
  the map keeps.
\<close>

lemma link_rep:
  assumes "lru_rep c" "map_of (entry_map c) k = None"
    and em: "map_of em' = (map_of (entry_map c))
      (k \<mapsto> \<lparr>le_value = v, le_timestamp = now, le_iterator = sl_fresh (lru_list c)\<rparr>)"
    and "distinct (map fst em')"
  shows "lru_rep (c\<lparr>lru_list := sl_push_front k (lru_list c), entry_map := em'\<rparr>)"
    and "lru_abs (c\<lparr>lru_list := sl_push_front k (lru_list c), entry_map := em'\<rparr>) =
      (k, v, now) # lru_abs c"
proof -
  let ?l = "lru_list c"
  have wf: "sl_wf ?l" and ag: "lru_agree (map_of (entry_map c)) ?l"
    using assms(1) by (auto simp: lru_rep_def)
  have new: "(i, k) \<notin> set (sl_nodes ?l)" for i
    using ag assms(2) unfolding lru_agree_def by fastforce
  have "lru_agree (map_of em') (sl_push_front k ?l)"
    using ag new unfolding lru_agree_def em by auto
  with assms wf show "lru_rep (c\<lparr>lru_list := sl_push_front k ?l, entry_map := em'\<rparr>)"
    by (auto simp: lru_rep_def)
  have "map (node_entry (map_of em')) (sl_nodes ?l) =
      map (node_entry (map_of (entry_map c))) (sl_nodes ?l)"
    using new by (auto simp: node_entry_def em)
  then show "lru_abs (c\<lparr>lru_list := sl_push_front k ?l, entry_map := em'\<rparr>) =
      (k, v, now) # lru_abs c"
    by (simp add: lru_abs_def node_entry_def em)
qed

text \<open>\<open>lru_list.splice(begin, lru_list, e.lru_iterator)\<close>\<close>

lemma splice_rep:
  assumes "lru_rep c" "map_of (entry_map c) k = Some e"
  shows "lru_rep (c\<lparr>lru_list := sl_splice_front (le_iterator e) (lru_list c)\<rparr>)"
    and "lru_abs (c\<lparr>lru_list := sl_splice_front (le_iterator e) (lru_list c)\<rparr>) =
      (k, le_value e, le_timestamp e) # AList.delete k (lru_abs c)"
proof -
  let ?l = "lru_list c" and ?em = "map_of (entry_map c)"
  have wf: "sl_wf ?l" and ag: "lru_agree ?em ?l"
    using assms(1) by (auto simp: lru_rep_def)
  have nd: "(le_iterator e, k) \<in> set (sl_nodes ?l)"
    using ag assms(2) by (simp add: lru_agree_def)
  have "set (sl_nodes (sl_splice_front (le_iterator e) ?l)) = set (sl_nodes ?l)" by auto
  with ag have "lru_agree ?em (sl_splice_front (le_iterator e) ?l)"
    unfolding lru_agree_def by simp
  with assms(1) show "lru_rep (c\<lparr>lru_list := sl_splice_front (le_iterator e) ?l\<rparr>)"
    by (auto simp: lru_rep_def)
  obtain xs ys where split: "sl_nodes ?l = xs @ (le_iterator e, k) # ys"
      "sl_nodes (sl_splice_front (le_iterator e) ?l) = (le_iterator e, k) # xs @ ys"
    using sl_split_node [OF wf nd] by metis
  have "k \<notin> set (map snd (xs @ ys))"
    using agree_distinct [OF wf ag] split(1) by (auto simp: sl_items_def)
  then have "AList.delete k (map (node_entry ?em) xs) = map (node_entry ?em) xs"
      "AList.delete k (map (node_entry ?em) ys) = map (node_entry ?em) ys"
    by (auto simp: node_entry_def image_image image_iff intro!: delete_id)
  then have "AList.delete k (lru_abs c) = map (node_entry ?em) (xs @ ys)"
    using split(1) by (simp add: lru_abs_def AList.delete_eq node_entry_def)
  with split(2) assms(2) show "lru_abs (c\<lparr>lru_list := sl_splice_front (le_iterator e) ?l\<rparr>) =
      (k, le_value e, le_timestamp e) # AList.delete k (lru_abs c)"
    by (simp add: lru_abs_def node_entry_def)
qed

text \<open>\<open>entry_map.erase(lru_list.back()); lru_list.pop_back()\<close>\<close>

definition lru_drop_back :: "('k, 'v) lru_state \<Rightarrow> ('k, 'v) lru_state" where
  "lru_drop_back c =
     (case sl_back (lru_list c) of
        None \<Rightarrow> c
      | Some stale_key \<Rightarrow>
          c\<lparr>entry_map := AList.delete stale_key (entry_map c),
            lru_list := sl_pop_back (lru_list c)\<rparr>)"

lemma drop_back_rep:
  assumes "lru_rep c"
  shows "lru_rep (lru_drop_back c)" "lru_abs (lru_drop_back c) = butlast (lru_abs c)"
proof -
  let ?l = "lru_list c" and ?em = "map_of (entry_map c)"
  have wf: "sl_wf ?l" and ag: "lru_agree ?em ?l"
    using assms by (auto simp: lru_rep_def)
  have "lru_rep (lru_drop_back c) \<and> lru_abs (lru_drop_back c) = butlast (lru_abs c)"
  proof (cases "sl_nodes ?l" rule: rev_cases)
    case Nil
    with assms show ?thesis by (simp add: lru_drop_back_def sl_back_def lru_abs_def)
  next
    case (snoc ns n)
    have notin: "snd n \<notin> set (map snd ns)"
      using agree_distinct [OF wf ag] snoc by (simp add: sl_items_def)
    have "lru_agree (?em(snd n := None)) (sl_pop_back ?l)"
    proof (rule agreeI)
      fix i k
      assume "(i, k) \<in> set (sl_nodes (sl_pop_back ?l))"
      then have "(i, k) \<in> set ns" using snoc by simp
      then have n: "(i, k) \<in> set (sl_nodes ?l)" and "k \<in> set (map snd ns)"
        using snoc by force+
      then have "k \<noteq> snd n" using notin by blast
      with ag n show "\<exists>e. (?em(snd n := None)) k = Some e \<and> le_iterator e = i"
        by (auto elim: agree_node)
    next
      fix k e
      assume "(?em(snd n := None)) k = Some e"
      then have "?em k = Some e" "k \<noteq> snd n" by (auto split: if_splits)
      with agree_entry [OF ag, of k e] snoc
      show "(le_iterator e, k) \<in> set (sl_nodes (sl_pop_back ?l))" by auto
    qed
    then have "lru_rep (lru_drop_back c)"
      using assms snoc
      by (auto simp: lru_drop_back_def sl_back_def lru_rep_def intro: distinct_delete)
    moreover have "map (node_entry (?em(snd n := None))) ns = map (node_entry ?em) ns"
    proof (rule map_cong [OF refl])
      fix m
      assume "m \<in> set ns"
      then have "snd m \<in> set (map snd ns)" by simp
      with notin have "snd m \<noteq> snd n" by metis
      then show "node_entry (?em(snd n := None)) m = node_entry ?em m"
        by (simp add: node_entry_def)
    qed
    ultimately show ?thesis
      using snoc by (simp add: lru_drop_back_def sl_back_def lru_abs_def)
  qed
  then show "lru_rep (lru_drop_back c)" "lru_abs (lru_drop_back c) = butlast (lru_abs c)"
    by auto
qed

lemma lru_config [simp]:
  "max_entries (lru_unlink k e c) = max_entries c"
  "timeout_millisec (lru_unlink k e c) = timeout_millisec c"
  "max_entries (lru_drop_back c) = max_entries c"
  "timeout_millisec (lru_drop_back c) = timeout_millisec c"
  by (simp_all add: lru_unlink_def lru_drop_back_def split: option.splits)

section \<open>Inserting and trimming\<close>

text \<open>
  The first half of every \<open>Put\<close>: erase an existing entry of the key, put the key at the
  front of the list and its new entry into the map. \<open>ins\<close> is the map's own insertion,
  which is all the caches differ in here.
\<close>

definition lru_insert_with ::
  "('k \<Rightarrow> 'v lru_entry \<Rightarrow> ('k \<times> 'v lru_entry) list \<Rightarrow> ('k \<times> 'v lru_entry) list) \<Rightarrow>
   'k \<Rightarrow> 'v \<Rightarrow> nat \<Rightarrow> ('k, 'v) lru_state \<Rightarrow> ('k, 'v) lru_state" where
  "lru_insert_with ins key value now c =
     (let c1 = (case map_of (entry_map c) key of
                  None \<Rightarrow> c
                | Some existing \<Rightarrow> lru_unlink key existing c);
          new_entry = \<lparr>le_value = value, le_timestamp = now, le_iterator = sl_fresh (lru_list c1)\<rparr>
      in c1\<lparr>lru_list := sl_push_front key (lru_list c1),
            entry_map := ins key new_entry (entry_map c1)\<rparr>)"

text \<open>The second half: over capacity, drop the least recently used entry.\<close>

definition lru_over_capacity :: "('k, 'v) lru_state \<Rightarrow> bool" where
  "lru_over_capacity c \<longleftrightarrow> 0 < max_entries c \<and> max_entries c < sl_size (lru_list c)"

definition map_insertion ::
  "('k \<Rightarrow> 'v \<Rightarrow> ('k \<times> 'v) list \<Rightarrow> ('k \<times> 'v) list) \<Rightarrow> (('k \<times> 'v) list \<Rightarrow> bool) \<Rightarrow> bool" where
  "map_insertion ins P \<longleftrightarrow> (\<forall>k e m. P m \<longrightarrow> distinct (map fst m) \<longrightarrow>
     map_of (ins k e m) = (map_of m)(k \<mapsto> e) \<and> distinct (map fst (ins k e m)))"

lemma map_insertion_update [simp]: "map_insertion AList.update (\<lambda>_. True)"
  by (auto simp: map_insertion_def intro: distinct_update)

lemma map_insertion_om [simp]: "map_insertion om_insert om_sorted"
  by (auto simp: map_insertion_def intro!: om_sorted_distinct)

lemma insert_with_rep:
  assumes rep: "lru_rep c" and ins: "map_insertion ins P" and P: "P (entry_map c)"
    and P_del: "\<And>k m. P m \<Longrightarrow> P (AList.delete k m)"
  shows "lru_rep (lru_insert_with ins k v now c)"
    and "lru_abs (lru_insert_with ins k v now c) = (k, v, now) # AList.delete k (lru_abs c)"
proof -
  define c1 where "c1 = (case map_of (entry_map c) k of
      None \<Rightarrow> c | Some existing \<Rightarrow> lru_unlink k existing c)"
  define e where "e = \<lparr>le_value = v, le_timestamp = now, le_iterator = sl_fresh (lru_list c1)\<rparr>"
  have put: "lru_insert_with ins k v now c =
      c1\<lparr>lru_list := sl_push_front k (lru_list c1), entry_map := ins k e (entry_map c1)\<rparr>"
    by (simp add: lru_insert_with_def c1_def e_def Let_def)
  have rep1: "lru_rep c1" and abs1: "lru_abs c1 = AList.delete k (lru_abs c)"
    and none1: "map_of (entry_map c1) k = None" and P1: "P (entry_map c1)"
    using rep P P_del unlink_rep [OF rep, of k] delete_absent [OF rep, of k]
    by (auto simp: c1_def lru_unlink_def split: option.splits)
  have d1: "distinct (map fst (entry_map c1))" using rep1 by (simp add: lru_rep_def)
  have "map_of (ins k e (entry_map c1)) = (map_of (entry_map c1))(k \<mapsto> e)"
      "distinct (map fst (ins k e (entry_map c1)))"
    using ins P1 d1 unfolding map_insertion_def by blast+
  then show "lru_rep (lru_insert_with ins k v now c)"
    "lru_abs (lru_insert_with ins k v now c) = (k, v, now) # AList.delete k (lru_abs c)"
    using link_rep [OF rep1 none1, of "ins k e (entry_map c1)" v now] abs1
    by (auto simp: put e_def)
qed

lemma insert_with_config [simp]:
  "max_entries (lru_insert_with ins k v now c) = max_entries c"
  "timeout_millisec (lru_insert_with ins k v now c) = timeout_millisec c"
  by (simp_all add: lru_insert_with_def Let_def split: option.splits)

lemma trim_rep:
  assumes "lru_rep c"
  shows "lru_rep (if lru_over_capacity c then lru_drop_back c else c)"
    and "lru_abs (if lru_over_capacity c then lru_drop_back c else c) =
      spec_trim (max_entries c) (lru_abs c)"
  using assms drop_back_rep [OF assms]
  by (simp_all add: lru_over_capacity_def spec_trim_def)

text \<open>
  From the abstraction back to the invariant: a state in representation whose abstract
  list fits the capacity satisfies it.
\<close>

lemma lru_invI: "lru_rep c \<Longrightarrow> lru_ok (max_entries c) (lru_abs c) \<Longrightarrow> lru_inv c"
  by (simp add: lru_inv_def lru_ok_def)

end
