(* ===== verification/Shared_Value_Lru.thy ===== *)
theory Shared_Value_Lru
  imports Lru_Core
begin

text \<open>
  \<open>SharedValueLruCache\<close> (\<open>src/utils/include/shared_value_lru_cache.hpp\<close>): the LRU cache
  behind the metadata cache, the glob cache and the entry-bounded data block cache. Its
  entry map is ordered by key, which range-based \<open>Clear\<close> relies on. A clock reading is
  an argument of the operation that takes it.
\<close>

section \<open>Operations\<close>

definition shared_Put :: "'k::linorder \<Rightarrow> 'v \<Rightarrow> nat \<Rightarrow> ('k, 'v) lru_state \<Rightarrow> ('k, 'v) lru_state" where
  "shared_Put key value now c =
     (let c' = lru_insert_with om_insert key value now c
      in if lru_over_capacity c' then lru_drop_back c' else c')"

definition shared_Delete :: "'k \<Rightarrow> ('k, 'v) lru_state \<Rightarrow> bool \<times> ('k, 'v) lru_state" where
  "shared_Delete key c =
     (case map_of (entry_map c) key of
        None \<Rightarrow> (False, c)
      | Some it \<Rightarrow> (True, lru_unlink key it c))"

definition shared_Get :: "'k \<Rightarrow> nat \<Rightarrow> ('k, 'v) lru_state \<Rightarrow> 'v option \<times> ('k, 'v) lru_state" where
  "shared_Get key now c =
     (case map_of (entry_map c) key of
        None \<Rightarrow> (None, c)
      | Some e \<Rightarrow>
          if 0 < timeout_millisec c \<and> timeout_millisec c < u64_sub now (le_timestamp e)
          then (None, lru_unlink key e c)
          else (Some (le_value e),
                c\<lparr>lru_list := sl_splice_front (le_iterator e) (lru_list c)\<rparr>))"

definition shared_Clear :: "('k, 'v) lru_state \<Rightarrow> ('k, 'v) lru_state" where
  "shared_Clear c = c\<lparr>entry_map := [], lru_list := (lru_list c)\<lparr>sl_nodes := []\<rparr>\<rparr>"

definition shared_keys_to_delete ::
  "'k::linorder \<Rightarrow> ('k \<Rightarrow> bool) \<Rightarrow> ('k, 'v) lru_state \<Rightarrow> 'k list" where
  "shared_keys_to_delete start_key key_filter c =
     takeWhile key_filter (map fst (om_lower_bound start_key (entry_map c)))"

definition shared_Clear_from ::
  "'k::linorder \<Rightarrow> ('k \<Rightarrow> bool) \<Rightarrow> ('k, 'v) lru_state \<Rightarrow> ('k, 'v) lru_state" where
  "shared_Clear_from start_key key_filter c =
     fold (\<lambda>key c. snd (shared_Delete key c)) (shared_keys_to_delete start_key key_filter c) c"

definition shared_Keys :: "('k, 'v) lru_state \<Rightarrow> 'k list" where
  "shared_Keys c = map fst (entry_map c)"

text \<open>
  \<open>Take\<close> drains the map from its beginning; the clock is read once per entry, and the
  reading for the \<open>n\<close>-th entry is \<open>clock n\<close>.
\<close>

function shared_Take_loop ::
  "(nat \<Rightarrow> nat) \<Rightarrow> nat \<Rightarrow> ('k, 'v) lru_state \<Rightarrow> ('k \<times> 'v) list \<times> ('k, 'v) lru_state" where
  "shared_Take_loop clock n c =
     (case entry_map c of
        [] \<Rightarrow> ([], c)
      | (key, e) # rest \<Rightarrow>
          let c' = c\<lparr>lru_list := sl_erase (le_iterator e) (lru_list c), entry_map := rest\<rparr>
          in if 0 < timeout_millisec c \<and> timeout_millisec c < u64_sub (clock n) (le_timestamp e)
             then shared_Take_loop clock (Suc n) c'
             else (let (result, c'') = shared_Take_loop clock (Suc n) c'
                   in ((key, le_value e) # result, c'')))"
  by pat_completeness auto
termination
  by (relation "measure (\<lambda>(clock, n, c). length (entry_map c))") auto

definition shared_Take ::
  "(nat \<Rightarrow> nat) \<Rightarrow> ('k, 'v) lru_state \<Rightarrow> ('k \<times> 'v) list \<times> ('k, 'v) lru_state" where
  "shared_Take clock c = shared_Take_loop clock 0 c"

declare shared_Take_loop.simps [simp del]

section \<open>Refinement of the abstract cache\<close>

definition shared_inv :: "('k::linorder, 'v) lru_state \<Rightarrow> bool" where
  "shared_inv c \<longleftrightarrow> lru_inv c \<and> om_sorted (entry_map c)"

lemma shared_inv_new [simp]: "shared_inv (lru_new m t)"
  by (simp add: shared_inv_def) (simp add: lru_new_def)

lemma shared_inv_rep: "shared_inv c \<Longrightarrow> lru_rep c"
  by (simp add: shared_inv_def lru_inv_def)

lemma shared_sorted_unlink [simp]:
  "om_sorted (entry_map c) \<Longrightarrow> om_sorted (entry_map (lru_unlink k e c))"
  by (simp add: lru_unlink_def om_sorted_delete)

lemma shared_sorted_drop_back [simp]:
  "om_sorted (entry_map c) \<Longrightarrow> om_sorted (entry_map (lru_drop_back c))"
  by (simp add: lru_drop_back_def om_sorted_delete split: option.splits)

lemma shared_Put_correct:
  assumes "shared_inv c"
  shows "lru_rep (shared_Put k v now c)"
    and "lru_abs (shared_Put k v now c) = spec_put (max_entries c) k v now (lru_abs c)"
    and "om_sorted (entry_map (shared_Put k v now c))"
proof -
  let ?c = "lru_insert_with om_insert k v now c"
  have rep: "lru_rep c" and sorted: "om_sorted (entry_map c)"
    using assms by (auto simp: shared_inv_def lru_inv_def)
  have ins: "lru_rep ?c" "lru_abs ?c = (k, v, now) # AList.delete k (lru_abs c)"
    using insert_with_rep [where P = om_sorted, OF rep map_insertion_om sorted om_sorted_delete] by auto
  have "om_sorted (entry_map ?c)"
    using sorted by (auto simp: lru_insert_with_def Let_def split: option.splits)
  then show "om_sorted (entry_map (shared_Put k v now c))"
    by (simp add: shared_Put_def Let_def)
  show "lru_rep (shared_Put k v now c)"
    "lru_abs (shared_Put k v now c) = spec_put (max_entries c) k v now (lru_abs c)"
    using trim_rep [OF ins(1)] ins(2) by (simp_all add: shared_Put_def spec_put_def Let_def)
qed

lemma shared_Get_correct:
  assumes "shared_inv c"
  shows "lru_rep (snd (shared_Get k now c))"
    and "fst (shared_Get k now c) = fst (spec_get (timeout_millisec c) k now (lru_abs c))"
    and "lru_abs (snd (shared_Get k now c)) = snd (spec_get (timeout_millisec c) k now (lru_abs c))"
    and "om_sorted (entry_map (snd (shared_Get k now c)))"
proof -
  have rep: "lru_rep c" and sorted: "om_sorted (entry_map c)"
    using assms by (auto simp: shared_inv_def lru_inv_def)
  show "lru_rep (snd (shared_Get k now c))"
    "fst (shared_Get k now c) = fst (spec_get (timeout_millisec c) k now (lru_abs c))"
    "lru_abs (snd (shared_Get k now c)) = snd (spec_get (timeout_millisec c) k now (lru_abs c))"
    "om_sorted (entry_map (snd (shared_Get k now c)))"
    using rep sorted unlink_rep [OF rep, of k] splice_rep [OF rep, of k] map_of_lru_abs [OF rep, of k]
    by (auto simp: shared_Get_def spec_get_def lru_expired_def split: option.splits)
qed

lemma shared_Delete_correct:
  assumes "shared_inv c"
  shows "lru_rep (snd (shared_Delete k c))"
    and "fst (shared_Delete k c) = fst (spec_delete k (lru_abs c))"
    and "lru_abs (snd (shared_Delete k c)) = snd (spec_delete k (lru_abs c))"
    and "om_sorted (entry_map (snd (shared_Delete k c)))"
proof -
  have rep: "lru_rep c" and sorted: "om_sorted (entry_map c)"
    using assms by (auto simp: shared_inv_def lru_inv_def)
  show "lru_rep (snd (shared_Delete k c))"
    "fst (shared_Delete k c) = fst (spec_delete k (lru_abs c))"
    "lru_abs (snd (shared_Delete k c)) = snd (spec_delete k (lru_abs c))"
    "om_sorted (entry_map (snd (shared_Delete k c)))"
    using rep sorted unlink_rep [OF rep, of k] map_of_lru_abs [OF rep, of k]
    by (auto simp: shared_Delete_def spec_delete_def delete_absent split: option.splits)
qed

lemma shared_config [simp]:
  "max_entries (shared_Put k v now c) = max_entries c"
  "timeout_millisec (shared_Put k v now c) = timeout_millisec c"
  "max_entries (snd (shared_Get k now c)) = max_entries c"
  "timeout_millisec (snd (shared_Get k now c)) = timeout_millisec c"
  "max_entries (snd (shared_Delete k c)) = max_entries c"
  "timeout_millisec (snd (shared_Delete k c)) = timeout_millisec c"
  by (simp_all add: shared_Put_def shared_Get_def shared_Delete_def Let_def split: option.splits)

lemma shared_invI:
  "lru_rep c \<Longrightarrow> lru_ok (max_entries c) (lru_abs c) \<Longrightarrow> om_sorted (entry_map c) \<Longrightarrow> shared_inv c"
  by (simp add: shared_inv_def lru_invI)

interpretation shared: lru_cache shared_Put shared_Get shared_Delete lru_abs shared_inv
  max_entries timeout_millisec
proof (unfold_locales, goal_cases)
  case (1 s) then show ?case by (simp add: shared_inv_def lru_inv_ok)
next
  case (2 s k v now) then show ?case
    by (intro shared_invI)
      (simp_all add: shared_Put_correct lru_ok_put lru_inv_ok shared_inv_def [of s])
next
  case (3 s k now) then show ?case
    by (intro shared_invI)
      (simp_all add: shared_Get_correct lru_ok_get lru_inv_ok shared_inv_def [of s])
next
  case (4 s k) then show ?case
    by (intro shared_invI)
      (simp_all add: shared_Delete_correct spec_delete_def lru_ok_delete lru_inv_ok shared_inv_def [of s])
qed (simp_all add: shared_Put_correct shared_Get_correct shared_Delete_correct)

section \<open>Range deletion and draining\<close>

lemma shared_delete_keys:
  assumes "shared_inv c"
  shows "shared_inv (fold (\<lambda>key c. snd (shared_Delete key c)) ks c)"
    and "lru_abs (fold (\<lambda>key c. snd (shared_Delete key c)) ks c) =
      filter (\<lambda>e. fst e \<notin> set ks) (lru_abs c)"
proof -
  have "shared_inv (fold (\<lambda>key c. snd (shared_Delete key c)) ks c) \<and>
    lru_abs (fold (\<lambda>key c. snd (shared_Delete key c)) ks c) =
      filter (\<lambda>e. fst e \<notin> set ks) (lru_abs c)"
    using assms
  proof (induction ks arbitrary: c)
    case (Cons k ks)
    let ?c = "snd (shared_Delete k c)"
    have "shared_inv ?c" "lru_abs ?c = AList.delete k (lru_abs c)"
      using Cons.prems by (simp_all add: shared.inv_del shared.abs_del spec_delete_def)
    with Cons.IH [of ?c] show ?case
      by (auto simp: AList.delete_eq split_def intro!: filter_cong)
  qed simp
  then show "shared_inv (fold (\<lambda>key c. snd (shared_Delete key c)) ks c)"
    "lru_abs (fold (\<lambda>key c. snd (shared_Delete key c)) ks c) =
      filter (\<lambda>e. fst e \<notin> set ks) (lru_abs c)"
    by auto
qed

text \<open>
  The scan of \<open>Clear(start_key, key_filter)\<close> stops at the first key the filter rejects.
  It deletes every matching key at or after the start key when no matching key follows a
  rejected one, which is so for the keys of one file.
\<close>

lemma shared_keys_to_delete_set:
  assumes "shared_inv c"
    and block: "\<And>x y. start \<le> x \<Longrightarrow> \<not> f x \<Longrightarrow> x < y \<Longrightarrow> \<not> f y"
  shows "set (shared_keys_to_delete start f c) =
    {k \<in> fst ` set (lru_abs c). start \<le> k \<and> f k}"
proof -
  have sorted: "om_sorted (entry_map c)" using assms(1) by (simp add: shared_inv_def)
  have lb: "set (map fst (om_lower_bound start (entry_map c))) =
      {k \<in> fst ` set (entry_map c). start \<le> k}"
    using om_lower_bound_set [OF sorted, of start] by auto
  have "set (takeWhile f (map fst (om_lower_bound start (entry_map c)))) =
      {k \<in> set (map fst (om_lower_bound start (entry_map c))). f k}"
  proof (rule takeWhile_sorted_block)
    show "sorted_wrt (<) (map fst (om_lower_bound start (entry_map c)))"
      using sorted by (rule om_sorted_lower_bound)
    show "\<not> f y" if "x \<in> set (map fst (om_lower_bound start (entry_map c)))"
      "y \<in> set (map fst (om_lower_bound start (entry_map c)))" "\<not> f x" "x < y" for x y
      using that block lb by blast
  qed
  then show ?thesis
    using lb keys_entry_map [OF shared_inv_rep [OF assms(1)]]
    by (auto simp: shared_keys_to_delete_def)
qed

lemma shared_Clear_inv [simp]: "shared_inv c \<Longrightarrow> shared_inv (shared_Clear c)"
  by (simp add: shared_inv_def lru_inv_def lru_rep_def shared_Clear_def lru_agree_def
      sl_wf_def sl_ids_def sl_size_def)

lemma shared_Clear_abs [simp]: "lru_abs (shared_Clear c) = []"
  by (simp add: lru_abs_def shared_Clear_def)

lemma shared_Keys_set: "shared_inv c \<Longrightarrow> set (shared_Keys c) = fst ` set (lru_abs c)"
  by (simp add: shared_Keys_def keys_entry_map shared_inv_rep)

text \<open>
  What \<open>Take\<close> hands out: the values of the entries that are fresh when their turn comes,
  in key order; afterwards map and list are both empty, as the two assertions at the end
  of the loop demand.
\<close>

definition fresh_values ::
  "nat \<Rightarrow> (nat \<Rightarrow> nat) \<Rightarrow> nat \<Rightarrow> ('k \<times> 'v lru_entry) list \<Rightarrow> ('k \<times> 'v) list" where
  "fresh_values timeout clock n em =
     map (\<lambda>(i, k, e). (k, le_value e))
       (filter (\<lambda>(i, k, e). \<not> lru_expired timeout (clock i) (le_timestamp e)) (enumerate n em))"

lemma shared_Take_loop_correct:
  assumes "lru_rep c"
  shows "fst (shared_Take_loop clock n c) = fresh_values (timeout_millisec c) clock n (entry_map c)"
    and "entry_map (snd (shared_Take_loop clock n c)) = []"
    and "sl_nodes (lru_list (snd (shared_Take_loop clock n c))) = []"
    and "lru_rep (snd (shared_Take_loop clock n c))"
proof -
  have "fst (shared_Take_loop clock n c) = fresh_values (timeout_millisec c) clock n (entry_map c) \<and>
    entry_map (snd (shared_Take_loop clock n c)) = [] \<and>
    sl_nodes (lru_list (snd (shared_Take_loop clock n c))) = [] \<and>
    lru_rep (snd (shared_Take_loop clock n c))"
    using assms
  proof (induction clock n c rule: shared_Take_loop.induct)
    case (1 clock n c)
    show ?case
    proof (cases "entry_map c")
      case Nil
      then have "sl_nodes (lru_list c) = []"
        using "1.prems" by (cases "sl_nodes (lru_list c)") (auto simp: lru_rep_def lru_agree_def)
      with Nil "1.prems" show ?thesis
        by (simp add: shared_Take_loop.simps [of clock n c] fresh_values_def)
    next
      case (Cons ke rest)
      obtain k e where ke: "ke = (k, e)" by (cases ke)
      let ?c = "c\<lparr>lru_list := sl_erase (le_iterator e) (lru_list c), entry_map := rest\<rparr>"
      have "AList.delete k (entry_map c) = rest"
        using "1.prems" Cons ke by (auto simp: lru_rep_def intro: delete_id)
      then have "?c = lru_unlink k e c" by (simp add: lru_unlink_def)
      then have rep: "lru_rep ?c" using unlink_rep(1) [OF "1.prems", of k e] Cons ke by simp
      show ?thesis
        using "1.IH" [OF Cons ke [symmetric] refl] rep Cons ke
        by (auto simp: shared_Take_loop.simps [of clock n c] fresh_values_def lru_expired_def
            Let_def split: prod.splits)
    qed
  qed
  then show "fst (shared_Take_loop clock n c) = fresh_values (timeout_millisec c) clock n (entry_map c)"
    "entry_map (snd (shared_Take_loop clock n c)) = []"
    "sl_nodes (lru_list (snd (shared_Take_loop clock n c))) = []"
    "lru_rep (snd (shared_Take_loop clock n c))"
    by auto
qed

section \<open>Properties\<close>

fun shared_step :: "('k::linorder, 'v) lru_op \<Rightarrow> ('k, 'v) lru_state \<Rightarrow> ('k, 'v) lru_state" where
  "shared_step (OpPut k v now) c = shared_Put k v now c"
| "shared_step (OpGet k now) c = snd (shared_Get k now c)"
| "shared_step (OpDelete k) c = snd (shared_Delete k c)"

lemma shared_run_fold: "shared.run ops c = fold shared_step ops c"
proof (induction ops arbitrary: c)
  case (Cons x ops)
  then show ?case by (cases x) simp_all
qed simp

text \<open>
  Property C9. Refinement: the map with its linked list and iterators behaves as the plain
  recency list. From an empty cache any sequence of insertions, look-ups and deletions keeps
  map and list in agreement and the number of entries within the bound, and in every state
  reached that way an insertion, a look-up and a deletion do to the recency list what their
  one-line specifications say.
\<close>

theorem shared_refines_lru:
  assumes "c = fold shared_step ops (lru_new m t)"
  shows "lru_rep c \<and> (0 < m \<longrightarrow> length (lru_abs c) \<le> m) \<and>
    lru_abs (shared_Put k v now c) = spec_put m k v now (lru_abs c) \<and>
    fst (shared_Get k now c) = fst (spec_get (timeout_millisec c) k now (lru_abs c)) \<and>
    lru_abs (snd (shared_Get k now c)) = snd (spec_get (timeout_millisec c) k now (lru_abs c)) \<and>
    fst (shared_Delete k c) = (map_of (lru_abs c) k \<noteq> None) \<and>
    lru_abs (snd (shared_Delete k c)) = AList.delete k (lru_abs c)"
proof -
  have "shared_inv c \<and> max_entries c = m"
    using shared.run_inv [of "lru_new m t" ops] by (simp add: assms shared_run_fold)
  then have inv: "shared_inv c" and m: "max_entries c = m" by blast+
  have "0 < m \<longrightarrow> length (lru_abs c) \<le> m" using inv m by (simp add: shared_inv_def lru_inv_def)
  with inv m show ?thesis
    by (simp add: shared_inv_rep shared.abs_put shared.abs_get shared.abs_del spec_delete_def)
qed

lemma shared_refines_lru_witness:
  "lru_abs (shared_Put 2 ''b'' 5 (fold shared_step [OpPut (1::nat) ''a'' 4] (lru_new 1 0))) = [(2, ''b'', 5)]"
  using shared_refines_lru [OF refl, where ops = "[OpPut (1::nat) ''a'' 4]" and m = 1 and t = 0
      and k = 2 and v = "''b''" and now = 5] shared_refines_lru [OF refl, where ops = "[]" and m = 1
      and t = 0 and k = "1::nat" and v = "''a''" and now = 4]
  by (simp add: spec_put_def spec_trim_def)

text \<open>
  Working set: an entry survives any run of operations on other keys, with its
  value, as long as the keys used since its own last use are fewer than the capacity.
\<close>

theorem shared_working_set:
  assumes "shared_inv c" "k \<in> fst ` set (lru_abs c)" "k \<notin> op_key ` set ops"
    and "card (ahead k (lru_abs c) \<union> op_key ` set ops) < max_entries c"
  shows "map_of (lru_abs (fold shared_step ops c)) k = map_of (lru_abs c) k"
  using shared.run_keeps [OF assms] by (simp add: shared_run_fold)

lemma shared_working_set_witness:
  "map_of (lru_abs (fold shared_step [OpPut (2::nat) ''b'' 5] (shared_Put 1 ''a'' 4 (lru_new 2 0)))) 1 =
     Some (''a'', 4)"
proof -
  let ?c = "shared_Put (1::nat) ''a'' 4 (lru_new 2 0)"
  have "shared_inv ?c" by (simp add: shared.inv_put)
  moreover have "lru_abs ?c = [(1, ''a'', 4)]" by (simp add: shared.abs_put spec_put_def spec_trim_def)
  moreover have "max_entries ?c = 2" by (simp add: shared.config)
  ultimately show ?thesis using shared_working_set [of ?c 1 "[OpPut 2 ''b'' 5]"] by simp
qed

text \<open>
  \<open>Take\<close> hands out every entry that has not timed out when its turn comes, in key
  order and with its value, and leaves both the map and the list empty.
\<close>

theorem shared_take_drains:
  assumes "shared_inv c"
  shows "fst (shared_Take clock c) = fresh_values (timeout_millisec c) clock 0 (entry_map c) \<and>
    entry_map (snd (shared_Take clock c)) = [] \<and> sl_nodes (lru_list (snd (shared_Take clock c))) = []"
  using shared_Take_loop_correct [OF shared_inv_rep [OF assms]] by (simp add: shared_Take_def)

lemma shared_take_drains_witness:
  "entry_map (snd (shared_Take (\<lambda>_. 9) (shared_Put (1::nat) ''a'' 4 (lru_new 2 0)))) = []"
  using shared_take_drains [of "shared_Put (1::nat) ''a'' 4 (lru_new 2 0)"] by (simp add: shared.inv_put)

end
