(* ===== verification/Copiable_Value_Lru.thy ===== *)
theory Copiable_Value_Lru
  imports Lru_Core
begin

text \<open>
  \<open>CopiableValueLruCache\<close> (\<open>src/utils/include/copiable_value_lru_cache.hpp\<close>): the LRU
  cache for values that are cheap to copy. Its entry map is hashed, so keys come in no
  particular order, and filtered deletion walks the recency list instead of a key range.
\<close>

section \<open>Operations\<close>

definition copiable_Put :: "'k \<Rightarrow> 'v \<Rightarrow> nat \<Rightarrow> ('k, 'v) lru_state \<Rightarrow> ('k, 'v) lru_state" where
  "copiable_Put key value now c =
     (let c' = lru_insert_with AList.update key value now c
      in if lru_over_capacity c' then lru_drop_back c' else c')"

definition copiable_Delete :: "'k \<Rightarrow> ('k, 'v) lru_state \<Rightarrow> bool \<times> ('k, 'v) lru_state" where
  "copiable_Delete key c =
     (case map_of (entry_map c) key of
        None \<Rightarrow> (False, c)
      | Some it \<Rightarrow> (True, lru_unlink key it c))"

definition copiable_Get :: "'k \<Rightarrow> nat \<Rightarrow> ('k, 'v) lru_state \<Rightarrow> 'v option \<times> ('k, 'v) lru_state" where
  "copiable_Get key now c =
     (case map_of (entry_map c) key of
        None \<Rightarrow> (None, c)
      | Some e \<Rightarrow>
          if 0 < timeout_millisec c \<and> timeout_millisec c < u64_sub now (le_timestamp e)
          then (None, lru_unlink key e c)
          else (Some (le_value e),
                c\<lparr>lru_list := sl_splice_front (le_iterator e) (lru_list c)\<rparr>))"

definition copiable_Clear :: "('k, 'v) lru_state \<Rightarrow> ('k, 'v) lru_state" where
  "copiable_Clear c = c\<lparr>entry_map := [], lru_list := (lru_list c)\<lparr>sl_nodes := []\<rparr>\<rparr>"

definition copiable_Clear_filter :: "('k \<Rightarrow> bool) \<Rightarrow> ('k, 'v) lru_state \<Rightarrow> ('k, 'v) lru_state" where
  "copiable_Clear_filter key_filter c =
     fold (\<lambda>key c. snd (copiable_Delete key c)) (filter key_filter (sl_items (lru_list c))) c"

definition copiable_Keys :: "('k, 'v) lru_state \<Rightarrow> 'k list" where
  "copiable_Keys c = map fst (entry_map c)"

section \<open>Refinement of the abstract cache\<close>

lemma copiable_Put_correct:
  assumes "lru_rep c"
  shows "lru_rep (copiable_Put k v now c)"
    and "lru_abs (copiable_Put k v now c) = spec_put (max_entries c) k v now (lru_abs c)"
proof -
  let ?c = "lru_insert_with AList.update k v now c"
  have ins: "lru_rep ?c" "lru_abs ?c = (k, v, now) # AList.delete k (lru_abs c)"
    using insert_with_rep [where P = "\<lambda>_. True", OF assms map_insertion_update] by auto
  show "lru_rep (copiable_Put k v now c)"
    "lru_abs (copiable_Put k v now c) = spec_put (max_entries c) k v now (lru_abs c)"
    using trim_rep [OF ins(1)] ins(2) by (simp_all add: copiable_Put_def spec_put_def Let_def)
qed

lemma copiable_Get_correct:
  assumes rep: "lru_rep c"
  shows "lru_rep (snd (copiable_Get k now c))"
    and "fst (copiable_Get k now c) = fst (spec_get (timeout_millisec c) k now (lru_abs c))"
    and "lru_abs (snd (copiable_Get k now c)) = snd (spec_get (timeout_millisec c) k now (lru_abs c))"
  using rep unlink_rep [OF rep, of k] splice_rep [OF rep, of k] map_of_lru_abs [OF rep, of k]
  by (auto simp: copiable_Get_def spec_get_def lru_expired_def split: option.splits)

lemma copiable_Delete_correct:
  assumes rep: "lru_rep c"
  shows "lru_rep (snd (copiable_Delete k c))"
    and "fst (copiable_Delete k c) = fst (spec_delete k (lru_abs c))"
    and "lru_abs (snd (copiable_Delete k c)) = snd (spec_delete k (lru_abs c))"
  using rep unlink_rep [OF rep, of k] map_of_lru_abs [OF rep, of k]
  by (auto simp: copiable_Delete_def spec_delete_def delete_absent split: option.splits)

lemma copiable_config [simp]:
  "max_entries (copiable_Put k v now c) = max_entries c"
  "timeout_millisec (copiable_Put k v now c) = timeout_millisec c"
  "max_entries (snd (copiable_Get k now c)) = max_entries c"
  "timeout_millisec (snd (copiable_Get k now c)) = timeout_millisec c"
  "max_entries (snd (copiable_Delete k c)) = max_entries c"
  "timeout_millisec (snd (copiable_Delete k c)) = timeout_millisec c"
  by (simp_all add: copiable_Put_def copiable_Get_def copiable_Delete_def Let_def split: option.splits)

lemmas copiable_correct = copiable_Put_correct copiable_Get_correct copiable_Delete_correct

lemma lru_inv_rep: "lru_inv c \<Longrightarrow> lru_rep c"
  by (simp add: lru_inv_def)

interpretation copiable: lru_cache copiable_Put copiable_Get copiable_Delete lru_abs lru_inv
  max_entries timeout_millisec
proof (unfold_locales, goal_cases)
  case (1 s) then show ?case by (rule lru_inv_ok)
next
  case (2 s k v now) then show ?case
    by (intro lru_invI) (simp_all add: copiable_correct lru_inv_rep lru_ok_put lru_inv_ok)
next
  case (3 s k now) then show ?case
    by (intro lru_invI) (simp_all add: copiable_correct lru_inv_rep lru_ok_get lru_inv_ok)
next
  case (4 s k) then show ?case
    by (intro lru_invI)
      (simp_all add: copiable_correct lru_inv_rep spec_delete_def lru_ok_delete lru_inv_ok)
qed (simp_all add: copiable_correct lru_inv_rep)

section \<open>Filtered deletion\<close>

lemma copiable_delete_keys:
  assumes "lru_inv c"
  shows "lru_inv (fold (\<lambda>key c. snd (copiable_Delete key c)) ks c) \<and>
    lru_abs (fold (\<lambda>key c. snd (copiable_Delete key c)) ks c) =
      filter (\<lambda>e. fst e \<notin> set ks) (lru_abs c)"
  using assms
proof (induction ks arbitrary: c)
  case (Cons k ks)
  let ?c = "snd (copiable_Delete k c)"
  have "lru_inv ?c" "lru_abs ?c = AList.delete k (lru_abs c)"
    using Cons.prems by (simp_all add: copiable.inv_del copiable.abs_del spec_delete_def)
  with Cons.IH [of ?c] show ?case
    by (auto simp: AList.delete_eq split_def intro!: filter_cong)
qed simp

lemma copiable_Clear_filter_abs:
  assumes "lru_inv c"
  shows "lru_abs (copiable_Clear_filter f c) = filter (\<lambda>e. \<not> f (fst e)) (lru_abs c)"
proof -
  have "set (filter f (sl_items (lru_list c))) = {k \<in> fst ` set (lru_abs c). f k}"
    by (auto simp: keys_lru_abs [symmetric])
  then show ?thesis
    using copiable_delete_keys [OF assms, of "filter f (sl_items (lru_list c))"]
    by (auto simp: copiable_Clear_filter_def intro!: filter_cong)
qed

lemma copiable_Clear_abs [simp]: "lru_abs (copiable_Clear c) = []"
  by (simp add: lru_abs_def copiable_Clear_def)

section \<open>Properties\<close>

fun copiable_step :: "('k, 'v) lru_op \<Rightarrow> ('k, 'v) lru_state \<Rightarrow> ('k, 'v) lru_state" where
  "copiable_step (OpPut k v now) c = copiable_Put k v now c"
| "copiable_step (OpGet k now) c = snd (copiable_Get k now c)"
| "copiable_step (OpDelete k) c = snd (copiable_Delete k c)"

lemma copiable_run_fold: "copiable.run ops c = fold copiable_step ops c"
proof (induction ops arbitrary: c)
  case (Cons x ops)
  then show ?case by (cases x) simp_all
qed simp

text \<open>
  The copiable-value cache refines the same recency list from an empty cache
  through any sequence of operations, and its filtered \<open>Clear\<close> removes exactly the matching
  entries and keeps the order of the others.
\<close>

theorem copiable_refines_lru:
  assumes "c = fold copiable_step ops (lru_new m t)"
  shows "lru_rep c \<and> (0 < m \<longrightarrow> length (lru_abs c) \<le> m) \<and>
    lru_abs (copiable_Put k v now c) = spec_put m k v now (lru_abs c) \<and>
    fst (copiable_Get k now c) = fst (spec_get (timeout_millisec c) k now (lru_abs c)) \<and>
    lru_abs (snd (copiable_Get k now c)) = snd (spec_get (timeout_millisec c) k now (lru_abs c)) \<and>
    lru_abs (snd (copiable_Delete k c)) = AList.delete k (lru_abs c) \<and>
    lru_abs (copiable_Clear_filter f c) = filter (\<lambda>e. \<not> f (fst e)) (lru_abs c)"
proof -
  have "lru_inv c \<and> max_entries c = m"
    using copiable.run_inv [of "lru_new m t" ops] by (simp add: assms copiable_run_fold)
  then have inv: "lru_inv c" and m: "max_entries c = m" by blast+
  have "0 < m \<longrightarrow> length (lru_abs c) \<le> m" using inv m by (simp add: lru_inv_def)
  with inv m show ?thesis
    by (simp add: lru_inv_rep copiable.abs_put copiable.abs_get copiable.abs_del spec_delete_def
        copiable_Clear_filter_abs)
qed

lemma copiable_refines_lru_witness:
  "lru_abs (copiable_Put (1::nat) ''a'' 4 (fold copiable_step [] (lru_new 1 0))) = [(1, ''a'', 4)]"
  using copiable_refines_lru [OF refl, where ops = "[]" and m = 1 and t = 0 and k = "1::nat"
      and v = "''a''" and now = 4]
  by (simp add: spec_put_def spec_trim_def)

end
