(* ===== verification/Exclusive_Lru.thy ===== *)
theory Exclusive_Lru
  imports Lru_Core
begin

text \<open>
  \<open>ExclusiveLruCache\<close> (\<open>src/utils/include/exclusive_lru_cache.hpp\<close>): an LRU cache that
  owns its values exclusively. A look-up moves the value out of the cache, and an insertion
  hands the value it evicts back to the caller.
\<close>

section \<open>Operations\<close>

definition exclusive_Put ::
  "'k \<Rightarrow> 'v \<Rightarrow> nat \<Rightarrow> ('k, 'v) lru_state \<Rightarrow> cpp_error + ('v option \<times> ('k, 'v) lru_state)" where
  "exclusive_Put key value now c =
     (let c' = lru_insert_with AList.update key value now c
      in if lru_over_capacity c'
         then (case sl_back (lru_list c') of
                 None \<Rightarrow> Inl (AssertionFailure ''iter != entry_map.end()'')
               | Some stale_key \<Rightarrow>
                   (case map_of (entry_map c') stale_key of
                      None \<Rightarrow> Inl (AssertionFailure ''iter != entry_map.end()'')
                    | Some iter \<Rightarrow> Inr (Some (le_value iter), lru_drop_back c')))
         else Inr (None, c'))"

definition exclusive_Delete :: "'k \<Rightarrow> ('k, 'v) lru_state \<Rightarrow> bool \<times> ('k, 'v) lru_state" where
  "exclusive_Delete key c =
     (case map_of (entry_map c) key of
        None \<Rightarrow> (False, c)
      | Some it \<Rightarrow> (True, lru_unlink key it c))"

definition exclusive_GetAndPop :: "'k \<Rightarrow> nat \<Rightarrow> ('k, 'v) lru_state \<Rightarrow> 'v option \<times> ('k, 'v) lru_state" where
  "exclusive_GetAndPop key now c =
     (case map_of (entry_map c) key of
        None \<Rightarrow> (None, c)
      | Some e \<Rightarrow>
          if 0 < timeout_millisec c \<and> timeout_millisec c < u64_sub now (le_timestamp e)
          then (None, lru_unlink key e c)
          else (Some (le_value e), lru_unlink key e c))"

definition exclusive_Clear :: "('k, 'v) lru_state \<Rightarrow> ('k, 'v) lru_state" where
  "exclusive_Clear c = c\<lparr>entry_map := [], lru_list := (lru_list c)\<lparr>sl_nodes := []\<rparr>\<rparr>"

definition exclusive_Clear_filter :: "('k \<Rightarrow> bool) \<Rightarrow> ('k, 'v) lru_state \<Rightarrow> ('k, 'v) lru_state" where
  "exclusive_Clear_filter key_filter c =
     fold (\<lambda>key c. snd (exclusive_Delete key c)) (filter key_filter (sl_items (lru_list c))) c"

definition exclusive_ClearAndGetValues :: "('k, 'v) lru_state \<Rightarrow> 'v list \<times> ('k, 'v) lru_state" where
  "exclusive_ClearAndGetValues c =
     (map (\<lambda>(_, cur_entry). le_value cur_entry) (entry_map c), exclusive_Clear c)"

section \<open>Refinement\<close>

text \<open>
  The assertion in \<open>Put\<close> never fails: the key at the back of the list is always in the
  map. The evicted value is that of the least recently inserted entry.
\<close>

lemma exclusive_Put_correct:
  assumes "lru_inv c"
  obtains evicted c' where "exclusive_Put k v now c = Inr (evicted, c')"
    and "lru_inv c'"
    and "lru_abs c' = spec_put (max_entries c) k v now (lru_abs c)"
    and "max_entries c' = max_entries c" "timeout_millisec c' = timeout_millisec c"
    and "evicted = (let ys = (k, v, now) # AList.delete k (lru_abs c)
      in if 0 < max_entries c \<and> max_entries c < length ys then Some (fst (snd (last ys))) else None)"
proof -
  let ?c = "lru_insert_with AList.update k v now c" and ?ys = "(k, v, now) # AList.delete k (lru_abs c)"
  have rep: "lru_rep c" using assms by (simp add: lru_inv_def)
  have ins: "lru_rep ?c" "lru_abs ?c = ?ys"
    using insert_with_rep [where P = "\<lambda>_. True", OF rep map_insertion_update] by auto
  have len: "sl_size (lru_list ?c) = length ?ys" using arg_cong [OF ins(2), of length] by simp
  have ok: "lru_ok (max_entries c) (spec_put (max_entries c) k v now (lru_abs c))"
    by (rule lru_ok_put [OF lru_inv_ok [OF assms]])
  show ?thesis
  proof (cases "lru_over_capacity ?c")
    case False
    then have "spec_put (max_entries c) k v now (lru_abs c) = ?ys"
      using len by (auto simp: lru_over_capacity_def spec_put_def spec_trim_def)
    with False ins ok len show ?thesis
      by (intro that [of None ?c])
        (auto simp: exclusive_Put_def lru_over_capacity_def Let_def intro: lru_invI)
  next
    case True
    obtain ns n where nodes: "sl_nodes (lru_list ?c) = ns @ [n]"
      using True by (cases "sl_nodes (lru_list ?c)" rule: rev_cases)
        (auto simp: lru_over_capacity_def sl_size_def)
    have "(fst n, snd n) \<in> set (sl_nodes (lru_list ?c))" using nodes by simp
    with ins(1) obtain e where e: "map_of (entry_map ?c) (snd n) = Some e"
      unfolding lru_rep_def by (blast elim: agree_node)
    have "last (lru_abs ?c) = (snd n, le_value e, le_timestamp e)"
      using nodes e by (simp add: lru_abs_def node_entry_def)
    then have lst: "fst (snd (last ?ys)) = le_value e" using ins(2) by simp
    have "lru_rep (lru_drop_back ?c)" "lru_abs (lru_drop_back ?c) = spec_put (max_entries c) k v now (lru_abs c)"
      using trim_rep [OF ins(1)] True ins(2) by (simp_all add: spec_put_def)
    with True ok lst len e nodes show ?thesis
      by (intro that [of "Some (le_value e)" "lru_drop_back ?c"])
        (auto simp: exclusive_Put_def lru_over_capacity_def Let_def sl_back_def intro: lru_invI)
  qed
qed

lemma exclusive_GetAndPop_correct:
  assumes "lru_inv c"
  shows "lru_inv (snd (exclusive_GetAndPop k now c))"
    and "fst (exclusive_GetAndPop k now c) = fst (spec_get (timeout_millisec c) k now (lru_abs c))"
    and "lru_abs (snd (exclusive_GetAndPop k now c)) = AList.delete k (lru_abs c)"
proof -
  have rep: "lru_rep c" using assms by (simp add: lru_inv_def)
  have "lru_rep (snd (exclusive_GetAndPop k now c))"
    and fst: "fst (exclusive_GetAndPop k now c) = fst (spec_get (timeout_millisec c) k now (lru_abs c))"
    and abs: "lru_abs (snd (exclusive_GetAndPop k now c)) = AList.delete k (lru_abs c)"
    and "max_entries (snd (exclusive_GetAndPop k now c)) = max_entries c"
    using rep unlink_rep [OF rep, of k] map_of_lru_abs [OF rep, of k] delete_absent [OF rep, of k]
    by (auto simp: exclusive_GetAndPop_def spec_get_def lru_expired_def split: option.splits)
  then show "lru_inv (snd (exclusive_GetAndPop k now c))"
    using lru_ok_delete [OF lru_inv_ok [OF assms]] by (intro lru_invI) auto
  show "fst (exclusive_GetAndPop k now c) = fst (spec_get (timeout_millisec c) k now (lru_abs c))"
    "lru_abs (snd (exclusive_GetAndPop k now c)) = AList.delete k (lru_abs c)"
    by (fact fst, fact abs)
qed

lemma exclusive_Delete_correct:
  assumes "lru_inv c"
  shows "lru_inv (snd (exclusive_Delete k c))"
    and "fst (exclusive_Delete k c) \<longleftrightarrow> map_of (lru_abs c) k \<noteq> None"
    and "lru_abs (snd (exclusive_Delete k c)) = AList.delete k (lru_abs c)"
proof -
  have rep: "lru_rep c" using assms by (simp add: lru_inv_def)
  have "lru_rep (snd (exclusive_Delete k c))"
    and fst: "fst (exclusive_Delete k c) \<longleftrightarrow> map_of (lru_abs c) k \<noteq> None"
    and abs: "lru_abs (snd (exclusive_Delete k c)) = AList.delete k (lru_abs c)"
    and "max_entries (snd (exclusive_Delete k c)) = max_entries c"
    using rep unlink_rep [OF rep, of k] map_of_lru_abs [OF rep, of k] delete_absent [OF rep, of k]
    by (auto simp: exclusive_Delete_def split: option.splits)
  then show "lru_inv (snd (exclusive_Delete k c))"
    using lru_ok_delete [OF lru_inv_ok [OF assms]] by (intro lru_invI) auto
  show "fst (exclusive_Delete k c) \<longleftrightarrow> map_of (lru_abs c) k \<noteq> None"
    "lru_abs (snd (exclusive_Delete k c)) = AList.delete k (lru_abs c)"
    by (fact fst, fact abs)
qed

lemma exclusive_Clear_abs [simp]: "lru_abs (exclusive_Clear c) = []"
  by (simp add: lru_abs_def exclusive_Clear_def)

section \<open>Properties\<close>

text \<open>
  An exclusively owned value is never lost silently: \<open>Put\<close> cannot fail its
  assertion, and over capacity it hands back the value of the least recently inserted entry;
  \<open>GetAndPop\<close> returns a fresh value and in every case the key is gone afterwards.
\<close>

theorem exclusive_put_then_pop:
  assumes "lru_inv c"
  shows "(\<exists>evicted c'. exclusive_Put k v now c = Inr (evicted, c') \<and> lru_inv c' \<and>
      lru_abs c' = spec_put (max_entries c) k v now (lru_abs c) \<and>
      evicted = (let ys = (k, v, now) # AList.delete k (lru_abs c)
        in if 0 < max_entries c \<and> max_entries c < length ys then Some (fst (snd (last ys))) else None)) \<and>
    lru_inv (snd (exclusive_GetAndPop k now c)) \<and>
    fst (exclusive_GetAndPop k now c) = fst (spec_get (timeout_millisec c) k now (lru_abs c)) \<and>
    lru_abs (snd (exclusive_GetAndPop k now c)) = AList.delete k (lru_abs c)"
  using exclusive_Put_correct [OF assms, of k v now] exclusive_GetAndPop_correct [OF assms, of k now]
  by metis

lemma exclusive_put_then_pop_witness:
  "\<exists>c'. exclusive_Put (1::nat) ''a'' 4 (lru_new 1 0) = Inr (None, c') \<and> lru_abs c' = [(1, ''a'', 4)]"
  using exclusive_put_then_pop [of "lru_new 1 0" "1::nat" "''a''" 4]
  by (auto simp: spec_put_def spec_trim_def Let_def)

end
