(* ===== verification/Exclusive_Multi_Lru.thy ===== *)
theory Exclusive_Multi_Lru
  imports Lru_Core
begin

text \<open>
  \<open>ExclusiveMultiLruCache\<close> (\<open>src/utils/include/exclusive_multi_lru_cache.hpp\<close>): the cache
  of open file handles. A key may hold several values, kept in a deque in order of
  insertion; taking a value out removes it, and values that leave the cache by eviction or
  staleness are handed to the caller, who closes them.
\<close>

section \<open>State and operations\<close>

record ('k, 'v) multi_state =
  mc_total_entries_num :: nat
  mc_max_entries :: nat
  mc_timeout_millisec :: nat
  mc_entry_map :: "('k \<times> 'v lru_entry list) list"
  mc_lru_list :: "'k std_list"

definition multi_new :: "nat \<Rightarrow> nat \<Rightarrow> ('k, 'v) multi_state" where
  "multi_new max_entries_p timeout_millisec_p =
     \<lparr>mc_total_entries_num = 0, mc_max_entries = max_entries_p,
      mc_timeout_millisec = timeout_millisec_p, mc_entry_map = [], mc_lru_list = sl_empty\<rparr>"

definition multi_entries :: "'k \<Rightarrow> ('k, 'v) multi_state \<Rightarrow> 'v lru_entry list" where
  "multi_entries k c = (case map_of (mc_entry_map c) k of None \<Rightarrow> [] | Some entries \<Rightarrow> entries)"

definition multi_DeleteFirstEntry ::
  "'k::linorder \<Rightarrow> ('k, 'v) multi_state \<Rightarrow> cpp_error + ('v \<times> ('k, 'v) multi_state)" where
  "multi_DeleteFirstEntry key c =
     (case map_of (mc_entry_map c) key of
        Some (e # es) \<Rightarrow>
          Inr (le_value e,
               c\<lparr>mc_lru_list := sl_erase (le_iterator e) (mc_lru_list c),
                 mc_entry_map := (if es = [] then AList.delete key (mc_entry_map c)
                                  else om_insert key es (mc_entry_map c)),
                 mc_total_entries_num := mc_total_entries_num c - 1\<rparr>)
      | _ \<Rightarrow> Inl (AssertionFailure ''!entries.empty()''))"

definition multi_push ::
  "'k::linorder \<Rightarrow> 'v \<Rightarrow> nat \<Rightarrow> ('k, 'v) multi_state \<Rightarrow> ('k, 'v) multi_state" where
  "multi_push key value now c =
     (let new_entry = \<lparr>le_value = value, le_timestamp = now, le_iterator = sl_fresh (mc_lru_list c)\<rparr>
      in c\<lparr>mc_lru_list := sl_push_front key (mc_lru_list c),
           mc_entry_map := om_insert key (multi_entries key c @ [new_entry]) (mc_entry_map c),
           mc_total_entries_num := Suc (mc_total_entries_num c)\<rparr>)"

definition multi_Put ::
  "'k::linorder \<Rightarrow> 'v \<Rightarrow> nat \<Rightarrow> ('k, 'v) multi_state \<Rightarrow> cpp_error + ('v option \<times> ('k, 'v) multi_state)" where
  "multi_Put key value now c =
     (let c' = multi_push key value now c
      in if 0 < mc_max_entries c' \<and> mc_max_entries c' < mc_total_entries_num c'
         then (case sl_back (mc_lru_list c') of
                 None \<Rightarrow> Inl (AssertionFailure ''iter != entry_map.end()'')
               | Some stale_key \<Rightarrow>
                   (if map_of (mc_entry_map c') stale_key = None
                    then Inl (AssertionFailure ''iter != entry_map.end()'')
                    else (case multi_DeleteFirstEntry stale_key c' of
                            Inl err \<Rightarrow> Inl err
                          | Inr (v, c'') \<Rightarrow> Inr (Some v, c''))))
         else Inr (None, c'))"

record 'v pop_result =
  evicted_items :: "'v list"
  target_item :: "'v option"

text \<open>
  The staleness loop of \<open>GetAndPop\<close>: the counter is \<open>cur_entries_size\<close>. Reading
  \<open>entries.front()\<close> of an empty deque is undefined behaviour, an error branch here.
\<close>

fun multi_evict_stale ::
  "nat \<Rightarrow> 'k::linorder \<Rightarrow> nat \<Rightarrow> 'v list \<Rightarrow> ('k, 'v) multi_state \<Rightarrow>
   cpp_error + ('v list \<times> nat \<times> ('k, 'v) multi_state)" where
  "multi_evict_stale 0 key now evicted c = Inr (evicted, 0, c)"
| "multi_evict_stale (Suc n) key now evicted c =
     (case multi_entries key c of
        [] \<Rightarrow> Inl (AssertionFailure ''entries.front()'')
      | cur_entry # _ \<Rightarrow>
          if mc_timeout_millisec c < u64_sub now (le_timestamp cur_entry)
          then (case multi_DeleteFirstEntry key c of
                  Inl err \<Rightarrow> Inl err
                | Inr (v, c') \<Rightarrow> multi_evict_stale n key now (evicted @ [v]) c')
          else Inr (evicted, Suc n, c))"

definition multi_pop_front ::
  "'k::linorder \<Rightarrow> 'v list \<Rightarrow> ('k, 'v) multi_state \<Rightarrow> cpp_error + ('v pop_result \<times> ('k, 'v) multi_state)" where
  "multi_pop_front key evicted c =
     (case multi_DeleteFirstEntry key c of
        Inl err \<Rightarrow> Inl err
      | Inr (v, c') \<Rightarrow> Inr (\<lparr>evicted_items = evicted, target_item = Some v\<rparr>, c'))"

definition multi_GetAndPop ::
  "'k::linorder \<Rightarrow> nat \<Rightarrow> ('k, 'v) multi_state \<Rightarrow> cpp_error + ('v pop_result \<times> ('k, 'v) multi_state)" where
  "multi_GetAndPop key now c =
     (case map_of (mc_entry_map c) key of
        None \<Rightarrow> Inr (\<lparr>evicted_items = [], target_item = None\<rparr>, c)
      | Some entries \<Rightarrow>
          if 0 < mc_timeout_millisec c
          then (case multi_evict_stale (length entries) key now [] c of
                  Inl err \<Rightarrow> Inl err
                | Inr (evicted, cur_entries_size, c') \<Rightarrow>
                    if cur_entries_size = 0
                    then Inr (\<lparr>evicted_items = evicted, target_item = None\<rparr>, c')
                    else multi_pop_front key evicted c')
          else multi_pop_front key [] c)"

definition multi_all_values :: "('k, 'v) multi_state \<Rightarrow> 'v list" where
  "multi_all_values c = concat (map (\<lambda>(_, entries). map le_value entries) (mc_entry_map c))"

definition multi_ClearAndGetValues :: "('k, 'v) multi_state \<Rightarrow> 'v list \<times> ('k, 'v) multi_state" where
  "multi_ClearAndGetValues c =
     (multi_all_values c,
      c\<lparr>mc_entry_map := [], mc_lru_list := (mc_lru_list c)\<lparr>sl_nodes := []\<rparr>,
        mc_total_entries_num := 0\<rparr>)"

definition multi_clear_key :: "'k \<Rightarrow> ('k, 'v) multi_state \<Rightarrow> ('k, 'v) multi_state" where
  "multi_clear_key key c =
     c\<lparr>mc_lru_list := fold (\<lambda>e. sl_erase (le_iterator e)) (multi_entries key c) (mc_lru_list c),
       mc_entry_map := AList.delete key (mc_entry_map c),
       mc_total_entries_num := mc_total_entries_num c - length (multi_entries key c)\<rparr>"

fun multi_clear_keys ::
  "'k list \<Rightarrow> 'v list \<Rightarrow> ('k, 'v) multi_state \<Rightarrow> cpp_error + ('v list \<times> ('k, 'v) multi_state)" where
  "multi_clear_keys [] values c = Inr (values, c)"
| "multi_clear_keys (key # keys) values c =
     (if map_of (mc_entry_map c) key = None
      then Inl (AssertionFailure ''entry_map_iter != entry_map.end()'')
      else multi_clear_keys keys (values @ map le_value (multi_entries key c)) (multi_clear_key key c))"

definition multi_ClearAndGetValues_from ::
  "'k::linorder \<Rightarrow> ('k \<Rightarrow> bool) \<Rightarrow> ('k, 'v) multi_state \<Rightarrow> cpp_error + ('v list \<times> ('k, 'v) multi_state)" where
  "multi_ClearAndGetValues_from start_key key_filter c =
     multi_clear_keys
       (takeWhile key_filter (map fst (om_lower_bound start_key (mc_entry_map c)))) [] c"

definition multi_Verify :: "('k, 'v) multi_state \<Rightarrow> bool" where
  "multi_Verify c \<longleftrightarrow>
     list_all (\<lambda>(_, entries). entries \<noteq> []) (mc_entry_map c) \<and>
     sum_list (map (\<lambda>(_, entries). length entries) (mc_entry_map c)) = mc_total_entries_num c \<and>
     sl_size (mc_lru_list c) = mc_total_entries_num c"

section \<open>Invariant\<close>

text \<open>
  For every key, the iterators of its deque, oldest first, are the identities of the key's
  nodes from the back of the list to its front; no deque is empty; the counter is the
  length of the list.
\<close>

definition key_ids :: "'k \<Rightarrow> 'k std_list \<Rightarrow> nat list" where
  "key_ids k l = map fst (filter (\<lambda>n. snd n = k) (sl_nodes l))"

definition multi_rep :: "('k::linorder, 'v) multi_state \<Rightarrow> bool" where
  "multi_rep c \<longleftrightarrow>
     sl_wf (mc_lru_list c) \<and> om_sorted (mc_entry_map c) \<and>
     (\<forall>k. map_of (mc_entry_map c) k \<noteq> Some []) \<and>
     (\<forall>k. map le_iterator (multi_entries k c) = rev (key_ids k (mc_lru_list c))) \<and>
     mc_total_entries_num c = sl_size (mc_lru_list c)"

definition multi_inv :: "('k::linorder, 'v) multi_state \<Rightarrow> bool" where
  "multi_inv c \<longleftrightarrow> multi_rep c \<and>
     (0 < mc_max_entries c \<longrightarrow> mc_total_entries_num c \<le> mc_max_entries c)"

lemma multi_inv_new [simp]: "multi_inv (multi_new m t)"
  by (simp add: multi_inv_def multi_rep_def multi_new_def multi_entries_def key_ids_def sl_size_def)

lemma key_ids_subset: "set (key_ids k l) \<subseteq> set (sl_ids l)"
  by (auto simp: key_ids_def sl_ids_def)

lemma distinct_key_ids: "sl_wf l \<Longrightarrow> distinct (key_ids k l)"
  by (simp add: sl_wf_def sl_ids_def key_ids_def distinct_map_filter)

lemma key_ids_disjoint:
  assumes "sl_wf l" "i \<in> set (key_ids k l)" "k' \<noteq> k"
  shows "i \<notin> set (key_ids k' l)"
  using assms sl_wf_unique [OF assms(1)] by (auto simp: key_ids_def)

lemma key_ids_push_front:
  "key_ids k (sl_push_front k' l) = (if k' = k then [sl_fresh l] else []) @ key_ids k l"
  by (simp add: key_ids_def)

lemma key_ids_erase: "key_ids k (sl_erase i l) = filter (\<lambda>j. j \<noteq> i) (key_ids k l)"
  by (simp add: key_ids_def filter_map comp_def conj_commute)

lemma multi_entries_Some: "map_of (mc_entry_map c) k = Some es \<Longrightarrow> multi_entries k c = es"
  by (simp add: multi_entries_def)

lemma multi_entries_Cons: "multi_entries k c = e # es \<longleftrightarrow> map_of (mc_entry_map c) k = Some (e # es)"
  by (auto simp: multi_entries_def split: option.splits)

section \<open>Deleting the oldest entry of a key\<close>

lemma multi_rep_entries:
  assumes "multi_rep c" "multi_entries k c = e # es"
  shows "map_of (mc_entry_map c) k = Some (e # es)"
    and "key_ids k (mc_lru_list c) = rev (map le_iterator es) @ [le_iterator e]"
    and "(le_iterator e, k) \<in> set (sl_nodes (mc_lru_list c))"
proof -
  show "map_of (mc_entry_map c) k = Some (e # es)"
    using assms(2) by (simp add: multi_entries_Cons)
  have "map le_iterator (multi_entries k c) = rev (key_ids k (mc_lru_list c))"
    using assms(1) unfolding multi_rep_def by blast
  then have "rev (key_ids k (mc_lru_list c)) = le_iterator e # map le_iterator es"
    using assms(2) by simp
  then show ids: "key_ids k (mc_lru_list c) = rev (map le_iterator es) @ [le_iterator e]"
    by (simp add: rev_swap)
  have "le_iterator e \<in> set (key_ids k (mc_lru_list c))" by (simp add: ids)
  then show "(le_iterator e, k) \<in> set (sl_nodes (mc_lru_list c))"
    by (force simp: key_ids_def)
qed

definition multi_drop_first ::
  "'k::linorder \<Rightarrow> 'v lru_entry \<Rightarrow> 'v lru_entry list \<Rightarrow> ('k, 'v) multi_state \<Rightarrow> ('k, 'v) multi_state" where
  "multi_drop_first k e es c =
     c\<lparr>mc_lru_list := sl_erase (le_iterator e) (mc_lru_list c),
       mc_entry_map := (if es = [] then AList.delete k (mc_entry_map c)
                        else om_insert k es (mc_entry_map c)),
       mc_total_entries_num := mc_total_entries_num c - 1\<rparr>"

lemma entries_drop_first:
  "multi_entries j (multi_drop_first k e es c) = (if j = k then es else multi_entries j c)"
  by (simp add: multi_entries_def multi_drop_first_def)

lemma drop_first_rep:
  assumes rep: "multi_rep c" and es: "multi_entries k c = e # es"
  shows "multi_rep (multi_drop_first k e es c)"
proof -
  let ?l = "mc_lru_list c" and ?c' = "multi_drop_first k e es c"
  have wf: "sl_wf ?l" using rep by (simp add: multi_rep_def)
  note facts = multi_rep_entries [OF rep es]
  have "map le_iterator (multi_entries j ?c') = rev (key_ids j (mc_lru_list ?c'))" for j
  proof (cases "j = k")
    case True
    have "le_iterator e \<notin> set (map le_iterator es)"
      using distinct_key_ids [OF wf, of k] facts(2) by simp
    then have "filter (\<lambda>i. i \<noteq> le_iterator e) (map le_iterator es) = map le_iterator es"
      by (auto intro!: filter_True)
    with True facts(2) show ?thesis
      by (simp add: entries_drop_first) (simp add: multi_drop_first_def key_ids_erase rev_filter [symmetric])
  next
    case False
    have "le_iterator e \<in> set (key_ids k ?l)" using facts(2) by simp
    with False have "le_iterator e \<notin> set (key_ids j ?l)" by (intro key_ids_disjoint [OF wf])
    then have "filter (\<lambda>i. i \<noteq> le_iterator e) (key_ids j ?l) = key_ids j ?l"
      by (auto intro!: filter_True)
    with False rep show ?thesis
      by (simp add: entries_drop_first) (simp add: multi_drop_first_def key_ids_erase multi_rep_def)
  qed
  moreover have "mc_total_entries_num ?c' = sl_size (mc_lru_list ?c')"
    using rep sl_size_erase [OF wf facts(3)] by (simp add: multi_rep_def multi_drop_first_def)
  moreover have "sl_wf (mc_lru_list ?c')" "om_sorted (mc_entry_map ?c')"
      "\<forall>j. map_of (mc_entry_map ?c') j \<noteq> Some []"
    using rep by (auto simp: multi_rep_def multi_drop_first_def)
  ultimately show ?thesis unfolding multi_rep_def by blast
qed

lemma values_drop_first:
  assumes rep: "multi_rep c" and es: "multi_entries k c = e # es"
  shows "mset (multi_all_values c) =
    add_mset (le_value e) (mset (multi_all_values (multi_drop_first k e es c)))"
proof -
  have so: "om_sorted (mc_entry_map c)" using rep by (simp add: multi_rep_def)
  have "mset (multi_all_values c) = mset (map le_value (e # es)) +
      mset (concat (map (\<lambda>(_, entries). map le_value entries) (AList.delete k (mc_entry_map c))))"
    unfolding multi_all_values_def
    by (subst mset_concat_delete [OF om_sorted_distinct [OF so] multi_rep_entries(1) [OF rep es]]) simp
  then show ?thesis
    using so by (simp add: multi_all_values_def multi_drop_first_def mset_concat_om_insert)
qed

text \<open>
  What \<open>DeleteFirstEntry\<close> does on a key that is present: its assertion holds, the oldest
  value of the key comes out, and nothing else moves.
\<close>

lemma DeleteFirstEntry_rep:
  assumes "multi_rep c" "multi_entries k c = e # es"
  shows "multi_DeleteFirstEntry k c = Inr (le_value e, multi_drop_first k e es c)"
  using multi_rep_entries(1) [OF assms] by (simp add: multi_DeleteFirstEntry_def multi_drop_first_def)

lemma drop_first_config [simp]:
  "mc_max_entries (multi_drop_first k e es c) = mc_max_entries c"
  "mc_timeout_millisec (multi_drop_first k e es c) = mc_timeout_millisec c"
  by (simp_all add: multi_drop_first_def)

section \<open>Insertion with eviction\<close>

lemma entries_push:
  "multi_entries j (multi_push k v now c) =
     (if j = k then multi_entries k c @
        [\<lparr>le_value = v, le_timestamp = now, le_iterator = sl_fresh (mc_lru_list c)\<rparr>]
      else multi_entries j c)"
  by (simp add: multi_push_def multi_entries_def)

lemma push_rep:
  assumes "multi_rep c"
  shows "multi_rep (multi_push k v now c)"
proof -
  have "map le_iterator (multi_entries j (multi_push k v now c)) =
      rev (key_ids j (mc_lru_list (multi_push k v now c)))" for j
    using assms
    by (simp add: entries_push multi_rep_def) (simp add: multi_push_def key_ids_push_front)
  moreover have "sl_wf (mc_lru_list (multi_push k v now c))"
      "om_sorted (mc_entry_map (multi_push k v now c))"
      "\<forall>j. map_of (mc_entry_map (multi_push k v now c)) j \<noteq> Some []"
      "mc_total_entries_num (multi_push k v now c) = sl_size (mc_lru_list (multi_push k v now c))"
    using assms by (auto simp: multi_rep_def multi_push_def sl_size_def)
  ultimately show ?thesis unfolding multi_rep_def by blast
qed

lemma values_push:
  assumes "multi_rep c"
  shows "mset (multi_all_values (multi_push k v now c)) = add_mset v (mset (multi_all_values c))"
proof -
  have so: "om_sorted (mc_entry_map c)" using assms by (simp add: multi_rep_def)
  show ?thesis
  proof (cases "map_of (mc_entry_map c) k")
    case None
    then have "AList.delete k (mc_entry_map c) = mc_entry_map c"
      by (intro delete_id) (simp add: map_of_eq_None_iff)
    with None so show ?thesis
      by (simp add: multi_all_values_def multi_push_def multi_entries_def mset_concat_om_insert)
  next
    case (Some es)
    with so show ?thesis
      by (simp add: multi_all_values_def multi_push_def multi_entries_def mset_concat_om_insert
          mset_concat_delete [OF om_sorted_distinct [OF so] Some])
  qed
qed

text \<open>
  The whole cache as one sequence, newest first: the entry of a list node is the one whose
  iterator points at it.
\<close>

definition node_multi :: "('k, 'v) multi_state \<Rightarrow> nat \<times> 'k \<Rightarrow> 'k \<times> 'v \<times> nat" where
  "node_multi c n =
     (let e = the (find (\<lambda>e. le_iterator e = fst n) (multi_entries (snd n) c))
      in (snd n, le_value e, le_timestamp e))"

definition multi_abs :: "('k, 'v) multi_state \<Rightarrow> ('k \<times> 'v \<times> nat) list" where
  "multi_abs c = map (node_multi c) (sl_nodes (mc_lru_list c))"

lemma length_multi_abs: "multi_rep c \<Longrightarrow> length (multi_abs c) = mc_total_entries_num c"
  by (simp add: multi_abs_def multi_rep_def sl_size_def)

lemma find_append_miss: "(\<forall>x \<in> set xs. \<not> P x) \<Longrightarrow> find P (xs @ ys) = find P ys"
  by (induction xs) auto

lemma find_append_hit: "\<exists>x \<in> set xs. P x \<Longrightarrow> find P (xs @ ys) = find P xs"
  by (induction xs) auto

lemma node_has_entry:
  assumes "multi_rep c" "(i, k) \<in> set (sl_nodes (mc_lru_list c))"
  shows "\<exists>e \<in> set (multi_entries k c). le_iterator e = i"
proof -
  have "i \<in> set (key_ids k (mc_lru_list c))" using assms(2) by (force simp: key_ids_def)
  moreover have "map le_iterator (multi_entries k c) = rev (key_ids k (mc_lru_list c))"
    using assms(1) unfolding multi_rep_def by blast
  ultimately have "i \<in> set (map le_iterator (multi_entries k c))" by simp
  then show ?thesis by auto
qed

lemma multi_abs_push:
  assumes "multi_rep c"
  shows "multi_abs (multi_push k v now c) = (k, v, now) # multi_abs c"
proof -
  let ?c' = "multi_push k v now c"
  have wf: "sl_wf (mc_lru_list c)" using assms by (simp add: multi_rep_def)
  have old: "node_multi ?c' n = node_multi c n" if "n \<in> set (sl_nodes (mc_lru_list c))" for n
    using find_append_hit [OF node_has_entry [OF assms, of "fst n" "snd n"]] that
    by (cases "snd n = k") (auto simp: node_multi_def entries_push)
  have "\<forall>e \<in> set (multi_entries k c). le_iterator e \<noteq> sl_fresh (mc_lru_list c)"
  proof
    fix e assume "e \<in> set (multi_entries k c)"
    then have "le_iterator e \<in> set (map le_iterator (multi_entries k c))" by simp
    then have "le_iterator e \<in> set (key_ids k (mc_lru_list c))"
      using assms unfolding multi_rep_def by (metis set_rev)
    then have "le_iterator e \<in> set (sl_ids (mc_lru_list c))" using key_ids_subset [of k] by blast
    then show "le_iterator e \<noteq> sl_fresh (mc_lru_list c)" using wf by (auto simp: sl_wf_def)
  qed
  then have "node_multi ?c' (sl_fresh (mc_lru_list c), k) = (k, v, now)"
    by (simp add: node_multi_def entries_push find_append_miss)
  with old show ?thesis by (simp add: multi_abs_def) (simp add: multi_push_def old)
qed

text \<open>The key at the back of the list has its oldest entry there.\<close>

lemma back_entry:
  assumes rep: "multi_rep c" and nodes: "sl_nodes (mc_lru_list c) = ns @ [(i, k)]"
  obtains e es where "multi_entries k c = e # es" "le_iterator e = i"
proof -
  have "map le_iterator (multi_entries k c) = rev (key_ids k (mc_lru_list c))"
    using rep unfolding multi_rep_def by blast
  then have "map le_iterator (multi_entries k c) =
      i # rev (map fst (filter (\<lambda>n. snd n = k) ns))"
    using nodes by (simp add: key_ids_def)
  then show ?thesis using that by (cases "multi_entries k c") auto
qed

lemma drop_back_abs:
  assumes rep: "multi_rep c" and nodes: "sl_nodes (mc_lru_list c) = ns @ [(i, k)]"
    and es: "multi_entries k c = e # es" "le_iterator e = i"
  shows "multi_abs (multi_drop_first k e es c) = butlast (multi_abs c)"
    and "last (multi_abs c) = (k, le_value e, le_timestamp e)"
proof -
  have "distinct (map fst (ns @ [(i, k)]))"
    using rep nodes by (simp add: multi_rep_def sl_wf_def sl_ids_def)
  then have i: "\<forall>n \<in> set ns. fst n \<noteq> i" by auto
  then have "filter (\<lambda>n. fst n \<noteq> i) ns = ns" by (auto intro!: filter_True)
  moreover have "node_multi (multi_drop_first k e es c) n = node_multi c n" if "n \<in> set ns" for n
    using i that es by (auto simp: node_multi_def entries_drop_first)
  ultimately show "multi_abs (multi_drop_first k e es c) = butlast (multi_abs c)"
    using nodes es(2) by (simp add: multi_abs_def) (simp add: multi_drop_first_def)
  show "last (multi_abs c) = (k, le_value e, le_timestamp e)"
    using nodes es by (simp add: multi_abs_def node_multi_def)
qed

lemma multi_Put_correct:
  assumes inv: "multi_inv c"
  obtains evicted c' where "multi_Put k v now c = Inr (evicted, c')" "multi_inv c'"
    and "multi_abs c' = (if evicted = None then (k, v, now) # multi_abs c
                         else butlast ((k, v, now) # multi_abs c))"
    and "evicted = (if 0 < mc_max_entries c \<and> mc_max_entries c \<le> mc_total_entries_num c
                    then Some (fst (snd (last ((k, v, now) # multi_abs c)))) else None)"
    and "mset (multi_all_values c') + mset (case evicted of None \<Rightarrow> [] | Some x \<Rightarrow> [x]) =
      add_mset v (mset (multi_all_values c))"
    and "mc_max_entries c' = mc_max_entries c" "mc_timeout_millisec c' = mc_timeout_millisec c"
proof -
  let ?p = "multi_push k v now c"
  have rep: "multi_rep c" using inv by (simp add: multi_inv_def)
  note prep = push_rep [OF rep, of k v now]
  have cfg: "mc_max_entries ?p = mc_max_entries c" "mc_timeout_millisec ?p = mc_timeout_millisec c"
      "mc_total_entries_num ?p = Suc (mc_total_entries_num c)"
    by (simp_all add: multi_push_def)
  show ?thesis
  proof (cases "0 < mc_max_entries c \<and> mc_max_entries c \<le> mc_total_entries_num c")
    case False
    with inv prep cfg show ?thesis
      by (intro that [of None ?p])
        (auto simp: multi_Put_def multi_inv_def multi_abs_push [OF rep] values_push [OF rep])
  next
    case True
    obtain ns i j where nodes: "sl_nodes (mc_lru_list ?p) = ns @ [(i, j)]"
      by (cases "sl_nodes (mc_lru_list ?p)" rule: rev_cases) (auto simp: multi_push_def)
    obtain e es where es: "multi_entries j ?p = e # es" "le_iterator e = i"
      using back_entry [OF prep nodes] .
    note drop = drop_back_abs [OF prep nodes es]
    have put: "multi_Put k v now c = Inr (Some (le_value e), multi_drop_first j e es ?p)"
      using True cfg nodes multi_rep_entries(1) [OF prep es(1)] DeleteFirstEntry_rep [OF prep es(1)]
      by (simp add: multi_Put_def sl_back_def Let_def)
    have "multi_inv (multi_drop_first j e es ?p)"
      using inv cfg drop_first_rep [OF prep es(1)]
      by (auto simp: multi_inv_def multi_drop_first_def)
    moreover have "mset (multi_all_values (multi_drop_first j e es ?p)) + {#le_value e#} =
        add_mset v (mset (multi_all_values c))"
      using values_drop_first [OF prep es(1)] values_push [OF rep, of k v now] by simp
    ultimately show ?thesis
      using put True drop cfg
      by (intro that [OF put]) (auto simp: multi_abs_push [OF rep])
  qed
qed

section \<open>Taking a value out\<close>

definition multi_stale :: "('k, 'v) multi_state \<Rightarrow> nat \<Rightarrow> 'v lru_entry \<Rightarrow> bool" where
  "multi_stale c now e \<longleftrightarrow>
     0 < mc_timeout_millisec c \<and> mc_timeout_millisec c < u64_sub now (le_timestamp e)"

text \<open>What removing entries of one key leaves of everything else.\<close>

definition multi_removed ::
  "('k::linorder, 'v) multi_state \<Rightarrow> 'k \<Rightarrow> 'v lru_entry list \<Rightarrow> 'v lru_entry list \<Rightarrow>
   ('k, 'v) multi_state \<Rightarrow> bool" where
  "multi_removed c k gone rest c' \<longleftrightarrow>
     multi_rep c' \<and> (\<forall>j. multi_entries j c' = (if j = k then rest else multi_entries j c)) \<and>
     mset (multi_all_values c) = mset (map le_value gone) + mset (multi_all_values c') \<and>
     mc_total_entries_num c = length gone + mc_total_entries_num c' \<and>
     mc_max_entries c' = mc_max_entries c \<and> mc_timeout_millisec c' = mc_timeout_millisec c"

lemma multi_removed_refl: "multi_rep c \<Longrightarrow> multi_removed c k [] (multi_entries k c) c"
  by (simp add: multi_removed_def)

lemma multi_removed_first:
  assumes "multi_rep c" "multi_entries k c = e # es"
  shows "multi_removed c k [e] es (multi_drop_first k e es c)"
proof -
  have "0 < mc_total_entries_num c"
    using assms(1) multi_rep_entries(3) [OF assms] by (auto simp: multi_rep_def sl_size_def)
  then have "mc_total_entries_num c = Suc (mc_total_entries_num (multi_drop_first k e es c))"
    by (simp add: multi_drop_first_def)
  then show ?thesis
    using assms drop_first_rep [OF assms] values_drop_first [OF assms]
    by (simp add: multi_removed_def entries_drop_first)
qed

lemma multi_removed_trans:
  "multi_removed c k xs ys c' \<Longrightarrow> multi_removed c' k xs' ys' c'' \<Longrightarrow>
   multi_removed c k (xs @ xs') ys' c''"
  by (auto simp: multi_removed_def)

lemma multi_removed_inv: "multi_removed c k xs ys c' \<Longrightarrow> multi_inv c \<Longrightarrow> multi_inv c'"
  by (auto simp: multi_removed_def multi_inv_def)

lemma evict_stale_correct:
  assumes "multi_rep c" "0 < mc_timeout_millisec c" "n = length (multi_entries k c)"
  shows "\<exists>c'. multi_evict_stale n k now acc c =
       Inr (acc @ map le_value (takeWhile (multi_stale c now) (multi_entries k c)),
            length (dropWhile (multi_stale c now) (multi_entries k c)), c') \<and>
     multi_removed c k (takeWhile (multi_stale c now) (multi_entries k c))
          (dropWhile (multi_stale c now) (multi_entries k c)) c'"
  using assms
proof (induction n arbitrary: c acc)
  case 0
  then show ?case using multi_removed_refl [of c k] by auto
next
  case (Suc n)
  then obtain e es where es: "multi_entries k c = e # es" by (cases "multi_entries k c") auto
  show ?case
  proof (cases "multi_stale c now e")
    case False
    with Suc.prems es show ?thesis
      using multi_removed_refl [of c k] by (intro exI [of _ c]) (auto simp: multi_stale_def)
  next
    case True
    let ?c = "multi_drop_first k e es c"
    have same: "multi_stale ?c now = multi_stale c now"
      by (auto simp: multi_stale_def fun_eq_iff)
    have rm: "multi_removed c k [e] es ?c" using multi_removed_first [OF Suc.prems(1) es] .
    have "multi_rep ?c" "0 < mc_timeout_millisec ?c" "n = length (multi_entries k ?c)"
      using rm Suc.prems(2,3) es by (simp_all add: multi_removed_def entries_drop_first)
    then obtain c' where step:
      "multi_evict_stale n k now (acc @ [le_value e]) ?c =
         Inr ((acc @ [le_value e]) @ map le_value (takeWhile (multi_stale ?c now) (multi_entries k ?c)),
              length (dropWhile (multi_stale ?c now) (multi_entries k ?c)), c')"
      "multi_removed ?c k (takeWhile (multi_stale ?c now) (multi_entries k ?c))
         (dropWhile (multi_stale ?c now) (multi_entries k ?c)) c'"
      using Suc.IH by blast
    have ents: "multi_entries k ?c = es" by (simp add: entries_drop_first)
    show ?thesis
    proof (intro exI [of _ c'] conjI)
      show "multi_removed c k (takeWhile (multi_stale c now) (multi_entries k c))
          (dropWhile (multi_stale c now) (multi_entries k c)) c'"
        using multi_removed_trans [OF rm step(2)] True by (simp add: es ents same)
      have "multi_evict_stale (Suc n) k now acc c = multi_evict_stale n k now (acc @ [le_value e]) ?c"
        using True DeleteFirstEntry_rep [OF Suc.prems(1) es] by (simp add: es multi_stale_def)
      then show "multi_evict_stale (Suc n) k now acc c =
          Inr (acc @ map le_value (takeWhile (multi_stale c now) (multi_entries k c)),
               length (dropWhile (multi_stale c now) (multi_entries k c)), c')"
        using step(1) True by (simp add: es ents same)
    qed
  qed
qed

lemma pop_front_correct:
  assumes "multi_rep c" "multi_entries k c = e # es"
  shows "multi_pop_front k evicted c =
      Inr (\<lparr>evicted_items = evicted, target_item = Some (le_value e)\<rparr>, multi_drop_first k e es c)"
  using DeleteFirstEntry_rep [OF assms] by (simp add: multi_pop_front_def)

lemma multi_GetAndPop_correct:
  assumes inv: "multi_inv c"
  obtains gone rest c' where
    "multi_GetAndPop k now c =
       Inr (\<lparr>evicted_items = map le_value (takeWhile (multi_stale c now) (multi_entries k c)),
             target_item = map_option le_value (find (\<lambda>e. \<not> multi_stale c now e) (multi_entries k c))\<rparr>, c')"
    and "multi_removed c k gone rest c'" "multi_entries k c = gone @ rest"
    and "length gone = min (Suc (length (takeWhile (multi_stale c now) (multi_entries k c))))
           (length (multi_entries k c))"
proof -
  have rep: "multi_rep c" using inv by (simp add: multi_inv_def)
  let ?es = "multi_entries k c" and ?st = "multi_stale c now"
  have find_drop: "find (\<lambda>e. \<not> P e) xs = (case dropWhile P xs of [] \<Rightarrow> None | y # _ \<Rightarrow> Some y)"
    for P and xs :: "'b lru_entry list" by (induction xs) auto
  show ?thesis
  proof (cases "?es")
    case Nil
    then have "map_of (mc_entry_map c) k = None"
      using rep by (auto simp: multi_entries_def multi_rep_def split: option.splits)
    with Nil show ?thesis
      by (intro that [of c "[]" "[]"])
        (use multi_removed_refl [OF rep, of k] in \<open>auto simp: multi_GetAndPop_def\<close>)
  next
    case (Cons e es)
    have mp: "map_of (mc_entry_map c) k = Some ?es"
      using multi_rep_entries(1) [OF rep Cons] Cons by simp
    show ?thesis
    proof (cases "0 < mc_timeout_millisec c")
      case False
      then have "\<not> ?st x" for x by (simp add: multi_stale_def)
      with False Cons mp show ?thesis
        by (intro that [of "multi_drop_first k e es c" "[e]" es])
          (use multi_removed_first [OF rep Cons] pop_front_correct [OF rep Cons]
            in \<open>auto simp: multi_GetAndPop_def\<close>)
    next
      case True
      obtain c' where ev: "multi_evict_stale (length ?es) k now [] c =
          Inr ([] @ map le_value (takeWhile ?st ?es), length (dropWhile ?st ?es), c')"
        and rm: "multi_removed c k (takeWhile ?st ?es) (dropWhile ?st ?es) c'"
        using evict_stale_correct [OF rep True refl] by blast
      show ?thesis
      proof (cases "dropWhile ?st ?es")
        case Nil
        have all: "takeWhile ?st ?es = ?es" using Nil takeWhile_dropWhile_id [of ?st ?es] by simp
        have "min (Suc (length (takeWhile ?st ?es))) (length ?es) = length ?es"
          unfolding all by simp
        moreover have "multi_removed c k ?es [] c'" using rm all Nil by simp
        moreover have "multi_GetAndPop k now c =
            Inr (\<lparr>evicted_items = map le_value (takeWhile ?st ?es), target_item = None\<rparr>, c')"
          using Nil mp True ev by (simp add: multi_GetAndPop_def)
        moreover have "find (\<lambda>e. \<not> ?st e) ?es = None" unfolding find_drop Nil by simp
        ultimately show ?thesis by (intro that [of c' ?es "[]"]) simp_all
      next
        case (Cons f fs)
        have rep': "multi_rep c'" "multi_entries k c' = f # fs"
          using rm Cons by (simp_all add: multi_removed_def)
        have len: "Suc (length (takeWhile ?st ?es)) \<le> length ?es"
          using Cons takeWhile_dropWhile_id [of ?st ?es]
          by (metis Suc_leI length_append length_greater_0_conv less_add_same_cancel1 list.distinct(1))
        show ?thesis
        proof (rule that)
          show "multi_removed c k (takeWhile ?st ?es @ [f]) fs (multi_drop_first k f fs c')"
            using multi_removed_trans [OF rm multi_removed_first [OF rep']] .
          show "?es = (takeWhile ?st ?es @ [f]) @ fs"
            using Cons takeWhile_dropWhile_id [of ?st ?es] by simp
          show "length (takeWhile ?st ?es @ [f]) = min (Suc (length (takeWhile ?st ?es))) (length ?es)"
            using len by simp
        qed (use Cons mp True ev pop_front_correct [OF rep'] in
            \<open>simp add: multi_GetAndPop_def find_drop\<close>)
      qed
    qed
  qed
qed

section \<open>Clearing a range of keys\<close>

lemma nodes_fold_erase:
  "sl_nodes (fold (\<lambda>e. sl_erase (le_iterator e)) es l) =
     filter (\<lambda>n. fst n \<notin> le_iterator ` set es) (sl_nodes l)"
  by (induction es arbitrary: l) (auto simp: conj_commute intro!: filter_cong)

lemma wf_fold_erase: "sl_wf l \<Longrightarrow> sl_wf (fold (\<lambda>e. sl_erase (le_iterator e)) es l)"
  by (induction es arbitrary: l) auto

lemma entries_clear_key:
  "multi_entries j (multi_clear_key k c) = (if j = k then [] else multi_entries j c)"
  by (simp add: multi_entries_def multi_clear_key_def)

lemma clear_key_nodes:
  assumes "multi_rep c"
  shows "sl_nodes (mc_lru_list (multi_clear_key k c)) =
    filter (\<lambda>n. snd n \<noteq> k) (sl_nodes (mc_lru_list c))"
proof -
  let ?l = "mc_lru_list c"
  have wf: "sl_wf ?l" using assms by (simp add: multi_rep_def)
  have "le_iterator ` set (multi_entries k c) = set (key_ids k ?l)"
    using assms unfolding multi_rep_def by (metis list.set_map set_rev)
  moreover have "fst n \<in> set (key_ids k ?l) \<longleftrightarrow> snd n = k" if "n \<in> set (sl_nodes ?l)" for n
    using that sl_wf_unique [OF wf, of "fst n" "snd n"] by (force simp: key_ids_def)
  ultimately show ?thesis
    by (auto simp: multi_clear_key_def nodes_fold_erase intro: filter_cong)
qed

lemma clear_key_removed:
  assumes rep: "multi_rep c" and es: "map_of (mc_entry_map c) k = Some es"
  shows "multi_removed c k es [] (multi_clear_key k c)"
proof -
  let ?l = "mc_lru_list c" and ?c' = "multi_clear_key k c"
  have so: "om_sorted (mc_entry_map c)" and wf: "sl_wf ?l" using rep by (simp_all add: multi_rep_def)
  have ents: "multi_entries k c = es" using es by (simp add: multi_entries_def)
  have ids: "map le_iterator (multi_entries j c) = rev (key_ids j ?l)" for j
    using rep unfolding multi_rep_def by blast
  have "key_ids j (mc_lru_list ?c') = (if j = k then [] else key_ids j ?l)" for j
    by (auto simp: key_ids_def clear_key_nodes [OF rep] intro!: arg_cong [where f = "map fst"] filter_cong)
  then have ids': "map le_iterator (multi_entries j ?c') = rev (key_ids j (mc_lru_list ?c'))" for j
    using ids by (simp add: entries_clear_key)
  have "length es = length (filter (\<lambda>n. snd n = k) (sl_nodes ?l))"
    using arg_cong [OF ids [of k], of length] ents by (simp add: key_ids_def)
  then have tot: "sl_size ?l = length es + sl_size (mc_lru_list ?c')"
    using sum_length_filter_compl [of "\<lambda>n. snd n = k" "sl_nodes ?l"]
    by (simp add: sl_size_def clear_key_nodes [OF rep])
  have "sl_wf (mc_lru_list ?c')" "om_sorted (mc_entry_map ?c')"
      "\<forall>j. map_of (mc_entry_map ?c') j \<noteq> Some []"
      "mc_total_entries_num ?c' = sl_size (mc_lru_list ?c')"
  proof -
    show "sl_wf (mc_lru_list ?c')" using wf by (simp add: multi_clear_key_def wf_fold_erase)
    show "om_sorted (mc_entry_map ?c')" using so by (simp add: multi_clear_key_def om_sorted_delete)
    show "\<forall>j. map_of (mc_entry_map ?c') j \<noteq> Some []"
      using rep by (simp add: multi_rep_def multi_clear_key_def)
    have "mc_total_entries_num ?c' = sl_size ?l - length es"
      using rep ents by (simp add: multi_rep_def multi_clear_key_def)
    then show "mc_total_entries_num ?c' = sl_size (mc_lru_list ?c')" using tot by linarith
  qed
  with ids' have "multi_rep ?c'" unfolding multi_rep_def by blast
  moreover have "mset (multi_all_values c) = mset (map le_value es) + mset (multi_all_values ?c')"
    unfolding multi_all_values_def
    by (subst mset_concat_delete [OF om_sorted_distinct [OF so] es])
      (simp add: multi_clear_key_def)
  moreover have "mc_total_entries_num c = length es + mc_total_entries_num ?c'"
    using rep tot \<open>multi_rep ?c'\<close> by (simp add: multi_rep_def)
  moreover have "mc_max_entries ?c' = mc_max_entries c" "mc_timeout_millisec ?c' = mc_timeout_millisec c"
    by (simp_all add: multi_clear_key_def)
  moreover have "\<forall>j. multi_entries j ?c' = (if j = k then [] else multi_entries j c)"
    by (simp add: entries_clear_key)
  ultimately show ?thesis unfolding multi_removed_def by blast
qed

lemma clear_keys_correct:
  assumes "multi_inv c" "distinct ks" "\<forall>k \<in> set ks. map_of (mc_entry_map c) k \<noteq> None"
  shows "\<exists>c'. multi_clear_keys ks acc c =
      Inr (acc @ concat (map (\<lambda>k. map le_value (multi_entries k c)) ks), c') \<and> multi_inv c' \<and>
    (\<forall>j. multi_entries j c' = (if j \<in> set ks then [] else multi_entries j c)) \<and>
    mset (multi_all_values c) =
      mset (concat (map (\<lambda>k. map le_value (multi_entries k c)) ks)) + mset (multi_all_values c')"
  using assms
proof (induction ks arbitrary: c acc)
  case (Cons k ks)
  then obtain es where es: "map_of (mc_entry_map c) k = Some es" by auto
  have ents: "multi_entries k c = es" using es by (simp add: multi_entries_def)
  let ?c = "multi_clear_key k c"
  have rm: "multi_removed c k es [] ?c"
    using Cons.prems(1) es by (intro clear_key_removed) (simp_all add: multi_inv_def)
  have same: "map (\<lambda>j. map le_value (multi_entries j ?c)) ks = map (\<lambda>j. map le_value (multi_entries j c)) ks"
    using Cons.prems(2) by (auto simp: entries_clear_key)
  have "\<forall>j \<in> set ks. map_of (mc_entry_map ?c) j \<noteq> None"
    using Cons.prems(2,3) by (auto simp: multi_clear_key_def)
  with Cons.IH [OF multi_removed_inv [OF rm Cons.prems(1)], of "acc @ map le_value es"] Cons.prems(2)
  obtain c' where c': "multi_clear_keys ks (acc @ map le_value es) ?c =
      Inr ((acc @ map le_value es) @ concat (map (\<lambda>j. map le_value (multi_entries j ?c)) ks), c')"
    "multi_inv c'" "\<forall>j. multi_entries j c' = (if j \<in> set ks then [] else multi_entries j ?c)"
    "mset (multi_all_values ?c) =
      mset (concat (map (\<lambda>j. map le_value (multi_entries j ?c)) ks)) + mset (multi_all_values c')"
    by auto
  have "multi_clear_keys (k # ks) acc c =
      Inr (acc @ concat (map (\<lambda>k. map le_value (multi_entries k c)) (k # ks)), c')"
    using c'(1) es ents by (simp add: same)
  moreover have "\<forall>j. multi_entries j c' = (if j \<in> set (k # ks) then [] else multi_entries j c)"
    using c'(3) by (simp add: entries_clear_key)
  moreover have "mset (multi_all_values c) =
      mset (concat (map (\<lambda>k. map le_value (multi_entries k c)) (k # ks))) + mset (multi_all_values c')"
    using c'(4) rm ents by (simp add: same multi_removed_def)
  ultimately show ?case using c'(2) by blast
qed simp

lemma multi_range_keys:
  assumes "multi_inv c"
    and "\<And>x y. s \<le> x \<Longrightarrow> \<not> P x \<Longrightarrow> x < y \<Longrightarrow> \<not> P y"
  defines "ks \<equiv> takeWhile P (map fst (om_lower_bound s (mc_entry_map c)))"
  shows "distinct ks" "\<forall>k \<in> set ks. map_of (mc_entry_map c) k \<noteq> None"
    and "set ks = {k. s \<le> k \<and> P k \<and> multi_entries k c \<noteq> []}"
proof -
  have so: "om_sorted (mc_entry_map c)" and ne: "\<And>k. map_of (mc_entry_map c) k \<noteq> Some []"
    using assms(1) by (simp_all add: multi_inv_def multi_rep_def)
  have sl: "sorted_wrt (<) (map fst (om_lower_bound s (mc_entry_map c)))" using so by auto
  have keys: "set (map fst (om_lower_bound s (mc_entry_map c))) =
      {k \<in> fst ` set (mc_entry_map c). s \<le> k}"
    using om_lower_bound_set [OF so, of s] by auto
  have "set ks = {k \<in> set (map fst (om_lower_bound s (mc_entry_map c))). P k}"
    unfolding ks_def using assms(2) by (intro takeWhile_sorted_block [OF sl]) (simp only: keys, blast)
  then have ks: "set ks = {k \<in> dom (map_of (mc_entry_map c)). s \<le> k \<and> P k}"
    unfolding keys by (auto simp: keys_map_of)
  then show "\<forall>k \<in> set ks. map_of (mc_entry_map c) k \<noteq> None" by auto
  have "k \<in> dom (map_of (mc_entry_map c)) \<longleftrightarrow> multi_entries k c \<noteq> []" for k
    using ne by (auto simp: multi_entries_def split: option.splits)
  with ks show "set ks = {k. s \<le> k \<and> P k \<and> multi_entries k c \<noteq> []}" by auto
  show "distinct ks"
    unfolding ks_def using sl by (intro distinct_takeWhile) (simp add: strict_sorted_iff)
qed

lemma multi_GetAndPop_gone:
  assumes "multi_inv c"
  obtains gone rest c' where
    "multi_GetAndPop k now c =
       Inr (\<lparr>evicted_items = map le_value (takeWhile (multi_stale c now) (multi_entries k c)),
             target_item = map_option le_value (find (\<lambda>e. \<not> multi_stale c now e) (multi_entries k c))\<rparr>, c')"
    and "multi_removed c k gone rest c'" "multi_entries k c = gone @ rest"
    and "map le_value gone = map le_value (takeWhile (multi_stale c now) (multi_entries k c)) @
      (case map_option le_value (find (\<lambda>e. \<not> multi_stale c now e) (multi_entries k c)) of
         None \<Rightarrow> [] | Some v \<Rightarrow> [v])"
proof -
  let ?es = "multi_entries k c" and ?st = "multi_stale c now"
  obtain gone rest c' where pop: "multi_GetAndPop k now c =
       Inr (\<lparr>evicted_items = map le_value (takeWhile ?st ?es),
             target_item = map_option le_value (find (\<lambda>e. \<not> ?st e) ?es)\<rparr>, c')"
    and rm: "multi_removed c k gone rest c'" and es: "?es = gone @ rest"
    and len: "length gone = min (Suc (length (takeWhile ?st ?es))) (length ?es)"
    using multi_GetAndPop_correct [OF assms] by metis
  have "gone = take (Suc (length (takeWhile ?st ?es))) ?es" using es len by (simp add: min_def split: if_splits)
  moreover have "take (Suc (length (takeWhile P xs))) xs =
      takeWhile P xs @ (case find (\<lambda>e. \<not> P e) xs of None \<Rightarrow> [] | Some e \<Rightarrow> [e])" for P and xs :: "'b lru_entry list"
    by (induction xs) auto
  ultimately have "map le_value gone = map le_value (takeWhile ?st ?es) @
      (case map_option le_value (find (\<lambda>e. \<not> ?st e) ?es) of None \<Rightarrow> [] | Some v \<Rightarrow> [v])"
    by (simp split: option.splits)
  with pop rm es show ?thesis by (rule that)
qed

lemma multi_clear_range_correct:
  assumes "multi_inv c" and block: "\<And>x y. s \<le> x \<Longrightarrow> \<not> P x \<Longrightarrow> x < y \<Longrightarrow> \<not> P y"
  shows "\<exists>values c'. multi_ClearAndGetValues_from s P c = Inr (values, c') \<and> multi_inv c' \<and>
    (\<forall>j. multi_entries j c' = (if s \<le> j \<and> P j then [] else multi_entries j c)) \<and>
    mset (multi_all_values c) = mset values + mset (multi_all_values c')"
proof -
  let ?ks = "takeWhile P (map fst (om_lower_bound s (mc_entry_map c)))"
  have ks: "distinct ?ks" "\<forall>k \<in> set ?ks. map_of (mc_entry_map c) k \<noteq> None"
    "set ?ks = {k. s \<le> k \<and> P k \<and> multi_entries k c \<noteq> []}"
    by (rule multi_range_keys [where s = s and P = P, OF assms(1)], erule (2) block)+
  obtain c' where c': "multi_clear_keys ?ks [] c =
      Inr ([] @ concat (map (\<lambda>k. map le_value (multi_entries k c)) ?ks), c')" "multi_inv c'"
    "\<forall>j. multi_entries j c' = (if j \<in> set ?ks then [] else multi_entries j c)"
    "mset (multi_all_values c) =
      mset (concat (map (\<lambda>k. map le_value (multi_entries k c)) ?ks)) + mset (multi_all_values c')"
    using clear_keys_correct [OF assms(1) ks(1,2), where acc = "[]"] by auto
  have "multi_entries j c' = (if s \<le> j \<and> P j then [] else multi_entries j c)" for j
    using c'(3) ks(3) by auto
  with c' show ?thesis by (auto simp: multi_ClearAndGetValues_from_def)
qed

section \<open>The debug check holds\<close>

lemma multi_rep_Verify:
  assumes "multi_rep c"
  shows "multi_Verify c"
proof -
  let ?em = "mc_entry_map c" and ?l = "mc_lru_list c"
  have d: "distinct (map fst ?em)" and ne: "\<And>k. map_of ?em k \<noteq> Some []"
    using assms by (simp_all add: multi_rep_def om_sorted_distinct)
  have mp: "map_of ?em k = Some es" if "(k, es) \<in> set ?em" for k es
    using that d by simp
  have len: "length es = length (filter (\<lambda>n. snd n = k) (sl_nodes ?l))" if "(k, es) \<in> set ?em" for k es
  proof -
    have "map le_iterator (multi_entries k c) = rev (key_ids k ?l)"
      using assms unfolding multi_rep_def by blast
    from arg_cong [OF this, of length] show ?thesis
      using mp [OF that] by (simp add: multi_entries_def key_ids_def)
  qed
  have "snd ` set (sl_nodes ?l) \<subseteq> set (map fst ?em)"
  proof
    fix k assume "k \<in> snd ` set (sl_nodes ?l)"
    then have "multi_entries k c \<noteq> []" using node_has_entry [OF assms] by force
    then show "k \<in> set (map fst ?em)"
      by (auto simp: multi_entries_def keys_map_of split: option.splits)
  qed
  from length_by_class [OF d this]
  have "sl_size ?l = sum_list (map (\<lambda>(_, entries). length entries) ?em)"
    using len by (auto simp: sl_size_def comp_def intro!: arg_cong [where f = sum_list])
  moreover have "es \<noteq> []" if "(k, es) \<in> set ?em" for k es using mp [OF that] ne by auto
  ultimately show ?thesis
    using assms by (auto simp: multi_Verify_def multi_rep_def list_all_iff)
qed

lemma multi_ClearAndGetValues_inv [simp]:
  "multi_inv c \<Longrightarrow> multi_inv (snd (multi_ClearAndGetValues c))"
  by (simp add: multi_inv_def multi_rep_def multi_ClearAndGetValues_def multi_entries_def
      key_ids_def sl_size_def sl_wf_def sl_ids_def)

section \<open>Properties\<close>

text \<open>
  No handle is lost or duplicated by an insertion: \<open>Put\<close> never fails an
  assertion, the values in the cache together with the one handed back are the old values
  and the new one, the value handed back is the globally oldest, and the invariant the debug
  check \<open>Verify\<close> inspects holds afterwards.
\<close>

theorem multi_put_conserves:
  assumes "multi_inv c"
  shows "\<exists>evicted c'. multi_Put k v now c = Inr (evicted, c') \<and> multi_inv c' \<and> multi_Verify c' \<and>
    mset (multi_all_values c') + mset (case evicted of None \<Rightarrow> [] | Some x \<Rightarrow> [x]) =
      add_mset v (mset (multi_all_values c)) \<and>
    evicted = (if 0 < mc_max_entries c \<and> mc_max_entries c \<le> mc_total_entries_num c
               then Some (fst (snd (last ((k, v, now) # multi_abs c)))) else None) \<and>
    multi_abs c' = (if evicted = None then (k, v, now) # multi_abs c
                    else butlast ((k, v, now) # multi_abs c))"
proof -
  obtain evicted c' where "multi_Put k v now c = Inr (evicted, c')" "multi_inv c'"
    "multi_abs c' = (if evicted = None then (k, v, now) # multi_abs c
                         else butlast ((k, v, now) # multi_abs c))"
    "evicted = (if 0 < mc_max_entries c \<and> mc_max_entries c \<le> mc_total_entries_num c
                    then Some (fst (snd (last ((k, v, now) # multi_abs c)))) else None)"
    "mset (multi_all_values c') + mset (case evicted of None \<Rightarrow> [] | Some x \<Rightarrow> [x]) =
      add_mset v (mset (multi_all_values c))"
    using multi_Put_correct [OF assms] by metis
  moreover have "multi_Verify c'" using \<open>multi_inv c'\<close> by (intro multi_rep_Verify) (simp add: multi_inv_def)
  ultimately show ?thesis by blast
qed

lemma multi_put_conserves_witness:
  "\<exists>c'. multi_Put (1::nat) ''h'' 4 (multi_new 1 0) = Inr (None, c') \<and> multi_Verify c'"
proof -
  have "mc_total_entries_num (multi_new 1 0 :: (nat, string) multi_state) = 0"
      "mc_max_entries (multi_new 1 0 :: (nat, string) multi_state) = 1" by (simp_all add: multi_new_def)
  then show ?thesis using multi_put_conserves [of "multi_new 1 0" "1::nat" "''h''" 4] by auto
qed

text \<open>
  \<open>GetAndPop\<close> is first in, first out per key: it closes off the stale handles at
  the front, hands out the oldest fresh one, leaves the younger handles of the key and all
  handles of other keys where they are, and loses none.
\<close>

theorem multi_get_and_pop_fifo:
  assumes "multi_inv c"
  shows "\<exists>r c' gone rest. multi_GetAndPop k now c = Inr (r, c') \<and> multi_inv c' \<and>
    evicted_items r = map le_value (takeWhile (multi_stale c now) (multi_entries k c)) \<and>
    target_item r = map_option le_value (find (\<lambda>e. \<not> multi_stale c now e) (multi_entries k c)) \<and>
    multi_entries k c = gone @ rest \<and> multi_entries k c' = rest \<and>
    map le_value gone = evicted_items r @ (case target_item r of None \<Rightarrow> [] | Some v \<Rightarrow> [v]) \<and>
    (\<forall>j. j \<noteq> k \<longrightarrow> multi_entries j c' = multi_entries j c) \<and>
    mset (multi_all_values c) = mset (map le_value gone) + mset (multi_all_values c')"
proof -
  let ?es = "multi_entries k c" and ?st = "multi_stale c now"
  obtain gone rest c' where pop: "multi_GetAndPop k now c =
       Inr (\<lparr>evicted_items = map le_value (takeWhile ?st ?es),
             target_item = map_option le_value (find (\<lambda>e. \<not> ?st e) ?es)\<rparr>, c')"
    and rm: "multi_removed c k gone rest c'" and es: "?es = gone @ rest"
    and gone: "map le_value gone = map le_value (takeWhile ?st ?es) @
      (case map_option le_value (find (\<lambda>e. \<not> ?st e) ?es) of None \<Rightarrow> [] | Some v \<Rightarrow> [v])"
    using multi_GetAndPop_gone [OF assms] by metis
  have "multi_entries k c' = rest" "\<forall>j. j \<noteq> k \<longrightarrow> multi_entries j c' = multi_entries j c"
      "mset (multi_all_values c) = mset (map le_value gone) + mset (multi_all_values c')"
    using rm unfolding multi_removed_def by simp_all
  then show ?thesis
    using pop es gone multi_removed_inv [OF rm assms]
    by (intro exI [of _ "\<lparr>evicted_items = map le_value (takeWhile ?st ?es),
        target_item = map_option le_value (find (\<lambda>e. \<not> ?st e) ?es)\<rparr>"] exI [of _ c'] exI [of _ gone]
        exI [of _ rest] conjI) simp_all
qed

lemma multi_get_and_pop_fifo_witness:
  "\<exists>r c'. multi_GetAndPop (1::nat) 4 (multi_new 1 0) = Inr (r, c') \<and> target_item r = (None :: string option)"
proof -
  have "multi_entries 1 (multi_new 1 0 :: (nat, string) multi_state) = []"
    by (simp add: multi_entries_def multi_new_def)
  then show ?thesis using multi_get_and_pop_fifo [of "multi_new 1 0 :: (nat, string) multi_state" 1 4] by auto
qed

text \<open>
  Clearing from a start key with a filter that selects a contiguous block of keys,
  as the keys of one file are, removes exactly that block, returns exactly its handles, and
  fails no assertion.
\<close>

theorem multi_clear_range:
  assumes "multi_inv c" and "\<forall>x y. s \<le> x \<longrightarrow> \<not> P x \<longrightarrow> x < y \<longrightarrow> \<not> P y"
  shows "\<exists>values c'. multi_ClearAndGetValues_from s P c = Inr (values, c') \<and> multi_inv c' \<and>
    (\<forall>j. multi_entries j c' = (if s \<le> j \<and> P j then [] else multi_entries j c)) \<and>
    mset (multi_all_values c) = mset values + mset (multi_all_values c')"
  using multi_clear_range_correct [OF assms(1), of s P] assms(2) by blast

lemma multi_clear_range_witness:
  "\<exists>values c'. multi_ClearAndGetValues_from 1 (\<lambda>k. k \<le> 3) (multi_new 1 0 :: (nat, string) multi_state) =
     Inr (values, c') \<and> multi_inv c'"
  using multi_clear_range [of "multi_new 1 0 :: (nat, string) multi_state" 1 "\<lambda>k. k \<le> 3"] by auto

end
