(* ===== verification/Get_Or_Create.thy ===== *)
theory Get_Or_Create
  imports Shared_Value_Lru Copiable_Value_Lru
begin

text \<open>
  \<open>GetOrCreate\<close> of the thread-safe LRU caches (\<open>ThreadSafeSharedValueLruCache\<close> and
  \<open>ThreadSafeCopiableValLruCache\<close>): concurrent requests for a missing key run its factory
  once. The mutex makes each critical section one atomic step; the factory runs outside of
  it, and a waiter sleeps on the condition variable of the key's creation token. A step
  relation interleaves any number of threads with each other and with the other operations
  of the cache. Values are non-null pointers.
\<close>

section \<open>State and critical sections\<close>

record 'v creation_token =
  tk_val :: "'v option"
  tk_eptr :: "cpp_error option"
  tk_count :: int

datatype ('k, 'v) goc_phase =
    Idle
  | Creating 'k nat
  | Waiting 'k nat
  | Done 'k "'v result"

record ('k, 'v, 'c) goc_state =
  gs_cache :: 'c
  gs_ongoing :: "'k \<rightharpoonup> nat"
  gs_tokens :: "nat \<Rightarrow> 'v creation_token"
  gs_next :: nat
  gs_threads :: "('k, 'v) goc_phase list"

definition goc_init :: "'c \<Rightarrow> nat \<Rightarrow> ('k, 'v, 'c) goc_state" where
  "goc_init cache n =
     \<lparr>gs_cache = cache, gs_ongoing = Map.empty,
      gs_tokens = (\<lambda>_. \<lparr>tk_val = None, tk_eptr = None, tk_count = 0\<rparr>),
      gs_next = 0, gs_threads = replicate n Idle\<rparr>"

text \<open>The condition the waiters sleep on.\<close>

definition token_ready :: "'v creation_token \<Rightarrow> bool" where
  "token_ready tok \<longleftrightarrow> tk_val tok \<noteq> None \<or> tk_eptr tok \<noteq> None"

definition token_outcome :: "'v creation_token \<Rightarrow> 'v result" where
  "token_outcome tok = (case tk_eptr tok of Some e \<Rightarrow> Inl e | None \<Rightarrow> Inr (the (tk_val tok)))"

text \<open>The first critical section: a hit, joining an ongoing creation, or starting one.\<close>

definition goc_enter ::
  "('k \<Rightarrow> nat \<Rightarrow> 'c \<Rightarrow> 'v option \<times> 'c) \<Rightarrow> 'k \<Rightarrow> nat \<Rightarrow> nat \<Rightarrow> ('k, 'v, 'c) goc_state \<Rightarrow>
   ('k, 'v, 'c) goc_state" where
  "goc_enter get key now i s =
     (let (cached_val, cache') = get key now (gs_cache s);
          s = s\<lparr>gs_cache := cache'\<rparr>
      in case cached_val of
           Some v \<Rightarrow> s\<lparr>gs_threads := (gs_threads s)[i := Done key (Inr v)]\<rparr>
         | None \<Rightarrow>
             (case gs_ongoing s key of
                Some t \<Rightarrow>
                  s\<lparr>gs_tokens := (gs_tokens s)(t := (gs_tokens s t)\<lparr>tk_count := tk_count (gs_tokens s t) + 1\<rparr>),
                    gs_threads := (gs_threads s)[i := Waiting key t]\<rparr>
              | None \<Rightarrow>
                  s\<lparr>gs_ongoing := (gs_ongoing s)(key \<mapsto> gs_next s),
                    gs_tokens := (gs_tokens s)(gs_next s := \<lparr>tk_val = None, tk_eptr = None, tk_count = 1\<rparr>),
                    gs_next := Suc (gs_next s),
                    gs_threads := (gs_threads s)[i := Creating key (gs_next s)]\<rparr>))"

text \<open>\<open>--count\<close>, and the token leaves \<open>ongoing_creation\<close> with its last participant.\<close>

definition goc_release :: "'k \<Rightarrow> nat \<Rightarrow> ('k, 'v, 'c) goc_state \<Rightarrow> ('k, 'v, 'c) goc_state" where
  "goc_release key t s =
     (let n = tk_count (gs_tokens s t) - 1
      in s\<lparr>gs_tokens := (gs_tokens s)(t := (gs_tokens s t)\<lparr>tk_count := n\<rparr>),
           gs_ongoing := (if n = 0 then (gs_ongoing s)(key := None) else gs_ongoing s)\<rparr>)"

text \<open>The second critical section, with the outcome of the factory.\<close>

definition goc_finish ::
  "('k \<Rightarrow> 'v \<Rightarrow> nat \<Rightarrow> 'c \<Rightarrow> 'c) \<Rightarrow> 'k \<Rightarrow> nat \<Rightarrow> 'v result \<Rightarrow> nat \<Rightarrow> nat \<Rightarrow>
   ('k, 'v, 'c) goc_state \<Rightarrow> ('k, 'v, 'c) goc_state" where
  "goc_finish put key t outcome now i s =
     (let s1 = (case outcome of
                  Inr val \<Rightarrow>
                    s\<lparr>gs_cache := put key val now (gs_cache s),
                      gs_tokens := (gs_tokens s)(t := (gs_tokens s t)\<lparr>tk_val := Some val\<rparr>)\<rparr>
                | Inl eptr \<Rightarrow>
                    s\<lparr>gs_tokens := (gs_tokens s)(t := (gs_tokens s t)\<lparr>tk_eptr := Some eptr\<rparr>)\<rparr>);
          s2 = goc_release key t s1
      in s2\<lparr>gs_threads := (gs_threads s2)[i := Done key outcome]\<rparr>)"

text \<open>A waiter that finds the condition true leaves with the token's outcome.\<close>

definition goc_wake :: "'k \<Rightarrow> nat \<Rightarrow> nat \<Rightarrow> ('k, 'v, 'c) goc_state \<Rightarrow> ('k, 'v, 'c) goc_state" where
  "goc_wake key t i s =
     (let s1 = goc_release key t s
      in s1\<lparr>gs_threads := (gs_threads s1)[i := Done key (token_outcome (gs_tokens s t))]\<rparr>)"

definition at_rest :: "('k, 'v) goc_phase \<Rightarrow> bool" where
  "at_rest p \<longleftrightarrow> (case p of Idle \<Rightarrow> True | Done _ _ \<Rightarrow> True | _ \<Rightarrow> False)"

text \<open>
  One step of the system. \<open>fac k\<close> holds of the outcomes the factory for \<open>k\<close> may have, and
  \<open>ops\<close> are the other operations of the cache, each run under the mutex.
\<close>

inductive goc_step ::
  "('k \<Rightarrow> nat \<Rightarrow> 'c \<Rightarrow> 'v option \<times> 'c) \<Rightarrow> ('k \<Rightarrow> 'v \<Rightarrow> nat \<Rightarrow> 'c \<Rightarrow> 'c) \<Rightarrow>
   ('k \<Rightarrow> 'v result \<Rightarrow> bool) \<Rightarrow> ('c \<Rightarrow> 'c) set \<Rightarrow>
   ('k, 'v, 'c) goc_state \<Rightarrow> ('k, 'v, 'c) goc_state \<Rightarrow> bool"
  for get put fac ops where
  step_enter: "i < length (gs_threads s) \<Longrightarrow> at_rest (gs_threads s ! i) \<Longrightarrow>
     goc_step get put fac ops s (goc_enter get key now i s)"
| step_finish: "i < length (gs_threads s) \<Longrightarrow> gs_threads s ! i = Creating key t \<Longrightarrow> fac key outcome \<Longrightarrow>
     goc_step get put fac ops s (goc_finish put key t outcome now i s)"
| step_wake: "i < length (gs_threads s) \<Longrightarrow> gs_threads s ! i = Waiting key t \<Longrightarrow>
     token_ready (gs_tokens s t) \<Longrightarrow> goc_step get put fac ops s (goc_wake key t i s)"
| step_other: "f \<in> ops \<Longrightarrow> goc_step get put fac ops s (s\<lparr>gs_cache := f (gs_cache s)\<rparr>)"

inductive_cases goc_stepE: "goc_step get put fac ops s s'"

section \<open>Participants of a token\<close>

fun joined :: "nat \<Rightarrow> ('k, 'v) goc_phase \<Rightarrow> bool" where
  "joined t (Creating k t') = (t' = t)"
| "joined t (Waiting k t') = (t' = t)"
| "joined t _ = False"

fun creating :: "nat \<Rightarrow> ('k, 'v) goc_phase \<Rightarrow> bool" where
  "creating t (Creating k t') = (t' = t)"
| "creating t _ = False"

fun pending_on :: "('k, 'v) goc_phase \<Rightarrow> ('k \<times> nat) option" where
  "pending_on (Creating k t) = Some (k, t)"
| "pending_on (Waiting k t) = Some (k, t)"
| "pending_on _ = None"

abbreviation num :: "('a \<Rightarrow> bool) \<Rightarrow> 'a list \<Rightarrow> nat" where
  "num P xs \<equiv> length (filter P xs)"

lemma in_set_update: "y \<in> set (xs[i := x]) \<Longrightarrow> y \<in> set xs \<or> y = x"
  using set_update_subset_insert [of xs i x] by blast

lemma num_update:
  "i < length xs \<Longrightarrow> num P (xs[i := y]) + of_bool (P (xs ! i)) = num P xs + of_bool (P y)"
proof (induction xs arbitrary: i)
  case (Cons x xs)
  then show ?case by (cases i) auto
qed simp

lemma num_update_same:
  "i < length xs \<Longrightarrow> P (xs ! i) = P y \<Longrightarrow> num P (xs[i := y]) = num P xs"
  using num_update [of i xs P y] by simp

lemma num_pos: "i < length xs \<Longrightarrow> P (xs ! i) \<Longrightarrow> 0 < num P xs"
  by (auto simp: filter_empty_conv)

text \<open>
  Every thread inside a creation holds the token registered for its key; a registered
  token counts its participants, one of which runs the factory exactly until the outcome
  is there.
\<close>

definition goc_inv :: "('k, 'v, 'c) goc_state \<Rightarrow> bool" where
  "goc_inv s \<longleftrightarrow>
     (\<forall>p k t. p \<in> set (gs_threads s) \<longrightarrow> pending_on p = Some (k, t) \<longrightarrow> gs_ongoing s k = Some t) \<and>
     (\<forall>k t. gs_ongoing s k = Some t \<longrightarrow> t < gs_next s \<and>
        tk_count (gs_tokens s t) = int (num (joined t) (gs_threads s)) \<and>
        0 < num (joined t) (gs_threads s) \<and>
        num (creating t) (gs_threads s) = (if token_ready (gs_tokens s t) then 0 else 1)) \<and>
     inj_on (gs_ongoing s) (dom (gs_ongoing s))"

lemma goc_invI:
  assumes "\<And>p k t. p \<in> set (gs_threads s) \<Longrightarrow> pending_on p = Some (k, t) \<Longrightarrow> gs_ongoing s k = Some t"
    and "\<And>k t. gs_ongoing s k = Some t \<Longrightarrow> t < gs_next s"
    and "\<And>k t. gs_ongoing s k = Some t \<Longrightarrow>
       tk_count (gs_tokens s t) = int (num (joined t) (gs_threads s)) \<and> 0 < num (joined t) (gs_threads s)"
    and "\<And>k t. gs_ongoing s k = Some t \<Longrightarrow>
       num (creating t) (gs_threads s) = (if token_ready (gs_tokens s t) then 0 else 1)"
    and "inj_on (gs_ongoing s) (dom (gs_ongoing s))"
  shows "goc_inv s"
  using assms unfolding goc_inv_def by blast

lemma goc_invD:
  assumes "goc_inv s"
  shows "p \<in> set (gs_threads s) \<Longrightarrow> pending_on p = Some (k, t) \<Longrightarrow> gs_ongoing s k = Some t"
    and "gs_ongoing s k = Some t \<Longrightarrow> t < gs_next s"
    and "gs_ongoing s k = Some t \<Longrightarrow> tk_count (gs_tokens s t) = int (num (joined t) (gs_threads s))"
    and "gs_ongoing s k = Some t \<Longrightarrow> 0 < num (joined t) (gs_threads s)"
    and "gs_ongoing s k = Some t \<Longrightarrow>
      num (creating t) (gs_threads s) = (if token_ready (gs_tokens s t) then 0 else 1)"
    and "gs_ongoing s k = Some t \<Longrightarrow> gs_ongoing s k' = Some t \<Longrightarrow> k = k'"
  using assms unfolding goc_inv_def by (blast, blast, blast, blast, blast, metis domI inj_onD)

lemma goc_inv_init: "goc_inv (goc_init cache n)"
  by (auto simp: goc_inv_def goc_init_def)

section \<open>Every step keeps the invariant\<close>

lemma at_rest_simps: "at_rest p \<Longrightarrow> pending_on p = None \<and> \<not> joined t p \<and> \<not> creating t p"
  by (cases p) (auto simp: at_rest_def)

lemma joined_iff: "joined t p \<longleftrightarrow> (\<exists>k. pending_on p = Some (k, t))"
  by (cases p) auto

lemma creating_joined: "creating t p \<Longrightarrow> joined t p"
  by (cases p) auto

lemma num_none: "(\<And>x. x \<in> set xs \<Longrightarrow> \<not> P x) \<Longrightarrow> num P xs = 0"
  by (induction xs) auto

lemma enter_hit_inv:
  assumes "goc_inv s" "i < length (gs_threads s)" "at_rest (gs_threads s ! i)"
  shows "goc_inv (s\<lparr>gs_cache := c, gs_threads := (gs_threads s)[i := Done k0 r]\<rparr>)"
proof (rule goc_invI, goal_cases)
  case (1 p k t)
  then have "p \<in> set (gs_threads s)" using set_update_subset_insert [of "gs_threads s" i "Done k0 r"] by auto
  with 1 show ?case using goc_invD(1) [OF assms(1)] by simp
next
  case (3 k t)
  then have "gs_ongoing s k = Some t" by simp
  from goc_invD(3,4) [OF assms(1) this] show ?case
    using assms(2,3) by (simp add: num_update_same at_rest_simps)
next
  case (5)
  show ?case using assms(1) by (simp add: goc_inv_def)
qed (use assms in \<open>auto simp: num_update_same at_rest_simps goc_invD\<close>)

lemma enter_wait_inv:
  assumes inv: "goc_inv s" and i: "i < length (gs_threads s)" "at_rest (gs_threads s ! i)"
    and on: "gs_ongoing s k = Some t"
  shows "goc_inv (s\<lparr>gs_cache := c,
      gs_tokens := (gs_tokens s)(t := (gs_tokens s t)\<lparr>tk_count := tk_count (gs_tokens s t) + 1\<rparr>),
      gs_threads := (gs_threads s)[i := Waiting k t]\<rparr>)" (is "goc_inv ?s")
proof (rule goc_invI, goal_cases)
  case (1 p k' t')
  then have "p \<in> insert (Waiting k t) (set (gs_threads s))"
    using set_update_subset_insert [of "gs_threads s" i "Waiting k t"] by auto
  with 1 on show ?case using goc_invD(1) [OF inv] by auto
next
  case (3 k' t')
  have "num (joined t') (gs_threads ?s) = num (joined t') (gs_threads s) + of_bool (t = t')"
    using num_update [OF i(1), of "joined t'" "Waiting k t"] at_rest_simps [OF i(2)] by simp
  with 3 show ?case using goc_invD(3,4) [OF inv, of k' t'] by auto
next
  case (4 k' t')
  have "num (creating t') (gs_threads ?s) = num (creating t') (gs_threads s)"
    using at_rest_simps [OF i(2)] i(1) by (simp add: num_update_same)
  with 4 inv show ?case by (auto simp: goc_invD token_ready_def)
next
  case 5
  show ?case using inv by (simp add: goc_inv_def)
qed (use inv in \<open>auto simp: goc_invD\<close>)

lemma fresh_token_unused:
  assumes "goc_inv s"
  shows "num (joined (gs_next s)) (gs_threads s) = 0" "num (creating (gs_next s)) (gs_threads s) = 0"
    and "gs_ongoing s k \<noteq> Some (gs_next s)"
proof -
  have "\<not> joined (gs_next s) p" if "p \<in> set (gs_threads s)" for p
    using that goc_invD(1,2) [OF assms] by (fastforce simp: joined_iff)
  then have "\<not> joined (gs_next s) p \<and> \<not> creating (gs_next s) p" if "p \<in> set (gs_threads s)" for p
    using that creating_joined by blast
  then show "num (joined (gs_next s)) (gs_threads s) = 0" "num (creating (gs_next s)) (gs_threads s) = 0"
    by (auto simp: filter_empty_conv)
  show "gs_ongoing s k \<noteq> Some (gs_next s)" using goc_invD(2) [OF assms, of k] by auto
qed

lemma enter_create_inv:
  assumes inv: "goc_inv s" and i: "i < length (gs_threads s)" "at_rest (gs_threads s ! i)"
    and on: "gs_ongoing s k = None"
  shows "goc_inv (s\<lparr>gs_cache := c, gs_ongoing := (gs_ongoing s)(k \<mapsto> gs_next s),
      gs_tokens := (gs_tokens s)(gs_next s := \<lparr>tk_val = None, tk_eptr = None, tk_count = 1\<rparr>),
      gs_next := Suc (gs_next s), gs_threads := (gs_threads s)[i := Creating k (gs_next s)]\<rparr>)"
    (is "goc_inv ?s")
proof -
  have nj: "num (joined t) (gs_threads ?s) = num (joined t) (gs_threads s) + of_bool (gs_next s = t)" for t
    using num_update [OF i(1), of "joined t" "Creating k (gs_next s)"] at_rest_simps [OF i(2)] by simp
  have nc: "num (creating t) (gs_threads ?s) = num (creating t) (gs_threads s) + of_bool (gs_next s = t)" for t
    using num_update [OF i(1), of "creating t" "Creating k (gs_next s)"] at_rest_simps [OF i(2)] by simp
  have old: "gs_ongoing s k' = Some t'" "t' \<noteq> gs_next s"
    if "gs_ongoing ?s k' = Some t'" "k' \<noteq> k" for k' t'
    using that fresh_token_unused(3) [OF inv] by auto
  show ?thesis
  proof (rule goc_invI, goal_cases)
    case (1 p k' t')
    then have "p \<in> insert (Creating k (gs_next s)) (set (gs_threads s))"
      using set_update_subset_insert [of "gs_threads s" i "Creating k (gs_next s)"] by auto
    with 1 on show ?case using goc_invD(1) [OF inv] by fastforce
  next
    case (2 k' t')
    then show ?case using goc_invD(2) [OF inv, of k' t'] by (cases "k' = k") auto
  next
    case (3 k' t')
    show ?case
    proof (cases "k' = k")
      case True
      with 3 show ?thesis using nj [of t'] fresh_token_unused(1) [OF inv] by auto
    next
      case False
      from old [OF 3 False] show ?thesis using nj [of t'] goc_invD(3,4) [OF inv] by auto
    qed
  next
    case (4 k' t')
    show ?case
    proof (cases "k' = k")
      case True
      with 4 show ?thesis
        using nc [of t'] fresh_token_unused(2) [OF inv] by (auto simp: token_ready_def)
    next
      case False
      from old [OF 4 False] show ?thesis using nc [of t'] goc_invD(5) [OF inv] by auto
    qed
  next
    case 5
    have "inj_on (gs_ongoing s) (dom (gs_ongoing s))" using inv by (simp add: goc_inv_def)
    then show ?case
      using fresh_token_unused(3) [OF inv] on by (auto simp: inj_on_def dom_def)
  qed
qed

text \<open>Leaving a creation whose outcome is known.\<close>

lemma release_inv:
  assumes inv: "goc_inv s" and i: "i < length (gs_threads s)"
    and pend: "pending_on (gs_threads s ! i) = Some (k, t)"
    and cnt: "tk_count tok = tk_count (gs_tokens s t) - 1" and ready: "token_ready tok"
    and was: "creating t (gs_threads s ! i) \<or> token_ready (gs_tokens s t)"
  shows "goc_inv (s\<lparr>gs_cache := c, gs_tokens := (gs_tokens s)(t := tok),
      gs_ongoing := (if tk_count tok = 0 then (gs_ongoing s)(k := None) else gs_ongoing s),
      gs_threads := (gs_threads s)[i := Done k0 r]\<rparr>)" (is "goc_inv ?s")
proof -
  let ?ps = "gs_threads s" and ?ps' = "(gs_threads s)[i := Done k0 r]"
  have mem: "?ps ! i \<in> set ?ps" using i by simp
  have on: "gs_ongoing s k = Some t" using goc_invD(1) [OF inv mem pend] .
  have jn: "joined t' (?ps ! i) \<longleftrightarrow> t' = t" for t' using pend by (auto simp: joined_iff)
  have nj: "num (joined t') ?ps' + of_bool (t' = t) = num (joined t') ?ps" for t'
    using num_update [OF i, of "joined t'" "Done k0 r"] jn [of t'] by simp
  have nc: "num (creating t) ?ps' = 0"
  proof (cases "creating t (?ps ! i)")
    case True
    then have "num (creating t) ?ps = 1"
      using goc_invD(5) [OF inv on] num_pos [OF i, of "creating t"] by (auto split: if_splits)
    then show ?thesis using num_update [OF i, of "creating t" "Done k0 r"] True by simp
  next
    case False
    with was show ?thesis
      using goc_invD(5) [OF inv on] num_update [OF i, of "creating t" "Done k0 r"] by simp
  qed
  have nc': "num (creating t') ?ps' = num (creating t') ?ps" if "t' \<noteq> t" for t'
    using that jn [of t'] creating_joined [of t' "?ps ! i"] i by (intro num_update_same) auto
  have zero: "tk_count tok = 0 \<longleftrightarrow> num (joined t) ?ps' = 0"
    using cnt goc_invD(3) [OF inv on] nj [of t] by auto
  have still: "gs_ongoing s k' = Some t'" "k' = k \<longleftrightarrow> t' = t"
    if "gs_ongoing ?s k' = Some t'" for k' t'
    using that on goc_invD(6) [OF inv] by (auto split: if_splits)
  show ?thesis
  proof (rule goc_invI, goal_cases)
    case (1 p k' t')
    then have p: "p \<in> set ?ps" and p': "p \<in> set ?ps'"
      using set_update_subset_insert [of ?ps i "Done k0 r"] by auto
    have "gs_ongoing s k' = Some t'" using goc_invD(1) [OF inv p 1(2)] .
    moreover have "k' \<noteq> k" if "tk_count tok = 0"
    proof
      assume "k' = k"
      with \<open>gs_ongoing s k' = Some t'\<close> on 1(2) have "joined t p" by (auto simp: joined_iff)
      with p' have "num (joined t) ?ps' \<noteq> 0" by (auto simp: filter_empty_conv)
      with zero that show False by simp
    qed
    ultimately show ?case by simp
  next
    case (2 k' t')
    then show ?case using still(1) [OF 2] goc_invD(2) [OF inv] by simp
  next
    case (3 k' t')
    show ?case
    proof (cases "t' = t")
      case True
      with 3 still(2) [OF 3] have "tk_count tok \<noteq> 0" by (auto split: if_splits)
      with True zero nj [of t] cnt goc_invD(3) [OF inv on] show ?thesis by simp
    next
      case False
      with still(1) [OF 3] nj [of t'] goc_invD(3,4) [OF inv] show ?thesis by simp
    qed
  next
    case (4 k' t')
    then show ?case
      using nc nc' ready still(1) [OF 4] goc_invD(5) [OF inv] by (cases "t' = t") auto
  next
    case 5
    have "inj_on (gs_ongoing s) (dom (gs_ongoing s))" using inv by (simp add: goc_inv_def)
    then show ?case by (auto simp: inj_on_def dom_def split: if_splits)
  qed
qed

lemma goc_enter_inv:
  assumes "goc_inv s" "i < length (gs_threads s)" "at_rest (gs_threads s ! i)"
  shows "goc_inv (goc_enter get key now i s)"
  using enter_hit_inv [OF assms] enter_wait_inv [OF assms] enter_create_inv [OF assms]
  by (auto simp: goc_enter_def Let_def split: prod.splits option.splits)

lemma goc_finish_inv:
  assumes "goc_inv s" "i < length (gs_threads s)" "gs_threads s ! i = Creating key t"
  shows "goc_inv (goc_finish put key t outcome now i s)"
proof -
  let ?tok = "(case outcome of
      Inr v \<Rightarrow> (gs_tokens s t)\<lparr>tk_val := Some v, tk_count := tk_count (gs_tokens s t) - 1\<rparr>
    | Inl e \<Rightarrow> (gs_tokens s t)\<lparr>tk_eptr := Some e, tk_count := tk_count (gs_tokens s t) - 1\<rparr>)"
  and ?c = "(case outcome of Inr v \<Rightarrow> put key v now (gs_cache s) | Inl e \<Rightarrow> gs_cache s)"
  have "pending_on (gs_threads s ! i) = Some (key, t)" "creating t (gs_threads s ! i)"
    using assms(3) by simp_all
  moreover have "tk_count ?tok = tk_count (gs_tokens s t) - 1" "token_ready ?tok"
    by (auto simp: token_ready_def split: sum.splits)
  ultimately have "goc_inv (s\<lparr>gs_cache := ?c, gs_tokens := (gs_tokens s)(t := ?tok),
      gs_ongoing := (if tk_count ?tok = 0 then (gs_ongoing s)(key := None) else gs_ongoing s),
      gs_threads := (gs_threads s)[i := Done key outcome]\<rparr>)"
    by (intro release_inv [OF assms(1,2)]) auto
  then show ?thesis
    by (cases outcome) (simp_all add: goc_finish_def goc_release_def Let_def split: if_splits)
qed

lemma goc_wake_inv:
  assumes "goc_inv s" "i < length (gs_threads s)" "gs_threads s ! i = Waiting key t"
    and "token_ready (gs_tokens s t)"
  shows "goc_inv (goc_wake key t i s)"
proof -
  let ?tok = "(gs_tokens s t)\<lparr>tk_count := tk_count (gs_tokens s t) - 1\<rparr>"
  have "goc_inv (s\<lparr>gs_cache := gs_cache s, gs_tokens := (gs_tokens s)(t := ?tok),
      gs_ongoing := (if tk_count ?tok = 0 then (gs_ongoing s)(key := None) else gs_ongoing s),
      gs_threads := (gs_threads s)[i := Done key (token_outcome (gs_tokens s t))]\<rparr>)"
    using assms by (intro release_inv [OF assms(1,2)]) (auto simp: token_ready_def)
  then show ?thesis by (simp add: goc_wake_def goc_release_def Let_def)
qed

lemma goc_step_inv:
  assumes "goc_step get put fac ops s s'" "goc_inv s"
  shows "goc_inv s'"
  using assms
proof cases
  case (step_other f)
  with assms(2) show ?thesis by (simp add: goc_inv_def)
qed (use assms(2) in \<open>auto intro: goc_enter_inv goc_finish_inv goc_wake_inv\<close>)

lemma goc_reachable_inv:
  assumes "(goc_step get put fac ops)\<^sup>*\<^sup>* (goc_init cache n) s"
  shows "goc_inv s"
  using assms by (induction rule: rtranclp_induct) (auto intro: goc_inv_init goc_step_inv)

text \<open>At most one thread runs the factory of a key.\<close>

lemma goc_inv_single_flight:
  assumes inv: "goc_inv s" and ij: "i < length (gs_threads s)" "j < length (gs_threads s)"
    and p: "gs_threads s ! i = Creating k t" "gs_threads s ! j = Creating k t'"
  shows "i = j \<and> t = t'"
proof -
  have on: "gs_ongoing s k = Some t" "gs_ongoing s k = Some t'"
    using goc_invD(1) [OF inv] p ij by (metis nth_mem pending_on.simps(1))+
  then have "t = t'" by simp
  moreover have "i = j"
  proof (rule ccontr)
    assume "i \<noteq> j"
    let ?ps = "(gs_threads s)[i := Idle]"
    have "0 < num (creating t) ?ps"
      using ij p \<open>t = t'\<close> \<open>i \<noteq> j\<close> by (intro num_pos [of j]) auto
    moreover have "num (creating t) ?ps + 1 = num (creating t) (gs_threads s)"
      using num_update [OF ij(1), of "creating t" Idle] p(1) by simp
    ultimately show False using goc_invD(5) [OF inv on(1)] by (simp split: if_splits)
  qed
  ultimately show ?thesis by simp
qed

text \<open>A sleeping waiter either can leave or waits for a thread that runs the factory.\<close>

lemma goc_inv_waiter:
  assumes inv: "goc_inv s" and i: "i < length (gs_threads s)" "gs_threads s ! i = Waiting k t"
  shows "token_ready (gs_tokens s t) \<or> (\<exists>j < length (gs_threads s). gs_threads s ! j = Creating k t)"
proof (rule disjCI)
  assume "\<not> (\<exists>j < length (gs_threads s). gs_threads s ! j = Creating k t)"
  moreover have on: "gs_ongoing s k = Some t"
    using goc_invD(1) [OF inv] i by (metis nth_mem pending_on.simps(2))
  moreover have "k' = k" if "j < length (gs_threads s)" "gs_threads s ! j = Creating k' t" for j k'
    using goc_invD(6) [OF inv on] goc_invD(1) [OF inv] that by (metis nth_mem pending_on.simps(1))
  ultimately have "\<not> creating t p" if "p \<in> set (gs_threads s)" for p
    using that by (cases p) (auto simp: in_set_conv_nth)
  then have "num (creating t) (gs_threads s) = 0" by (rule num_none)
  with goc_invD(5) [OF inv on] show "token_ready (gs_tokens s t)" by (auto split: if_splits)
qed

section \<open>The outcome reaches every waiter\<close>

text \<open>An allocated token that has its outcome keeps it.\<close>

definition token_settled :: "nat \<Rightarrow> 'v result \<Rightarrow> ('k, 'v, 'c) goc_state \<Rightarrow> bool" where
  "token_settled t r s \<longleftrightarrow> t < gs_next s \<and> token_ready (gs_tokens s t) \<and> token_outcome (gs_tokens s t) = r"

lemma settled_count_irrelevant [simp]:
  "token_ready (tok\<lparr>tk_count := n\<rparr>) = token_ready tok"
  "token_outcome (tok\<lparr>tk_count := n\<rparr>) = token_outcome tok"
  by (simp_all add: token_ready_def token_outcome_def split: option.splits)

lemma goc_enter_settled: "token_settled t r s \<Longrightarrow> token_settled t r (goc_enter get key now i s)"
  by (auto simp: token_settled_def goc_enter_def Let_def split: prod.splits option.splits)

lemma goc_wake_settled: "token_settled t r s \<Longrightarrow> token_settled t r (goc_wake key t' i s)"
  by (auto simp: token_settled_def goc_wake_def goc_release_def Let_def)

lemma goc_finish_settled_other:
  assumes "token_settled t r s" "t' \<noteq> t"
  shows "token_settled t r (goc_finish put key t' outcome now i s)"
  using assms by (cases outcome) (auto simp: token_settled_def goc_finish_def goc_release_def Let_def)

lemma goc_finish_settles:
  assumes inv: "goc_inv s" and i: "i < length (gs_threads s)" "gs_threads s ! i = Creating key t"
  shows "token_settled t outcome (goc_finish put key t outcome now i s)"
proof -
  have on: "gs_ongoing s key = Some t"
    using goc_invD(1) [OF inv] i by (metis nth_mem pending_on.simps(1))
  have "0 < num (creating t) (gs_threads s)" using i by (intro num_pos) auto
  then have "\<not> token_ready (gs_tokens s t)" using goc_invD(5) [OF inv on] by (auto split: if_splits)
  then show ?thesis
    using goc_invD(2) [OF inv on]
    by (cases outcome) (auto simp: token_settled_def goc_finish_def goc_release_def Let_def
        token_ready_def token_outcome_def)
qed

lemma goc_step_settled:
  assumes "goc_step get put fac ops s s'" "goc_inv s" "token_settled t r s"
  shows "token_settled t r s'"
  using assms(1)
proof cases
  case (step_finish i key t' outcome now)
  have "t' \<noteq> t"
  proof
    assume "t' = t"
    have on: "gs_ongoing s key = Some t'"
      using goc_invD(1) [OF assms(2)] step_finish by (metis nth_mem pending_on.simps(1))
    have "0 < num (creating t') (gs_threads s)" using step_finish by (intro num_pos) auto
    with goc_invD(5) [OF assms(2) on] \<open>t' = t\<close> assms(3) show False by (simp add: token_settled_def)
  qed
  with step_finish assms(3) show ?thesis by (simp add: goc_finish_settled_other)
next
  case (step_other f)
  with assms(3) show ?thesis by (simp add: token_settled_def)
qed (use assms(3) in \<open>auto simp: goc_enter_settled goc_wake_settled\<close>)

lemma goc_steps_settled:
  assumes "(goc_step get put fac ops)\<^sup>*\<^sup>* s s'" "goc_inv s" "token_settled t r s"
  shows "token_settled t r s' \<and> goc_inv s'"
  using assms by (induction rule: rtranclp_induct) (auto intro: goc_step_inv goc_step_settled)

section \<open>Every request returns\<close>

lemma not_at_rest_cases:
  assumes "\<not> at_rest p"
  obtains k t where "p = Creating k t" | k t where "p = Waiting k t"
  using assms by (cases p) (auto simp: at_rest_def)

text \<open>
  As long as a thread is inside \<open>GetOrCreate\<close>, one of them can take a step that lets it
  return: the one that runs a factory, or a waiter whose token is settled.
\<close>

lemma goc_progress:
  assumes inv: "goc_inv s" and fac: "\<forall>k. \<exists>r. fac k r"
    and busy: "i < length (gs_threads s)" "\<not> at_rest (gs_threads s ! i)"
  obtains j s' where "goc_step get put fac ops s s'" "j < length (gs_threads s)"
    "\<not> at_rest (gs_threads s ! j)" "\<exists>k r. gs_threads s' = (gs_threads s)[j := Done k r]"
proof (cases "\<exists>j k t. j < length (gs_threads s) \<and> gs_threads s ! j = Creating k t")
  case True
  then obtain j k t where j: "j < length (gs_threads s)" "gs_threads s ! j = Creating k t" by blast
  obtain r where r: "fac k r" using fac by blast
  have "goc_step get put fac ops s (goc_finish put k t r 0 j s)" using j r by (rule step_finish)
  from this j(1) show ?thesis
    by (rule that) (auto simp: j at_rest_def goc_finish_def goc_release_def Let_def split: sum.splits)
next
  case False
  with busy obtain k t where w: "gs_threads s ! i = Waiting k t" by (blast elim: not_at_rest_cases)
  with goc_inv_waiter [OF inv busy(1) w] False have "token_ready (gs_tokens s t)" by blast
  from step_wake [OF busy(1) w this] busy show ?thesis
    by (rule that) (auto simp: goc_wake_def goc_release_def Let_def)
qed

lemma goc_drain:
  assumes "goc_inv s" "\<forall>k. \<exists>r. fac k r"
  shows "\<exists>s'. (goc_step get put fac ops)\<^sup>*\<^sup>* s s' \<and> list_all at_rest (gs_threads s') \<and> goc_inv s'"
  using assms(1)
proof (induction "num (\<lambda>p. \<not> at_rest p) (gs_threads s)" arbitrary: s rule: less_induct)
  case less
  show ?case
  proof (cases "list_all at_rest (gs_threads s)")
    case True
    with less.prems show ?thesis by blast
  next
    case False
    then obtain i where i: "i < length (gs_threads s)" "\<not> at_rest (gs_threads s ! i)"
      by (auto simp: list_all_length)
    from goc_progress [OF less.prems assms(2) i, of get put ops] obtain j s' k r where
      st: "goc_step get put fac ops s s'" and j: "j < length (gs_threads s)" "\<not> at_rest (gs_threads s ! j)"
      and th: "gs_threads s' = (gs_threads s)[j := Done k r]" by metis
    have "num (\<lambda>p. \<not> at_rest p) (gs_threads s') + 1 = num (\<lambda>p. \<not> at_rest p) (gs_threads s)"
      using num_update [OF j(1), of "\<lambda>p. \<not> at_rest p" "Done k r"] j(2) th by (simp add: at_rest_def)
    with less.hyps [of s'] goc_step_inv [OF st less.prems] obtain s'' where
      "(goc_step get put fac ops)\<^sup>*\<^sup>* s' s''" "list_all at_rest (gs_threads s'')" "goc_inv s''" by auto
    with st show ?thesis by (meson converse_rtranclp_into_rtranclp)
  qed
qed

lemma goc_inv_quiet:
  assumes "goc_inv s" "list_all at_rest (gs_threads s)"
  shows "gs_ongoing s = Map.empty"
proof
  fix k
  have "num (joined t) (gs_threads s) = 0" for t
    using assms(2) by (intro num_none) (auto simp: list_all_iff at_rest_simps)
  with goc_invD(4) [OF assms(1)] show "gs_ongoing s k = None" by (metis less_irrefl not_None_eq)
qed

section \<open>Values come from factories and insertions\<close>

text \<open>What \<open>GetOrCreate\<close> needs of the cache it wraps.\<close>

locale creation_cache =
  fixes get :: "'k \<Rightarrow> nat \<Rightarrow> 'c \<Rightarrow> 'v option \<times> 'c"
    and put :: "'k \<Rightarrow> 'v \<Rightarrow> nat \<Rightarrow> 'c \<Rightarrow> 'c"
    and inv :: "'c \<Rightarrow> bool"
    and entries :: "'c \<Rightarrow> ('k \<times> 'v) set"
  assumes get_keeps: "inv c \<Longrightarrow> get k now c = (r, c') \<Longrightarrow> inv c' \<and> entries c' \<subseteq> entries c"
    and get_found: "inv c \<Longrightarrow> get k now c = (Some v, c') \<Longrightarrow> (k, v) \<in> entries c"
    and put_keeps: "inv c \<Longrightarrow> inv (put k v now c) \<and> entries (put k v now c) \<subseteq> insert (k, v) (entries c)"
begin

definition sound :: "('k \<Rightarrow> 'v \<Rightarrow> bool) \<Rightarrow> ('k, 'v, 'c) goc_state \<Rightarrow> bool" where
  "sound good s \<longleftrightarrow> inv (gs_cache s) \<and> (\<forall>(k, v) \<in> entries (gs_cache s). good k v) \<and>
     (\<forall>k t v. gs_ongoing s k = Some t \<longrightarrow> tk_val (gs_tokens s t) = Some v \<longrightarrow> good k v) \<and>
     (\<forall>k v. Done k (Inr v) \<in> set (gs_threads s) \<longrightarrow> good k v)"

lemma enter_sound:
  assumes "goc_inv s" "sound good s"
  shows "sound good (goc_enter get key now i s)"
proof -
  obtain r c' where g: "get key now (gs_cache s) = (r, c')" by fastforce
  have c': "inv c'" "\<forall>(k, v) \<in> entries c'. good k v"
    using get_keeps [OF _ g] assms(2) by (auto simp: sound_def)
  show ?thesis
  proof (cases r)
    case (Some v)
    then have "good key v" using get_found [of "gs_cache s" key now v c'] g assms(2) by (auto simp: sound_def)
    with Some g c' assms(2) show ?thesis
      using set_update_subset_insert [of "gs_threads s" i "Done key (Inr v)"]
      by (auto simp: goc_enter_def sound_def)
  next
    case None
    have upd: "Done k x \<in> set ((gs_threads s)[i := p]) \<Longrightarrow> (\<And>k x. p \<noteq> Done k x) \<Longrightarrow>
        Done k x \<in> set (gs_threads s)" for k x p
      using set_update_subset_insert [of "gs_threads s" i p] by blast
    show ?thesis
    proof (cases "gs_ongoing s key")
      case on: (Some t)
      with None g c' assms(2) show ?thesis
        by (auto simp: goc_enter_def sound_def dest!: upd split: if_splits)
    next
      case on: None
      have "gs_ongoing s k \<noteq> Some (gs_next s)" for k by (rule fresh_token_unused(3) [OF assms(1)])
      with on None g c' assms(2) show ?thesis
        by (auto simp: goc_enter_def sound_def dest!: upd split: if_splits)
    qed
  qed
qed

lemma finish_sound:
  assumes inv_s: "goc_inv s" and "sound good s" and on: "gs_ongoing s key = Some t"
    and good: "\<And>v. outcome = Inr v \<Longrightarrow> good key v"
  shows "sound good (goc_finish put key t outcome now i s)"
proof -
  have key: "k = key" if "gs_ongoing s k = Some t" for k using goc_invD(6) [OF inv_s that on] .
  show ?thesis
  proof (cases outcome)
    case (Inl e)
    with assms(2) key show ?thesis
      by (auto simp: goc_finish_def goc_release_def sound_def Let_def dest!: in_set_update split: if_splits)
  next
    case (Inr v)
    have "inv (put key v now (gs_cache s))"
        "\<forall>(k, v) \<in> entries (put key v now (gs_cache s)). good k v"
      using put_keeps [of "gs_cache s" key v now] assms(2) good [OF Inr] by (auto simp: sound_def)
    with Inr assms(2) key good [OF Inr] show ?thesis
      by (auto simp: goc_finish_def goc_release_def sound_def Let_def dest!: in_set_update split: if_splits)
  qed
qed

lemma wake_sound:
  assumes inv_s: "goc_inv s" and "sound good s" and on: "gs_ongoing s key = Some t"
    and ready: "token_ready (gs_tokens s t)"
  shows "sound good (goc_wake key t i s)"
proof -
  let ?r = "token_outcome (gs_tokens s t)"
  have good: "good key v" if "?r = Inr v" for v
    using that ready assms(2) on by (auto simp: token_outcome_def token_ready_def sound_def split: option.splits)
  show ?thesis
    using assms(2) good
    by (auto simp: goc_wake_def goc_release_def sound_def Let_def dest!: in_set_update split: if_splits)
qed

lemma step_sound:
  assumes "goc_step get put fac ops s s'" "goc_inv s" "sound good s"
    and "\<And>k v. fac k (Inr v) \<Longrightarrow> good k v"
    and "\<And>f c. f \<in> ops \<Longrightarrow> inv c \<Longrightarrow> (\<forall>(k, v) \<in> entries c. good k v) \<Longrightarrow>
           inv (f c) \<and> (\<forall>(k, v) \<in> entries (f c). good k v)"
  shows "sound good s'"
  using assms(1)
proof cases
  case (step_finish i key t outcome now)
  have "gs_ongoing s key = Some t"
    using goc_invD(1) [OF assms(2)] step_finish by (metis nth_mem pending_on.simps(1))
  with step_finish assms show ?thesis by (auto intro: finish_sound)
next
  case (step_wake i key t)
  have "gs_ongoing s key = Some t"
    using goc_invD(1) [OF assms(2)] step_wake by (metis nth_mem pending_on.simps(2))
  with step_wake assms show ?thesis by (auto intro: wake_sound)
next
  case (step_other f)
  moreover have "inv (gs_cache s)" "\<forall>(k, v) \<in> entries (gs_cache s). good k v"
    using assms(3) unfolding sound_def by blast+
  ultimately show ?thesis using assms(3) assms(5) [of f "gs_cache s"] by (simp add: sound_def)
qed (use assms(2,3) in \<open>auto intro: enter_sound\<close>)

lemma reachable_sound:
  assumes "(goc_step get put fac ops)\<^sup>*\<^sup>* (goc_init cache n) s"
    and "inv cache" "\<forall>(k, v) \<in> entries cache. good k v"
    and "\<And>k v. fac k (Inr v) \<Longrightarrow> good k v"
    and "\<And>f c. f \<in> ops \<Longrightarrow> inv c \<Longrightarrow> (\<forall>(k, v) \<in> entries c. good k v) \<Longrightarrow>
           inv (f c) \<and> (\<forall>(k, v) \<in> entries (f c). good k v)"
  shows "sound good s"
proof -
  have "sound good s \<and> goc_inv s"
    using assms(1)
  proof (induction rule: rtranclp_induct)
    case base
    show ?case using assms(2,3) goc_inv_init by (auto simp: sound_def goc_init_def)
  next
    case (step s s')
    then show ?case using step_sound [OF step.hyps(2)] goc_step_inv assms(4,5) by blast
  qed
  then show ?thesis by simp
qed

end

section \<open>The two thread-safe caches\<close>

definition lru_pairs :: "('k, 'v) lru_model \<Rightarrow> ('k \<times> 'v) set" where
  "lru_pairs xs = {(k, v). \<exists>ts. (k, v, ts) \<in> set xs}"

lemma lru_pairs_delete: "lru_pairs (AList.delete k xs) \<subseteq> lru_pairs xs"
  unfolding lru_pairs_def by (auto simp: AList.delete_eq)

lemma lru_pairs_put: "lru_pairs (spec_put cap k v now xs) \<subseteq> insert (k, v) (lru_pairs xs)"
  using lru_pairs_delete [of k xs]
  by (auto simp: spec_put_def spec_trim_def lru_pairs_def dest!: in_set_butlastD)

lemma lru_pairs_get: "lru_pairs (snd (spec_get t k now xs)) \<subseteq> lru_pairs xs"
  using lru_pairs_delete [of k xs]
  by (auto simp: spec_get_def lru_pairs_def dest!: map_of_SomeD split: option.splits)

lemma lru_pairs_found: "fst (spec_get t k now xs) = Some v \<Longrightarrow> (k, v) \<in> lru_pairs xs"
  by (force simp: spec_get_def lru_pairs_def dest!: map_of_SomeD split: option.splits if_splits)

sublocale lru_cache \<subseteq> goc: creation_cache get put inv "\<lambda>s. lru_pairs (abs s)"
proof (unfold_locales, goal_cases)
  case (1 c k now r c')
  then show ?case using inv_get [of c k now] abs_get(2) [of c k now] lru_pairs_get by force
next
  case (2 c k now v c')
  then show ?case using abs_get(1) [of c k now] lru_pairs_found by force
next
  case (3 c k v now)
  then show ?case
    using inv_put [OF 3] abs_put [OF 3] lru_pairs_put [of "cap c" k v now "abs c"] by simp
qed

text \<open>
  The other members of the two classes, each a call of the wrapped cache under the mutex;
  \<open>puts\<close> restricts what callers insert.
\<close>

definition shared_ops ::
  "('k::linorder \<Rightarrow> 'v \<Rightarrow> bool) \<Rightarrow> (('k, 'v) lru_state \<Rightarrow> ('k, 'v) lru_state) set" where
  "shared_ops puts =
     {shared_Put k v now | k v now. puts k v} \<union> {\<lambda>c. snd (shared_Delete k c) | k. True} \<union>
     {\<lambda>c. snd (shared_Get k now c) | k now. True} \<union> {shared_Clear} \<union>
     {shared_Clear_from k f | k f. True} \<union> {\<lambda>c. snd (shared_Take clk c) | clk. True}"

definition copiable_ops ::
  "('k \<Rightarrow> 'v \<Rightarrow> bool) \<Rightarrow> (('k, 'v) lru_state \<Rightarrow> ('k, 'v) lru_state) set" where
  "copiable_ops puts =
     {copiable_Put k v now | k v now. puts k v} \<union> {\<lambda>c. snd (copiable_Delete k c) | k. True} \<union>
     {\<lambda>c. snd (copiable_Get k now c) | k now. True} \<union> {copiable_Clear} \<union>
     {copiable_Clear_filter f | f. True}"

definition shared_goc_step ::
  "('k::linorder \<Rightarrow> 'v result \<Rightarrow> bool) \<Rightarrow> ('k \<Rightarrow> 'v \<Rightarrow> bool) \<Rightarrow>
   ('k, 'v, ('k, 'v) lru_state) goc_state \<Rightarrow> ('k, 'v, ('k, 'v) lru_state) goc_state \<Rightarrow> bool" where
  "shared_goc_step fac puts = goc_step shared_Get shared_Put fac (shared_ops puts)"

definition copiable_goc_step ::
  "('k \<Rightarrow> 'v result \<Rightarrow> bool) \<Rightarrow> ('k \<Rightarrow> 'v \<Rightarrow> bool) \<Rightarrow>
   ('k, 'v, ('k, 'v) lru_state) goc_state \<Rightarrow> ('k, 'v, ('k, 'v) lru_state) goc_state \<Rightarrow> bool" where
  "copiable_goc_step fac puts = goc_step copiable_Get copiable_Put fac (copiable_ops puts)"

lemma lru_pairs_filter: "lru_pairs (filter P xs) \<subseteq> lru_pairs xs"
  by (auto simp: lru_pairs_def)

lemma shared_Take_inv: "shared_inv c \<Longrightarrow> shared_inv (snd (shared_Take clk c))"
  using shared_Take_loop_correct [of c clk 0]
  by (simp add: shared_inv_def lru_inv_def shared_Take_def sl_size_def)

lemma shared_Take_abs: "shared_inv c \<Longrightarrow> lru_abs (snd (shared_Take clk c)) = []"
  using shared_Take_loop_correct [of c clk 0]
  by (simp add: shared_inv_rep shared_Take_def lru_abs_def)

lemma shared_ops_keep:
  assumes "f \<in> shared_ops puts" "shared_inv c"
  shows "shared_inv (f c) \<and> lru_pairs (lru_abs (f c)) \<subseteq> lru_pairs (lru_abs c) \<union> {(k, v). puts k v}"
proof -
  have put: "shared_inv (shared_Put k v now c)"
      "lru_pairs (lru_abs (shared_Put k v now c)) \<subseteq> insert (k, v) (lru_pairs (lru_abs c))" for k v now
    using shared.goc.put_keeps [OF assms(2)] by blast+
  have del: "lru_pairs (lru_abs (snd (shared_Delete k c))) \<subseteq> lru_pairs (lru_abs c)" for k
    using assms(2) lru_pairs_delete by (simp add: shared.abs_del spec_delete_def)
  have get: "lru_pairs (lru_abs (snd (shared_Get k now c))) \<subseteq> lru_pairs (lru_abs c)" for k now
    using assms(2) lru_pairs_get by (simp add: shared.abs_get)
  have clear: "lru_pairs (lru_abs (shared_Clear_from k g c)) \<subseteq> lru_pairs (lru_abs c)"
    and inv_clear: "shared_inv (shared_Clear_from k g c)" for k g
    using assms(2) lru_pairs_filter by (simp_all add: shared_Clear_from_def shared_delete_keys)
  have take: "lru_pairs (lru_abs (snd (shared_Take clk c))) = {}" for clk
    using shared_Take_abs [OF assms(2)] by (simp add: lru_pairs_def)
  have clr: "lru_pairs (lru_abs (shared_Clear c)) = {}" by (simp add: lru_pairs_def)
  show ?thesis
    using assms put(1) take clr
    by (auto simp: shared_ops_def shared.inv_del shared.inv_get shared_Take_inv inv_clear
        dest: put(2) [THEN subsetD] del [THEN subsetD] get [THEN subsetD] clear [THEN subsetD])
qed

lemma copiable_Clear_inv: "lru_inv c \<Longrightarrow> lru_inv (copiable_Clear c)"
  by (simp add: lru_inv_def lru_rep_def copiable_Clear_def lru_agree_def sl_wf_def sl_ids_def sl_size_def)

lemma copiable_ops_keep:
  assumes "f \<in> copiable_ops puts" "lru_inv c"
  shows "lru_inv (f c) \<and> lru_pairs (lru_abs (f c)) \<subseteq> lru_pairs (lru_abs c) \<union> {(k, v). puts k v}"
proof -
  have put: "lru_inv (copiable_Put k v now c)"
      "lru_pairs (lru_abs (copiable_Put k v now c)) \<subseteq> insert (k, v) (lru_pairs (lru_abs c))" for k v now
    using copiable.goc.put_keeps [OF assms(2)] by blast+
  have del: "lru_pairs (lru_abs (snd (copiable_Delete k c))) \<subseteq> lru_pairs (lru_abs c)" for k
    using assms(2) lru_pairs_delete by (simp add: copiable.abs_del spec_delete_def)
  have get: "lru_pairs (lru_abs (snd (copiable_Get k now c))) \<subseteq> lru_pairs (lru_abs c)" for k now
    using assms(2) lru_pairs_get by (simp add: copiable.abs_get)
  have clear: "lru_inv (copiable_Clear_filter g c)"
      "lru_pairs (lru_abs (copiable_Clear_filter g c)) \<subseteq> lru_pairs (lru_abs c)" for g
    using copiable_delete_keys [OF assms(2)] lru_pairs_filter
    by (simp_all add: copiable_Clear_filter_abs [OF assms(2)]) (simp add: copiable_Clear_filter_def)
  have clr: "lru_pairs (lru_abs (copiable_Clear c)) = {}" by (simp add: lru_pairs_def)
  show ?thesis
    using assms put(1) clear(1) clr
    by (auto simp: copiable_ops_def copiable.inv_del copiable.inv_get copiable_Clear_inv
        dest: put(2) [THEN subsetD] del [THEN subsetD] get [THEN subsetD] clear(2) [THEN subsetD])
qed

section \<open>Properties\<close>

text \<open>
  Property C11. Single flight: however the threads interleave, with each other and with the
  other operations of the cache, at most one thread runs the factory of a key.
\<close>

theorem goc_single_flight:
  assumes "(goc_step get put fac ops)\<^sup>*\<^sup>* (goc_init cache n) s"
    and "i < length (gs_threads s)" "gs_threads s ! i = Creating k t"
    and "j < length (gs_threads s)" "gs_threads s ! j = Creating k t'"
  shows "i = j"
  using goc_inv_single_flight [OF goc_reachable_inv [OF assms(1)]] assms(2-) by blast

definition example_goc :: "(nat, string, (nat, string) lru_state) goc_state" where
  "example_goc =
     goc_enter shared_Get 7 0 1 (goc_enter shared_Get 7 0 0 (goc_init (lru_new 2 0) 3))"

lemma example_goc_reachable:
  "(goc_step shared_Get shared_Put fac ops)\<^sup>*\<^sup>* (goc_init (lru_new 2 0) 3) example_goc"
proof -
  let ?s0 = "goc_init (lru_new 2 0) 3"
  have "goc_step shared_Get shared_Put fac ops ?s0 (goc_enter shared_Get 7 0 0 ?s0)"
    by (rule step_enter) (simp_all add: goc_init_def at_rest_def)
  moreover have "goc_step shared_Get shared_Put fac ops (goc_enter shared_Get 7 0 0 ?s0) example_goc"
    unfolding example_goc_def
    by (rule step_enter)
      (simp_all add: goc_init_def goc_enter_def shared_Get_def lru_new_def at_rest_def numeral_3_eq_3)
  ultimately show ?thesis by (meson rtranclp.rtrancl_into_rtrancl rtranclp.rtrancl_refl)
qed

lemma example_goc_threads: "gs_threads example_goc = [Creating 7 0, Waiting 7 0, Idle]"
  by (simp add: example_goc_def goc_init_def goc_enter_def shared_Get_def lru_new_def numeral_3_eq_3)

lemma goc_single_flight_witness:
  "gs_threads example_goc ! 0 = Creating 7 0 \<and> (0::nat) = 0"
  using goc_single_flight [OF example_goc_reachable [of "\<lambda>_ _. True" "{}"], of 0 7 0 0 0]
  by (simp add: example_goc_threads)

text \<open>
  Property C12. Whatever the factory of a key comes to, a value or an exception, reaches the
  thread that ran it and every thread that waits for it, even when other operations touch
  the cache in between: once the creating thread has published an outcome, a thread that
  still waits on that creation in any later state can leave, and leaves with this outcome.
\<close>

theorem goc_waiters_get_outcome:
  assumes "(goc_step get put fac ops)\<^sup>*\<^sup>* (goc_init cache n) s"
    and "i < length (gs_threads s)" "gs_threads s ! i = Creating k t"
    and "(goc_step get put fac ops)\<^sup>*\<^sup>* (goc_finish put k t outcome now i s) s'"
    and "j < length (gs_threads s')" "gs_threads s' ! j = Waiting k' t"
  shows "gs_threads (goc_finish put k t outcome now i s) ! i = Done k outcome \<and>
    token_ready (gs_tokens s' t) \<and> gs_threads (goc_wake k' t j s') ! j = Done k' outcome"
proof -
  let ?s1 = "goc_finish put k t outcome now i s"
  have inv: "goc_inv s" using goc_reachable_inv [OF assms(1)] .
  have "token_settled t outcome s'"
    using goc_steps_settled [OF assms(4)] goc_finish_inv [OF inv assms(2,3)]
      goc_finish_settles [OF inv assms(2,3)] by blast
  with assms show ?thesis
    by (simp add: token_settled_def goc_wake_def goc_release_def goc_finish_def Let_def
        split: sum.splits)
qed

lemma goc_waiters_get_outcome_witness:
  "gs_threads (goc_wake 7 0 1 (goc_finish shared_Put 7 0 (Inr ''v'') 5 0 example_goc)) ! 1 =
     Done 7 (Inr ''v'')"
  using goc_waiters_get_outcome [OF example_goc_reachable [of "\<lambda>_ _. True" "{}"], of 0 7 0
      "Inr ''v''" 5 "goc_finish shared_Put 7 0 (Inr ''v'') 5 0 example_goc" 1 7]
  by (simp add: example_goc_threads goc_finish_def goc_release_def Let_def)



definition example_fac :: "nat \<Rightarrow> nat result \<Rightarrow> bool" where
  "example_fac k r \<longleftrightarrow> r = Inr (Suc k)"

text \<open>
  A value \<open>GetOrCreate\<close> of the shared-value cache returns for a key was made by
  the key's factory or inserted under the key by \<open>Put\<close>.
\<close>

theorem shared_goc_values:
  assumes "(shared_goc_step fac puts)\<^sup>*\<^sup>* (goc_init (lru_new m timeout) n) s"
    and "Done k (Inr v) \<in> set (gs_threads s)"
  shows "fac k (Inr v) \<or> puts k v"
proof -
  let ?good = "\<lambda>k v. fac k (Inr v) \<or> puts k v"
  have "shared.goc.sound ?good s"
  proof (rule shared.goc.reachable_sound)
    show "(goc_step shared_Get shared_Put fac (shared_ops puts))\<^sup>*\<^sup>* (goc_init (lru_new m timeout) n) s"
      using assms(1) by (simp add: shared_goc_step_def)
    show "shared_inv (f c) \<and> (\<forall>(k, v) \<in> lru_pairs (lru_abs (f c)). ?good k v)"
      if "f \<in> shared_ops puts" "shared_inv c" "\<forall>(k, v) \<in> lru_pairs (lru_abs c). ?good k v" for f c
      using shared_ops_keep [OF that(1,2)] that(3) by fast
  qed (auto simp: lru_pairs_def)
  with assms(2) show ?thesis unfolding shared.goc.sound_def by blast
qed

lemma shared_goc_values_witness:
  "\<exists>s. (shared_goc_step example_fac (\<lambda>_ _. False))\<^sup>*\<^sup>* (goc_init (lru_new 2 0) 1) s \<and>
    Done 7 (Inr 8) \<in> set (gs_threads s) \<and> (example_fac 7 (Inr 8) \<or> False)"
proof -
  let ?s0 = "goc_init (lru_new 2 0) 1"
  let ?s1 = "goc_enter shared_Get 7 0 0 ?s0"
  let ?s2 = "goc_finish shared_Put 7 0 (Inr 8) 0 0 ?s1"
  have "shared_goc_step example_fac (\<lambda>_ _. False) ?s0 ?s1"
    unfolding shared_goc_step_def by (rule step_enter) (simp_all add: goc_init_def at_rest_def)
  moreover have "shared_goc_step example_fac (\<lambda>_ _. False) ?s1 ?s2"
    unfolding shared_goc_step_def
    by (rule step_finish) (simp_all add: goc_init_def goc_enter_def shared_Get_def lru_new_def example_fac_def)
  ultimately have reach: "(shared_goc_step example_fac (\<lambda>_ _. False))\<^sup>*\<^sup>* ?s0 ?s2"
    by (meson rtranclp.rtrancl_into_rtrancl rtranclp.rtrancl_refl)
  have don: "Done 7 (Inr 8) \<in> set (gs_threads ?s2)"
    by (simp add: goc_finish_def goc_release_def goc_init_def goc_enter_def shared_Get_def
        lru_new_def Let_def)
  show ?thesis using reach don shared_goc_values [OF reach don] by blast
qed

text \<open>
  The same of the copiable-value cache, which backs the file-handle metadata.
\<close>

theorem copiable_goc_values:
  assumes "(copiable_goc_step fac puts)\<^sup>*\<^sup>* (goc_init (lru_new m timeout) n) s"
    and "Done k (Inr v) \<in> set (gs_threads s)"
  shows "fac k (Inr v) \<or> puts k v"
proof -
  let ?good = "\<lambda>k v. fac k (Inr v) \<or> puts k v"
  have "copiable.goc.sound ?good s"
  proof (rule copiable.goc.reachable_sound)
    show "(goc_step copiable_Get copiable_Put fac (copiable_ops puts))\<^sup>*\<^sup>* (goc_init (lru_new m timeout) n) s"
      using assms(1) by (simp add: copiable_goc_step_def)
    show "lru_inv (f c) \<and> (\<forall>(k, v) \<in> lru_pairs (lru_abs (f c)). ?good k v)"
      if "f \<in> copiable_ops puts" "lru_inv c" "\<forall>(k, v) \<in> lru_pairs (lru_abs c). ?good k v" for f c
      using copiable_ops_keep [OF that(1,2)] that(3) by fast
  qed (auto simp: lru_pairs_def)
  with assms(2) show ?thesis unfolding copiable.goc.sound_def by blast
qed

lemma copiable_goc_values_witness:
  "\<exists>s. (copiable_goc_step example_fac (\<lambda>_ _. False))\<^sup>*\<^sup>* (goc_init (lru_new 2 0) 1) s \<and>
    Done 7 (Inr 8) \<in> set (gs_threads s) \<and> (example_fac 7 (Inr 8) \<or> False)"
proof -
  let ?s0 = "goc_init (lru_new 2 0) 1"
  let ?s1 = "goc_enter copiable_Get 7 0 0 ?s0"
  let ?s2 = "goc_finish copiable_Put 7 0 (Inr 8) 0 0 ?s1"
  have "copiable_goc_step example_fac (\<lambda>_ _. False) ?s0 ?s1"
    unfolding copiable_goc_step_def by (rule step_enter) (simp_all add: goc_init_def at_rest_def)
  moreover have "copiable_goc_step example_fac (\<lambda>_ _. False) ?s1 ?s2"
    unfolding copiable_goc_step_def
    by (rule step_finish) (simp_all add: goc_init_def goc_enter_def copiable_Get_def lru_new_def example_fac_def)
  ultimately have reach: "(copiable_goc_step example_fac (\<lambda>_ _. False))\<^sup>*\<^sup>* ?s0 ?s2"
    by (meson rtranclp.rtrancl_into_rtrancl rtranclp.rtrancl_refl)
  have don: "Done 7 (Inr 8) \<in> set (gs_threads ?s2)"
    by (simp add: goc_finish_def goc_release_def goc_init_def goc_enter_def copiable_Get_def
        lru_new_def Let_def)
  show ?thesis using reach don copiable_goc_values [OF reach don] by blast
qed

end
