(* ===== verification/Counter.thy ===== *)
theory Counter
  imports Prelude
begin

text \<open>
  \<open>Counter\<close> (\<open>src/utils/include/counter.hpp\<close>): a map from keys to positive counts, used to
  count the open handles of a file. A count is a C++ \<open>unsigned\<close>, 32 bits wide.
\<close>

definition U32 :: nat where
  "U32 = 4294967296"

type_synonym 'k counter = "('k \<times> nat) list"

definition counter_GetCount :: "'k \<Rightarrow> 'k counter \<Rightarrow> nat" where
  "counter_GetCount key c = (case map_of c key of None \<Rightarrow> 0 | Some n \<Rightarrow> n)"

definition counter_Increment :: "'k \<Rightarrow> 'k counter \<Rightarrow> nat \<times> 'k counter" where
  "counter_Increment key c =
     (let new_count = (counter_GetCount key c + 1) mod U32
      in (new_count, AList.update key new_count c))"

definition counter_Decrement :: "'k \<Rightarrow> 'k counter \<Rightarrow> (nat \<times> 'k counter) result" where
  "counter_Decrement key c =
     (case map_of c key of
        None \<Rightarrow> Inl (AssertionFailure ''iter != counter.end()'')
      | Some n \<Rightarrow>
          (let new_count = (n + (U32 - 1)) mod U32
           in Inr (new_count,
                   if new_count = 0 then AList.delete key c else AList.update key new_count c)))"

text \<open>No key is kept with a count of zero, and no count exceeds its width.\<close>

definition counter_inv :: "'k counter \<Rightarrow> bool" where
  "counter_inv c \<longleftrightarrow> distinct (map fst c) \<and> (\<forall>k n. map_of c k = Some n \<longrightarrow> 0 < n \<and> n < U32)"

lemma counter_inv_Nil [simp]: "counter_inv []"
  by (simp add: counter_inv_def)

lemma counter_Increment_correct:
  assumes "counter_inv c" "counter_GetCount k c + 1 < U32"
  shows "counter_inv (snd (counter_Increment k c))"
    and "fst (counter_Increment k c) = counter_GetCount k c + 1"
    and "counter_GetCount j (snd (counter_Increment k c)) =
      counter_GetCount j c + (if j = k then 1 else 0)"
  using assms
  by (auto simp: counter_Increment_def counter_inv_def counter_GetCount_def Let_def
      intro: distinct_update)

lemma counter_Decrement_correct:
  assumes "counter_inv c" "0 < counter_GetCount k c"
  obtains c' where "counter_Decrement k c = Inr (counter_GetCount k c - 1, c')" "counter_inv c'"
    "\<And>j. counter_GetCount j c' = counter_GetCount j c - (if j = k then 1 else 0)"
proof -
  obtain n where n: "map_of c k = Some n" "0 < n" "n < U32"
    using assms by (auto simp: counter_GetCount_def counter_inv_def split: option.splits)
  let ?c = "if n - 1 = 0 then AList.delete k c else AList.update k (n - 1) c"
  have "(n + (U32 - 1)) mod U32 = n - 1"
  proof -
    have "n + (U32 - 1) = (n - 1) + U32" using n by (simp add: U32_def)
    then have "(n + (U32 - 1)) mod U32 = (n - 1 + U32) mod U32" by (rule arg_cong)
    also have "\<dots> = (n - 1) mod U32" by (rule mod_add_self2)
    also have "\<dots> = n - 1" using n by simp
    finally show ?thesis .
  qed
  then have "counter_Decrement k c = Inr (n - 1, ?c)"
    using n by (simp add: counter_Decrement_def Let_def)
  moreover have "counter_inv ?c"
    using assms(1) n less_trans [of "n - 1" n U32]
    by (auto simp: counter_inv_def simp del: map_of_eq_Some_iff intro: distinct_delete distinct_update)
  moreover have "counter_GetCount j ?c = counter_GetCount j c - (if j = k then 1 else 0)" for j
    using n by (auto simp: counter_GetCount_def)
  ultimately show ?thesis using that [of ?c] n(1) by (simp add: counter_GetCount_def)
qed

text \<open>
  Balanced use: incrementing a key and decrementing it again leaves every
  count as it was, and never fails; the key is gone again when its count was zero.
\<close>

theorem counter_balanced:
  assumes "counter_inv c" "counter_GetCount k c + 1 < U32"
  shows "\<exists>c'. counter_Decrement k (snd (counter_Increment k c)) = Inr (counter_GetCount k c, c') \<and>
    counter_inv c' \<and> (\<forall>j. counter_GetCount j c' = counter_GetCount j c) \<and>
    (counter_GetCount k c = 0 \<longrightarrow> map_of c' k = None)"
proof -
  note inc = counter_Increment_correct [OF assms]
  have "0 < counter_GetCount k (snd (counter_Increment k c))" using inc(3) [of k] by simp
  then obtain c' where dec:
    "counter_Decrement k (snd (counter_Increment k c)) =
       Inr (counter_GetCount k (snd (counter_Increment k c)) - 1, c')"
    "counter_inv c'"
    "\<And>j. counter_GetCount j c' =
       counter_GetCount j (snd (counter_Increment k c)) - (if j = k then 1 else 0)"
    using counter_Decrement_correct [OF inc(1)] by blast
  then have c': "counter_Decrement k (snd (counter_Increment k c)) = Inr (counter_GetCount k c, c')"
    "counter_inv c'" "\<And>j. counter_GetCount j c' = counter_GetCount j c"
    using inc(3) by simp_all
  moreover have "map_of c' k = None" if "counter_GetCount k c = 0"
    using c'(2) c'(3) [of k] that
    by (auto simp: counter_inv_def counter_GetCount_def split: option.splits)
  ultimately show ?thesis by (intro exI [of _ c']) simp
qed

lemma counter_balanced_witness:
  "\<exists>c'. counter_Decrement ''f'' (snd (counter_Increment ''f'' [(''g'', 2)])) = Inr (0, c') \<and>
    map_of c' ''f'' = None"
proof -
  have "counter_inv [(''g'', 2)]" by (auto simp: counter_inv_def U32_def split: if_splits)
  moreover have "counter_GetCount ''f'' [(''g'', 2)] = 0" by (simp add: counter_GetCount_def)
  ultimately show ?thesis
    using counter_balanced [of "[(''g'', 2)]" "''f''"] by (auto simp: U32_def)
qed

end
