(* ===== verification/Eviction_Policy.thy ===== *)
theory Eviction_Policy
  imports Std_List
begin

text \<open>
  The eviction policies of the byte-bounded block cache (\<open>src/include/policy\<close>): LRU, FIFO,
  MRU and CLOCK, each a list of keys with an index from keys to list nodes, and the
  dispatch by name. The locale \<open>eviction_policy\<close> is the interface
  \<open>PolicyDataCacheStorage\<close> relies on; it is interpreted on the dispatch.
\<close>

section \<open>The list-based policies\<close>

record 'k list_policy =
  lp_order :: "'k std_list"
  lp_index :: "('k \<times> nat) list"

definition list_policy_new :: "'k list_policy" where
  "list_policy_new = \<lparr>lp_order = sl_empty, lp_index = []\<rparr>"

definition LruPolicy_OnHit :: "'k \<Rightarrow> 'k list_policy \<Rightarrow> 'k list_policy" where
  "LruPolicy_OnHit key p =
     (case map_of (lp_index p) key of
        None \<Rightarrow> p
      | Some it \<Rightarrow> p\<lparr>lp_order := sl_splice_front it (lp_order p)\<rparr>)"

definition list_policy_push :: "'k \<Rightarrow> 'k list_policy \<Rightarrow> 'k list_policy" where
  "list_policy_push key p =
     \<lparr>lp_order = sl_push_front key (lp_order p),
      lp_index = AList.update key (sl_fresh (lp_order p)) (lp_index p)\<rparr>"

definition LruPolicy_OnInsert :: "'k \<Rightarrow> 'k list_policy \<Rightarrow> 'k list_policy" where
  "LruPolicy_OnInsert key p =
     (case map_of (lp_index p) key of
        Some it \<Rightarrow> p\<lparr>lp_order := sl_splice_front it (lp_order p)\<rparr>
      | None \<Rightarrow> list_policy_push key p)"

definition LruPolicy_OnErase :: "'k \<Rightarrow> 'k list_policy \<Rightarrow> 'k list_policy" where
  "LruPolicy_OnErase key p =
     (case map_of (lp_index p) key of
        None \<Rightarrow> p
      | Some it \<Rightarrow> \<lparr>lp_order = sl_erase it (lp_order p), lp_index = AList.delete key (lp_index p)\<rparr>)"

definition LruPolicy_PopVictim :: "'k list_policy \<Rightarrow> 'k option \<times> 'k list_policy" where
  "LruPolicy_PopVictim p =
     (case sl_back (lp_order p) of
        None \<Rightarrow> (None, p)
      | Some victim \<Rightarrow>
          (Some victim, \<lparr>lp_order = sl_pop_back (lp_order p), lp_index = AList.delete victim (lp_index p)\<rparr>))"

definition LruPolicy_Clear :: "'k list_policy \<Rightarrow> 'k list_policy" where
  "LruPolicy_Clear p = \<lparr>lp_order = (lp_order p)\<lparr>sl_nodes := []\<rparr>, lp_index = []\<rparr>"

text \<open>FIFO: a hit and a repeated insertion change nothing.\<close>

definition FifoPolicy_OnHit :: "'k \<Rightarrow> 'k list_policy \<Rightarrow> 'k list_policy" where
  "FifoPolicy_OnHit key p = p"

definition FifoPolicy_OnInsert :: "'k \<Rightarrow> 'k list_policy \<Rightarrow> 'k list_policy" where
  "FifoPolicy_OnInsert key p =
     (if map_of (lp_index p) key \<noteq> None then p else list_policy_push key p)"

definition FifoPolicy_OnErase :: "'k \<Rightarrow> 'k list_policy \<Rightarrow> 'k list_policy" where
  "FifoPolicy_OnErase key p =
     (case map_of (lp_index p) key of
        None \<Rightarrow> p
      | Some it \<Rightarrow> \<lparr>lp_order = sl_erase it (lp_order p), lp_index = AList.delete key (lp_index p)\<rparr>)"

definition FifoPolicy_PopVictim :: "'k list_policy \<Rightarrow> 'k option \<times> 'k list_policy" where
  "FifoPolicy_PopVictim p =
     (case sl_back (lp_order p) of
        None \<Rightarrow> (None, p)
      | Some victim \<Rightarrow>
          (Some victim, \<lparr>lp_order = sl_pop_back (lp_order p), lp_index = AList.delete victim (lp_index p)\<rparr>))"

text \<open>MRU: the order of LRU, evicted from the front.\<close>

definition MruPolicy_OnHit :: "'k \<Rightarrow> 'k list_policy \<Rightarrow> 'k list_policy" where
  "MruPolicy_OnHit key p =
     (case map_of (lp_index p) key of
        None \<Rightarrow> p
      | Some it \<Rightarrow> p\<lparr>lp_order := sl_splice_front it (lp_order p)\<rparr>)"

definition MruPolicy_OnInsert :: "'k \<Rightarrow> 'k list_policy \<Rightarrow> 'k list_policy" where
  "MruPolicy_OnInsert key p =
     (case map_of (lp_index p) key of
        Some it \<Rightarrow> p\<lparr>lp_order := sl_splice_front it (lp_order p)\<rparr>
      | None \<Rightarrow> list_policy_push key p)"

definition MruPolicy_OnErase :: "'k \<Rightarrow> 'k list_policy \<Rightarrow> 'k list_policy" where
  "MruPolicy_OnErase key p =
     (case map_of (lp_index p) key of
        None \<Rightarrow> p
      | Some it \<Rightarrow> \<lparr>lp_order = sl_erase it (lp_order p), lp_index = AList.delete key (lp_index p)\<rparr>)"

definition MruPolicy_PopVictim :: "'k list_policy \<Rightarrow> 'k option \<times> 'k list_policy" where
  "MruPolicy_PopVictim p =
     (case sl_front (lp_order p) of
        None \<Rightarrow> (None, p)
      | Some victim \<Rightarrow>
          (Some victim, \<lparr>lp_order = sl_pop_front (lp_order p), lp_index = AList.delete victim (lp_index p)\<rparr>))"

section \<open>The CLOCK policy\<close>

record 'k clock_entry =
  ce_key :: 'k
  ce_referenced :: bool

record 'k clock_policy =
  cp_ring :: "'k clock_entry std_list"
  cp_hand :: list_iterator
  cp_index :: "('k \<times> nat) list"

definition clock_policy_new :: "'k clock_policy" where
  "clock_policy_new = \<lparr>cp_ring = sl_empty, cp_hand = None, cp_index = []\<rparr>"

definition clock_set_referenced :: "nat \<Rightarrow> bool \<Rightarrow> 'k clock_entry std_list \<Rightarrow> 'k clock_entry std_list" where
  "clock_set_referenced it b ring =
     (case sl_deref it ring of None \<Rightarrow> ring | Some e \<Rightarrow> sl_assign it (e\<lparr>ce_referenced := b\<rparr>) ring)"

definition ClockPolicy_OnHit :: "'k \<Rightarrow> 'k clock_policy \<Rightarrow> 'k clock_policy" where
  "ClockPolicy_OnHit key p =
     (case map_of (cp_index p) key of
        None \<Rightarrow> p
      | Some it \<Rightarrow> p\<lparr>cp_ring := clock_set_referenced it True (cp_ring p)\<rparr>)"

definition ClockPolicy_OnInsert :: "'k \<Rightarrow> 'k clock_policy \<Rightarrow> 'k clock_policy" where
  "ClockPolicy_OnInsert key p =
     (if map_of (cp_index p) key \<noteq> None then p
      else p\<lparr>cp_ring := sl_insert (cp_hand p) \<lparr>ce_key = key, ce_referenced = False\<rparr> (cp_ring p),
             cp_index := AList.update key (sl_fresh (cp_ring p)) (cp_index p)\<rparr>)"

definition ClockPolicy_Advance :: "'k clock_entry std_list \<Rightarrow> nat \<Rightarrow> list_iterator" where
  "ClockPolicy_Advance ring it =
     (if sl_nodes ring = [] then None
      else case sl_next it ring of None \<Rightarrow> sl_begin ring | Some j \<Rightarrow> Some j)"

definition ClockPolicy_OnErase :: "'k \<Rightarrow> 'k clock_policy \<Rightarrow> 'k clock_policy" where
  "ClockPolicy_OnErase key p =
     (case map_of (cp_index p) key of
        None \<Rightarrow> p
      | Some it \<Rightarrow>
          (let hand = (if cp_hand p = Some it then ClockPolicy_Advance (cp_ring p) it else cp_hand p);
               ring = sl_erase it (cp_ring p)
           in \<lparr>cp_ring = ring, cp_hand = (if sl_nodes ring = [] then None else hand),
               cp_index = AList.delete key (cp_index p)\<rparr>))"

text \<open>
  The sweep of \<open>PopVictim\<close>; the first argument counts the remaining iterations. A hand that
  points at no node cannot be dereferenced; the invariant excludes it.
\<close>

fun ClockPolicy_sweep :: "nat \<Rightarrow> 'k clock_policy \<Rightarrow> 'k option \<times> 'k clock_policy" where
  "ClockPolicy_sweep 0 p = (None, p)"
| "ClockPolicy_sweep (Suc guard) p =
     (case cp_hand p of
        None \<Rightarrow> (None, p)
      | Some it \<Rightarrow>
          (case sl_deref it (cp_ring p) of
             None \<Rightarrow> (None, p)
           | Some e \<Rightarrow>
               if \<not> ce_referenced e
               then (let ring = sl_erase it (cp_ring p);
                         hand = (case sl_next it (cp_ring p) of None \<Rightarrow> sl_begin ring | Some j \<Rightarrow> Some j)
                     in (Some (ce_key e),
                         \<lparr>cp_ring = ring, cp_hand = hand, cp_index = AList.delete (ce_key e) (cp_index p)\<rparr>))
               else (let ring = clock_set_referenced it False (cp_ring p)
                     in ClockPolicy_sweep guard
                          (p\<lparr>cp_ring := ring, cp_hand := ClockPolicy_Advance ring it\<rparr>))))"

definition ClockPolicy_PopVictim :: "'k clock_policy \<Rightarrow> 'k option \<times> 'k clock_policy" where
  "ClockPolicy_PopVictim p =
     (if sl_nodes (cp_ring p) = [] then (None, p)
      else (let hand = (case cp_hand p of None \<Rightarrow> sl_begin (cp_ring p) | Some i \<Rightarrow> Some i)
            in ClockPolicy_sweep (sl_size (cp_ring p) * 2 + 1) (p\<lparr>cp_hand := hand\<rparr>)))"

definition ClockPolicy_Clear :: "'k clock_policy \<Rightarrow> 'k clock_policy" where
  "ClockPolicy_Clear p =
     \<lparr>cp_ring = (cp_ring p)\<lparr>sl_nodes := []\<rparr>, cp_hand = None, cp_index = []\<rparr>"

section \<open>Dispatch\<close>

datatype 'k policy =
    LruPolicy "'k list_policy"
  | FifoPolicy "'k list_policy"
  | ClockPolicy "'k clock_policy"
  | MruPolicy "'k list_policy"

fun OnHit :: "'k \<Rightarrow> 'k policy \<Rightarrow> 'k policy" where
  "OnHit key (LruPolicy p) = LruPolicy (LruPolicy_OnHit key p)"
| "OnHit key (FifoPolicy p) = FifoPolicy (FifoPolicy_OnHit key p)"
| "OnHit key (ClockPolicy p) = ClockPolicy (ClockPolicy_OnHit key p)"
| "OnHit key (MruPolicy p) = MruPolicy (MruPolicy_OnHit key p)"

fun OnInsert :: "'k \<Rightarrow> 'k policy \<Rightarrow> 'k policy" where
  "OnInsert key (LruPolicy p) = LruPolicy (LruPolicy_OnInsert key p)"
| "OnInsert key (FifoPolicy p) = FifoPolicy (FifoPolicy_OnInsert key p)"
| "OnInsert key (ClockPolicy p) = ClockPolicy (ClockPolicy_OnInsert key p)"
| "OnInsert key (MruPolicy p) = MruPolicy (MruPolicy_OnInsert key p)"

fun OnErase :: "'k \<Rightarrow> 'k policy \<Rightarrow> 'k policy" where
  "OnErase key (LruPolicy p) = LruPolicy (LruPolicy_OnErase key p)"
| "OnErase key (FifoPolicy p) = FifoPolicy (FifoPolicy_OnErase key p)"
| "OnErase key (ClockPolicy p) = ClockPolicy (ClockPolicy_OnErase key p)"
| "OnErase key (MruPolicy p) = MruPolicy (MruPolicy_OnErase key p)"

fun PopVictim :: "'k policy \<Rightarrow> 'k option \<times> 'k policy" where
  "PopVictim (LruPolicy p) = map_prod id LruPolicy (LruPolicy_PopVictim p)"
| "PopVictim (FifoPolicy p) = map_prod id FifoPolicy (FifoPolicy_PopVictim p)"
| "PopVictim (ClockPolicy p) = map_prod id ClockPolicy (ClockPolicy_PopVictim p)"
| "PopVictim (MruPolicy p) = map_prod id MruPolicy (MruPolicy_PopVictim p)"

fun policy_Clear :: "'k policy \<Rightarrow> 'k policy" where
  "policy_Clear (LruPolicy p) = LruPolicy (LruPolicy_Clear p)"
| "policy_Clear (FifoPolicy p) = FifoPolicy (LruPolicy_Clear p)"
| "policy_Clear (ClockPolicy p) = ClockPolicy (ClockPolicy_Clear p)"
| "policy_Clear (MruPolicy p) = MruPolicy (LruPolicy_Clear p)"

fun GetName :: "'k policy \<Rightarrow> string" where
  "GetName (LruPolicy _) = ''lru''"
| "GetName (FifoPolicy _) = ''fifo''"
| "GetName (ClockPolicy _) = ''clock''"
| "GetName (MruPolicy _) = ''mru''"

text \<open>Admission control: none of the four policies overrides the default.\<close>

definition Admit :: "'k policy \<Rightarrow> nat \<Rightarrow> bool" where
  "Admit p sz = True"

definition IsValidEvictionPolicy :: "string \<Rightarrow> bool" where
  "IsValidEvictionPolicy name \<longleftrightarrow>
     name = ''lru'' \<or> name = ''fifo'' \<or> name = ''clock'' \<or> name = ''mru''"

definition CreateEvictionPolicy :: "string \<Rightarrow> 'k policy result" where
  "CreateEvictionPolicy name =
     (if name = ''lru'' then Inr (LruPolicy list_policy_new)
      else if name = ''fifo'' then Inr (FifoPolicy list_policy_new)
      else if name = ''clock'' then Inr (ClockPolicy clock_policy_new)
      else if name = ''mru'' then Inr (MruPolicy list_policy_new)
      else Inl (InvalidInputException ''Unknown eviction policy''))"

section \<open>Index and list agree\<close>

definition index_agree :: "('a \<Rightarrow> 'k) \<Rightarrow> ('k \<rightharpoonup> nat) \<Rightarrow> 'a std_list \<Rightarrow> bool" where
  "index_agree key idx l \<longleftrightarrow> sl_wf l \<and>
     (\<forall>i x. (i, x) \<in> set (sl_nodes l) \<longrightarrow> idx (key x) = Some i) \<and>
     (\<forall>k i. idx k = Some i \<longrightarrow> (\<exists>x. (i, x) \<in> set (sl_nodes l) \<and> key x = k))"

lemma index_agreeD:
  assumes "index_agree key idx l"
  shows "sl_wf l" "n \<in> set (sl_nodes l) \<Longrightarrow> idx (key (snd n)) = Some (fst n)"
    and "idx k = Some i \<Longrightarrow> \<exists>x. (i, x) \<in> set (sl_nodes l) \<and> key x = k"
  using assms unfolding index_agree_def by (blast, metis prod.collapse, blast)

lemma index_agree_empty [simp]: "index_agree key Map.empty (l\<lparr>sl_nodes := []\<rparr>)"
  by (simp add: index_agree_def sl_wf_def sl_ids_def)

lemma index_agree_new [simp]: "index_agree key Map.empty sl_empty"
  by (simp add: index_agree_def)

lemma index_agree_keys:
  assumes "index_agree key idx l"
  shows "key ` set (sl_items l) = dom idx"
  using index_agreeD(2,3) [OF assms] by (force simp: sl_items_def)

lemma index_agree_distinct:
  assumes "index_agree key idx l"
  shows "distinct (map key (sl_items l))"
proof -
  have "inj_on (\<lambda>n. key (snd n)) (set (sl_nodes l))"
  proof (rule inj_onI)
    fix m n assume mn: "m \<in> set (sl_nodes l)" "n \<in> set (sl_nodes l)" "key (snd m) = key (snd n)"
    with index_agreeD(2) [OF assms] have "fst m = fst n" by (metis option.inject)
    with mn sl_wf_unique [OF index_agreeD(1) [OF assms]] show "m = n" by (metis prod.collapse)
  qed
  moreover have "distinct (sl_nodes l)"
    using index_agreeD(1) [OF assms] by (simp add: sl_wf_def sl_ids_def distinct_map)
  ultimately show ?thesis by (simp add: sl_items_def distinct_map comp_def)
qed

text \<open>Iterators of the index name the node that holds the key.\<close>

lemma index_agree_node:
  assumes "index_agree key idx l" "idx k = Some i" "n \<in> set (sl_nodes l)"
  shows "fst n = i \<longleftrightarrow> key (snd n) = k"
proof
  assume "fst n = i"
  obtain x where x: "(i, x) \<in> set (sl_nodes l)" "key x = k"
    using index_agreeD(3) [OF assms(1,2)] by blast
  have "(i, snd n) \<in> set (sl_nodes l)" using assms(3) \<open>fst n = i\<close> by (metis prod.collapse)
  with x show "key (snd n) = k" using sl_wf_unique [OF index_agreeD(1) [OF assms(1)]] by metis
next
  assume "key (snd n) = k"
  with assms(2) index_agreeD(2) [OF assms(1,3)] show "fst n = i" by simp
qed

lemma index_agree_insert:
  assumes "index_agree key idx l" "idx (key x) = None" "sl_wf l'"
    and "set (sl_nodes l') = insert (sl_fresh l, x) (set (sl_nodes l))"
  shows "index_agree key (idx(key x \<mapsto> sl_fresh l)) l'"
  unfolding index_agree_def
proof (intro conjI allI impI)
  fix i y assume "(i, y) \<in> set (sl_nodes l')"
  then show "(idx(key x \<mapsto> sl_fresh l)) (key y) = Some i"
    using assms(2,4) index_agreeD(2) [OF assms(1), of "(i, y)"] by (cases "key y = key x") auto
next
  fix k i assume "(idx(key x \<mapsto> sl_fresh l)) k = Some i"
  then show "\<exists>y. (i, y) \<in> set (sl_nodes l') \<and> key y = k"
    using assms(4) index_agreeD(3) [OF assms(1), of k i] by (cases "k = key x") auto
qed (rule assms(3))

lemma index_agree_erase:
  assumes "index_agree key idx l" "idx k = Some i"
  shows "index_agree key (idx(k := None)) (sl_erase i l)"
    and "sl_items (sl_erase i l) = filter (\<lambda>x. key x \<noteq> k) (sl_items l)"
proof -
  have eq: "filter (\<lambda>n. fst n \<noteq> i) (sl_nodes l) = filter (\<lambda>n. key (snd n) \<noteq> k) (sl_nodes l)"
    by (rule filter_cong [OF refl]) (simp add: index_agree_node [OF assms])
  show "sl_items (sl_erase i l) = filter (\<lambda>x. key x \<noteq> k) (sl_items l)"
    by (simp add: sl_items_def eq filter_map comp_def)
  have nodes: "sl_nodes (sl_erase i l) = filter (\<lambda>n. key (snd n) \<noteq> k) (sl_nodes l)" by (simp add: eq)
  show "index_agree key (idx(k := None)) (sl_erase i l)"
    unfolding index_agree_def nodes
  proof (intro conjI allI impI)
    fix j y assume "(j, y) \<in> set (filter (\<lambda>n. key (snd n) \<noteq> k) (sl_nodes l))"
    then show "(idx(k := None)) (key y) = Some j" using index_agreeD(2) [OF assms(1), of "(j, y)"] by auto
  next
    fix j k' assume "(idx(k := None)) k' = Some j"
    then show "\<exists>y. (j, y) \<in> set (filter (\<lambda>n. key (snd n) \<noteq> k) (sl_nodes l)) \<and> key y = k'"
      using index_agreeD(3) [OF assms(1), of k' j] by (auto split: if_splits)
  qed (use index_agreeD(1) [OF assms(1)] in blast)
qed

lemma index_agree_splice:
  assumes "index_agree key idx l" "idx k = Some i"
  shows "index_agree key idx (sl_splice_front i l)"
    and "sl_items (sl_splice_front i l) =
      filter (\<lambda>x. key x = k) (sl_items l) @ filter (\<lambda>x. key x \<noteq> k) (sl_items l)"
proof -
  have eq: "filter (\<lambda>n. fst n \<noteq> i) (sl_nodes l) = filter (\<lambda>n. key (snd n) \<noteq> k) (sl_nodes l)"
      "filter (\<lambda>n. fst n = i) (sl_nodes l) = filter (\<lambda>n. key (snd n) = k) (sl_nodes l)"
    by (rule filter_cong [OF refl], simp add: index_agree_node [OF assms])+
  then show "sl_items (sl_splice_front i l) =
      filter (\<lambda>x. key x = k) (sl_items l) @ filter (\<lambda>x. key x \<noteq> k) (sl_items l)"
    by (simp add: sl_items_def filter_map comp_def)
  have "set (sl_nodes (sl_splice_front i l)) = set (sl_nodes l)" by auto
  with assms(1) show "index_agree key idx (sl_splice_front i l)"
    unfolding index_agree_def by auto
qed

text \<open>Popping an end of the list is erasing its node.\<close>

lemma erase_only:
  assumes "sl_wf l" "sl_nodes l = xs @ n # ys"
  shows "sl_erase (fst n) l = l\<lparr>sl_nodes := xs @ ys\<rparr>"
proof -
  have "distinct (map fst (xs @ (fst n, snd n) # ys))"
    using assms by (simp add: sl_wf_def sl_ids_def)
  from filter_node_split(1) [OF this] assms(2) show ?thesis by (simp add: sl_erase_def)
qed

lemma index_agree_drop:
  assumes "index_agree key idx l" "sl_nodes l = xs @ n # ys"
  shows "index_agree key (idx(key (snd n) := None)) (l\<lparr>sl_nodes := xs @ ys\<rparr>)"
proof -
  have "idx (key (snd n)) = Some (fst n)" using index_agreeD(2) [OF assms(1)] assms(2) by simp
  from index_agree_erase(1) [OF assms(1) this] show ?thesis
    by (simp add: erase_only [OF index_agreeD(1) [OF assms(1)] assms(2)])
qed

section \<open>What the list-based policies do\<close>

definition list_policy_inv :: "'k list_policy \<Rightarrow> bool" where
  "list_policy_inv p \<longleftrightarrow> index_agree (\<lambda>k. k) (map_of (lp_index p)) (lp_order p)"

definition list_policy_items :: "'k list_policy \<Rightarrow> 'k list" where
  "list_policy_items p = sl_items (lp_order p)"

definition move_front :: "'k \<Rightarrow> 'k list \<Rightarrow> 'k list" where
  "move_front k xs = k # filter (\<lambda>x. x \<noteq> k) xs"

lemma list_policy_distinct: "list_policy_inv p \<Longrightarrow> distinct (list_policy_items p)"
  unfolding list_policy_inv_def list_policy_items_def by (drule index_agree_distinct) simp

lemma list_policy_index:
  "list_policy_inv p \<Longrightarrow> map_of (lp_index p) k \<noteq> None \<longleftrightarrow> k \<in> set (list_policy_items p)"
  unfolding list_policy_inv_def list_policy_items_def by (drule index_agree_keys) (auto simp: domIff)

lemma list_policy_new_inv [simp]: "list_policy_inv list_policy_new" "list_policy_items list_policy_new = []"
  by (simp_all add: list_policy_inv_def list_policy_new_def list_policy_items_def sl_items_def)

lemma list_policy_push_correct:
  assumes "list_policy_inv p" "k \<notin> set (list_policy_items p)"
  shows "list_policy_inv (list_policy_push k p)"
    and "list_policy_items (list_policy_push k p) = k # list_policy_items p"
proof -
  have none: "map_of (lp_index p) k = None" using list_policy_index [OF assms(1)] assms(2) by blast
  have ia: "index_agree (\<lambda>k. k) (map_of (lp_index p)) (lp_order p)"
    using assms(1) by (simp add: list_policy_inv_def)
  show "list_policy_inv (list_policy_push k p)"
    using index_agree_insert [OF ia none, of "sl_push_front k (lp_order p)"] index_agreeD(1) [OF ia]
    by (auto simp: list_policy_inv_def list_policy_push_def)
  show "list_policy_items (list_policy_push k p) = k # list_policy_items p"
    by (simp add: list_policy_items_def list_policy_push_def sl_items_def)
qed

lemma filter_eq_distinct: "distinct xs \<Longrightarrow> k \<in> set xs \<Longrightarrow> filter (\<lambda>x. x = k) xs = [k]"
  by (induction xs) (auto simp: filter_empty_conv)

lemma LruPolicy_OnHit_correct:
  assumes "list_policy_inv p"
  shows "list_policy_inv (LruPolicy_OnHit k p)"
    and "list_policy_items (LruPolicy_OnHit k p) =
      (if k \<in> set (list_policy_items p) then move_front k (list_policy_items p) else list_policy_items p)"
proof -
  have ia: "index_agree (\<lambda>k. k) (map_of (lp_index p)) (lp_order p)"
    using assms by (simp add: list_policy_inv_def)
  show "list_policy_inv (LruPolicy_OnHit k p)"
    using ia index_agree_splice(1) [OF ia]
    by (auto simp: LruPolicy_OnHit_def list_policy_inv_def split: option.splits)
  show "list_policy_items (LruPolicy_OnHit k p) =
      (if k \<in> set (list_policy_items p) then move_front k (list_policy_items p) else list_policy_items p)"
  proof (cases "map_of (lp_index p) k")
    case None
    with list_policy_index [OF assms, of k] show ?thesis by (simp add: LruPolicy_OnHit_def)
  next
    case (Some i)
    with list_policy_index [OF assms, of k] have k: "k \<in> set (list_policy_items p)" by simp
    from index_agree_splice(2) [OF ia Some] filter_eq_distinct [OF list_policy_distinct [OF assms] k] k Some
    show ?thesis by (simp add: LruPolicy_OnHit_def list_policy_items_def move_front_def)
  qed
qed

lemma LruPolicy_OnInsert_correct:
  assumes "list_policy_inv p"
  shows "list_policy_inv (LruPolicy_OnInsert k p)"
    and "list_policy_items (LruPolicy_OnInsert k p) = move_front k (list_policy_items p)"
proof -
  have "LruPolicy_OnInsert k p = (if k \<in> set (list_policy_items p) then LruPolicy_OnHit k p else list_policy_push k p)"
    using list_policy_index [OF assms, of k]
    by (auto simp: LruPolicy_OnInsert_def LruPolicy_OnHit_def split: option.splits)
  moreover have "filter (\<lambda>x. x \<noteq> k) (list_policy_items p) = list_policy_items p"
    if "k \<notin> set (list_policy_items p)" using that by (auto intro!: filter_True)
  ultimately show "list_policy_inv (LruPolicy_OnInsert k p)"
    "list_policy_items (LruPolicy_OnInsert k p) = move_front k (list_policy_items p)"
    using LruPolicy_OnHit_correct [OF assms, of k] list_policy_push_correct [OF assms, of k]
    by (auto simp: move_front_def)
qed

lemma LruPolicy_OnErase_correct:
  assumes "list_policy_inv p"
  shows "list_policy_inv (LruPolicy_OnErase k p)"
    and "list_policy_items (LruPolicy_OnErase k p) = filter (\<lambda>x. x \<noteq> k) (list_policy_items p)"
proof -
  have ia: "index_agree (\<lambda>k. k) (map_of (lp_index p)) (lp_order p)"
    using assms by (simp add: list_policy_inv_def)
  have "filter (\<lambda>x. x \<noteq> k) (list_policy_items p) = list_policy_items p" if "map_of (lp_index p) k = None"
    using that list_policy_index [OF assms, of k] by (auto intro!: filter_True)
  then show "list_policy_inv (LruPolicy_OnErase k p)"
    "list_policy_items (LruPolicy_OnErase k p) = filter (\<lambda>x. x \<noteq> k) (list_policy_items p)"
    using assms index_agree_erase [OF ia]
    by (auto simp: LruPolicy_OnErase_def list_policy_inv_def list_policy_items_def split: option.splits)
qed

lemma LruPolicy_PopVictim_correct:
  assumes "list_policy_inv p"
  shows "list_policy_inv (snd (LruPolicy_PopVictim p))"
    and "fst (LruPolicy_PopVictim p) =
      (if list_policy_items p = [] then None else Some (last (list_policy_items p)))"
    and "list_policy_items (snd (LruPolicy_PopVictim p)) = butlast (list_policy_items p)"
proof -
  have ia: "index_agree (\<lambda>k. k) (map_of (lp_index p)) (lp_order p)"
    using assms by (simp add: list_policy_inv_def)
  have "list_policy_inv (snd (LruPolicy_PopVictim p))" if "sl_nodes (lp_order p) = ns @ [n]" for ns n
    using index_agree_drop [OF ia, of ns n "[]"] that
    by (simp add: LruPolicy_PopVictim_def sl_back_def list_policy_inv_def sl_pop_back_def)
  then show "list_policy_inv (snd (LruPolicy_PopVictim p))"
    using assms by (cases "sl_nodes (lp_order p)" rule: rev_cases) (auto simp: LruPolicy_PopVictim_def sl_back_def)
  show "fst (LruPolicy_PopVictim p) =
      (if list_policy_items p = [] then None else Some (last (list_policy_items p)))"
    "list_policy_items (snd (LruPolicy_PopVictim p)) = butlast (list_policy_items p)"
    by (cases "sl_nodes (lp_order p)" rule: rev_cases;
        simp add: LruPolicy_PopVictim_def sl_back_def list_policy_items_def sl_items_def)+
qed

lemma MruPolicy_PopVictim_correct:
  assumes "list_policy_inv p"
  shows "list_policy_inv (snd (MruPolicy_PopVictim p))"
    and "fst (MruPolicy_PopVictim p) =
      (if list_policy_items p = [] then None else Some (hd (list_policy_items p)))"
    and "list_policy_items (snd (MruPolicy_PopVictim p)) = tl (list_policy_items p)"
proof -
  have ia: "index_agree (\<lambda>k. k) (map_of (lp_index p)) (lp_order p)"
    using assms by (simp add: list_policy_inv_def)
  have "list_policy_inv (snd (MruPolicy_PopVictim p))" if "sl_nodes (lp_order p) = n # ns" for ns n
    using index_agree_drop [OF ia, of "[]" n ns] that
    by (simp add: MruPolicy_PopVictim_def sl_front_def list_policy_inv_def sl_pop_front_def)
  then show "list_policy_inv (snd (MruPolicy_PopVictim p))"
    using assms by (cases "sl_nodes (lp_order p)") (auto simp: MruPolicy_PopVictim_def sl_front_def)
  show "fst (MruPolicy_PopVictim p) =
      (if list_policy_items p = [] then None else Some (hd (list_policy_items p)))"
    "list_policy_items (snd (MruPolicy_PopVictim p)) = tl (list_policy_items p)"
    by (cases "sl_nodes (lp_order p)";
        simp add: MruPolicy_PopVictim_def sl_front_def list_policy_items_def sl_items_def)+
qed

lemma FifoPolicy_OnInsert_correct:
  assumes "list_policy_inv p"
  shows "list_policy_inv (FifoPolicy_OnInsert k p)"
    and "list_policy_items (FifoPolicy_OnInsert k p) =
      (if k \<in> set (list_policy_items p) then list_policy_items p else k # list_policy_items p)"
  using list_policy_index [OF assms, of k] assms list_policy_push_correct [OF assms, of k]
  by (auto simp: FifoPolicy_OnInsert_def)

text \<open>The members the three classes share textually.\<close>

lemma shared_members:
  "FifoPolicy_OnErase = LruPolicy_OnErase" "FifoPolicy_PopVictim = LruPolicy_PopVictim"
  "MruPolicy_OnHit = LruPolicy_OnHit" "MruPolicy_OnInsert = LruPolicy_OnInsert"
  "MruPolicy_OnErase = LruPolicy_OnErase"
  by (simp_all add: fun_eq_iff FifoPolicy_OnErase_def LruPolicy_OnErase_def FifoPolicy_PopVictim_def
      LruPolicy_PopVictim_def MruPolicy_OnHit_def LruPolicy_OnHit_def MruPolicy_OnInsert_def
      LruPolicy_OnInsert_def MruPolicy_OnErase_def)

lemma LruPolicy_Clear_correct:
  "list_policy_inv (LruPolicy_Clear p)" "list_policy_items (LruPolicy_Clear p) = []"
  by (simp_all add: LruPolicy_Clear_def list_policy_inv_def list_policy_items_def sl_items_def)

section \<open>CLOCK is the second-chance queue\<close>

text \<open>
  Read from the hand around the ring, the entries form a queue of keys with their reference
  bits. A hit sets a bit, an insertion appends, and the victim is the first entry with a
  clear bit, where the sweep clears the bits it passes and leaves those entries at the end.
\<close>

type_synonym 'k sc_queue = "('k \<times> bool) list"

definition sc_clear :: "'k sc_queue \<Rightarrow> 'k sc_queue" where
  "sc_clear q = map (\<lambda>(k, _). (k, False)) q"

definition sc_pop :: "'k sc_queue \<Rightarrow> ('k \<times> 'k sc_queue) option" where
  "sc_pop q =
     (case dropWhile snd q of
        (k, _) # rest \<Rightarrow> Some (k, rest @ sc_clear (takeWhile snd q))
      | [] \<Rightarrow> (case q of [] \<Rightarrow> None | (k, _) # rest \<Rightarrow> Some (k, sc_clear rest)))"

definition sc_hit :: "'k \<Rightarrow> 'k sc_queue \<Rightarrow> 'k sc_queue" where
  "sc_hit k q = map (\<lambda>(k', b). (k', b \<or> k' = k)) q"

fun sc_sweep :: "nat \<Rightarrow> 'k sc_queue \<Rightarrow> ('k \<times> 'k sc_queue) option" where
  "sc_sweep 0 q = None"
| "sc_sweep (Suc g) [] = None"
| "sc_sweep (Suc g) ((k, b) # q) = (if b then sc_sweep g (q @ [(k, False)]) else Some (k, q))"

lemma sc_sweep_prefix:
  assumes "\<forall>x \<in> set t. snd x" "length t < g"
  shows "sc_sweep g (t @ (k, False) # r) = Some (k, r @ sc_clear t)"
  using assms
proof (induction t arbitrary: g r)
  case Nil
  then show ?case by (cases g) (auto simp: sc_clear_def)
next
  case (Cons x t)
  obtain g' where g: "g = Suc g'" using Cons.prems by (cases g) auto
  have "sc_sweep g ((x # t) @ (k, False) # r) = sc_sweep g' (t @ (k, False) # (r @ [(fst x, False)]))"
    using Cons.prems g by (cases x) auto
  also have "\<dots> = Some (k, (r @ [(fst x, False)]) @ sc_clear t)"
    using Cons.prems g by (intro Cons.IH) auto
  finally show ?case by (cases x) (simp add: sc_clear_def)
qed

text \<open>One sweep and one more step always find the victim.\<close>

lemma sc_sweep_pop:
  assumes "length q < g"
  shows "sc_sweep g q = sc_pop q"
proof (cases "dropWhile snd q")
  case (Cons x rest)
  then have x: "\<not> snd x" by (metis hd_dropWhile list.distinct(1) list.sel(1))
  have q: "q = takeWhile snd q @ x # rest" using takeWhile_dropWhile_id [of snd q] Cons by simp
  then have "length (takeWhile snd q) < g" using assms by (metis length_append less_or_eq_imp_le
      linorder_not_le not_add_less1 order_le_less_trans)
  then have "sc_sweep g (takeWhile snd q @ (fst x, False) # rest) = Some (fst x, rest @ sc_clear (takeWhile snd q))"
    by (intro sc_sweep_prefix) (auto dest: set_takeWhileD)
  moreover have "(fst x, False) = x" using x by (cases x) auto
  ultimately show ?thesis using q Cons by (cases x) (simp add: sc_pop_def)
next
  case Nil
  then have all: "\<forall>x \<in> set q. snd x" by simp
  show ?thesis
  proof (cases q)
    case q: (Cons x t)
    obtain k where x: "x = (k, True)" using all q by (cases x) auto
    obtain g' where g: "g = Suc g'" using assms by (cases g) auto
    have "sc_sweep g q = sc_sweep g' (t @ (k, False) # [])" using q x g by simp
    also have "\<dots> = Some (k, [] @ sc_clear t)"
      using all assms q g by (intro sc_sweep_prefix) auto
    finally show ?thesis unfolding sc_pop_def Nil by (simp add: q x)
  qed (use Nil assms in \<open>cases g; simp add: sc_pop_def\<close>)
qed

definition ring_from :: "list_iterator \<Rightarrow> 'a std_list \<Rightarrow> (nat \<times> 'a) list" where
  "ring_from hand l =
     (case hand of
        None \<Rightarrow> sl_nodes l
      | Some i \<Rightarrow> dropWhile (\<lambda>n. fst n \<noteq> i) (sl_nodes l) @ takeWhile (\<lambda>n. fst n \<noteq> i) (sl_nodes l))"

lemma ring_from_None [simp]: "ring_from None l = sl_nodes l"
  by (simp add: ring_from_def)

definition entry_pair :: "'k clock_entry \<Rightarrow> 'k \<times> bool" where
  "entry_pair e = (ce_key e, ce_referenced e)"

definition clock_queue :: "'k clock_policy \<Rightarrow> 'k sc_queue" where
  "clock_queue p = map (entry_pair \<circ> snd) (ring_from (cp_hand p) (cp_ring p))"

definition clock_inv :: "'k clock_policy \<Rightarrow> bool" where
  "clock_inv p \<longleftrightarrow> index_agree ce_key (map_of (cp_index p)) (cp_ring p) \<and>
     (\<forall>i. cp_hand p = Some i \<longrightarrow> i \<in> set (sl_ids (cp_ring p)))"

lemma ring_from_split:
  assumes "sl_wf l" "sl_nodes l = xs @ (i, x) # ys"
  shows "ring_from (Some i) l = (i, x) # ys @ xs" "sl_deref i l = Some x"
    and "sl_next i l = (case ys of [] \<Rightarrow> None | n # _ \<Rightarrow> Some (fst n))"
proof -
  have "i \<notin> fst ` set xs" using assms by (auto simp: sl_wf_def sl_ids_def)
  then have d: "dropWhile (\<lambda>n. fst n \<noteq> i) (xs @ (i, x) # ys) = (i, x) # ys"
      "takeWhile (\<lambda>n. fst n \<noteq> i) (xs @ (i, x) # ys) = xs"
    by (auto simp: dropWhile_append takeWhile_append image_iff)
  then show "ring_from (Some i) l = (i, x) # ys @ xs"
    and "sl_next i l = (case ys of [] \<Rightarrow> None | n # _ \<Rightarrow> Some (fst n))"
    using assms(2) by (simp_all add: ring_from_def sl_next_def split: list.splits)
  show "sl_deref i l = Some x" using assms by (simp add: sl_deref_iff)
qed

lemma set_ring_from: "set (ring_from hand l) = set (sl_nodes l)"
proof (cases hand)
  case (Some i)
  have "set (dropWhile P xs) \<union> set (takeWhile P xs) = set xs" for P and xs :: "(nat \<times> 'a) list"
    by (metis Un_commute set_append takeWhile_dropWhile_id)
  with Some show ?thesis by (simp add: ring_from_def)
qed (simp add: ring_from_def)

lemma clock_queue_keys:
  assumes "clock_inv p"
  shows "fst ` set (clock_queue p) = dom (map_of (cp_index p))"
proof -
  have "fst ` set (clock_queue p) = ce_key ` set (sl_items (cp_ring p))"
    by (simp add: clock_queue_def set_ring_from sl_items_def entry_pair_def image_image comp_def)
  with assms show ?thesis by (simp add: clock_inv_def index_agree_keys)
qed

text \<open>The hand of a non-empty ring, moved to the beginning when it is at the end.\<close>

lemma clock_hand_split:
  assumes "clock_inv p" "cp_hand p = Some i"
  obtains xs x ys where "sl_nodes (cp_ring p) = xs @ (i, x) # ys"
  using assms by (auto simp: clock_inv_def sl_ids_def dest!: split_list)

lemma mset_sl_insert: "mset (sl_nodes (sl_insert pos x l)) = add_mset (sl_fresh l, x) (mset (sl_nodes l))"
proof -
  have "mset (takeWhile P ns) + mset (dropWhile P ns) = mset ns" for P and ns :: "(nat \<times> 'a) list"
    by (metis mset_append takeWhile_dropWhile_id)
  then show ?thesis by (simp add: sl_insert_def split: option.splits)
qed

lemma sl_wf_insert: "sl_wf l \<Longrightarrow> sl_wf (sl_insert pos x l)"
proof -
  assume wf: "sl_wf l"
  have "mset (sl_ids (sl_insert pos x l)) = mset (sl_fresh l # sl_ids l)"
    using arg_cong [OF mset_sl_insert [of pos x l], of "image_mset fst"] by (simp add: sl_ids_def)
  then have "distinct (sl_ids (sl_insert pos x l)) = distinct (sl_fresh l # sl_ids l)"
      "set (sl_ids (sl_insert pos x l)) = set (sl_fresh l # sl_ids l)"
    by (rule mset_eq_imp_distinct_iff, rule mset_eq_setD)
  with wf show ?thesis by (fastforce simp: sl_wf_def sl_insert_def)
qed

lemma clock_new_correct [simp]: "clock_inv clock_policy_new" "clock_queue clock_policy_new = []"
  by (simp_all add: clock_inv_def clock_policy_new_def clock_queue_def ring_from_def)

lemma clock_Clear_correct: "clock_inv (ClockPolicy_Clear p)" "clock_queue (ClockPolicy_Clear p) = []"
  by (simp_all add: clock_inv_def ClockPolicy_Clear_def clock_queue_def ring_from_def)

lemma clock_OnInsert_correct:
  assumes "clock_inv p"
  shows "clock_inv (ClockPolicy_OnInsert k p)"
    and "clock_queue (ClockPolicy_OnInsert k p) =
      (if k \<in> fst ` set (clock_queue p) then clock_queue p else clock_queue p @ [(k, False)])"
proof -
  let ?e = "\<lparr>ce_key = k, ce_referenced = False\<rparr>" and ?l = "cp_ring p"
  have ia: "index_agree ce_key (map_of (cp_index p)) ?l" using assms by (simp add: clock_inv_def)
  have wf: "sl_wf ?l" using index_agreeD(1) [OF ia] .
  have idx: "k \<in> fst ` set (clock_queue p) \<longleftrightarrow> map_of (cp_index p) k \<noteq> None"
    using clock_queue_keys [OF assms] by (simp add: domIff)
  have st: "set (sl_nodes (sl_insert (cp_hand p) ?e ?l)) = insert (sl_fresh ?l, ?e) (set (sl_nodes ?l))"
    using arg_cong [OF mset_sl_insert [of "cp_hand p" ?e ?l], of set_mset] by simp
  then have ids: "set (sl_ids ?l) \<subseteq> set (sl_ids (sl_insert (cp_hand p) ?e ?l))"
    by (auto simp: sl_ids_def)
  show "clock_inv (ClockPolicy_OnInsert k p)"
    using assms index_agree_insert [OF ia _ sl_wf_insert [OF wf] st] ids
    by (auto simp: clock_inv_def ClockPolicy_OnInsert_def)
  have "ring_from (cp_hand p) (sl_insert (cp_hand p) ?e ?l) = ring_from (cp_hand p) ?l @ [(sl_fresh ?l, ?e)]"
  proof (cases "cp_hand p")
    case (Some i)
    obtain xs x ys where n: "sl_nodes ?l = xs @ (i, x) # ys" using clock_hand_split [OF assms Some] .
    have "i \<notin> fst ` set xs" using wf n by (auto simp: sl_wf_def sl_ids_def)
    then have "sl_nodes (sl_insert (Some i) ?e ?l) = (xs @ [(sl_fresh ?l, ?e)]) @ (i, x) # ys"
      using n by (auto simp: sl_insert_def dropWhile_append takeWhile_append image_iff)
    from ring_from_split(1) [OF sl_wf_insert [OF wf] this] ring_from_split(1) [OF wf n] Some
    show ?thesis by simp
  qed (simp add: ring_from_def sl_insert_def)
  then show "clock_queue (ClockPolicy_OnInsert k p) =
      (if k \<in> fst ` set (clock_queue p) then clock_queue p else clock_queue p @ [(k, False)])"
    by (simp add: idx) (simp add: clock_queue_def ClockPolicy_OnInsert_def entry_pair_def)
qed

text \<open>Writing a reference bit keeps every node in place.\<close>

definition set_bit_at :: "nat \<Rightarrow> bool \<Rightarrow> nat \<times> 'k clock_entry \<Rightarrow> nat \<times> 'k clock_entry" where
  "set_bit_at i b n = (if fst n = i then (i, (snd n)\<lparr>ce_referenced := b\<rparr>) else n)"

lemma fst_set_bit_at [simp]: "fst (set_bit_at i b n) = fst n"
  by (simp add: set_bit_at_def)

lemma nodes_set_referenced:
  assumes "sl_wf l" "(i, x) \<in> set (sl_nodes l)"
  shows "sl_nodes (clock_set_referenced i b l) = map (set_bit_at i b) (sl_nodes l)"
proof -
  have "sl_deref i l = Some x" using assms by (simp add: sl_deref_iff)
  moreover have "snd n = x" if "n \<in> set (sl_nodes l)" "fst n = i" for n
    using sl_wf_unique [OF assms(1), of i] assms(2) that by (metis prod.collapse)
  ultimately show ?thesis by (auto simp: clock_set_referenced_def sl_assign_def set_bit_at_def)
qed

lemma sl_fresh_set_referenced [simp]: "sl_fresh (clock_set_referenced i b l) = sl_fresh l"
  by (simp add: clock_set_referenced_def sl_assign_def split: option.splits)

lemma ring_from_map:
  assumes "\<And>n. fst (f n) = fst n" "sl_nodes l' = map f (sl_nodes l)"
  shows "ring_from hand l' = map f (ring_from hand l)"
  using assms by (simp add: ring_from_def dropWhile_map takeWhile_map comp_def split: option.splits)

lemma set_referenced_agree:
  assumes ia: "index_agree ce_key idx l" and x: "(i, x) \<in> set (sl_nodes l)"
  shows "index_agree ce_key idx (clock_set_referenced i b l)"
    and "sl_ids (clock_set_referenced i b l) = sl_ids l"
proof -
  note nodes = nodes_set_referenced [OF index_agreeD(1) [OF ia] x, of b]
  show ids: "sl_ids (clock_set_referenced i b l) = sl_ids l" by (simp add: sl_ids_def nodes comp_def)
  have key: "ce_key (snd (set_bit_at i b n)) = ce_key (snd n)" for n by (simp add: set_bit_at_def)
  show "index_agree ce_key idx (clock_set_referenced i b l)"
    unfolding index_agree_def
  proof (intro conjI allI impI)
    show "sl_wf (clock_set_referenced i b l)"
      using index_agreeD(1) [OF ia] ids by (simp add: sl_wf_def)
    show "idx (ce_key y) = Some j" if "(j, y) \<in> set (sl_nodes (clock_set_referenced i b l))" for j y
    proof -
      have "(j, y) \<in> set_bit_at i b ` set (sl_nodes l)" using that by (simp add: nodes)
      then obtain n where n: "n \<in> set (sl_nodes l)" "(j, y) = set_bit_at i b n" by blast
      then have "j = fst n" "ce_key y = ce_key (snd n)"
        using key [of n] fst_set_bit_at [of i b n] by (metis fst_conv snd_conv)+
      with index_agreeD(2) [OF ia n(1)] show ?thesis by simp
    qed
    show "\<exists>y. (j, y) \<in> set (sl_nodes (clock_set_referenced i b l)) \<and> ce_key y = k"
      if kj: "idx k = Some j" for k j
    proof -
      obtain y where y: "(j, y) \<in> set (sl_nodes l)" "ce_key y = k" using index_agreeD(3) [OF ia kj] by blast
      then have "set_bit_at i b (j, y) \<in> set (sl_nodes (clock_set_referenced i b l))" by (simp add: nodes)
      moreover have "set_bit_at i b (j, y) = (j, snd (set_bit_at i b (j, y)))"
        by (simp add: set_bit_at_def)
      ultimately show ?thesis using key [of "(j, y)"] y(2) by (metis snd_conv)
    qed
  qed
qed

lemma clock_OnHit_correct:
  assumes "clock_inv p"
  shows "clock_inv (ClockPolicy_OnHit k p)"
    and "clock_queue (ClockPolicy_OnHit k p) = sc_hit k (clock_queue p)"
proof -
  let ?l = "cp_ring p"
  have ia: "index_agree ce_key (map_of (cp_index p)) ?l" using assms by (simp add: clock_inv_def)
  have "clock_inv (ClockPolicy_OnHit k p) \<and> clock_queue (ClockPolicy_OnHit k p) = sc_hit k (clock_queue p)"
  proof (cases "map_of (cp_index p) k")
    case None
    then have "k \<notin> fst ` set (clock_queue p)" using clock_queue_keys [OF assms] by auto
    then have "sc_hit k (clock_queue p) = clock_queue p"
      by (intro map_idI [of _ "\<lambda>(k', b). (k', b \<or> k' = k)", folded sc_hit_def]) force
    with None assms show ?thesis by (simp add: ClockPolicy_OnHit_def)
  next
    case (Some i)
    obtain x where x: "(i, x) \<in> set (sl_nodes ?l)" using index_agreeD(3) [OF ia Some] by blast
    note agree = set_referenced_agree [OF ia x, of True]
    have pair: "entry_pair (snd (set_bit_at i True n)) =
        (\<lambda>(k', b). (k', b \<or> k' = k)) (entry_pair (snd n))" if "n \<in> set (sl_nodes ?l)" for n
      using index_agree_node [OF ia Some that] by (auto simp: entry_pair_def set_bit_at_def)
    have "ring_from (cp_hand p) (clock_set_referenced i True ?l) =
        map (set_bit_at i True) (ring_from (cp_hand p) ?l)"
      by (rule ring_from_map [OF _ nodes_set_referenced [OF index_agreeD(1) [OF ia] x]]) simp
    with Some pair have "clock_queue (ClockPolicy_OnHit k p) = sc_hit k (clock_queue p)"
      by (auto simp: clock_queue_def ClockPolicy_OnHit_def sc_hit_def set_ring_from)
    with Some assms agree show ?thesis by (simp add: clock_inv_def ClockPolicy_OnHit_def)
  qed
  then show "clock_inv (ClockPolicy_OnHit k p)"
    "clock_queue (ClockPolicy_OnHit k p) = sc_hit k (clock_queue p)" by auto
qed

text \<open>Erasing the node under the hand, after the hand has moved on.\<close>

lemma erase_under_hand:
  assumes wf: "sl_wf l" and n: "sl_nodes l = xs @ (i, x) # ys"
    and hand: "hand = (case sl_next i l of None \<Rightarrow> sl_begin l' | Some j \<Rightarrow> Some j)"
    and l': "l' = l\<lparr>sl_nodes := xs @ ys\<rparr>"
  shows "ring_from hand l' = ys @ xs"
    and "\<And>j. hand = Some j \<Longrightarrow> j \<in> set (sl_ids l')" and "hand = None \<longleftrightarrow> xs @ ys = []"
proof -
  have wf': "sl_wf l'" using sl_wf_erase [OF wf, of i] erase_only [OF wf n] l' by simp
  have nx: "sl_next i l = (case ys of [] \<Rightarrow> None | m # _ \<Rightarrow> Some (fst m))"
    using ring_from_split(3) [OF wf n] .
  show "ring_from hand l' = ys @ xs"
  proof (cases ys)
    case Nil
    show ?thesis
    proof (cases xs)
      case Nil
      with \<open>ys = []\<close> show ?thesis by (simp add: ring_from_def hand nx sl_begin_def l')
    next
      case (Cons m ms)
      with \<open>ys = []\<close> have "sl_nodes l' = [] @ (fst m, snd m) # ms" by (simp add: l')
      from ring_from_split(1) [OF wf' this] Cons \<open>ys = []\<close> show ?thesis
        by (simp add: hand nx sl_begin_def l')
    qed
  next
    case (Cons m ms)
    then have "sl_nodes l' = xs @ (fst m, snd m) # ms" by (simp add: l')
    from ring_from_split(1) [OF wf' this] Cons show ?thesis by (simp add: hand nx)
  qed
  show "j \<in> set (sl_ids l')" if "hand = Some j" for j
    using that by (auto simp: hand nx sl_begin_def l' sl_ids_def split: list.splits)
  show "hand = None \<longleftrightarrow> xs @ ys = []"
    by (auto simp: hand nx sl_begin_def l' split: list.splits)
qed

lemma advance_erase:
  assumes wf: "sl_wf l" and n: "sl_nodes l = xs @ (i, x) # ys" and ne: "xs @ ys \<noteq> []"
  shows "ClockPolicy_Advance l i =
    (case sl_next i l of None \<Rightarrow> sl_begin (l\<lparr>sl_nodes := xs @ ys\<rparr>) | Some j \<Rightarrow> Some j)"
  using ring_from_split(3) [OF wf n] n ne
  by (cases xs) (auto simp: ClockPolicy_Advance_def sl_begin_def split: list.splits)

lemma erase_elsewhere:
  assumes inv: "clock_inv p" and idx: "map_of (cp_index p) k = Some i" and hand: "cp_hand p \<noteq> Some i"
  shows "map (entry_pair \<circ> snd) (ring_from (cp_hand p) (sl_erase i (cp_ring p))) =
      filter (\<lambda>e. fst e \<noteq> k) (clock_queue p)"
    and "\<And>j. cp_hand p = Some j \<Longrightarrow> j \<in> set (sl_ids (sl_erase i (cp_ring p)))"
proof -
  let ?l = "cp_ring p"
  have ia: "index_agree ce_key (map_of (cp_index p)) ?l" using inv by (simp add: clock_inv_def)
  have wf: "sl_wf ?l" using index_agreeD(1) [OF ia] .
  have same: "filter (\<lambda>n. fst n \<noteq> i) zs = filter (\<lambda>n. ce_key (snd n) \<noteq> k) zs"
    if "set zs \<subseteq> set (sl_nodes ?l)" for zs
    using index_agree_node [OF ia idx] that by (intro filter_cong [OF refl]) blast
  have "map (entry_pair \<circ> snd) (ring_from (cp_hand p) (sl_erase i ?l)) =
      filter (\<lambda>e. fst e \<noteq> k) (clock_queue p) \<and>
      (\<forall>j. cp_hand p = Some j \<longrightarrow> j \<in> set (sl_ids (sl_erase i ?l)))"
  proof (cases "cp_hand p")
    case None
    with same show ?thesis by (simp add: clock_queue_def filter_map comp_def entry_pair_def)
  next
    case (Some j)
    obtain us y vs where m: "sl_nodes ?l = us @ (j, y) # vs" using clock_hand_split [OF inv Some] .
    have ij: "i \<noteq> j" using hand Some by auto
    then have m': "sl_nodes (sl_erase i ?l) =
        filter (\<lambda>n. fst n \<noteq> i) us @ (j, y) # filter (\<lambda>n. fst n \<noteq> i) vs" using m by simp
    have f: "filter (\<lambda>n. fst n \<noteq> i) us = filter (\<lambda>n. ce_key (snd n) \<noteq> k) us"
        "filter (\<lambda>n. fst n \<noteq> i) vs = filter (\<lambda>n. ce_key (snd n) \<noteq> k) vs"
      using same m by auto
    have "ce_key y \<noteq> k" using index_agree_node [OF ia idx, of "(j, y)"] m ij by auto
    then show ?thesis
      using Some m' f ring_from_split(1) [OF wf m] ring_from_split(1) [OF sl_wf_erase [OF wf] m']
      by (auto simp: clock_queue_def filter_map comp_def entry_pair_def sl_ids_def)
  qed
  then show "map (entry_pair \<circ> snd) (ring_from (cp_hand p) (sl_erase i ?l)) =
      filter (\<lambda>e. fst e \<noteq> k) (clock_queue p)"
    "\<And>j. cp_hand p = Some j \<Longrightarrow> j \<in> set (sl_ids (sl_erase i ?l))" by auto
qed

lemma clock_OnErase_correct:
  assumes "clock_inv p"
  shows "clock_inv (ClockPolicy_OnErase k p)"
    and "clock_queue (ClockPolicy_OnErase k p) = filter (\<lambda>e. fst e \<noteq> k) (clock_queue p)"
proof -
  let ?l = "cp_ring p" and ?p' = "ClockPolicy_OnErase k p"
  have ia: "index_agree ce_key (map_of (cp_index p)) ?l" using assms by (simp add: clock_inv_def)
  have wf: "sl_wf ?l" using index_agreeD(1) [OF ia] .
  have "clock_inv ?p' \<and> clock_queue ?p' = filter (\<lambda>e. fst e \<noteq> k) (clock_queue p)"
  proof (cases "map_of (cp_index p) k")
    case None
    then have "k \<notin> fst ` set (clock_queue p)" using clock_queue_keys [OF assms] by auto
    then have "filter (\<lambda>e. fst e \<noteq> k) (clock_queue p) = clock_queue p" by (force intro!: filter_True)
    with None assms show ?thesis by (simp add: ClockPolicy_OnErase_def)
  next
    case (Some i)
    obtain x where x: "(i, x) \<in> set (sl_nodes ?l)" "ce_key x = k" using index_agreeD(3) [OF ia Some] by blast
    obtain xs ys where n: "sl_nodes ?l = xs @ (i, x) # ys" using split_list [OF x(1)] by blast
    have er: "sl_erase i ?l = ?l\<lparr>sl_nodes := xs @ ys\<rparr>" using erase_only [OF wf n] by simp
    have agree: "index_agree ce_key ((map_of (cp_index p))(k := None)) (sl_erase i ?l)"
      using index_agree_erase(1) [OF ia Some] .
    have keys: "ce_key (snd m) \<noteq> k" if "m \<in> set (xs @ ys)" for m
    proof
      assume "ce_key (snd m) = k"
      moreover have "m \<in> set (sl_nodes ?l)" using that n by auto
      ultimately have "fst m = i" using index_agree_node [OF ia Some] by blast
      with that wf n show False by (auto simp: sl_wf_def sl_ids_def)
    qed
    have flt: "filter (\<lambda>e. fst e \<noteq> k) (map (entry_pair \<circ> snd) zs) = map (entry_pair \<circ> snd) zs"
      if "set zs \<subseteq> set (xs @ ys)" for zs
      using that keys by (intro filter_True) (auto simp: entry_pair_def)
    show ?thesis
    proof (cases "cp_hand p = Some i")
      case True
      have "clock_queue p = (k, ce_referenced x) # map (entry_pair \<circ> snd) (ys @ xs)"
        using True x(2) by (simp add: clock_queue_def ring_from_split(1) [OF wf n] entry_pair_def)
      then have q: "filter (\<lambda>e. fst e \<noteq> k) (clock_queue p) = map (entry_pair \<circ> snd) (ys @ xs)"
        using flt [of "ys @ xs"] by auto
      show ?thesis
      proof (cases "xs @ ys = []")
        case empty: True
        with Some True er agree q show ?thesis
          by (simp add: ClockPolicy_OnErase_def clock_inv_def clock_queue_def ring_from_def Let_def)
      next
        case False
        note h = erase_under_hand [OF wf n refl refl] and adv = advance_erase [OF wf n False]
        show ?thesis
          using Some True er agree q False h adv
          by (simp add: ClockPolicy_OnErase_def clock_inv_def clock_queue_def Let_def)
      qed
    next
      case False
      have hand: "cp_hand ?p' = (if xs @ ys = [] then None else cp_hand p)" "cp_ring ?p' = ?l\<lparr>sl_nodes := xs @ ys\<rparr>"
          "cp_index ?p' = AList.delete k (cp_index p)"
        using Some False er by (simp_all add: ClockPolicy_OnErase_def Let_def)
      have rm: "map (entry_pair \<circ> snd) (ring_from (cp_hand p) (cp_ring ?p')) =
            filter (\<lambda>e. fst e \<noteq> k) (clock_queue p)"
          "\<And>j. cp_hand p = Some j \<Longrightarrow> j \<in> set (sl_ids (cp_ring ?p'))"
        using erase_elsewhere [OF assms Some False] hand(2) er by simp_all
      have "clock_queue ?p' = filter (\<lambda>e. fst e \<noteq> k) (clock_queue p) \<and>
          (\<forall>j. cp_hand ?p' = Some j \<longrightarrow> j \<in> set (sl_ids (cp_ring ?p')))"
      proof (cases "xs @ ys = []")
        case True
        with rm(1) hand(1,2) show ?thesis by (cases "cp_hand p") (auto simp: clock_queue_def ring_from_def)
      next
        case False
        with rm hand(1) show ?thesis by (auto simp: clock_queue_def)
      qed
      moreover have "index_agree ce_key (map_of (cp_index ?p')) (cp_ring ?p')"
        using agree hand er by simp
      ultimately show ?thesis by (simp add: clock_inv_def)
    qed
  qed
  then show "clock_inv (ClockPolicy_OnErase k p)"
    "clock_queue (ClockPolicy_OnErase k p) = filter (\<lambda>e. fst e \<noteq> k) (clock_queue p)" by auto
qed

lemma clock_sweep_refines:
  assumes "clock_inv p" "cp_hand p = Some i" "sc_sweep g (clock_queue p) = Some (k, q)"
  shows "fst (ClockPolicy_sweep g p) = Some k \<and> clock_inv (snd (ClockPolicy_sweep g p)) \<and>
    clock_queue (snd (ClockPolicy_sweep g p)) = q"
  using assms
proof (induction g arbitrary: p i)
  case (Suc g)
  let ?l = "cp_ring p"
  have ia: "index_agree ce_key (map_of (cp_index p)) ?l" using Suc.prems(1) by (simp add: clock_inv_def)
  have wf: "sl_wf ?l" using index_agreeD(1) [OF ia] .
  obtain xs x ys where n: "sl_nodes ?l = xs @ (i, x) # ys" using clock_hand_split [OF Suc.prems(1,2)] .
  note rf = ring_from_split [OF wf n]
  have q: "clock_queue p = (ce_key x, ce_referenced x) # map (entry_pair \<circ> snd) (ys @ xs)"
    using Suc.prems(2) by (simp add: clock_queue_def rf(1) entry_pair_def)
  show ?case
  proof (cases "ce_referenced x")
    case False
    have kq: "k = ce_key x" "q = map (entry_pair \<circ> snd) (ys @ xs)" using Suc.prems(3) q False by auto
    have er: "sl_erase i ?l = ?l\<lparr>sl_nodes := xs @ ys\<rparr>" using erase_only [OF wf n] by simp
    have "map_of (cp_index p) (ce_key x) = Some i" using index_agreeD(2) [OF ia, of "(i, x)"] n by simp
    note agree = index_agree_erase(1) [OF ia this] and h = erase_under_hand [OF wf n refl refl]
    show ?thesis
      using Suc.prems(2) rf(2) False kq er agree h
      by (simp add: Let_def clock_inv_def clock_queue_def)
  next
    case True
    let ?l' = "clock_set_referenced i False ?l" and ?x' = "x\<lparr>ce_referenced := False\<rparr>"
    let ?p' = "p\<lparr>cp_ring := ?l', cp_hand := ClockPolicy_Advance ?l' i\<rparr>"
    have x: "(i, x) \<in> set (sl_nodes ?l)" using n by simp
    note agree = set_referenced_agree [OF ia x, of False]
    have "i \<notin> fst ` set xs" "i \<notin> fst ` set ys" using wf n by (auto simp: sl_wf_def sl_ids_def)
    then have "map (set_bit_at i False) xs = xs" "map (set_bit_at i False) ys = ys"
      by (force simp: set_bit_at_def intro!: map_idI)+
    then have n': "sl_nodes ?l' = xs @ (i, ?x') # ys"
      using nodes_set_referenced [OF wf x, of False] n by (simp add: set_bit_at_def)
    have wf': "sl_wf ?l'" using index_agreeD(1) [OF agree(1)] .
    have adv: "ClockPolicy_Advance ?l' i = Some (fst (hd (ys @ xs @ [(i, ?x')])))"
      using ring_from_split(3) [OF wf' n'] n'
      by (cases xs) (auto simp: ClockPolicy_Advance_def sl_begin_def split: list.splits)
    have ring: "ring_from (ClockPolicy_Advance ?l' i) ?l' = ys @ xs @ [(i, ?x')]"
    proof (cases ys)
      case (Cons m ms)
      then have "sl_nodes ?l' = (xs @ [(i, ?x')]) @ (fst m, snd m) # ms" using n' by simp
      from ring_from_split(1) [OF wf' this] Cons adv show ?thesis by simp
    next
      case Nil
      then have "sl_nodes ?l' = [] @ (fst (hd (xs @ [(i, ?x')])), snd (hd (xs @ [(i, ?x')]))) # tl (xs @ [(i, ?x')])"
        using n' by (cases xs) auto
      from ring_from_split(1) [OF wf' this] Nil adv show ?thesis by (cases xs) auto
    qed
    have "clock_queue ?p' = map (entry_pair \<circ> snd) (ys @ xs) @ [(ce_key x, False)]"
      by (simp add: clock_queue_def ring entry_pair_def)
    moreover have "clock_inv ?p'"
      using agree n' adv by (cases ys; cases xs) (auto simp: clock_inv_def sl_ids_def)
    ultimately have "fst (ClockPolicy_sweep g ?p') = Some k \<and> clock_inv (snd (ClockPolicy_sweep g ?p')) \<and>
        clock_queue (snd (ClockPolicy_sweep g ?p')) = q"
      using Suc.IH [of ?p'] Suc.prems(3) q True adv by simp
    then show ?thesis using Suc.prems(2) rf(2) True by (simp add: Let_def)
  qed
qed simp

lemma sc_pop_Some: "q \<noteq> [] \<Longrightarrow> \<exists>k q'. sc_pop q = Some (k, q')"
  by (cases q) (auto simp: sc_pop_def split: list.splits prod.splits)

lemma length_rotate: "length (dropWhile P xs) + length (takeWhile P xs) = length xs"
  by (metis add.commute length_append takeWhile_dropWhile_id)

lemma length_clock_queue: "length (clock_queue p) = sl_size (cp_ring p)"
  by (simp add: clock_queue_def ring_from_def sl_size_def length_rotate split: option.splits)

text \<open>The sweep ends before its bound of two rounds, always with a victim.\<close>

lemma clock_PopVictim_correct:
  assumes "clock_inv p"
  shows "clock_inv (snd (ClockPolicy_PopVictim p))"
    and "(case sc_pop (clock_queue p) of
        None \<Rightarrow> ClockPolicy_PopVictim p = (None, p)
      | Some (k, q) \<Rightarrow> fst (ClockPolicy_PopVictim p) = Some k \<and>
          clock_queue (snd (ClockPolicy_PopVictim p)) = q)"
proof -
  let ?l = "cp_ring p"
  have "clock_inv (snd (ClockPolicy_PopVictim p)) \<and> (case sc_pop (clock_queue p) of
        None \<Rightarrow> ClockPolicy_PopVictim p = (None, p)
      | Some (k, q) \<Rightarrow> fst (ClockPolicy_PopVictim p) = Some k \<and>
          clock_queue (snd (ClockPolicy_PopVictim p)) = q)"
  proof (cases "sl_nodes ?l")
    case Nil
    then have "clock_queue p = []" using length_clock_queue [of p] by (simp add: sl_size_def)
    with Nil assms show ?thesis by (simp add: ClockPolicy_PopVictim_def sc_pop_def)
  next
    case (Cons n ns)
    let ?hand = "case cp_hand p of None \<Rightarrow> sl_begin ?l | Some i \<Rightarrow> Some i"
    let ?p = "p\<lparr>cp_hand := ?hand\<rparr>"
    have wf: "sl_wf ?l" using assms index_agreeD(1) by (auto simp: clock_inv_def)
    have "sl_nodes ?l = [] @ (fst n, snd n) # ns" using Cons by simp
    from ring_from_split(1) [OF wf this] have "ring_from (Some (fst n)) ?l = sl_nodes ?l" using Cons by simp
    then have q: "clock_queue ?p = clock_queue p" using Cons
      by (simp add: clock_queue_def sl_begin_def split: option.splits)
    have inv: "clock_inv ?p"
      using assms Cons by (auto simp: clock_inv_def sl_begin_def sl_ids_def split: option.splits)
    obtain i where hand: "cp_hand ?p = Some i" using Cons by (cases "cp_hand p") (auto simp: sl_begin_def)
    have "clock_queue p \<noteq> []" using length_clock_queue [of p] Cons by (auto simp: sl_size_def)
    then obtain k q' where pop: "sc_pop (clock_queue p) = Some (k, q')" using sc_pop_Some by blast
    then have "sc_sweep (sl_size ?l * 2 + 1) (clock_queue ?p) = Some (k, q')"
      using q by (subst sc_sweep_pop) (simp_all add: length_clock_queue)
    from clock_sweep_refines [OF inv hand this] pop Cons show ?thesis
      by (simp add: ClockPolicy_PopVictim_def Let_def)
  qed
  then show "clock_inv (snd (ClockPolicy_PopVictim p))"
    "(case sc_pop (clock_queue p) of
        None \<Rightarrow> ClockPolicy_PopVictim p = (None, p)
      | Some (k, q) \<Rightarrow> fst (ClockPolicy_PopVictim p) = Some k \<and>
          clock_queue (snd (ClockPolicy_PopVictim p)) = q)" by auto
qed

section \<open>The interface the block cache relies on\<close>

locale eviction_policy =
  fixes on_hit on_insert on_erase :: "'k \<Rightarrow> 'p \<Rightarrow> 'p"
    and pop_victim :: "'p \<Rightarrow> 'k option \<times> 'p"
    and clear :: "'p \<Rightarrow> 'p"
    and keys :: "'p \<Rightarrow> 'k set"
    and inv :: "'p \<Rightarrow> bool"
  assumes hit: "inv p \<Longrightarrow> inv (on_hit k p) \<and> keys (on_hit k p) = keys p"
    and insert: "inv p \<Longrightarrow> inv (on_insert k p) \<and> keys (on_insert k p) = Set.insert k (keys p)"
    and erase: "inv p \<Longrightarrow> inv (on_erase k p) \<and> keys (on_erase k p) = keys p - {k}"
    and pop_empty: "inv p \<Longrightarrow> fst (pop_victim p) = None \<longleftrightarrow> keys p = {}"
    and pop_some: "inv p \<Longrightarrow> pop_victim p = (Some k, p') \<Longrightarrow>
      inv p' \<and> k \<in> keys p \<and> keys p' = keys p - {k}"
    and pop_none: "inv p \<Longrightarrow> pop_victim p = (None, p') \<Longrightarrow> inv p' \<and> keys p' = {}"
    and cleared: "inv p \<Longrightarrow> inv (clear p) \<and> keys (clear p) = {}"
    and finite_keys: "inv p \<Longrightarrow> finite (keys p)"
begin

text \<open>Every call of \<open>PopVictim\<close> on a non-empty policy shrinks it, so eviction comes to an end.\<close>

lemma pop_shrinks:
  assumes "inv p" "keys p \<noteq> {}"
  obtains k p' where "pop_victim p = (Some k, p')" "inv p'" "k \<in> keys p" "keys p' = keys p - {k}"
    "card (keys p') < card (keys p)"
proof -
  obtain v p' where pv: "pop_victim p = (v, p')" by fastforce
  with pop_empty [OF assms(1)] assms(2) obtain k where "v = Some k" by auto
  with pv have pop: "pop_victim p = (Some k, p')" by simp
  note facts = pop_some [OF assms(1) pop]
  then have "card (keys p') < card (keys p)"
    using finite_keys [OF assms(1)] by (metis card_Diff1_less)
  with facts show ?thesis using that [OF pop] by blast
qed

end

fun policy_inv :: "'k policy \<Rightarrow> bool" where
  "policy_inv (LruPolicy p) = list_policy_inv p"
| "policy_inv (FifoPolicy p) = list_policy_inv p"
| "policy_inv (ClockPolicy p) = clock_inv p"
| "policy_inv (MruPolicy p) = list_policy_inv p"

fun policy_keys :: "'k policy \<Rightarrow> 'k set" where
  "policy_keys (LruPolicy p) = set (list_policy_items p)"
| "policy_keys (FifoPolicy p) = set (list_policy_items p)"
| "policy_keys (ClockPolicy p) = fst ` set (clock_queue p)"
| "policy_keys (MruPolicy p) = set (list_policy_items p)"

lemma set_butlast_distinct: "distinct xs \<Longrightarrow> xs \<noteq> [] \<Longrightarrow> set (butlast xs) = set xs - {last xs}"
  by (cases xs rule: rev_cases) auto

lemma set_tl_distinct: "distinct xs \<Longrightarrow> xs \<noteq> [] \<Longrightarrow> set (tl xs) = set xs - {hd xs}"
  by (cases xs) auto

lemma list_pop_laws:
  assumes "list_policy_inv p"
  shows "fst (LruPolicy_PopVictim p) = None \<longleftrightarrow> set (list_policy_items p) = {}"
    and "LruPolicy_PopVictim p = (Some k, p') \<Longrightarrow> list_policy_inv p' \<and> k \<in> set (list_policy_items p) \<and>
      set (list_policy_items p') = set (list_policy_items p) - {k}"
    and "LruPolicy_PopVictim p = (None, p') \<Longrightarrow> list_policy_inv p' \<and> list_policy_items p' = []"
  using LruPolicy_PopVictim_correct [OF assms]
    set_butlast_distinct [OF list_policy_distinct [OF assms]]
  by (auto split: if_splits)

lemma mru_pop_laws:
  assumes "list_policy_inv p"
  shows "fst (MruPolicy_PopVictim p) = None \<longleftrightarrow> set (list_policy_items p) = {}"
    and "MruPolicy_PopVictim p = (Some k, p') \<Longrightarrow> list_policy_inv p' \<and> k \<in> set (list_policy_items p) \<and>
      set (list_policy_items p') = set (list_policy_items p) - {k}"
    and "MruPolicy_PopVictim p = (None, p') \<Longrightarrow> list_policy_inv p' \<and> list_policy_items p' = []"
  using MruPolicy_PopVictim_correct [OF assms] set_tl_distinct [OF list_policy_distinct [OF assms]]
  by (auto split: if_splits)

lemma clock_queue_distinct: "clock_inv p \<Longrightarrow> distinct (map fst (clock_queue p))"
proof -
  assume inv: "clock_inv p"
  have "mset (dropWhile P xs) + mset (takeWhile P xs) = mset xs" for P and xs :: "(nat \<times> 'a clock_entry) list"
    by (induction xs) auto
  then have ring: "mset (ring_from (cp_hand p) (cp_ring p)) = mset (sl_nodes (cp_ring p))"
    by (simp add: ring_from_def split: option.splits)
  have "mset (map fst (clock_queue p)) = mset (map ce_key (sl_items (cp_ring p)))"
    using arg_cong [OF ring, of "image_mset (ce_key \<circ> snd)"]
    by (simp add: clock_queue_def sl_items_def entry_pair_def comp_def multiset.map_comp)
  from mset_eq_imp_distinct_iff [OF this] show ?thesis
    using inv index_agree_distinct unfolding clock_inv_def by blast
qed

lemma sc_pop_laws:
  assumes "sc_pop q = Some (k, q')" "distinct (map fst q)"
  shows "k \<in> fst ` set q \<and> fst ` set q' = fst ` set q - {k}"
proof -
  have clear: "fst ` set (sc_clear t) = fst ` set t" for t :: "'a sc_queue"
    by (force simp: sc_clear_def)
  show ?thesis
  proof (cases "dropWhile snd q")
    case (Cons x rest)
    then have q: "q = takeWhile snd q @ x # rest" using takeWhile_dropWhile_id [of snd q] by simp
    have "k = fst x" "q' = rest @ sc_clear (takeWhile snd q)"
      using assms(1) Cons by (auto simp: sc_pop_def split: prod.splits)
    moreover have "fst ` set q = insert (fst x) (fst ` set rest \<union> fst ` set (takeWhile snd q))"
      by (subst q) auto
    moreover have "fst x \<notin> fst ` set rest \<union> fst ` set (takeWhile snd q)"
      using assms(2) by (subst (asm) q) auto
    ultimately show ?thesis by (auto simp: clear image_Un)
  next
    case Nil
    then obtain y t where q: "q = y # t" using assms(1) by (cases q) (auto simp: sc_pop_def)
    then have "k = fst y" "q' = sc_clear t"
      using assms(1) unfolding sc_pop_def Nil by (auto split: prod.splits)
    with q assms(2) show ?thesis by (auto simp: clear)
  qed
qed

lemma clock_pop_laws:
  assumes "clock_inv p"
  shows "fst (ClockPolicy_PopVictim p) = None \<longleftrightarrow> fst ` set (clock_queue p) = {}"
    and "ClockPolicy_PopVictim p = (Some k, p') \<Longrightarrow> clock_inv p' \<and> k \<in> fst ` set (clock_queue p) \<and>
      fst ` set (clock_queue p') = fst ` set (clock_queue p) - {k}"
    and "ClockPolicy_PopVictim p = (None, p') \<Longrightarrow> clock_inv p' \<and> clock_queue p' = []"
proof -
  note pop = clock_PopVictim_correct [OF assms]
  have "clock_queue p = []" if "sc_pop (clock_queue p) = None" using that sc_pop_Some by fastforce
  moreover have "sc_pop (clock_queue p) = None" if "clock_queue p = []" using that by (simp add: sc_pop_def)
  ultimately have iff: "sc_pop (clock_queue p) = None \<longleftrightarrow> clock_queue p = []" by blast
  show "fst (ClockPolicy_PopVictim p) = None \<longleftrightarrow> fst ` set (clock_queue p) = {}"
    using pop(2) iff by (auto split: option.splits)
  show "clock_inv p' \<and> k \<in> fst ` set (clock_queue p) \<and> fst ` set (clock_queue p') = fst ` set (clock_queue p) - {k}"
    if eq: "ClockPolicy_PopVictim p = (Some k, p')"
  proof -
    obtain q where "sc_pop (clock_queue p) = Some (k, q)" "clock_queue p' = q"
      using pop(2) eq by (auto split: option.splits)
    with sc_pop_laws [OF this(1) clock_queue_distinct [OF assms]] pop(1) eq show ?thesis by simp
  qed
  show "clock_inv p' \<and> clock_queue p' = []" if "ClockPolicy_PopVictim p = (None, p')"
    using pop that iff assms by (auto split: option.splits)
qed

lemma sc_hit_keys: "fst ` set (sc_hit k q) = fst ` set q"
  by (force simp: sc_hit_def)

lemmas list_policy_correct =
  LruPolicy_OnHit_correct LruPolicy_OnInsert_correct LruPolicy_OnErase_correct
  FifoPolicy_OnInsert_correct LruPolicy_Clear_correct

lemmas clock_correct =
  clock_OnHit_correct clock_OnInsert_correct clock_OnErase_correct clock_Clear_correct

interpretation policy: eviction_policy OnHit OnInsert OnErase PopVictim policy_Clear policy_keys policy_inv
proof (unfold_locales, goal_cases)
  case (1 p k)
  then show ?case
    by (cases p) (auto simp: list_policy_correct clock_correct shared_members sc_hit_keys move_front_def
        FifoPolicy_OnHit_def)
next
  case (2 p k)
  then show ?case
    by (cases p) (auto simp: list_policy_correct clock_correct shared_members move_front_def)
next
  case (3 p k)
  then show ?case
    by (cases p) (auto simp: list_policy_correct clock_correct shared_members)
next
  case (4 p)
  then show ?case
    by (cases p) (simp_all add: list_pop_laws(1) mru_pop_laws(1) clock_pop_laws(1) shared_members)
next
  case (5 p k p')
  show ?case
  proof (cases p)
    case (LruPolicy l)
    with 5 obtain l' where "LruPolicy_PopVictim l = (Some k, l')" "p' = LruPolicy l'"
      by (auto simp: map_prod_def split: prod.splits)
    with LruPolicy 5(1) show ?thesis using list_pop_laws(2) [of l k l'] by simp
  next
    case (FifoPolicy l)
    with 5 obtain l' where "LruPolicy_PopVictim l = (Some k, l')" "p' = FifoPolicy l'"
      by (auto simp: map_prod_def shared_members split: prod.splits)
    with FifoPolicy 5(1) show ?thesis using list_pop_laws(2) [of l k l'] by simp
  next
    case (MruPolicy l)
    with 5 obtain l' where "MruPolicy_PopVictim l = (Some k, l')" "p' = MruPolicy l'"
      by (auto simp: map_prod_def split: prod.splits)
    with MruPolicy 5(1) show ?thesis using mru_pop_laws(2) [of l k l'] by simp
  next
    case (ClockPolicy c)
    with 5 obtain c' where "ClockPolicy_PopVictim c = (Some k, c')" "p' = ClockPolicy c'"
      by (auto simp: map_prod_def split: prod.splits)
    with ClockPolicy 5(1) show ?thesis using clock_pop_laws(2) [of c k c'] by simp
  qed
next
  case (6 p p')
  show ?case
  proof (cases p)
    case (LruPolicy l)
    with 6 obtain l' where "LruPolicy_PopVictim l = (None, l')" "p' = LruPolicy l'"
      by (auto simp: map_prod_def split: prod.splits)
    with LruPolicy 6(1) show ?thesis using list_pop_laws(3) [of l l'] by simp
  next
    case (FifoPolicy l)
    with 6 obtain l' where "LruPolicy_PopVictim l = (None, l')" "p' = FifoPolicy l'"
      by (auto simp: map_prod_def shared_members split: prod.splits)
    with FifoPolicy 6(1) show ?thesis using list_pop_laws(3) [of l l'] by simp
  next
    case (MruPolicy l)
    with 6 obtain l' where "MruPolicy_PopVictim l = (None, l')" "p' = MruPolicy l'"
      by (auto simp: map_prod_def split: prod.splits)
    with MruPolicy 6(1) show ?thesis using mru_pop_laws(3) [of l l'] by simp
  next
    case (ClockPolicy l)
    with 6 obtain l' where "ClockPolicy_PopVictim l = (None, l')" "p' = ClockPolicy l'"
      by (auto simp: map_prod_def split: prod.splits)
    with ClockPolicy 6(1) show ?thesis using clock_pop_laws(3) [of l l'] by simp
  qed
next
  case (7 p)
  then show ?case by (cases p) (simp_all add: list_policy_correct clock_correct)
next
  case (8 p)
  then show ?case by (cases p) simp_all
qed

lemma CreateEvictionPolicy_inv:
  "CreateEvictionPolicy name = Inr p \<Longrightarrow> policy_inv p \<and> policy_keys p = {} \<and> GetName p = name"
  by (auto simp: CreateEvictionPolicy_def split: if_splits)

section \<open>Properties\<close>


definition example_clock :: "nat clock_policy" where
  "example_clock =
     ClockPolicy_OnHit 1 (ClockPolicy_OnInsert 3 (ClockPolicy_OnInsert 2 (ClockPolicy_OnInsert 1 clock_policy_new)))"

lemma example_clock_inv: "clock_inv example_clock"
  by (simp add: example_clock_def clock_correct)

lemma example_clock_queue: "clock_queue example_clock = [(1, True), (2, False), (3, False)]"
  by (simp add: example_clock_def clock_correct sc_hit_def)


text \<open>
  The next victim right after a block was admitted or used: MRU gives up that
  very block, LRU gives it up only when it holds nothing else, and under FIFO a use does not
  change the victim.
\<close>

theorem next_victim_after_use:
  assumes "list_policy_inv p"
  shows "fst (MruPolicy_PopVictim (MruPolicy_OnInsert k p)) = Some k \<and>
    (fst (LruPolicy_PopVictim (LruPolicy_OnInsert k p)) = Some k \<longleftrightarrow> set (list_policy_items p) \<subseteq> {k}) \<and>
    (k \<in> set (list_policy_items p) \<longrightarrow> LruPolicy_OnHit k p = LruPolicy_OnInsert k p) \<and>
    FifoPolicy_PopVictim (FifoPolicy_OnHit k p) = FifoPolicy_PopVictim p"
proof -
  let ?q = "LruPolicy_OnInsert k p" and ?f = "filter (\<lambda>x. x \<noteq> k) (list_policy_items p)"
  have q: "list_policy_inv ?q" "list_policy_items ?q = k # ?f"
    using LruPolicy_OnInsert_correct [OF assms] by (simp_all add: move_front_def)
  have "last (k # ?f) = k \<longleftrightarrow> ?f = []"
  proof (cases ?f rule: rev_cases)
    case (snoc ys y)
    then have "y \<in> set ?f" by simp
    then have "y \<noteq> k" by simp
    with snoc show ?thesis by simp
  qed simp
  then have "fst (LruPolicy_PopVictim ?q) = Some k \<longleftrightarrow> set (list_policy_items p) \<subseteq> {k}"
    using LruPolicy_PopVictim_correct(2) [OF q(1)] q(2) by (auto simp: filter_empty_conv)
  moreover have "fst (MruPolicy_PopVictim (MruPolicy_OnInsert k p)) = Some k"
    using MruPolicy_PopVictim_correct(2) [OF q(1)] q(2) by (simp add: shared_members)
  moreover have "LruPolicy_OnHit k p = ?q" if "k \<in> set (list_policy_items p)"
    using that list_policy_index [OF assms, of k]
    by (auto simp: LruPolicy_OnHit_def LruPolicy_OnInsert_def split: option.splits)
  ultimately show ?thesis by (simp add: FifoPolicy_OnHit_def)
qed

lemma next_victim_after_use_witness:
  "fst (LruPolicy_PopVictim (LruPolicy_OnInsert 2 (list_policy_push (1::nat) list_policy_new))) \<noteq> Some 2"
  using next_victim_after_use [of "list_policy_push 1 list_policy_new" "2::nat"]
    list_policy_push_correct [of "list_policy_new" "1::nat"] by simp

text \<open>
  A policy is created for a name exactly when the name is a valid one, it is
  empty and reports that name; any other name is refused with an error.
\<close>

theorem create_policy_iff_valid:
  "(case CreateEvictionPolicy name of
      Inr p \<Rightarrow> IsValidEvictionPolicy name \<and> GetName p = name \<and> policy_keys p = {} \<and> PopVictim p = (None, p)
    | Inl e \<Rightarrow> \<not> IsValidEvictionPolicy name \<and> e = InvalidInputException ''Unknown eviction policy'')"
  by (simp add: CreateEvictionPolicy_def IsValidEvictionPolicy_def LruPolicy_PopVictim_def
      FifoPolicy_PopVictim_def MruPolicy_PopVictim_def ClockPolicy_PopVictim_def list_policy_new_def
      list_policy_items_def sl_items_def clock_policy_new_def clock_queue_def sl_back_def sl_front_def)

end
