(* ===== verification/Data_Cache_Storage.thy ===== *)
theory Data_Cache_Storage
  imports Get_Or_Create
begin

text \<open>
  Cached data blocks and where they are kept: the key of a block
  (\<open>src/include/in_mem_cache_block.hpp\<close>), page-aligned chunks
  (\<open>src/utils/page_aligned_data_chunk.cpp\<close>), the storage interface
  (\<open>src/include/in_memory_data_cache_storage.hpp\<close>) as the locale \<open>data_cache_storage\<close>, and the
  entry-bounded storage (\<open>src/extension_bounded_data_cache_storage.cpp\<close>) that implements it
  on the shared-value LRU cache.
\<close>

section \<open>Block keys\<close>

datatype InMemCacheBlock = InMemCacheBlock (fname: string) (start_off: idx_t) (blk_size: idx_t)

definition block_tie :: "InMemCacheBlock \<Rightarrow> string \<times> idx_t \<times> idx_t" where
  "block_tie b = (fname b, start_off b, blk_size b)"

lemma block_tie_inj: "block_tie a = block_tie b \<longleftrightarrow> a = b"
  by (cases a; cases b) (simp add: block_tie_def)

instantiation InMemCacheBlock :: linorder
begin

definition less_InMemCacheBlock :: "InMemCacheBlock \<Rightarrow> InMemCacheBlock \<Rightarrow> bool" where
  "less_InMemCacheBlock a b \<longleftrightarrow> block_tie a < block_tie b"

definition less_eq_InMemCacheBlock :: "InMemCacheBlock \<Rightarrow> InMemCacheBlock \<Rightarrow> bool" where
  "less_eq_InMemCacheBlock a b \<longleftrightarrow> block_tie a \<le> block_tie b"

instance
proof
  fix a b c :: InMemCacheBlock
  show "a < b \<longleftrightarrow> a \<le> b \<and> \<not> b \<le> a"
    unfolding less_InMemCacheBlock_def less_eq_InMemCacheBlock_def by (rule less_le_not_le)
  show "a \<le> a" "a \<le> b \<or> b \<le> a"
    unfolding less_eq_InMemCacheBlock_def by (rule order_refl, rule linear)
  show "a \<le> c" if "a \<le> b" "b \<le> c"
    using that unfolding less_eq_InMemCacheBlock_def by (rule order_trans)
  show "a = b" if "a \<le> b" "b \<le> a"
    using that order_antisym [of "block_tie a" "block_tie b"]
    by (simp add: less_eq_InMemCacheBlock_def block_tie_inj)
qed

end

lemma block_less_iff:
  "a < b \<longleftrightarrow> fname a < fname b \<or> (fname a = fname b \<and>
     (start_off a < start_off b \<or> (start_off a = start_off b \<and> blk_size a < blk_size b)))"
  by (auto simp: less_InMemCacheBlock_def block_tie_def)

lemma block_le_file: "InMemCacheBlock f 0 0 \<le> b \<longleftrightarrow> f \<le> fname b"
  by (auto simp: less_eq_InMemCacheBlock_def block_tie_def)

section \<open>Page-aligned chunks\<close>

record page_chunk =
  pc_data :: "byte list"
  pc_length :: idx_t
  pc_capacity :: idx_t

definition CopyTo :: "page_chunk \<Rightarrow> addr \<Rightarrow> idx_t \<Rightarrow> idx_t \<Rightarrow> memory \<Rightarrow> memory result" where
  "CopyTo c dest src_offset copy_length m =
     (if pc_length c < u64_add src_offset copy_length
      then Inl (InvalidInputException ''src_offset + copy_length is greater than length'')
      else Inr (mem_write dest (slice src_offset copy_length (pc_data c)) m))"

text \<open>The memory of a fresh chunk is uninitialised: \<open>junk\<close> is what it happens to hold.\<close>

definition AllocatePageAlignedChunk :: "idx_t \<Rightarrow> (nat \<Rightarrow> byte) \<Rightarrow> idx_t \<Rightarrow> page_chunk" where
  "AllocatePageAlignedChunk alignment junk requested_length =
     (if requested_length = 0 then \<lparr>pc_data = [], pc_length = 0, pc_capacity = 0\<rparr>
      else (let capacity = u64_mul (u64_sub (u64_add requested_length alignment) 1 div alignment) alignment
            in \<lparr>pc_data = map junk [0..<capacity], pc_length = 0, pc_capacity = capacity\<rparr>))"

definition chunk_empty :: "page_chunk \<Rightarrow> bool" where
  "chunk_empty c \<longleftrightarrow> pc_data c = [] \<or> pc_length c = 0"

text \<open>The valid bytes of a chunk, and when a chunk is in order.\<close>

definition chunk_bytes :: "page_chunk \<Rightarrow> byte list" where
  "chunk_bytes c = take (pc_length c) (pc_data c)"

definition chunk_wf :: "page_chunk \<Rightarrow> bool" where
  "chunk_wf c \<longleftrightarrow> pc_length c \<le> length (pc_data c) \<and> length (pc_data c) = pc_capacity c"

record InMemCacheDataEntry =
  de_data :: page_chunk
  de_version_tag :: string

definition ValidateVersionTag :: "string \<Rightarrow> string \<Rightarrow> bool" where
  "ValidateVersionTag cached expected_version_tag \<longleftrightarrow>
     expected_version_tag = [] \<or> cached = expected_version_tag"

lemma length_chunk_bytes: "chunk_wf c \<Longrightarrow> length (chunk_bytes c) = pc_length c"
  by (simp add: chunk_bytes_def chunk_wf_def)

lemma CopyTo_ok:
  assumes "chunk_wf c" "src + len \<le> pc_length c" "pc_length c < U64"
  shows "CopyTo c dest src len m = Inr (mem_write dest (slice src len (chunk_bytes c)) m)"
proof -
  have "u64_add src len = src + len" using assms by (simp add: u64_exact)
  moreover have "slice src len (pc_data c) = slice src len (chunk_bytes c)"
    using assms(2) by (simp add: slice_def chunk_bytes_def drop_take take_take min_def)
  ultimately show ?thesis using assms(2) by (simp add: CopyTo_def)
qed

lemma AllocatePageAlignedChunk_ok:
  assumes "0 < alignment" "n + 2 * alignment < U64"
  shows "n \<le> pc_capacity (AllocatePageAlignedChunk alignment junk n)"
    and "pc_capacity (AllocatePageAlignedChunk alignment junk n) mod alignment = 0"
    and "pc_capacity (AllocatePageAlignedChunk alignment junk n) < n + alignment"
    and "chunk_wf (AllocatePageAlignedChunk alignment junk n)"
proof -
  let ?q = "(n + alignment - 1) div alignment"
  have ex: "u64_sub (u64_add n alignment) 1 = n + alignment - 1"
    using assms by (simp add: u64_exact)
  have le: "?q * alignment \<le> n + alignment - 1" by (rule div_mult_floor(1))
  moreover have "n + alignment - 1 < ?q * alignment + alignment"
    using assms(1) by (rule div_mult_floor(2))
  ultimately have b: "n \<le> ?q * alignment" "?q * alignment < n + alignment" using assms(1) by linarith+
  then have cap: "0 < n \<Longrightarrow> pc_capacity (AllocatePageAlignedChunk alignment junk n) = ?q * alignment"
    using assms ex by (simp add: AllocatePageAlignedChunk_def Let_def u64_mul_exact)
  show "n \<le> pc_capacity (AllocatePageAlignedChunk alignment junk n)"
    "pc_capacity (AllocatePageAlignedChunk alignment junk n) mod alignment = 0"
    "pc_capacity (AllocatePageAlignedChunk alignment junk n) < n + alignment"
    using b cap assms(1) by (cases "n = 0"; simp add: AllocatePageAlignedChunk_def)+
  show "chunk_wf (AllocatePageAlignedChunk alignment junk n)"
    by (simp add: chunk_wf_def AllocatePageAlignedChunk_def Let_def)
qed

section \<open>The storage interface\<close>

type_synonym block_entries = "InMemCacheBlock \<rightharpoonup> InMemCacheDataEntry"

locale data_cache_storage =
  fixes put :: "InMemCacheBlock \<Rightarrow> page_chunk \<Rightarrow> string \<Rightarrow> nat \<Rightarrow> 's \<Rightarrow> 's"
    and get :: "InMemCacheBlock \<Rightarrow> string \<Rightarrow> nat \<Rightarrow> 's \<Rightarrow> page_chunk option \<times> 's"
    and del :: "InMemCacheBlock \<Rightarrow> 's \<Rightarrow> bool \<times> 's"
    and clear :: "'s \<Rightarrow> 's"
    and clear_from :: "InMemCacheBlock \<Rightarrow> (InMemCacheBlock \<Rightarrow> bool) \<Rightarrow> 's \<Rightarrow> 's"
    and keys :: "'s \<Rightarrow> InMemCacheBlock list"
    and take_all :: "(nat \<Rightarrow> nat) \<Rightarrow> 's \<Rightarrow> (InMemCacheBlock \<times> InMemCacheDataEntry) list \<times> 's"
    and entries :: "'s \<Rightarrow> block_entries"
    and inv :: "'s \<Rightarrow> bool"
  assumes put_inv: "inv s \<Longrightarrow> inv (put k c tag now s)"
    and put_law: "inv s \<Longrightarrow> entries (put k c tag now s) j = Some e \<Longrightarrow>
      entries s j = Some e \<or> j = k \<and> e = \<lparr>de_data = c, de_version_tag = tag\<rparr>"
    and get_law: "inv s \<Longrightarrow> get k tag now s = (r, s') \<Longrightarrow> inv s' \<and> entries s' \<subseteq>\<^sub>m entries s"
    and get_found: "inv s \<Longrightarrow> get k tag now s = (Some c, s') \<Longrightarrow>
      \<exists>e. entries s k = Some e \<and> de_data e = c \<and> ValidateVersionTag (de_version_tag e) tag"
    and del_law: "inv s \<Longrightarrow> del k s = (present, s') \<Longrightarrow>
      inv s' \<and> entries s' = (entries s)(k := None) \<and> (present \<longleftrightarrow> entries s k \<noteq> None)"
    and clear_law: "inv s \<Longrightarrow> inv (clear s) \<and> entries (clear s) = Map.empty"
    and clear_file: "inv s \<Longrightarrow> inv (clear_from (InMemCacheBlock f 0 0) (\<lambda>k. fname k = f) s) \<and>
      entries (clear_from (InMemCacheBlock f 0 0) (\<lambda>k. fname k = f) s) =
        (\<lambda>k. if fname k = f then None else entries s k)"
    and keys_law: "inv s \<Longrightarrow> set (keys s) = dom (entries s) \<and> distinct (keys s)"
    and take_law: "inv s \<Longrightarrow> take_all clk s = (es, s') \<Longrightarrow> inv s' \<and> entries s' = Map.empty \<and>
      distinct (map fst es) \<and> map_of es \<subseteq>\<^sub>m entries s"
begin

text \<open>
  A property of the single entries, say that they hold the bytes of the remote file, that
  every insertion establishes stays true of everything in the storage.
\<close>

definition holds :: "(InMemCacheBlock \<Rightarrow> InMemCacheDataEntry \<Rightarrow> bool) \<Rightarrow> 's \<Rightarrow> bool" where
  "holds P s \<longleftrightarrow> (\<forall>k e. entries s k = Some e \<longrightarrow> P k e)"

lemma holds_mono: "holds P s \<Longrightarrow> entries s' \<subseteq>\<^sub>m entries s \<Longrightarrow> holds P s'"
  unfolding holds_def using map_leD by metis

lemma holds_put:
  "inv s \<Longrightarrow> holds P s \<Longrightarrow> P k \<lparr>de_data = c, de_version_tag = tag\<rparr> \<Longrightarrow> holds P (put k c tag now s)"
  unfolding holds_def using put_law by blast

lemma holds_get: "inv s \<Longrightarrow> holds P s \<Longrightarrow> get k tag now s = (r, s') \<Longrightarrow> inv s' \<and> holds P s'"
  using get_law holds_mono by blast

lemma get_holds:
  "inv s \<Longrightarrow> holds P s \<Longrightarrow> get k tag now s = (Some c, s') \<Longrightarrow>
   \<exists>e. P k e \<and> de_data e = c \<and> ValidateVersionTag (de_version_tag e) tag"
  using get_found by (meson holds_def)

text \<open>After clearing one file a look-up of any of its blocks misses.\<close>

lemma get_after_clear_file:
  assumes "inv s" "fname k = f"
  shows "fst (get k tag now (clear_from (InMemCacheBlock f 0 0) (\<lambda>k. fname k = f) s)) = None"
proof (rule ccontr)
  let ?s = "clear_from (InMemCacheBlock f 0 0) (\<lambda>k. fname k = f) s"
  assume "fst (get k tag now ?s) \<noteq> None"
  then obtain c s' where "get k tag now ?s = (Some c, s')" by (cases "get k tag now ?s") auto
  from get_found [OF _ this] clear_file [OF assms(1), of f] assms(2) show False by auto
qed

end

section \<open>The entry-bounded storage\<close>

type_synonym ext_storage = "(InMemCacheBlock, InMemCacheDataEntry) lru_state"

definition ext_new :: "nat \<Rightarrow> nat \<Rightarrow> ext_storage" where
  "ext_new max_entries_p timeout_p = lru_new max_entries_p timeout_p"

definition ext_Put :: "InMemCacheBlock \<Rightarrow> page_chunk \<Rightarrow> string \<Rightarrow> nat \<Rightarrow> ext_storage \<Rightarrow> ext_storage" where
  "ext_Put key chunk version_tag now s =
     shared_Put key \<lparr>de_data = chunk, de_version_tag = version_tag\<rparr> now s"

definition ext_Get :: "InMemCacheBlock \<Rightarrow> string \<Rightarrow> nat \<Rightarrow> ext_storage \<Rightarrow> page_chunk option \<times> ext_storage" where
  "ext_Get key expected_version_tag now s =
     (case shared_Get key now s of
        (None, s1) \<Rightarrow> (None, s1)
      | (Some entry, s1) \<Rightarrow>
          if \<not> ValidateVersionTag (de_version_tag entry) expected_version_tag
          then (None, snd (shared_Delete key s1))
          else (Some (de_data entry), s1))"

definition ext_Delete :: "InMemCacheBlock \<Rightarrow> ext_storage \<Rightarrow> bool \<times> ext_storage" where
  "ext_Delete key s = shared_Delete key s"

definition ext_Clear :: "ext_storage \<Rightarrow> ext_storage" where
  "ext_Clear s = shared_Clear s"

definition ext_Clear_from ::
  "InMemCacheBlock \<Rightarrow> (InMemCacheBlock \<Rightarrow> bool) \<Rightarrow> ext_storage \<Rightarrow> ext_storage" where
  "ext_Clear_from start_key flt s = shared_Clear_from start_key flt s"

definition ext_Keys :: "ext_storage \<Rightarrow> InMemCacheBlock list" where
  "ext_Keys s = shared_Keys s"

definition ext_Take ::
  "(nat \<Rightarrow> nat) \<Rightarrow> ext_storage \<Rightarrow> (InMemCacheBlock \<times> InMemCacheDataEntry) list \<times> ext_storage" where
  "ext_Take clk s = shared_Take clk s"

definition ext_entries :: "ext_storage \<Rightarrow> block_entries" where
  "ext_entries s = (\<lambda>k. map_option fst (map_of (lru_abs s) k))"

lemma spec_trim_submap: "distinct (map fst xs) \<Longrightarrow> map_of (spec_trim cap xs) \<subseteq>\<^sub>m map_of xs"
proof -
  assume "distinct (map fst xs)"
  have "map_of (butlast xs) \<subseteq>\<^sub>m map_of xs"
    by (auto simp: map_le_def dom_map_of_conv_image_fst map_of_butlast)
  then show ?thesis by (simp add: spec_trim_def)
qed

lemma ext_entries_eqI: "map_of (lru_abs s') = m \<Longrightarrow> ext_entries s' = (\<lambda>k. map_option fst (m k))"
  by (simp add: ext_entries_def)

lemma ext_entries_mono: "map_of (lru_abs s') \<subseteq>\<^sub>m map_of (lru_abs s) \<Longrightarrow> ext_entries s' \<subseteq>\<^sub>m ext_entries s"
  by (rule map_leI) (auto simp: ext_entries_def dest: map_leD)

lemma shared_abs_distinct: "shared_inv s \<Longrightarrow> distinct (map fst (lru_abs s))"
  by (simp add: shared_inv_rep lru_rep_distinct)

lemma spec_get_submap:
  assumes "distinct (map fst xs)"
  shows "map_of (snd (spec_get t k now xs)) \<subseteq>\<^sub>m map_of xs"
  using assms by (auto simp: spec_get_def map_le_def split: option.splits if_splits)

lemma map_of_filter_keys:
  "map_of (filter (\<lambda>e. P (fst e)) xs) = (\<lambda>k. if P k then map_of xs k else None)"
  by (induction xs) (auto simp: fun_eq_iff)

lemma ext_file_block:
  "InMemCacheBlock f 0 0 \<le> x \<Longrightarrow> \<not> fname x = f \<Longrightarrow> x < y \<Longrightarrow> \<not> fname y = f"
  by (auto simp: block_le_file block_less_iff)

lemma fresh_values_simps [simp]:
  "fresh_values t clk n [] = []"
  "fresh_values t clk n ((k, e) # em) =
     (if lru_expired t (clk n) (le_timestamp e) then [] else [(k, le_value e)]) @ fresh_values t clk (Suc n) em"
  by (simp_all add: fresh_values_def)

lemma fresh_values_from: "(k, v) \<in> set (fresh_values t clk n em) \<Longrightarrow> \<exists>e. (k, e) \<in> set em \<and> le_value e = v"
proof (induction em arbitrary: n)
  case (Cons ke em)
  obtain k' e where ke: "ke = (k', e)" by (cases ke)
  from Cons.prems have "(k, v) = (k', le_value e) \<or> (k, v) \<in> set (fresh_values t clk (Suc n) em)"
    by (auto simp: ke split: if_splits)
  with Cons.IH [of "Suc n"] show ?case by (auto simp: ke)
qed simp

lemma fresh_values_distinct:
  "distinct (map fst em) \<Longrightarrow> distinct (map fst (fresh_values t clk n em))"
proof (induction em arbitrary: n)
  case (Cons ke em)
  obtain k e where ke: "ke = (k, e)" by (cases ke)
  have "k \<notin> fst ` set (fresh_values t clk (Suc n) em)"
    using Cons.prems fresh_values_from [of k _ t clk "Suc n" em] by (force simp: ke)
  with Cons show ?case by (simp add: ke)
qed simp

lemma fresh_values_submap:
  assumes "distinct (map fst em)"
  shows "map_of (fresh_values t clk n em) \<subseteq>\<^sub>m (\<lambda>k. map_option le_value (map_of em k))"
proof (rule map_leI)
  fix k v assume "map_of (fresh_values t clk n em) k = Some v"
  then obtain e where "(k, e) \<in> set em" "le_value e = v" using fresh_values_from by (metis map_of_SomeD)
  with assms show "map_option le_value (map_of em k) = Some v" by simp
qed

lemma ext_Get_laws:
  assumes inv: "shared_inv s" and g: "ext_Get k tag now s = (r, s')"
  shows "shared_inv s'" "ext_entries s' \<subseteq>\<^sub>m ext_entries s"
    and "r = Some c \<Longrightarrow>
      \<exists>e. ext_entries s k = Some e \<and> de_data e = c \<and> ValidateVersionTag (de_version_tag e) tag"
proof -
  obtain r1 s1 where g1: "shared_Get k now s = (r1, s1)" by fastforce
  have inv1: "shared_inv s1" using shared.inv_get [OF inv, of k now] g1 by simp
  have abs1: "lru_abs s1 = snd (spec_get (timeout_millisec s) k now (lru_abs s))"
    and r1: "r1 = fst (spec_get (timeout_millisec s) k now (lru_abs s))"
    using shared.abs_get [OF inv, of k now] g1 by simp_all
  have sub1: "map_of (lru_abs s1) \<subseteq>\<^sub>m map_of (lru_abs s)"
    unfolding abs1 by (rule spec_get_submap [OF shared_abs_distinct [OF inv]])
  have del: "shared_inv (snd (shared_Delete k s1))"
      "map_of (lru_abs (snd (shared_Delete k s1))) = (map_of (lru_abs s1))(k := None)"
    using inv1 by (simp_all add: shared.inv_del shared.abs_del spec_delete_def)
  have sub2: "map_of (lru_abs (snd (shared_Delete k s1))) \<subseteq>\<^sub>m map_of (lru_abs s)"
    using sub1 unfolding del(2) by (auto simp: map_le_def)
  show "shared_inv s'" "ext_entries s' \<subseteq>\<^sub>m ext_entries s"
    using g g1 inv1 del(1) ext_entries_mono [OF sub1] ext_entries_mono [OF sub2]
    by (auto simp: ext_Get_def split: option.splits if_splits)
  show "\<exists>e. ext_entries s k = Some e \<and> de_data e = c \<and> ValidateVersionTag (de_version_tag e) tag"
    if "r = Some c"
    using that g g1 r1
    by (auto simp: ext_Get_def ext_entries_def spec_get_def split: option.splits if_splits)
qed

lemma ext_Put_laws:
  assumes "shared_inv s"
  shows "shared_inv (ext_Put k c tag now s)"
    and "ext_entries (ext_Put k c tag now s) \<subseteq>\<^sub>m (ext_entries s)(k \<mapsto> \<lparr>de_data = c, de_version_tag = tag\<rparr>)"
proof -
  let ?e = "\<lparr>de_data = c, de_version_tag = tag\<rparr>" and ?xs = "AList.delete k (lru_abs s)"
  show "shared_inv (ext_Put k c tag now s)" using assms by (simp add: ext_Put_def shared.inv_put)
  have "distinct (map fst ((k, ?e, now) # ?xs))"
    using shared_abs_distinct [OF assms] by (simp add: distinct_delete)
  then have "map_of (lru_abs (ext_Put k c tag now s)) \<subseteq>\<^sub>m (map_of (lru_abs s))(k \<mapsto> (?e, now))"
    using spec_trim_submap [of "(k, ?e, now) # ?xs" "max_entries s"] assms
    by (simp add: ext_Put_def shared.abs_put spec_put_def)
  then show "ext_entries (ext_Put k c tag now s) \<subseteq>\<^sub>m (ext_entries s)(k \<mapsto> ?e)"
    by (intro map_leI) (auto simp: ext_entries_def dest: map_leD split: if_splits)
qed

lemma ext_Take_laws:
  assumes inv: "shared_inv s" and t: "ext_Take clk s = (es, s')"
  shows "shared_inv s'" "ext_entries s' = Map.empty" "distinct (map fst es)" "map_of es \<subseteq>\<^sub>m ext_entries s"
proof -
  have rep: "lru_rep s" using shared_inv_rep [OF inv] .
  have es: "es = fresh_values (timeout_millisec s) clk 0 (entry_map s)"
    using shared_Take_loop_correct(1) [OF rep, of clk 0] t by (simp add: ext_Take_def shared_Take_def)
  have s': "s' = snd (shared_Take clk s)" using t by (simp add: ext_Take_def)
  show "shared_inv s'" "ext_entries s' = Map.empty"
    using shared_Take_inv [OF inv] shared_Take_abs [OF inv] by (simp_all add: s' ext_entries_def fun_eq_iff)
  have d: "distinct (map fst (entry_map s))" using rep by (simp add: lru_rep_def)
  have "ext_entries s = (\<lambda>k. map_option le_value (map_of (entry_map s) k))"
    using map_of_lru_abs [OF rep] by (auto simp: ext_entries_def fun_eq_iff option.map_comp comp_def)
  then show "distinct (map fst es)" "map_of es \<subseteq>\<^sub>m ext_entries s"
    using fresh_values_submap [OF d] fresh_values_distinct [OF d] by (simp_all add: es)
qed

lemma ext_Clear_file:
  assumes "shared_inv s"
  shows "shared_inv (ext_Clear_from (InMemCacheBlock f 0 0) (\<lambda>k. fname k = f) s)"
    and "ext_entries (ext_Clear_from (InMemCacheBlock f 0 0) (\<lambda>k. fname k = f) s) =
        (\<lambda>k. if fname k = f then None else ext_entries s k)"
proof -
  let ?P = "\<lambda>k. fname k = f" and ?s = "ext_Clear_from (InMemCacheBlock f 0 0) (\<lambda>k. fname k = f) s"
  let ?ks = "shared_keys_to_delete (InMemCacheBlock f 0 0) ?P s"
  show "shared_inv ?s" using assms by (simp add: ext_Clear_from_def shared_Clear_from_def shared_delete_keys)
  have ks: "set ?ks = {k \<in> fst ` set (lru_abs s). fname k = f}"
  proof -
    have "set ?ks = {k \<in> fst ` set (lru_abs s). InMemCacheBlock f 0 0 \<le> k \<and> fname k = f}"
      using ext_file_block by (intro shared_keys_to_delete_set [OF assms]) blast
    then show ?thesis by (auto simp: block_le_file)
  qed
  have "map_of (lru_abs ?s) = (\<lambda>k. if k \<notin> set ?ks then map_of (lru_abs s) k else None)"
    using assms shared_delete_keys(2) [OF assms, of ?ks] map_of_filter_keys [of "\<lambda>k. k \<notin> set ?ks" "lru_abs s"]
    by (simp add: ext_Clear_from_def shared_Clear_from_def)
  moreover have "map_of (lru_abs s) k = None" if "k \<notin> fst ` set (lru_abs s)" for k
    using that by (simp add: map_of_eq_None_iff)
  ultimately show "ext_entries ?s = (\<lambda>k. if fname k = f then None else ext_entries s k)"
    using ks by (fastforce simp: ext_entries_def fun_eq_iff)
qed

interpretation ext: data_cache_storage ext_Put ext_Get ext_Delete ext_Clear ext_Clear_from ext_Keys
  ext_Take ext_entries shared_inv
proof (unfold_locales, goal_cases)
  case (1 s k c tag now)
  then show ?case using ext_Put_laws by blast
next
  case (2 s k c tag now j e)
  have "((ext_entries s)(k \<mapsto> \<lparr>de_data = c, de_version_tag = tag\<rparr>)) j = Some e"
    by (rule map_leD [OF ext_Put_laws(2) [OF 2(1)]]) (rule 2(2))
  then show ?case by (auto split: if_splits)
next
  case (3 s k tag now r s')
  then show ?case using ext_Get_laws by blast
next
  case (4 s k tag now c s')
  then show ?case using ext_Get_laws(3) by blast
next
  case (5 s k r s')
  then show ?case
    using shared.inv_del [OF 5(1), of k] shared.abs_del [OF 5(1), of k]
    by (auto simp: ext_Delete_def ext_entries_def spec_delete_def fun_eq_iff split: if_splits)
next
  case (6 s)
  then show ?case by (simp add: ext_Clear_def ext_entries_def fun_eq_iff)
next
  case (7 s f)
  then show ?case using ext_Clear_file by blast
next
  case (8 s)
  then have "dom (ext_entries s) = fst ` set (lru_abs s)"
    by (auto simp: ext_entries_def dom_def map_of_eq_None_iff image_iff)
  with 8 show ?case
    using shared_Keys_set [OF 8] by (simp add: ext_Keys_def shared_Keys_def shared_inv_def om_sorted_distinct)
next
  case (9 s clk es s')
  then show ?case using ext_Take_laws by blast
qed

section \<open>Properties\<close>

text \<open>
  Invalidation is exact: clearing one file from the entry-bounded storage, an
  ordered scan from the file's first possible key that stops at the first other file, removes
  every block of that file, so that every later look-up of one misses, and no block of any
  other file.
\<close>

theorem ext_clear_file_exact:
  assumes "shared_inv s"
  shows "ext_entries (ext_Clear_from (InMemCacheBlock f 0 0) (\<lambda>k. fname k = f) s) =
      (\<lambda>k. if fname k = f then None else ext_entries s k) \<and>
    fst (ext_Get (InMemCacheBlock f off len) tag now
      (ext_Clear_from (InMemCacheBlock f 0 0) (\<lambda>k. fname k = f) s)) = None"
  using ext_Clear_file(2) [OF assms] ext.get_after_clear_file [OF assms, of "InMemCacheBlock f off len" f]
  by simp

lemma ext_clear_file_exact_witness:
  "fst (ext_Get (InMemCacheBlock ''f'' 0 4) [] 9 (ext_Clear_from (InMemCacheBlock ''f'' 0 0)
     (\<lambda>k. fname k = ''f'') (ext_Put (InMemCacheBlock ''f'' 0 4) \<lparr>pc_data = [1], pc_length = 1, pc_capacity = 1\<rparr>
       [] 5 (ext_new 2 0)))) = None"
proof -
  have "shared_inv (ext_Put (InMemCacheBlock ''f'' 0 4) \<lparr>pc_data = [1], pc_length = 1, pc_capacity = 1\<rparr>
       [] 5 (ext_new 2 0))"
    by (rule ext.put_inv) (simp add: ext_new_def)
  from ext_clear_file_exact [OF this, of "''f''" 0 4 "[]" 9] show ?thesis by simp
qed

text \<open>
  Versions: the entry-bounded storage returns a block only when its version tag is
  the one the caller expects, or the caller expects none, and a block of another version is
  dropped.
\<close>

theorem ext_get_checks_version:
  assumes "shared_inv s" "ext_Get k tag now s = (r, s')"
  shows "(\<forall>c. r = Some c \<longrightarrow> (\<exists>e. ext_entries s k = Some e \<and> de_data e = c \<and>
      (tag = [] \<or> de_version_tag e = tag))) \<and>
    (\<forall>e. ext_entries s k = Some e \<longrightarrow> tag \<noteq> [] \<longrightarrow> de_version_tag e \<noteq> tag \<longrightarrow>
      r = None \<and> ext_entries s' k = None)"
proof -
  have found: "\<exists>e. ext_entries s k = Some e \<and> de_data e = c \<and> (tag = [] \<or> de_version_tag e = tag)"
    if "r = Some c" for c
    using ext_Get_laws(3) [OF assms that] by (auto simp: ValidateVersionTag_def)
  have "ext_entries s' k = None"
    if e: "ext_entries s k = Some e" "tag \<noteq> []" "de_version_tag e \<noteq> tag" for e
  proof -
    obtain ts where ts: "map_of (lru_abs s) k = Some (e, ts)" using e(1) by (auto simp: ext_entries_def)
    obtain r1 s1 where g1: "shared_Get k now s = (r1, s1)" by fastforce
    have r1: "r1 = fst (spec_get (timeout_millisec s) k now (lru_abs s))"
      "lru_abs s1 = snd (spec_get (timeout_millisec s) k now (lru_abs s))"
      using shared.abs_get [OF assms(1), of k now] g1 by simp_all
    have inv1: "shared_inv s1" using shared.inv_get [OF assms(1), of k now] g1 by simp
    show ?thesis
      using assms(2) e(2,3) g1 r1 ts shared.abs_del(2) [OF inv1, of k]
      by (auto simp: ext_Get_def ValidateVersionTag_def ext_entries_def spec_get_def spec_delete_def
          split: if_splits option.splits)
  qed
  with found show ?thesis by (metis option.exhaust option.inject)
qed

lemma ext_get_checks_version_witness:
  "\<exists>s'. ext_Get (InMemCacheBlock ''f'' 0 4) [] 9 (ext_new 2 0) = (None, s')"
proof -
  obtain r s' where rs: "ext_Get (InMemCacheBlock ''f'' 0 4) [] 9 (ext_new 2 0) = (r, s')" by fastforce
  have "shared_inv (ext_new 2 0)" by (simp add: ext_new_def)
  from ext_get_checks_version [OF this rs] have "r = None"
    by (cases r) (auto simp: ext_entries_def ext_new_def)
  with rs show ?thesis by blast
qed

end
