(* ===== verification/Policy_Storage.thy ===== *)
theory Policy_Storage
  imports Data_Cache_Storage Eviction_Policy
begin

text \<open>
  \<open>PolicyDataCacheStorage\<close> (\<open>src/policy_data_cache_storage.cpp\<close>): the byte-bounded block
  storage. Files are assigned to groups by the first pattern that occurs in their path, and
  each group has a byte budget, an eviction policy and its own statistics. The storage
  implements the interface \<open>data_cache_storage\<close> on top of the interface \<open>eviction_policy\<close>.
\<close>

section \<open>State\<close>

record policy_entry =
  pe_data :: InMemCacheDataEntry
  pe_bytes :: idx_t
  pe_inserted_at :: nat

record policy_group =
  pg_name :: string
  pg_pattern :: string
  pg_policy :: "InMemCacheBlock policy"
  pg_bounded :: bool
  pg_capacity_bytes :: idx_t
  pg_used_bytes :: idx_t
  pg_entries :: "(InMemCacheBlock \<times> policy_entry) list"
  pg_hits :: idx_t
  pg_misses :: idx_t
  pg_evictions :: idx_t
  pg_bytes_admitted :: idx_t
  pg_bytes_evicted :: idx_t
  pg_min_entry_bytes :: idx_t
  pg_max_entry_bytes :: idx_t

record policy_storage =
  ps_groups :: "policy_group list"
  ps_group_by_file :: "(string \<times> nat) list"
  ps_max_bytes :: idx_t
  ps_timeout_millisec :: nat

section \<open>Assigning files to groups\<close>

fun str_contains :: "string \<Rightarrow> string \<Rightarrow> bool" where
  "str_contains [] pat \<longleftrightarrow> pat = []"
| "str_contains (c # s) pat \<longleftrightarrow> take (length pat) (c # s) = pat \<or> str_contains s pat"

fun first_match :: "string \<Rightarrow> nat \<Rightarrow> policy_group list \<Rightarrow> nat option" where
  "first_match f i [] = None"
| "first_match f i (g # gs) =
     (if pg_pattern g \<noteq> [] \<and> str_contains f (pg_pattern g) then Some i else first_match f (Suc i) gs)"

definition choose_group :: "string \<Rightarrow> policy_group list \<Rightarrow> nat" where
  "choose_group f gs = (case first_match f 0 gs of Some i \<Rightarrow> i | None \<Rightarrow> length gs - 1)"

text \<open>\<open>GroupFor\<close> returns a reference to a group: its position in the vector.\<close>

definition GroupFor :: "string \<Rightarrow> policy_storage \<Rightarrow> nat \<times> policy_storage" where
  "GroupFor f st =
     (case map_of (ps_group_by_file st) f of
        Some i \<Rightarrow> (i, st)
      | None \<Rightarrow>
          (let chosen = choose_group f (ps_groups st)
           in (chosen, st\<lparr>ps_group_by_file := AList.update f chosen (ps_group_by_file st)\<rparr>)))"

section \<open>Eviction\<close>

text \<open>
  Clock readings are in nanoseconds; the steady clock does not run backwards.
\<close>

definition Expired :: "nat \<Rightarrow> policy_storage \<Rightarrow> policy_entry \<Rightarrow> bool" where
  "Expired now st e \<longleftrightarrow>
     ps_timeout_millisec st \<noteq> 0 \<and> ps_timeout_millisec st \<le> (now - pe_inserted_at e) div 1000000"

fun policy_size :: "'k policy \<Rightarrow> nat" where
  "policy_size (LruPolicy p) = sl_size (lp_order p)"
| "policy_size (FifoPolicy p) = sl_size (lp_order p)"
| "policy_size (MruPolicy p) = sl_size (lp_order p)"
| "policy_size (ClockPolicy p) = sl_size (cp_ring p)"

lemma sl_size_set_referenced: "sl_size (clock_set_referenced i b l) = sl_size l"
  by (simp add: clock_set_referenced_def sl_assign_def sl_size_def split: option.splits)

lemma sl_size_erase_less: "sl_deref i l = Some x \<Longrightarrow> sl_size (sl_erase i l) < sl_size l"
  by (auto simp: sl_deref_def sl_size_def dest!: map_of_SomeD intro!: length_filter_less)

lemma sweep_shrinks:
  "ClockPolicy_sweep g p = (Some k, p') \<Longrightarrow> sl_size (cp_ring p') < sl_size (cp_ring p)"
proof (induction g p rule: ClockPolicy_sweep.induct)
  case (2 guard p)
  then show ?case
    by (auto simp: Let_def sl_size_set_referenced sl_size_erase_less split: option.splits if_splits)
qed simp

lemma PopVictim_shrinks: "PopVictim p = (Some k, p') \<Longrightarrow> policy_size p' < policy_size p"
proof (cases p)
  case (ClockPolicy c)
  assume "PopVictim p = (Some k, p')"
  with ClockPolicy obtain c' where c': "ClockPolicy_PopVictim c = (Some k, c')" "p' = ClockPolicy c'"
    by (auto simp: map_prod_def split: prod.splits)
  then have "sl_size (cp_ring c') < sl_size (cp_ring c)"
    by (auto simp: ClockPolicy_PopVictim_def Let_def simp del: ClockPolicy_sweep.simps
        split: if_splits dest!: sweep_shrinks)
  with ClockPolicy c' show ?thesis by simp
qed (auto simp: map_prod_def LruPolicy_PopVictim_def FifoPolicy_PopVictim_def MruPolicy_PopVictim_def
    sl_back_def sl_front_def sl_size_def split: prod.splits option.splits if_splits list.splits)

function evict_loop :: "policy_group \<Rightarrow> idx_t \<Rightarrow> policy_group" where
  "evict_loop g needed =
     (if pg_capacity_bytes g < u64_add (pg_used_bytes g) needed
      then (case PopVictim (pg_policy g) of
              (None, p) \<Rightarrow> g\<lparr>pg_policy := p\<rparr>
            | (Some victim, p) \<Rightarrow>
                (case map_of (pg_entries g) victim of
                   None \<Rightarrow> evict_loop (g\<lparr>pg_policy := p\<rparr>) needed
                 | Some e \<Rightarrow>
                     evict_loop
                       (g\<lparr>pg_policy := p,
                          pg_used_bytes := u64_sub (pg_used_bytes g) (pe_bytes e),
                          pg_bytes_evicted := u64_add (pg_bytes_evicted g) (pe_bytes e),
                          pg_evictions := u64_add (pg_evictions g) 1,
                          pg_entries := AList.delete victim (pg_entries g)\<rparr>) needed))
      else g)"
  by pat_completeness auto
termination
  by (relation "measure (\<lambda>(g, needed). policy_size (pg_policy g))")
    (auto dest: PopVictim_shrinks [OF sym])

declare evict_loop.simps [simp del]

definition EvictToFit :: "policy_group \<Rightarrow> idx_t \<Rightarrow> policy_group" where
  "EvictToFit g needed = (if \<not> pg_bounded g then g else evict_loop g needed)"

section \<open>Operations\<close>

text \<open>Removing an entry other than by eviction.\<close>

definition group_remove :: "InMemCacheBlock \<Rightarrow> policy_entry \<Rightarrow> policy_group \<Rightarrow> policy_group" where
  "group_remove key e g =
     g\<lparr>pg_used_bytes := u64_sub (pg_used_bytes g) (pe_bytes e),
       pg_entries := AList.delete key (pg_entries g),
       pg_policy := OnErase key (pg_policy g)\<rparr>"

definition group_insert :: "InMemCacheBlock \<Rightarrow> policy_entry \<Rightarrow> policy_group \<Rightarrow> policy_group" where
  "group_insert key e g =
     g\<lparr>pg_used_bytes := u64_add (pg_used_bytes g) (pe_bytes e),
       pg_bytes_admitted := u64_add (pg_bytes_admitted g) (pe_bytes e),
       pg_min_entry_bytes :=
         (if pg_min_entry_bytes g = 0 then pe_bytes e else min (pg_min_entry_bytes g) (pe_bytes e)),
       pg_max_entry_bytes := max (pg_max_entry_bytes g) (pe_bytes e),
       pg_entries := AList.update key e (pg_entries g),
       pg_policy := OnInsert key (pg_policy g)\<rparr>"

definition group_Put :: "InMemCacheBlock \<Rightarrow> page_chunk \<Rightarrow> string \<Rightarrow> nat \<Rightarrow> policy_group \<Rightarrow> policy_group" where
  "group_Put key chunk version_tag now g =
     (let bytes = (if 0 < pc_capacity chunk then pc_capacity chunk else pc_length chunk)
      in if \<not> Admit (pg_policy g) bytes then g
         else if pg_bounded g \<and> pg_capacity_bytes g < bytes then g
         else (let g1 = (case map_of (pg_entries g) key of
                           Some existing \<Rightarrow> group_remove key existing g
                         | None \<Rightarrow> g);
                   g2 = EvictToFit g1 bytes
               in group_insert key
                    \<lparr>pe_data = \<lparr>de_data = chunk, de_version_tag = version_tag\<rparr>,
                     pe_bytes = bytes, pe_inserted_at = now\<rparr> g2))"

definition on_group :: "nat \<Rightarrow> (policy_group \<Rightarrow> policy_group) \<Rightarrow> policy_storage \<Rightarrow> policy_storage" where
  "on_group i f st = st\<lparr>ps_groups := (ps_groups st)[i := f (ps_groups st ! i)]\<rparr>"

definition policy_Put ::
  "InMemCacheBlock \<Rightarrow> page_chunk \<Rightarrow> string \<Rightarrow> nat \<Rightarrow> policy_storage \<Rightarrow> policy_storage" where
  "policy_Put key chunk version_tag now st =
     (case GroupFor (fname key) st of (i, st) \<Rightarrow> on_group i (group_Put key chunk version_tag now) st)"

definition policy_Get ::
  "InMemCacheBlock \<Rightarrow> string \<Rightarrow> nat \<Rightarrow> policy_storage \<Rightarrow> page_chunk option \<times> policy_storage" where
  "policy_Get key expected_version_tag now st =
     (case GroupFor (fname key) st of (i, st) \<Rightarrow>
        (case map_of (pg_entries (ps_groups st ! i)) key of
           None \<Rightarrow> (None, on_group i (\<lambda>g. g\<lparr>pg_misses := u64_add (pg_misses g) 1\<rparr>) st)
         | Some e \<Rightarrow>
             if Expired now st e \<or> \<not> ValidateVersionTag (de_version_tag (pe_data e)) expected_version_tag
             then (None, on_group i (\<lambda>g. (group_remove key e g)\<lparr>pg_misses := u64_add (pg_misses g) 1\<rparr>) st)
             else (Some (de_data (pe_data e)),
                   on_group i (\<lambda>g. g\<lparr>pg_hits := u64_add (pg_hits g) 1,
                                      pg_policy := OnHit key (pg_policy g)\<rparr>) st)))"

definition policy_Delete :: "InMemCacheBlock \<Rightarrow> policy_storage \<Rightarrow> bool \<times> policy_storage" where
  "policy_Delete key st =
     (case GroupFor (fname key) st of (i, st) \<Rightarrow>
        (case map_of (pg_entries (ps_groups st ! i)) key of
           None \<Rightarrow> (False, st)
         | Some e \<Rightarrow> (True, on_group i (group_remove key e) st)))"

definition group_Clear :: "policy_group \<Rightarrow> policy_group" where
  "group_Clear g = g\<lparr>pg_entries := [], pg_policy := policy_Clear (pg_policy g), pg_used_bytes := 0\<rparr>"

definition policy_Clear_all :: "policy_storage \<Rightarrow> policy_storage" where
  "policy_Clear_all st = st\<lparr>ps_groups := map group_Clear (ps_groups st)\<rparr>"

text \<open>The scan with an iterator, \<open>erase\<close> returning the next one.\<close>

fun clear_matching ::
  "(InMemCacheBlock \<Rightarrow> bool) \<Rightarrow> (InMemCacheBlock \<times> policy_entry) list \<Rightarrow> policy_group \<Rightarrow> policy_group" where
  "clear_matching flt [] g = g"
| "clear_matching flt ((k, e) # rest) g =
     clear_matching flt rest (if flt k then group_remove k e g else g)"

definition policy_Clear_from ::
  "InMemCacheBlock \<Rightarrow> (InMemCacheBlock \<Rightarrow> bool) \<Rightarrow> policy_storage \<Rightarrow> policy_storage" where
  "policy_Clear_from start_key flt st =
     st\<lparr>ps_groups := map (\<lambda>g. clear_matching flt (pg_entries g) g) (ps_groups st)\<rparr>"

definition policy_Keys :: "policy_storage \<Rightarrow> InMemCacheBlock list" where
  "policy_Keys st = concat (map (\<lambda>g. map fst (pg_entries g)) (ps_groups st))"

definition policy_Take ::
  "policy_storage \<Rightarrow> (InMemCacheBlock \<times> InMemCacheDataEntry) list \<times> policy_storage" where
  "policy_Take st =
     (concat (map (\<lambda>g. map (\<lambda>(k, e). (k, pe_data e)) (pg_entries g)) (ps_groups st)),
      st\<lparr>ps_groups := map group_Clear (ps_groups st)\<rparr>)"

record PolicyGroupStats =
  st_group :: string
  st_policy :: string
  st_capacity_bytes :: idx_t
  st_used_bytes :: idx_t
  st_entry_count :: idx_t
  st_hits :: idx_t
  st_misses :: idx_t
  st_evictions :: idx_t
  st_bytes_admitted :: idx_t
  st_bytes_evicted :: idx_t
  st_min_entry_bytes :: idx_t
  st_max_entry_bytes :: idx_t

definition policy_GetStats :: "policy_storage \<Rightarrow> PolicyGroupStats list" where
  "policy_GetStats st =
     map (\<lambda>g. \<lparr>st_group = pg_name g, st_policy = GetName (pg_policy g),
               st_capacity_bytes = pg_capacity_bytes g, st_used_bytes = pg_used_bytes g,
               st_entry_count = length (pg_entries g), st_hits = pg_hits g, st_misses = pg_misses g,
               st_evictions = pg_evictions g, st_bytes_admitted = pg_bytes_admitted g,
               st_bytes_evicted = pg_bytes_evicted g, st_min_entry_bytes = pg_min_entry_bytes g,
               st_max_entry_bytes = pg_max_entry_bytes g\<rparr>) (ps_groups st)"

section \<open>Construction\<close>

record SpecEntry =
  se_pattern :: string
  se_policy :: string
  se_bytes :: idx_t

definition new_group :: "string \<Rightarrow> string \<Rightarrow> InMemCacheBlock policy \<Rightarrow> bool \<Rightarrow> idx_t \<Rightarrow> policy_group" where
  "new_group name pattern p bounded capacity =
     \<lparr>pg_name = name, pg_pattern = pattern, pg_policy = p, pg_bounded = bounded,
      pg_capacity_bytes = capacity, pg_used_bytes = 0, pg_entries = [], pg_hits = 0, pg_misses = 0,
      pg_evictions = 0, pg_bytes_admitted = 0, pg_bytes_evicted = 0, pg_min_entry_bytes = 0,
      pg_max_entry_bytes = 0\<rparr>"

definition explicit_bytes :: "SpecEntry list \<Rightarrow> idx_t" where
  "explicit_bytes spec = fold (\<lambda>e acc. if 0 < se_bytes e then u64_add acc (se_bytes e) else acc) spec 0"

definition unsized_groups :: "SpecEntry list \<Rightarrow> nat" where
  "unsized_groups spec = fold (\<lambda>e acc. if 0 < se_bytes e then acc else acc + 1) spec 1"

fun spec_groups :: "bool \<Rightarrow> idx_t \<Rightarrow> SpecEntry list \<Rightarrow> policy_group list result" where
  "spec_groups bounded share [] = Inr []"
| "spec_groups bounded share (e # es) =
     (case CreateEvictionPolicy (se_policy e) of
        Inl err \<Rightarrow> Inl err
      | Inr p \<Rightarrow>
          (case spec_groups bounded share es of
             Inl err \<Rightarrow> Inl err
           | Inr gs \<Rightarrow>
               Inr (new_group (se_pattern e) (se_pattern e) p bounded
                      (if 0 < se_bytes e then se_bytes e else share) # gs)))"

text \<open>The constructor, given what \<open>ParseFilePolicySpec\<close> returned.\<close>

definition policy_storage_new ::
  "idx_t \<Rightarrow> nat \<Rightarrow> string \<Rightarrow> SpecEntry list result \<Rightarrow> policy_storage result" where
  "policy_storage_new max_bytes timeout default_policy parsed =
     (if \<not> IsValidEvictionPolicy default_policy
      then Inl (InvalidInputException ''Unknown eviction policy'')
      else (case parsed of
        Inl err \<Rightarrow> Inl err
      | Inr spec \<Rightarrow>
          if 0 < max_bytes \<and> max_bytes < explicit_bytes spec
          then Inl (InvalidInputException ''File policy budgets exceed the cache budget'')
          else (let share = (if max_bytes = 0 then 0
                             else u64_sub max_bytes (explicit_bytes spec) div unsized_groups spec);
                    bounded = (0 < max_bytes)
                in case spec_groups bounded share spec of
                     Inl err \<Rightarrow> Inl err
                   | Inr gs \<Rightarrow>
                       (case CreateEvictionPolicy default_policy of
                          Inl err \<Rightarrow> Inl err
                        | Inr p \<Rightarrow>
                            Inr \<lparr>ps_groups = gs @ [new_group (if spec = [] then ''global'' else ''default'')
                                                     [] p bounded share],
                                 ps_group_by_file = [], ps_max_bytes = max_bytes,
                                 ps_timeout_millisec = timeout\<rparr>))))"

section \<open>Parsing the file policy specification\<close>

text \<open>
  \<open>std::stoull\<close>: leading white space and a sign are accepted, parsing stops at the first
  character that is no digit, and no digits or too large a value is an exception (\<open>None\<close>).
\<close>

definition is_digit :: "char \<Rightarrow> bool" where
  "is_digit c \<longleftrightarrow> CHR ''0'' \<le> c \<and> c \<le> CHR ''9''"

definition is_space :: "char \<Rightarrow> bool" where
  "is_space c \<longleftrightarrow> c = CHR '' '' \<or> (of_char c :: nat) \<in> {9, 10, 11, 12, 13}"

definition digits_value :: "string \<Rightarrow> nat" where
  "digits_value ds = foldl (\<lambda>n c. n * 10 + (of_char c - 48)) 0 ds"

definition stoull :: "string \<Rightarrow> idx_t option" where
  "stoull s =
     (let t = dropWhile is_space s;
          neg = (t \<noteq> [] \<and> hd t = CHR ''-'');
          u = (if t \<noteq> [] \<and> (hd t = CHR ''-'' \<or> hd t = CHR ''+'') then tl t else t);
          ds = takeWhile is_digit u
      in if ds = [] then None
         else if U64 \<le> digits_value ds then None
         else Some (if neg then (U64 - digits_value ds) mod U64 else digits_value ds))"

text \<open>\<open>s.find(c)\<close> with \<open>substr\<close>: what comes before and after the first \<open>c\<close>.\<close>

definition split_at_char :: "char \<Rightarrow> string \<Rightarrow> (string \<times> string) option" where
  "split_at_char c s =
     (if c \<in> set s then Some (takeWhile (\<lambda>x. x \<noteq> c) s, tl (dropWhile (\<lambda>x. x \<noteq> c) s)) else None)"

text \<open>
  Trimming and splitting are DuckDB's \<open>StringUtil\<close>, and a percentage is a \<open>double\<close>; both are
  arguments: \<open>trim\<close>, \<open>split\<close>, \<open>stod\<close> (\<open>None\<close> for an exception), the test for \<open>(0, 100]\<close> and
  the scaling of the budget.
\<close>

definition parse_size ::
  "(string \<Rightarrow> 'd option) \<Rightarrow> ('d \<Rightarrow> bool) \<Rightarrow> (idx_t \<Rightarrow> 'd \<Rightarrow> idx_t) \<Rightarrow> idx_t \<Rightarrow> string \<Rightarrow> idx_t result" where
  "parse_size stod pct_in_range pct_bytes max_bytes size_str =
     (let is_percent = (size_str \<noteq> [] \<and> last size_str = CHR ''%'');
          bytes = (if is_percent
                   then (case stod (butlast size_str) of
                           None \<Rightarrow> Inl (InvalidInputException ''Malformed size'')
                         | Some pct \<Rightarrow>
                             if \<not> pct_in_range pct
                             then Inl (InvalidInputException ''Percentage must be in (0, 100]'')
                             else Inr (pct_bytes max_bytes pct))
                   else (case stoull size_str of
                           None \<Rightarrow> Inl (InvalidInputException ''Malformed size'')
                         | Some n \<Rightarrow> Inr n))
      in case bytes of
           Inl err \<Rightarrow> Inl err
         | Inr n \<Rightarrow> if n = 0 then Inl (InvalidInputException ''Size resolves to 0 bytes'') else Inr n)"

definition parse_entry ::
  "(string \<Rightarrow> string) \<Rightarrow> (string \<Rightarrow> 'd option) \<Rightarrow> ('d \<Rightarrow> bool) \<Rightarrow> (idx_t \<Rightarrow> 'd \<Rightarrow> idx_t) \<Rightarrow> idx_t \<Rightarrow>
   string \<Rightarrow> SpecEntry result" where
  "parse_entry trim stod pct_in_range pct_bytes max_bytes trimmed =
     (case split_at_char CHR ''='' trimmed of
        None \<Rightarrow> Inl (InvalidInputException ''Malformed file policy entry'')
      | Some (lhs, rhs0) \<Rightarrow>
          (let pattern = trim lhs; rhs = trim rhs0;
               sized = (case split_at_char CHR '':'' rhs of
                          None \<Rightarrow> Inr (rhs, 0)
                        | Some (pol, size_str) \<Rightarrow>
                            (case parse_size stod pct_in_range pct_bytes max_bytes (trim size_str) of
                               Inl err \<Rightarrow> Inl err
                             | Inr bytes \<Rightarrow> Inr (trim pol, bytes)))
           in case sized of
                Inl err \<Rightarrow> Inl err
              | Inr (pol, bytes) \<Rightarrow>
                  if pattern = [] then Inl (InvalidInputException ''Empty pattern'')
                  else if \<not> IsValidEvictionPolicy pol then Inl (InvalidInputException ''Unknown eviction policy'')
                  else Inr \<lparr>se_pattern = pattern, se_policy = pol, se_bytes = bytes\<rparr>))"

fun parse_parts ::
  "(string \<Rightarrow> string) \<Rightarrow> (string \<Rightarrow> 'd option) \<Rightarrow> ('d \<Rightarrow> bool) \<Rightarrow> (idx_t \<Rightarrow> 'd \<Rightarrow> idx_t) \<Rightarrow> idx_t \<Rightarrow>
   string list \<Rightarrow> SpecEntry list result" where
  "parse_parts trim stod rng scale max_bytes [] = Inr []"
| "parse_parts trim stod rng scale max_bytes (part # parts) =
     (if trim part = [] then parse_parts trim stod rng scale max_bytes parts
      else (case parse_entry trim stod rng scale max_bytes (trim part) of
              Inl err \<Rightarrow> Inl err
            | Inr e \<Rightarrow>
                (case parse_parts trim stod rng scale max_bytes parts of
                   Inl err \<Rightarrow> Inl err
                 | Inr es \<Rightarrow> Inr (e # es))))"

definition ParseFilePolicySpec ::
  "(string \<Rightarrow> char \<Rightarrow> string list) \<Rightarrow> (string \<Rightarrow> string) \<Rightarrow> (string \<Rightarrow> 'd option) \<Rightarrow> ('d \<Rightarrow> bool) \<Rightarrow>
   (idx_t \<Rightarrow> 'd \<Rightarrow> idx_t) \<Rightarrow> string \<Rightarrow> idx_t \<Rightarrow> SpecEntry list result" where
  "ParseFilePolicySpec split trim stod rng scale spec max_bytes =
     (if spec = [] then Inr [] else parse_parts trim stod rng scale max_bytes (split spec CHR '';''))"

section \<open>Byte accounting\<close>

lemma u64_add_mod: "u64_add (a mod U64) b = (a + b) mod U64"
  by (simp add: u64_add_def mod_add_left_eq)

lemma u64_sub_mod: "b \<le> a \<Longrightarrow> u64_sub (a mod U64) b = (a - b) mod U64"
proof -
  assume "b \<le> a"
  have "u64_sub (a mod U64) b = (a mod U64 + (U64 - b mod U64)) mod U64" by (simp only: u64_sub_def)
  also have "\<dots> = (a + (U64 - b mod U64)) mod U64" by (rule mod_add_left_eq)
  also have "a + (U64 - b mod U64) = (a - b) + (b div U64 + 1) * U64"
  proof -
    have "(b div U64 + 1) * U64 = b div U64 * U64 + U64" by simp
    then show ?thesis
      using \<open>b \<le> a\<close> div_mult_mod_eq [of b U64] mod_less_divisor [OF U64_pos, of b] by linarith
  qed
  finally show ?thesis by (simp only: mod_mult_self1)
qed

text \<open>
  A group in order: the policy tracks exactly the entries, the counter is the sum of the
  entry sizes (modulo 2^64), and a bounded group is within its budget.
\<close>

definition group_ok :: "policy_group \<Rightarrow> bool" where
  "group_ok g \<longleftrightarrow> distinct (map fst (pg_entries g)) \<and> policy_inv (pg_policy g) \<and>
     policy_keys (pg_policy g) = fst ` set (pg_entries g) \<and>
     pg_used_bytes g = entry_sum pe_bytes (pg_entries g) mod U64"

definition group_within :: "policy_group \<Rightarrow> bool" where
  "group_within g \<longleftrightarrow> (pg_bounded g \<longrightarrow>
     pg_capacity_bytes g < 2 ^ 63 \<and> entry_sum pe_bytes (pg_entries g) \<le> pg_capacity_bytes g)"

lemma group_used_exact:
  "group_ok g \<Longrightarrow> group_within g \<Longrightarrow> pg_bounded g \<Longrightarrow>
   pg_used_bytes g = entry_sum pe_bytes (pg_entries g) \<and> pg_used_bytes g \<le> pg_capacity_bytes g"
  by (simp add: group_ok_def group_within_def U64_def)

lemma entry_sum_delete_le:
  "distinct (map fst m) \<Longrightarrow> map_of m k = Some v \<Longrightarrow>
   f v \<le> entry_sum f m \<and> entry_sum f (AList.delete k m) = entry_sum f m - f v"
  using entry_sum_delete [of m k v f] by simp

lemma group_remove_ok:
  assumes "group_ok g" "map_of (pg_entries g) k = Some e"
  shows "group_ok (group_remove k e g)" "group_within g \<Longrightarrow> group_within (group_remove k e g)"
proof -
  have d: "distinct (map fst (pg_entries g))" and p: "policy_inv (pg_policy g)"
    using assms(1) by (simp_all add: group_ok_def)
  note es = entry_sum_delete_le [OF d assms(2), of pe_bytes]
  show "group_ok (group_remove k e g)"
    using assms(1) policy.erase [OF p, of k] es
    by (simp add: group_ok_def group_remove_def u64_sub_mod distinct_delete)
  show "group_within (group_remove k e g)" if "group_within g"
    using that es by (auto simp: group_within_def group_remove_def)
qed

lemma group_insert_ok:
  assumes "group_ok g" "map_of (pg_entries g) k = None"
  shows "group_ok (group_insert k e g)"
    and "entry_sum pe_bytes (pg_entries (group_insert k e g)) = pe_bytes e + entry_sum pe_bytes (pg_entries g)"
proof -
  have p: "policy_inv (pg_policy g)" using assms(1) by (simp add: group_ok_def)
  have new: "k \<notin> fst ` set (pg_entries g)" using assms(2) by (simp add: map_of_eq_None_iff)
  show sum: "entry_sum pe_bytes (pg_entries (group_insert k e g)) =
      pe_bytes e + entry_sum pe_bytes (pg_entries g)"
    using entry_sum_update_new [OF new, of pe_bytes e] by (simp add: group_insert_def)
  have "fst ` set (AList.update k e (pg_entries g)) = insert k (fst ` set (pg_entries g))"
    by (auto simp: dom_map_of_conv_image_fst [symmetric] dom_update)
  then show "group_ok (group_insert k e g)"
    using assms(1) policy.insert [OF p, of k] sum
    by (simp add: group_ok_def group_insert_def u64_add_mod distinct_update add.commute)
qed

text \<open>What one round of the eviction loop leaves.\<close>

definition group_evict :: "InMemCacheBlock \<Rightarrow> policy_entry \<Rightarrow> InMemCacheBlock policy \<Rightarrow> policy_group \<Rightarrow> policy_group" where
  "group_evict victim e p g =
     g\<lparr>pg_policy := p,
       pg_used_bytes := u64_sub (pg_used_bytes g) (pe_bytes e),
       pg_bytes_evicted := u64_add (pg_bytes_evicted g) (pe_bytes e),
       pg_evictions := u64_add (pg_evictions g) 1,
       pg_entries := AList.delete victim (pg_entries g)\<rparr>"

definition same_config :: "policy_group \<Rightarrow> policy_group \<Rightarrow> bool" where
  "same_config g g' \<longleftrightarrow> pg_name g' = pg_name g \<and> pg_pattern g' = pg_pattern g \<and>
     pg_bounded g' = pg_bounded g \<and> pg_capacity_bytes g' = pg_capacity_bytes g"

lemma same_config_refl [simp]: "same_config g g"
  by (simp add: same_config_def)

lemma same_config_trans: "same_config g g' \<Longrightarrow> same_config g' g'' \<Longrightarrow> same_config g g''"
  by (simp add: same_config_def)

lemma group_evict_ok:
  assumes ok: "group_ok g" and wi: "group_within g"
    and pop: "PopVictim (pg_policy g) = (Some victim, p)"
  obtains e where "map_of (pg_entries g) victim = Some e" "group_ok (group_evict victim e p g)"
    "group_within (group_evict victim e p g)"
proof -
  have pi: "policy_inv (pg_policy g)" and d: "distinct (map fst (pg_entries g))"
    and keys: "policy_keys (pg_policy g) = fst ` set (pg_entries g)"
    using ok by (simp_all add: group_ok_def)
  note pop' = policy.pop_some [OF pi pop]
  then obtain e where e: "map_of (pg_entries g) victim = Some e"
    using keys by (metis domD dom_map_of_conv_image_fst)
  note es = entry_sum_delete_le [OF d e, of pe_bytes]
  have "group_ok (group_evict victim e p g)"
    using ok pop' es by (simp add: group_ok_def group_evict_def u64_sub_mod distinct_delete)
  moreover have "group_within (group_evict victim e p g)"
    using wi es by (auto simp: group_within_def group_evict_def)
  ultimately show ?thesis using that e by blast
qed

lemma evict_loop_ok:
  assumes "group_ok g" "group_within g" "pg_bounded g" "needed \<le> pg_capacity_bytes g"
  shows "group_ok (evict_loop g needed) \<and> same_config g (evict_loop g needed) \<and>
    map_of (pg_entries (evict_loop g needed)) \<subseteq>\<^sub>m map_of (pg_entries g) \<and>
    entry_sum pe_bytes (pg_entries (evict_loop g needed)) + needed \<le> pg_capacity_bytes g"
  using assms
proof (induction g needed rule: evict_loop.induct)
  case (1 g needed)
  let ?sum = "entry_sum pe_bytes (pg_entries g)"
  have used: "pg_used_bytes g = ?sum" and le: "?sum \<le> pg_capacity_bytes g"
    using group_used_exact [OF "1.prems"(1-3)] by simp_all
  have cap: "pg_capacity_bytes g < 2 ^ 63" using "1.prems"(2,3) by (simp add: group_within_def)
  have add: "u64_add (pg_used_bytes g) needed = ?sum + needed"
    using used le cap "1.prems"(4) by (simp add: u64_add_exact U64_def)
  show ?case
  proof (cases "pg_capacity_bytes g < ?sum + needed")
    case False
    then have "evict_loop g needed = g" by (simp add: evict_loop.simps [of g] add)
    with False "1.prems" show ?thesis by simp
  next
    case True
    obtain v p where pv: "PopVictim (pg_policy g) = (v, p)" by fastforce
    have pi: "policy_inv (pg_policy g)" and keys: "policy_keys (pg_policy g) = fst ` set (pg_entries g)"
      using "1.prems"(1) by (simp_all add: group_ok_def)
    have "pg_entries g \<noteq> []" using True "1.prems"(4) by auto
    then have "policy_keys (pg_policy g) \<noteq> {}" using keys by simp
    then obtain victim where v: "v = Some victim" using policy.pop_empty [OF pi] pv by auto
    with pv have pop: "PopVictim (pg_policy g) = (Some victim, p)" by simp
    obtain e where e: "map_of (pg_entries g) victim = Some e" "group_ok (group_evict victim e p g)"
      "group_within (group_evict victim e p g)"
      using group_evict_ok [OF "1.prems"(1,2) pop] .
    have step: "evict_loop g needed = evict_loop (group_evict victim e p g) needed"
      using True pop e(1) by (simp add: evict_loop.simps [of g] add group_evict_def)
    have cfg: "same_config g (group_evict victim e p g)" by (simp add: same_config_def group_evict_def)
    have sub: "map_of (pg_entries (group_evict victim e p g)) \<subseteq>\<^sub>m map_of (pg_entries g)"
      by (auto simp: group_evict_def map_le_def)
    have "group_ok (evict_loop (group_evict victim e p g) needed) \<and>
        same_config (group_evict victim e p g) (evict_loop (group_evict victim e p g) needed) \<and>
        map_of (pg_entries (evict_loop (group_evict victim e p g) needed)) \<subseteq>\<^sub>m
          map_of (pg_entries (group_evict victim e p g)) \<and>
        entry_sum pe_bytes (pg_entries (evict_loop (group_evict victim e p g) needed)) + needed
          \<le> pg_capacity_bytes (group_evict victim e p g)"
      unfolding group_evict_def
    proof (rule "1.IH"(2))
      show "pg_capacity_bytes g < u64_add (pg_used_bytes g) needed" using True add by simp
      show "(Some victim, p) = PopVictim (pg_policy g)" using pop by simp
      show "map_of (pg_entries g) victim = Some e" by (fact e(1))
    qed (use e "1.prems"(3,4) in \<open>simp_all add: group_evict_def\<close>)
    with step cfg sub show ?thesis
      by (auto simp: same_config_def intro: map_le_trans)
  qed
qed

lemma EvictToFit_ok:
  assumes "group_ok g" "group_within g" "pg_bounded g \<Longrightarrow> needed \<le> pg_capacity_bytes g"
  shows "group_ok (EvictToFit g needed)" "same_config g (EvictToFit g needed)"
    and "map_of (pg_entries (EvictToFit g needed)) \<subseteq>\<^sub>m map_of (pg_entries g)"
    and "pg_bounded g \<Longrightarrow>
      entry_sum pe_bytes (pg_entries (EvictToFit g needed)) + needed \<le> pg_capacity_bytes g"
  using evict_loop_ok [OF assms(1,2), of needed] assms by (auto simp: EvictToFit_def)

section \<open>Operations on one group\<close>

lemma group_Put_ok:
  assumes ok: "group_ok g" and wi: "group_within g"
  shows "group_ok (group_Put key chunk tag now g)" "group_within (group_Put key chunk tag now g)"
    and "same_config g (group_Put key chunk tag now g)"
    and "\<And>k e. map_of (pg_entries (group_Put key chunk tag now g)) k = Some e \<Longrightarrow>
      map_of (pg_entries g) k = Some e \<or> k = key \<and> pe_data e = \<lparr>de_data = chunk, de_version_tag = tag\<rparr>"
    and "(pg_bounded g \<Longrightarrow> (if 0 < pc_capacity chunk then pc_capacity chunk else pc_length chunk) \<le> pg_capacity_bytes g) \<Longrightarrow>
      map_of (pg_entries (group_Put key chunk tag now g)) key =
        Some \<lparr>pe_data = \<lparr>de_data = chunk, de_version_tag = tag\<rparr>,
              pe_bytes = (if 0 < pc_capacity chunk then pc_capacity chunk else pc_length chunk),
              pe_inserted_at = now\<rparr>"
proof -
  define bytes where "bytes = (if 0 < pc_capacity chunk then pc_capacity chunk else pc_length chunk)"
  define e where "e = \<lparr>pe_data = \<lparr>de_data = chunk, de_version_tag = tag\<rparr>,
      pe_bytes = bytes, pe_inserted_at = now\<rparr>"
  define g1 where "g1 = (case map_of (pg_entries g) key of
      Some existing \<Rightarrow> group_remove key existing g | None \<Rightarrow> g)"
  let ?g2 = "EvictToFit g1 bytes" and ?put = "group_Put key chunk tag now g"
  have g1: "group_ok g1" "group_within g1" "same_config g g1"
      "map_of (pg_entries g1) = (map_of (pg_entries g))(key := None)"
    using ok wi group_remove_ok [OF ok] unfolding g1_def
    by (auto simp: group_remove_def same_config_def fun_eq_iff split: option.splits)
  have main: "group_ok ?put \<and> group_within ?put \<and> same_config g ?put \<and>
      (\<forall>k x. map_of (pg_entries ?put) k = Some x \<longrightarrow> map_of (pg_entries g) k = Some x \<or> k = key \<and> x = e) \<and>
      ((pg_bounded g \<longrightarrow> bytes \<le> pg_capacity_bytes g) \<longrightarrow> map_of (pg_entries ?put) key = Some e)"
  proof (cases "pg_bounded g \<and> pg_capacity_bytes g < bytes")
    case True
    then have "?put = g" by (simp add: group_Put_def Admit_def bytes_def Let_def)
    with ok wi True show ?thesis by simp
  next
    case False
    have fit: "pg_bounded g1 \<Longrightarrow> bytes \<le> pg_capacity_bytes g1"
      using False g1(3) by (auto simp: same_config_def)
    note ev = EvictToFit_ok [OF g1(1,2) fit]
    have none: "map_of (pg_entries ?g2) key = None"
      using ev(3) g1(4) by (metis domI fun_upd_same map_le_def not_None_eq)
    note ins = group_insert_ok [OF ev(1) none, of e]
    have put: "?put = group_insert key e ?g2"
      using False by (auto simp: group_Put_def Admit_def bytes_def [symmetric] g1_def e_def Let_def)
    have "group_within (group_insert key e ?g2)"
      using ins(2) ev(2,4) g1(2,3)
      by (simp add: group_within_def e_def same_config_def) (auto simp: group_insert_def add.commute)
    moreover have "same_config g (group_insert key e ?g2)"
      using g1(3) ev(2) by (simp add: same_config_def group_insert_def)
    moreover have "map_of (pg_entries (group_insert key e ?g2)) = (map_of (pg_entries ?g2))(key \<mapsto> e)"
      by (simp add: group_insert_def)
    moreover have "map_of (pg_entries g) k = Some x" if "map_of (pg_entries ?g2) k = Some x" for k x
    proof -
      have "map_of (pg_entries g1) k = Some x" using ev(3) that by (metis domI map_le_def)
      with g1(4) show ?thesis by (auto split: if_splits)
    qed
    ultimately show ?thesis using ins(1) unfolding put by (auto split: if_splits)
  qed
  then show "group_ok ?put" "group_within ?put" "same_config g ?put" by auto
  show "map_of (pg_entries g) k = Some x \<or> k = key \<and> pe_data x = \<lparr>de_data = chunk, de_version_tag = tag\<rparr>"
    if "map_of (pg_entries ?put) k = Some x" for k x
  proof -
    have "map_of (pg_entries g) k = Some x \<or> k = key \<and> x = e" using main that by blast
    then show ?thesis by (auto simp: e_def)
  qed
  show "map_of (pg_entries ?put) key = Some \<lparr>pe_data = \<lparr>de_data = chunk, de_version_tag = tag\<rparr>,
            pe_bytes = (if 0 < pc_capacity chunk then pc_capacity chunk else pc_length chunk),
            pe_inserted_at = now\<rparr>"
    if "pg_bounded g \<Longrightarrow> (if 0 < pc_capacity chunk then pc_capacity chunk else pc_length chunk) \<le> pg_capacity_bytes g"
    using main that unfolding bytes_def [symmetric] e_def by blast
qed

lemma group_Clear_ok:
  "group_ok g \<Longrightarrow> group_within g \<Longrightarrow>
   group_ok (group_Clear g) \<and> group_within (group_Clear g) \<and> same_config g (group_Clear g)"
  using policy.cleared [of "pg_policy g"]
  by (simp add: group_ok_def group_within_def group_Clear_def same_config_def)

lemma clear_matching_ok:
  assumes "group_ok g" "group_within g" "distinct (map fst es)"
    and "\<And>k e. (k, e) \<in> set es \<Longrightarrow> map_of (pg_entries g) k = Some e"
  shows "group_ok (clear_matching flt es g) \<and> group_within (clear_matching flt es g) \<and>
    same_config g (clear_matching flt es g) \<and>
    map_of (pg_entries (clear_matching flt es g)) =
      (\<lambda>k. if flt k \<and> k \<in> fst ` set es then None else map_of (pg_entries g) k)"
  using assms
proof (induction flt es g rule: clear_matching.induct)
  case (2 flt k e rest g)
  let ?g = "if flt k then group_remove k e g else g"
  have me: "map_of (pg_entries g) k = Some e" using "2.prems"(4) by simp
  have g: "group_ok ?g" "group_within ?g" "same_config g ?g"
      "map_of (pg_entries ?g) = (\<lambda>j. if flt k \<and> j = k then None else map_of (pg_entries g) j)"
    using "2.prems"(1,2) group_remove_ok [OF "2.prems"(1) me]
    by (auto simp: group_remove_def same_config_def fun_eq_iff)
  have "map_of (pg_entries ?g) j = Some x" if "(j, x) \<in> set rest" for j x
  proof -
    have "j \<noteq> k" using "2.prems"(3) that by force
    with "2.prems"(4) that show ?thesis unfolding g(4) by simp
  qed
  with "2.IH" [OF g(1,2)] "2.prems"(3) have
    "group_ok (clear_matching flt rest ?g)" "group_within (clear_matching flt rest ?g)"
    "same_config ?g (clear_matching flt rest ?g)"
    "map_of (pg_entries (clear_matching flt rest ?g)) =
      (\<lambda>j. if flt j \<and> j \<in> fst ` set rest then None else map_of (pg_entries ?g) j)" by auto
  then show ?case using g(3,4) by (auto simp: fun_eq_iff intro: same_config_trans)
qed simp

section \<open>The storage\<close>

abbreviation group_keys :: "policy_group \<Rightarrow> InMemCacheBlock set" where
  "group_keys g \<equiv> fst ` set (pg_entries g)"

definition policy_storage_inv :: "policy_storage \<Rightarrow> bool" where
  "policy_storage_inv st \<longleftrightarrow> ps_groups st \<noteq> [] \<and>
     (\<forall>g \<in> set (ps_groups st). group_ok g \<and> group_within g) \<and>
     (\<forall>f i. map_of (ps_group_by_file st) f = Some i \<longrightarrow> i = choose_group f (ps_groups st)) \<and>
     (\<forall>i < length (ps_groups st). \<forall>k \<in> group_keys (ps_groups st ! i).
        choose_group (fname k) (ps_groups st) = i)"

definition policy_entries :: "policy_storage \<Rightarrow> block_entries" where
  "policy_entries st =
     (\<lambda>k. map_option pe_data (map_of (pg_entries (ps_groups st ! choose_group (fname k) (ps_groups st))) k))"

lemma policy_storage_invD:
  assumes "policy_storage_inv st"
  shows "ps_groups st \<noteq> []" "i < length (ps_groups st) \<Longrightarrow> group_ok (ps_groups st ! i)"
    and "i < length (ps_groups st) \<Longrightarrow> group_within (ps_groups st ! i)"
    and "map_of (ps_group_by_file st) f = Some i \<Longrightarrow> i = choose_group f (ps_groups st)"
    and "i < length (ps_groups st) \<Longrightarrow> k \<in> group_keys (ps_groups st ! i) \<Longrightarrow>
      choose_group (fname k) (ps_groups st) = i"
  using assms unfolding policy_storage_inv_def by auto

lemma first_match_bound: "first_match f n gs = Some i \<Longrightarrow> n \<le> i \<and> i < n + length gs"
  by (induction f n gs rule: first_match.induct) (auto split: if_splits)

lemma choose_group_bound: "gs \<noteq> [] \<Longrightarrow> choose_group f gs < length gs"
  using first_match_bound [of f 0 gs] by (auto simp: choose_group_def split: option.splits)

lemma first_match_cong: "map pg_pattern gs = map pg_pattern gs' \<Longrightarrow> first_match f n gs = first_match f n gs'"
proof (induction gs arbitrary: gs' n)
  case (Cons g gs)
  then obtain h hs where gs': "gs' = h # hs" by (cases gs') auto
  with Cons.prems Cons.IH [of hs "Suc n"] show ?case by simp
qed simp

lemma choose_group_cong: "map pg_pattern gs = map pg_pattern gs' \<Longrightarrow> choose_group f gs = choose_group f gs'"
  using first_match_cong [of gs gs' f 0] map_eq_imp_length_eq [of pg_pattern gs pg_pattern gs']
  by (simp add: choose_group_def split: option.splits)

text \<open>Resolving a file only fills the memo.\<close>

lemma GroupFor_ok:
  assumes "policy_storage_inv st"
  obtains st' where "GroupFor f st = (choose_group f (ps_groups st), st')" "policy_storage_inv st'"
    "ps_groups st' = ps_groups st" "ps_timeout_millisec st' = ps_timeout_millisec st"
    "policy_entries st' = policy_entries st"
proof (cases "map_of (ps_group_by_file st) f")
  case None
  let ?st = "st\<lparr>ps_group_by_file := AList.update f (choose_group f (ps_groups st)) (ps_group_by_file st)\<rparr>"
  have "policy_storage_inv ?st" using assms by (auto simp: policy_storage_inv_def split: if_splits)
  with None show ?thesis by (intro that [of ?st]) (simp_all add: GroupFor_def Let_def policy_entries_def)
next
  case (Some i)
  with policy_storage_invD(4) [OF assms Some] assms show ?thesis
    by (intro that [of st]) (simp_all add: GroupFor_def)
qed

text \<open>Changing one group.\<close>

lemma on_group_ok:
  assumes inv: "policy_storage_inv st" and i: "i < length (ps_groups st)"
    and g': "group_ok (h (ps_groups st ! i))" "group_within (h (ps_groups st ! i))"
      "same_config (ps_groups st ! i) (h (ps_groups st ! i))"
    and keys: "\<And>k. k \<in> group_keys (h (ps_groups st ! i)) \<Longrightarrow>
      k \<in> group_keys (ps_groups st ! i) \<or> choose_group (fname k) (ps_groups st) = i"
  shows "policy_storage_inv (on_group i h st)"
    and "policy_entries (on_group i h st) =
      (\<lambda>k. if choose_group (fname k) (ps_groups st) = i
           then map_option pe_data (map_of (pg_entries (h (ps_groups st ! i))) k) else policy_entries st k)"
proof -
  let ?gs = "ps_groups st" and ?gs' = "(ps_groups st)[i := h (ps_groups st ! i)]"
  have "map pg_pattern ?gs' = map pg_pattern ?gs"
    using g'(3) i by (simp add: map_update same_config_def list_update_same_conv)
  then have ch: "choose_group f ?gs' = choose_group f ?gs" for f by (rule choose_group_cong)
  have "choose_group (fname k) ?gs' = j" if "j < length ?gs'" "k \<in> group_keys (?gs' ! j)" for j k
    using that keys policy_storage_invD(5) [OF inv] i unfolding ch by (cases "j = i") auto
  moreover have "group_ok g \<and> group_within g" if "g \<in> set ?gs'" for g
    using that inv g'(1,2) by (auto simp: policy_storage_inv_def dest!: in_set_update)
  ultimately show "policy_storage_inv (on_group i h st)"
    using inv ch by (auto simp: policy_storage_inv_def on_group_def)
  show "policy_entries (on_group i h st) =
      (\<lambda>k. if choose_group (fname k) ?gs = i
           then map_option pe_data (map_of (pg_entries (h (?gs ! i))) k) else policy_entries st k)"
    using i by (auto simp: policy_entries_def on_group_def ch fun_eq_iff nth_list_update)
qed

text \<open>Changing every group.\<close>

lemma map_groups_ok:
  assumes inv: "policy_storage_inv st"
    and h: "\<And>g. group_ok g \<Longrightarrow> group_within g \<Longrightarrow>
      group_ok (h g) \<and> group_within (h g) \<and> same_config g (h g) \<and> group_keys (h g) \<subseteq> group_keys g"
  shows "policy_storage_inv (st\<lparr>ps_groups := map h (ps_groups st)\<rparr>)"
    and "policy_entries (st\<lparr>ps_groups := map h (ps_groups st)\<rparr>) =
      (\<lambda>k. map_option pe_data (map_of (pg_entries (h (ps_groups st ! choose_group (fname k) (ps_groups st)))) k))"
proof -
  let ?gs = "ps_groups st"
  have all: "group_ok g \<and> group_within g" if "g \<in> set ?gs" for g
    using inv that by (simp add: policy_storage_inv_def)
  have "map pg_pattern (map h ?gs) = map pg_pattern ?gs"
    using h all by (auto simp: same_config_def)
  then have ch: "choose_group f (map h ?gs) = choose_group f ?gs" for f by (rule choose_group_cong)
  have "choose_group (fname k) ?gs = i" if "i < length ?gs" "k \<in> group_keys (h (?gs ! i))" for i k
    using that h all policy_storage_invD(5) [OF inv that(1)] by (meson nth_mem subsetD)
  then show "policy_storage_inv (st\<lparr>ps_groups := map h ?gs\<rparr>)"
    using inv all h by (auto simp: policy_storage_inv_def ch)
  have "choose_group f ?gs < length ?gs" for f
    using choose_group_bound policy_storage_invD(1) [OF inv] by blast
  then show "policy_entries (st\<lparr>ps_groups := map h ?gs\<rparr>) =
      (\<lambda>k. map_option pe_data (map_of (pg_entries (h (?gs ! choose_group (fname k) ?gs))) k))"
    by (simp add: policy_entries_def ch fun_eq_iff)
qed

section \<open>The storage implements the interface\<close>

lemma policy_Put_laws:
  assumes inv: "policy_storage_inv st"
  shows "policy_storage_inv (policy_Put key chunk tag now st)"
    and "policy_entries (policy_Put key chunk tag now st) k = Some d \<Longrightarrow>
      policy_entries st k = Some d \<or> k = key \<and> d = \<lparr>de_data = chunk, de_version_tag = tag\<rparr>"
proof -
  let ?i = "choose_group (fname key) (ps_groups st)" and ?h = "group_Put key chunk tag now"
  obtain st' where st': "GroupFor (fname key) st = (?i, st')" "policy_storage_inv st'"
    "ps_groups st' = ps_groups st" "policy_entries st' = policy_entries st"
    using GroupFor_ok [OF inv] by metis
  have i: "?i < length (ps_groups st')"
    using choose_group_bound policy_storage_invD(1) [OF inv] st'(3) by metis
  have g: "group_ok (ps_groups st' ! ?i)" "group_within (ps_groups st' ! ?i)"
    using policy_storage_invD(2,3) [OF st'(2) i] .
  note put = group_Put_ok [OF g, where key = key and chunk = chunk and tag = tag and now = now]
  have keys: "k \<in> group_keys (ps_groups st' ! ?i) \<or> choose_group (fname k) (ps_groups st') = ?i"
    if "k \<in> group_keys (?h (ps_groups st' ! ?i))" for k
  proof -
    obtain e where "map_of (pg_entries (?h (ps_groups st' ! ?i))) k = Some e"
      using \<open>k \<in> _\<close> by (metis domD dom_map_of_conv_image_fst)
    with put(4) have "map_of (pg_entries (ps_groups st' ! ?i)) k = Some e \<or> k = key" by blast
    then show ?thesis using st'(3) by (metis domI dom_map_of_conv_image_fst)
  qed
  note og = on_group_ok [where h = ?h, OF st'(2) i put(1-3) keys]
  have eq: "policy_Put key chunk tag now st = on_group ?i ?h st'"
    by (simp add: policy_Put_def st'(1))
  show "policy_storage_inv (policy_Put key chunk tag now st)" unfolding eq by (rule og(1))
  have pe: "policy_entries (policy_Put key chunk tag now st) k =
      (if choose_group (fname k) (ps_groups st) = ?i
       then map_option pe_data (map_of (pg_entries (?h (ps_groups st' ! ?i))) k) else policy_entries st k)"
    using fun_cong [OF og(2), of k] st'(3,4) by (simp add: eq)
  assume d: "policy_entries (policy_Put key chunk tag now st) k = Some d"
  show "policy_entries st k = Some d \<or> k = key \<and> d = \<lparr>de_data = chunk, de_version_tag = tag\<rparr>"
  proof (cases "choose_group (fname k) (ps_groups st) = ?i")
    case True
    then obtain e where "map_of (pg_entries (?h (ps_groups st' ! ?i))) k = Some e" "pe_data e = d"
      using d pe by auto
    with put(4) [of k e] True st'(3) show ?thesis by (auto simp: policy_entries_def)
  next
    case False
    with d pe show ?thesis by simp
  qed
qed

lemma group_counters_ok:
  assumes "group_ok g" "group_within g"
  shows "group_ok (g\<lparr>pg_misses := n\<rparr>)" "group_within (g\<lparr>pg_misses := n\<rparr>)"
    and "group_ok (g\<lparr>pg_hits := n, pg_policy := OnHit k (pg_policy g)\<rparr>)"
    and "group_within (g\<lparr>pg_hits := n, pg_policy := OnHit k (pg_policy g)\<rparr>)"
  using assms policy.hit [of "pg_policy g" k] by (simp_all add: group_ok_def group_within_def)

lemma policy_Get_laws:
  assumes inv: "policy_storage_inv st" and get: "policy_Get key tag now st = (r, st1)"
  shows "policy_storage_inv st1" "policy_entries st1 \<subseteq>\<^sub>m policy_entries st"
    and "r = Some c \<Longrightarrow>
      \<exists>e. policy_entries st key = Some e \<and> de_data e = c \<and> ValidateVersionTag (de_version_tag e) tag"
proof -
  let ?i = "choose_group (fname key) (ps_groups st)"
  obtain st' where st': "GroupFor (fname key) st = (?i, st')" "policy_storage_inv st'"
    "ps_groups st' = ps_groups st" "policy_entries st' = policy_entries st"
    using GroupFor_ok [OF inv] by metis
  have i: "?i < length (ps_groups st')"
    using choose_group_bound policy_storage_invD(1) [OF inv] st'(3) by metis
  let ?g = "ps_groups st' ! ?i"
  have g: "group_ok ?g" "group_within ?g" using policy_storage_invD(2,3) [OF st'(2) i] .
  have main: "policy_storage_inv (on_group ?i h st') \<and> policy_entries (on_group ?i h st') \<subseteq>\<^sub>m policy_entries st"
    if h: "group_ok (h ?g)" "group_within (h ?g)" "same_config ?g (h ?g)"
      "map_of (pg_entries (h ?g)) \<subseteq>\<^sub>m map_of (pg_entries ?g)" for h
  proof -
    have keys: "group_keys (h ?g) \<subseteq> group_keys ?g"
      using h(4) by (simp add: keys_map_of map_le_implies_dom_le)
    then have keys': "\<And>k. k \<in> group_keys (h ?g) \<Longrightarrow>
        k \<in> group_keys ?g \<or> choose_group (fname k) (ps_groups st') = ?i" by blast
    note og = on_group_ok [where h = h, OF st'(2) i h(1-3) keys']
    have "policy_entries (on_group ?i h st') \<subseteq>\<^sub>m policy_entries st"
    proof (rule map_leI)
      fix k d assume "policy_entries (on_group ?i h st') k = Some d"
      then have "(if choose_group (fname k) (ps_groups st) = ?i
          then map_option pe_data (map_of (pg_entries (h ?g)) k) else policy_entries st k) = Some d"
        using fun_cong [OF og(2), of k] st'(3,4) by simp
      then show "policy_entries st k = Some d"
        using map_leD [OF h(4), of k] st'(3) by (auto simp: policy_entries_def split: if_splits)
    qed
    with og(1) show ?thesis by blast
  qed
  have rem: "group_ok ((group_remove key e ?g)\<lparr>pg_misses := n\<rparr>)"
      "group_within ((group_remove key e ?g)\<lparr>pg_misses := n\<rparr>)"
      "same_config ?g ((group_remove key e ?g)\<lparr>pg_misses := n\<rparr>)"
      "map_of (pg_entries ((group_remove key e ?g)\<lparr>pg_misses := n\<rparr>)) \<subseteq>\<^sub>m map_of (pg_entries ?g)"
    if "map_of (pg_entries ?g) key = Some e" for e n
    using group_counters_ok(1,2) [OF group_remove_ok(1) [OF g(1) that] group_remove_ok(2) [OF g(1) that g(2)]]
    by (simp_all add: same_config_def group_remove_def map_le_def)
  have "policy_storage_inv st1 \<and> policy_entries st1 \<subseteq>\<^sub>m policy_entries st"
  proof (cases "map_of (pg_entries ?g) key")
    case None
    with get have "st1 = on_group ?i (\<lambda>g. g\<lparr>pg_misses := u64_add (pg_misses g) 1\<rparr>) st'"
      by (simp add: policy_Get_def st'(1))
    then show ?thesis using main group_counters_ok(1,2) [OF g] by (simp add: same_config_def)
  next
    case (Some e)
    with get have "st1 = on_group ?i (\<lambda>g. (group_remove key e g)\<lparr>pg_misses := u64_add (pg_misses g) 1\<rparr>) st' \<or>
        st1 = on_group ?i (\<lambda>g. g\<lparr>pg_hits := u64_add (pg_hits g) 1, pg_policy := OnHit key (pg_policy g)\<rparr>) st'"
      by (auto simp: policy_Get_def st'(1) split: if_splits)
    then show ?thesis
    proof
      assume "st1 = on_group ?i (\<lambda>g. (group_remove key e g)\<lparr>pg_misses := u64_add (pg_misses g) 1\<rparr>) st'"
      then show ?thesis
        using main [where h = "\<lambda>g. (group_remove key e g)\<lparr>pg_misses := u64_add (pg_misses g) 1\<rparr>",
            OF rem [OF Some]] by simp
    next
      assume "st1 = on_group ?i (\<lambda>g. g\<lparr>pg_hits := u64_add (pg_hits g) 1, pg_policy := OnHit key (pg_policy g)\<rparr>) st'"
      then show ?thesis
        using main [where h = "\<lambda>g. g\<lparr>pg_hits := u64_add (pg_hits g) 1, pg_policy := OnHit key (pg_policy g)\<rparr>",
            OF group_counters_ok(3,4) [OF g]] by (simp add: same_config_def)
    qed
  qed
  then show "policy_storage_inv st1" "policy_entries st1 \<subseteq>\<^sub>m policy_entries st" by auto
  show "\<exists>e. policy_entries st key = Some e \<and> de_data e = c \<and> ValidateVersionTag (de_version_tag e) tag"
    if "r = Some c"
    using that get st'(3)
    by (auto simp: policy_Get_def st'(1) policy_entries_def split: option.splits if_splits)
qed

lemma policy_Delete_laws:
  assumes inv: "policy_storage_inv st" and del: "policy_Delete key st = (r, st1)"
  shows "policy_storage_inv st1" "policy_entries st1 = (policy_entries st)(key := None)"
    and "r \<longleftrightarrow> policy_entries st key \<noteq> None"
proof -
  let ?i = "choose_group (fname key) (ps_groups st)"
  obtain st' where st': "GroupFor (fname key) st = (?i, st')" "policy_storage_inv st'"
    "ps_groups st' = ps_groups st" "policy_entries st' = policy_entries st"
    using GroupFor_ok [OF inv] by metis
  have i: "?i < length (ps_groups st')"
    using choose_group_bound policy_storage_invD(1) [OF inv] st'(3) by metis
  let ?g = "ps_groups st' ! ?i"
  have g: "group_ok ?g" "group_within ?g" using policy_storage_invD(2,3) [OF st'(2) i] .
  have pe: "policy_entries st key = map_option pe_data (map_of (pg_entries ?g) key)"
    by (simp add: policy_entries_def st'(3))
  have "policy_storage_inv st1 \<and> policy_entries st1 = (policy_entries st)(key := None) \<and>
      (r \<longleftrightarrow> policy_entries st key \<noteq> None)"
  proof (cases "map_of (pg_entries ?g) key")
    case None
    with del st' pe show ?thesis by (auto simp: policy_Delete_def fun_eq_iff)
  next
    case (Some e)
    have keys: "\<And>k. k \<in> group_keys (group_remove key e ?g) \<Longrightarrow>
        k \<in> group_keys ?g \<or> choose_group (fname k) (ps_groups st') = ?i"
      by (auto simp: group_remove_def)
    have cfg: "same_config ?g (group_remove key e ?g)" by (simp add: same_config_def group_remove_def)
    note og = on_group_ok [where h = "group_remove key e", OF st'(2) i group_remove_ok(1) [OF g(1) Some] group_remove_ok(2) [OF g(1) Some g(2)]
        cfg keys]
    have "st1 = on_group ?i (group_remove key e) st'" "r"
      using del Some by (simp_all add: policy_Delete_def st'(1))
    with og pe Some st'(3,4) show ?thesis
      by (auto simp: fun_eq_iff group_remove_def policy_entries_def)
  qed
  then show "policy_storage_inv st1" "policy_entries st1 = (policy_entries st)(key := None)"
    "r \<longleftrightarrow> policy_entries st key \<noteq> None" by auto
qed

lemma policy_Clear_all_laws:
  assumes "policy_storage_inv st"
  shows "policy_storage_inv (policy_Clear_all st)" "policy_entries (policy_Clear_all st) = Map.empty"
proof -
  have h: "\<And>g. group_ok g \<Longrightarrow> group_within g \<Longrightarrow> group_ok (group_Clear g) \<and> group_within (group_Clear g) \<and>
      same_config g (group_Clear g) \<and> group_keys (group_Clear g) \<subseteq> group_keys g"
    using group_Clear_ok by (simp add: group_Clear_def)
  have "pg_entries (group_Clear g) = []" for g by (simp add: group_Clear_def)
  then show "policy_storage_inv (policy_Clear_all st)" "policy_entries (policy_Clear_all st) = Map.empty"
    using map_groups_ok [where h = group_Clear, OF assms h] by (simp_all add: policy_Clear_all_def fun_eq_iff)
qed

text \<open>The filter runs over every entry, so the start key plays no part.\<close>

lemma policy_Clear_from_laws:
  assumes inv: "policy_storage_inv st"
  shows "policy_storage_inv (policy_Clear_from start flt st)"
    and "policy_entries (policy_Clear_from start flt st) = (\<lambda>k. if flt k then None else policy_entries st k)"
proof -
  let ?h = "\<lambda>g. clear_matching flt (pg_entries g) g"
  have cm: "group_ok (?h g) \<and> group_within (?h g) \<and> same_config g (?h g) \<and>
      map_of (pg_entries (?h g)) = (\<lambda>k. if flt k then None else map_of (pg_entries g) k)"
    if "group_ok g" "group_within g" for g
  proof -
    have "distinct (map fst (pg_entries g))" using that(1) by (simp add: group_ok_def)
    then have cm': "group_ok (?h g) \<and> group_within (?h g) \<and> same_config g (?h g) \<and>
        map_of (pg_entries (?h g)) =
          (\<lambda>k. if flt k \<and> k \<in> group_keys g then None else map_of (pg_entries g) k)"
      using that by (intro clear_matching_ok) auto
    have "map_of (pg_entries g) k = None" if "k \<notin> group_keys g" for k
      using that by (simp add: map_of_eq_None_iff)
    then have "(\<lambda>k. if flt k \<and> k \<in> group_keys g then None else map_of (pg_entries g) k) =
        (\<lambda>k. if flt k then None else map_of (pg_entries g) k)"
      unfolding fun_eq_iff by (metis (full_types))
    with cm' show ?thesis by simp
  qed
  have h: "\<And>g. group_ok g \<Longrightarrow> group_within g \<Longrightarrow> group_ok (?h g) \<and> group_within (?h g) \<and>
      same_config g (?h g) \<and> group_keys (?h g) \<subseteq> group_keys g"
    using cm by (auto simp: keys_map_of split: if_splits)
  note mg = map_groups_ok [OF inv h]
  show "policy_storage_inv (policy_Clear_from start flt st)" using mg(1) by (simp add: policy_Clear_from_def)
  have "choose_group f (ps_groups st) < length (ps_groups st)" for f
    using choose_group_bound policy_storage_invD(1) [OF inv] by blast
  then have "map_of (pg_entries (?h (ps_groups st ! choose_group f (ps_groups st)))) =
      (\<lambda>k. if flt k then None else map_of (pg_entries (ps_groups st ! choose_group f (ps_groups st))) k)" for f
    using cm policy_storage_invD(2,3) [OF inv] by blast
  then show "policy_entries (policy_Clear_from start flt st) = (\<lambda>k. if flt k then None else policy_entries st k)"
    using mg(2) by (simp add: policy_Clear_from_def policy_entries_def fun_eq_iff)
qed

lemma distinct_concat_located:
  assumes "\<And>i. i < length xss \<Longrightarrow> distinct (xss ! i) \<and> (\<forall>x \<in> set (xss ! i). loc x = n + i)"
  shows "distinct (concat xss) \<and> (\<forall>x \<in> set (concat xss). n \<le> loc x)"
  using assms
proof (induction xss arbitrary: n)
  case (Cons xs xss)
  have "distinct (concat xss) \<and> (\<forall>x \<in> set (concat xss). Suc n \<le> loc x)"
    using Cons.prems [of "Suc i" for i] by (intro Cons.IH) auto
  moreover have "distinct xs" "\<forall>x \<in> set xs. loc x = n" using Cons.prems [of 0] by auto
  ultimately show ?case by fastforce
qed simp

lemma policy_Keys_laws:
  assumes inv: "policy_storage_inv st"
  shows "distinct (policy_Keys st)" "set (policy_Keys st) = dom (policy_entries st)"
proof -
  let ?gs = "ps_groups st"
  have loc: "distinct (map fst (pg_entries (?gs ! i))) \<and>
      (\<forall>k \<in> group_keys (?gs ! i). choose_group (fname k) ?gs = i)" if "i < length ?gs" for i
    using policy_storage_invD(2,5) [OF inv that] by (simp add: group_ok_def)
  then show "distinct (policy_Keys st)"
    using distinct_concat_located [of "map (\<lambda>g. map fst (pg_entries g)) ?gs" "\<lambda>k. choose_group (fname k) ?gs" 0]
    by (simp add: policy_Keys_def)
  have bound: "choose_group f ?gs < length ?gs" for f
    using choose_group_bound policy_storage_invD(1) [OF inv] by blast
  have "k \<in> set (policy_Keys st) \<longleftrightarrow> k \<in> group_keys (?gs ! choose_group (fname k) ?gs)" for k
  proof
    assume "k \<in> set (policy_Keys st)"
    then obtain g where "g \<in> set ?gs" "k \<in> group_keys g" by (auto simp: policy_Keys_def)
    then obtain i where "i < length ?gs" "k \<in> group_keys (?gs ! i)" by (metis in_set_conv_nth)
    then show "k \<in> group_keys (?gs ! choose_group (fname k) ?gs)"
      using policy_storage_invD(5) [OF inv] by auto
  qed (use bound [of "fname k"] in \<open>force simp: policy_Keys_def\<close>)
  then show "set (policy_Keys st) = dom (policy_entries st)"
    by (auto simp: policy_entries_def keys_map_of dom_def)
qed

lemma policy_Take_laws:
  assumes inv: "policy_storage_inv st" and take: "policy_Take st = (es, st1)"
  shows "policy_storage_inv st1" "policy_entries st1 = Map.empty" "distinct (map fst es)"
    and "map_of es = policy_entries st"
proof -
  let ?gs = "ps_groups st"
  have st1: "st1 = policy_Clear_all st" using take by (simp add: policy_Take_def policy_Clear_all_def)
  then show "policy_storage_inv st1" "policy_entries st1 = Map.empty"
    using policy_Clear_all_laws [OF inv] by simp_all
  have es: "es = concat (map (\<lambda>g. map (\<lambda>(k, e). (k, pe_data e)) (pg_entries g)) ?gs)"
    using take by (simp add: policy_Take_def)
  have keys: "map fst es = policy_Keys st"
    by (simp add: es policy_Keys_def map_concat comp_def split_def)
  then show d: "distinct (map fst es)" using policy_Keys_laws(1) [OF inv] by simp
  have "policy_entries st k = Some d" if kd: "(k, d) \<in> set es" for k d
  proof -
    obtain g e where "g \<in> set ?gs" "(k, e) \<in> set (pg_entries g)" "pe_data e = d"
      using kd by (auto simp: es)
    then obtain i where "i < length ?gs" "(k, e) \<in> set (pg_entries (?gs ! i))" "pe_data e = d"
      by (metis in_set_conv_nth)
    moreover from this have "choose_group (fname k) ?gs = i"
      using policy_storage_invD(5) [OF inv, of i k] by force
    ultimately show ?thesis
      using policy_storage_invD(2) [OF inv, of i] by (auto simp: policy_entries_def group_ok_def)
  qed
  moreover have "dom (map_of es) = dom (policy_entries st)"
    using policy_Keys_laws(2) [OF inv] keys by (metis dom_map_of_conv_image_fst set_map)
  ultimately have "map_of es k = policy_entries st k" for k
    by (cases "map_of es k") (auto simp: domIff dest: map_of_SomeD, metis domIff)
  then show "map_of es = policy_entries st" by (rule ext)
qed

interpretation policy_storage: data_cache_storage policy_Put policy_Get policy_Delete policy_Clear_all
  policy_Clear_from policy_Keys "\<lambda>_. policy_Take" policy_entries policy_storage_inv
proof (unfold_locales, goal_cases)
  case (1 s k c tag now)
  then show ?case by (rule policy_Put_laws(1))
next
  case (2 s k c tag now j e)
  then show ?case by (rule policy_Put_laws(2))
next
  case (3 s k tag now r s')
  then show ?case using policy_Get_laws(1,2) by blast
next
  case (4 s k tag now c s')
  then show ?case using policy_Get_laws(3) by blast
next
  case (5 s k r s')
  then show ?case using policy_Delete_laws by blast
next
  case (6 s)
  then show ?case using policy_Clear_all_laws by blast
next
  case (7 s f)
  then show ?case using policy_Clear_from_laws by blast
next
  case (8 s)
  then show ?case using policy_Keys_laws by blast
next
  case (9 s clk es s')
  then show ?case using policy_Take_laws by (metis map_le_refl)
qed

section \<open>Budgets\<close>

definition group_caps :: "policy_storage \<Rightarrow> (bool \<times> idx_t) list" where
  "group_caps st = map (\<lambda>g. (pg_bounded g, pg_capacity_bytes g)) (ps_groups st)"

lemma caps_on_group:
  "same_config (ps_groups st ! i) (h (ps_groups st ! i)) \<Longrightarrow> group_caps (on_group i h st) = group_caps st"
  by (cases "i < length (ps_groups st)")
    (simp_all add: group_caps_def on_group_def same_config_def map_update list_update_same_conv
      list_update_beyond)

lemma caps_map_groups:
  "(\<And>g. g \<in> set (ps_groups st) \<Longrightarrow> same_config g (h g)) \<Longrightarrow>
   group_caps (st\<lparr>ps_groups := map h (ps_groups st)\<rparr>) = group_caps st"
  by (auto simp: group_caps_def same_config_def)

lemma same_config_simple:
  "same_config g (group_remove k e g)" "same_config g (group_Clear g)"
  "same_config g ((group_remove k e g)\<lparr>pg_misses := n\<rparr>)" "same_config g (g\<lparr>pg_misses := n\<rparr>)"
  "same_config g (g\<lparr>pg_hits := n, pg_policy := p\<rparr>)"
  by (simp_all add: same_config_def group_remove_def group_Clear_def)

lemma same_config_clear_matching: "same_config g (clear_matching flt es g)"
proof (induction flt es g rule: clear_matching.induct)
  case (2 flt k e rest g)
  then show ?case by (auto simp: same_config_def group_remove_def)
qed simp

datatype policy_op =
    PPut InMemCacheBlock page_chunk string nat
  | PGet InMemCacheBlock string nat
  | PDelete InMemCacheBlock
  | PClear
  | PClearFrom InMemCacheBlock "InMemCacheBlock \<Rightarrow> bool"
  | PTake

fun policy_step :: "policy_op \<Rightarrow> policy_storage \<Rightarrow> policy_storage" where
  "policy_step (PPut k c tag now) st = policy_Put k c tag now st"
| "policy_step (PGet k tag now) st = snd (policy_Get k tag now st)"
| "policy_step (PDelete k) st = snd (policy_Delete k st)"
| "policy_step PClear st = policy_Clear_all st"
| "policy_step (PClearFrom k flt) st = policy_Clear_from k flt st"
| "policy_step PTake st = snd (policy_Take st)"

lemma policy_step_inv: "policy_storage_inv st \<Longrightarrow> policy_storage_inv (policy_step x st)"
  using policy_Put_laws(1) policy_Get_laws(1) policy_Delete_laws(1) policy_Clear_all_laws(1)
    policy_Clear_from_laws(1) policy_Take_laws(1)
  by (cases x) (metis policy_step.simps prod.collapse)+

lemma policy_step_caps:
  assumes inv: "policy_storage_inv st"
  shows "group_caps (policy_step x st) = group_caps st"
proof -
  have gf: "\<exists>st'. GroupFor f st = (choose_group f (ps_groups st), st') \<and> policy_storage_inv st' \<and>
      ps_groups st' = ps_groups st" for f
    using GroupFor_ok [OF inv, of f] by metis
  have caps': "group_caps st' = group_caps st" if "ps_groups st' = ps_groups st" for st'
    using that by (simp add: group_caps_def)
  show ?thesis
  proof (cases x)
    case (PPut k c tag now)
    obtain st' where st': "GroupFor (fname k) st = (choose_group (fname k) (ps_groups st), st')"
        "policy_storage_inv st'" "ps_groups st' = ps_groups st"
      using gf by blast
    let ?g = "ps_groups st' ! choose_group (fname k) (ps_groups st)"
    have "choose_group (fname k) (ps_groups st) < length (ps_groups st')"
      using choose_group_bound policy_storage_invD(1) [OF inv] st'(3) by metis
    then have "group_ok ?g" "group_within ?g" using policy_storage_invD(2,3) [OF st'(2)] by blast+
    then have "same_config ?g (group_Put k c tag now ?g)" by (rule group_Put_ok(3))
    then have "group_caps (on_group (choose_group (fname k) (ps_groups st)) (group_Put k c tag now) st') =
        group_caps st'" by (rule caps_on_group)
    with PPut st'(1) caps' [OF st'(3)] show ?thesis by (simp add: policy_Put_def)
  next
    case (PGet k tag now)
    obtain st' where "GroupFor (fname k) st = (choose_group (fname k) (ps_groups st), st')"
        "ps_groups st' = ps_groups st"
      using gf by blast
    with PGet caps' [of st'] show ?thesis
      by (simp add: policy_Get_def caps_on_group same_config_simple split: option.splits)
  next
    case (PDelete k)
    obtain st' where "GroupFor (fname k) st = (choose_group (fname k) (ps_groups st), st')"
        "ps_groups st' = ps_groups st"
      using gf by blast
    with PDelete caps' [of st'] show ?thesis
      by (simp add: policy_Delete_def caps_on_group same_config_simple split: option.splits)
  qed (simp_all add: policy_Clear_all_def policy_Clear_from_def policy_Take_def caps_map_groups
      same_config_simple same_config_clear_matching)
qed

lemma policy_run_inv:
  "policy_storage_inv st \<Longrightarrow>
   policy_storage_inv (fold policy_step ops st) \<and> group_caps (fold policy_step ops st) = group_caps st"
  by (induction ops arbitrary: st) (auto simp: policy_step_inv policy_step_caps)

lemma used_within_caps:
  assumes "\<And>g. g \<in> set gs \<Longrightarrow> group_ok g \<and> group_within g \<and> pg_bounded g"
  shows "sum_list (map pg_used_bytes gs) \<le> sum_list (map pg_capacity_bytes gs)"
  using assms by (intro sum_list_mono) (auto dest: group_used_exact)

section \<open>What the constructor guarantees\<close>

lemma explicit_bytes_exact:
  assumes "sum_list (map se_bytes spec) + acc < U64"
  shows "fold (\<lambda>e acc. if 0 < se_bytes e then u64_add acc (se_bytes e) else acc) spec acc =
    sum_list (map se_bytes spec) + acc"
  using assms
proof (induction spec arbitrary: acc)
  case (Cons e spec)
  have "(if 0 < se_bytes e then u64_add acc (se_bytes e) else acc) = acc + se_bytes e"
    using Cons.prems by (simp add: u64_add_exact)
  with Cons.IH [of "acc + se_bytes e"] Cons.prems show ?case by simp
qed simp

lemma unsized_groups_count:
  "fold (\<lambda>e acc. if 0 < se_bytes e then acc else acc + 1) spec acc =
     length (filter (\<lambda>e. se_bytes e = 0) spec) + acc"
  by (induction spec arbitrary: acc) auto

lemma spec_groups_fresh:
  assumes "spec_groups bounded share spec = Inr gs"
  shows "\<forall>g \<in> set gs. group_ok g \<and> pg_entries g = [] \<and> pg_bounded g = bounded"
    and "map pg_capacity_bytes gs = map (\<lambda>e. if 0 < se_bytes e then se_bytes e else share) spec"
  using assms
proof (induction spec arbitrary: gs)
  case (Cons e es)
  { case 1
    then obtain p gs' where p: "CreateEvictionPolicy (se_policy e) = Inr p" "spec_groups bounded share es = Inr gs'"
      "gs = new_group (se_pattern e) (se_pattern e) p bounded (if 0 < se_bytes e then se_bytes e else share) # gs'"
      by (auto split: sum.splits)
    from CreateEvictionPolicy_inv [OF p(1)] Cons.IH(1) [OF p(2)] p(3) show ?case
      by (auto simp: group_ok_def new_group_def) }
  { case 2
    then show ?case using Cons.IH(2) by (auto simp: new_group_def split: sum.splits) }
qed simp_all

lemma sum_list_shares:
  "sum_list (map (\<lambda>e. if 0 < se_bytes e then se_bytes e else share) spec) =
     sum_list (map se_bytes spec) + length (filter (\<lambda>e. se_bytes e = 0) spec) * share"
  by (induction spec) auto

lemma policy_storage_new_ok:
  assumes new: "policy_storage_new max_bytes timeout dp (Inr spec) = Inr st"
    and small: "sum_list (map se_bytes spec) < U64" and max: "max_bytes < 2 ^ 63"
  shows "policy_storage_inv st"
    and "0 < max_bytes \<Longrightarrow> (\<forall>g \<in> set (ps_groups st). pg_bounded g) \<and>
      sum_list (map pg_capacity_bytes (ps_groups st)) \<le> max_bytes"
proof -
  define total where "total = sum_list (map se_bytes spec)"
  define share where "share = (if max_bytes = 0 then 0
      else u64_sub max_bytes (explicit_bytes spec) div unsized_groups spec)"
  have ex: "explicit_bytes spec = total"
    using explicit_bytes_exact [of spec 0] small by (simp add: explicit_bytes_def total_def)
  have un: "unsized_groups spec = length (filter (\<lambda>e. se_bytes e = 0) spec) + 1"
    using unsized_groups_count [of spec 1] by (simp add: unsized_groups_def)
  have fits: "\<not> (0 < max_bytes \<and> max_bytes < total)" using new ex
    by (auto simp: policy_storage_new_def split: if_splits)
  obtain gs p where gs: "spec_groups (0 < max_bytes) share spec = Inr gs" "CreateEvictionPolicy dp = Inr p"
    and st: "ps_groups st = gs @ [new_group (if spec = [] then ''global'' else ''default'') [] p (0 < max_bytes) share]"
      "ps_group_by_file st = []"
    using new unfolding policy_storage_new_def share_def Let_def by (auto split: if_splits sum.splits)
  note fresh = spec_groups_fresh [OF gs(1)] and p = CreateEvictionPolicy_inv [OF gs(2)]
  have all: "group_ok g \<and> pg_entries g = [] \<and> pg_bounded g = (0 < max_bytes)" if "g \<in> set (ps_groups st)" for g
    using that fresh(1) p by (auto simp: st group_ok_def new_group_def)
  have sum: "sum_list (map pg_capacity_bytes (ps_groups st)) \<le> max_bytes" if "0 < max_bytes"
  proof -
    have "u64_sub max_bytes total = max_bytes - total" using fits that max by (simp add: u64_sub_exact U64_def)
    then have "unsized_groups spec * share \<le> max_bytes - total"
      using that by (simp add: share_def ex)
    moreover have "sum_list (map pg_capacity_bytes (ps_groups st)) = total + unsized_groups spec * share"
      by (simp add: st fresh(2) sum_list_shares total_def un new_group_def)
    ultimately show ?thesis using fits that by linarith
  qed
  then show "0 < max_bytes \<Longrightarrow> (\<forall>g \<in> set (ps_groups st). pg_bounded g) \<and>
      sum_list (map pg_capacity_bytes (ps_groups st)) \<le> max_bytes" using all by blast
  have "group_within g" if g: "g \<in> set (ps_groups st)" for g
  proof -
    have "pg_capacity_bytes g \<le> sum_list (map pg_capacity_bytes (ps_groups st))"
      using g by (intro member_le_sum_list) auto
    then show ?thesis using all [OF g] sum max by (auto simp: group_within_def)
  qed
  moreover have "pg_entries (ps_groups st ! i) = []" if "i < length (ps_groups st)" for i
    using all [OF nth_mem [OF that]] by simp
  ultimately show "policy_storage_inv st"
    using all unfolding policy_storage_inv_def by (simp add: st(2)) (simp add: st(1))
qed

section \<open>Properties\<close>

text \<open>
  Property C14. The byte budget holds at all times: whatever sequence of insertions, look-ups,
  deletions, clears and drains runs on a freshly built bounded storage, every group's
  \<open>used_bytes\<close> is the sum of the sizes of its entries and within the group's capacity, and
  the groups together stay within the configured total.
\<close>

theorem policy_budget_kept:
  assumes "policy_storage_new max_bytes timeout dp (Inr spec) = Inr st"
    and "0 < max_bytes" "max_bytes < 2 ^ 63" "sum_list (map se_bytes spec) < U64"
    and "st' = fold policy_step ops st"
  shows "(\<forall>g \<in> set (ps_groups st'). pg_used_bytes g = entry_sum pe_bytes (pg_entries g) \<and>
      pg_used_bytes g \<le> pg_capacity_bytes g \<and> policy_keys (pg_policy g) = fst ` set (pg_entries g)) \<and>
    sum_list (map pg_used_bytes (ps_groups st')) \<le> max_bytes"
proof -
  note new = policy_storage_new_ok [OF assms(1,4,3)]
  have inv: "policy_storage_inv st'" and caps: "group_caps st' = group_caps st"
    using policy_run_inv [OF new(1), of ops] by (simp_all add: assms(5))
  have "map pg_bounded (ps_groups st') = map pg_bounded (ps_groups st)"
    and cap: "map pg_capacity_bytes (ps_groups st') = map pg_capacity_bytes (ps_groups st)"
    using arg_cong [OF caps, of "map fst"] arg_cong [OF caps, of "map snd"]
    by (simp_all add: group_caps_def comp_def)
  then have "pg_bounded ` set (ps_groups st') = pg_bounded ` set (ps_groups st)" by (metis set_map)
  then have b: "pg_bounded g" if "g \<in> set (ps_groups st')" for g
    using that new(2) [OF assms(2)] by (metis (no_types, lifting) image_eqI imageE)
  have ok: "group_ok g" "group_within g" if "g \<in> set (ps_groups st')" for g
    using inv that by (simp_all add: policy_storage_inv_def)
  have "sum_list (map pg_used_bytes (ps_groups st')) \<le> max_bytes"
    using used_within_caps [of "ps_groups st'"] ok b cap new(2) [OF assms(2)] by fastforce
  moreover have "policy_keys (pg_policy g) = fst ` set (pg_entries g)" if "g \<in> set (ps_groups st')" for g
    using ok [OF that] by (simp add: group_ok_def)
  ultimately show ?thesis using group_used_exact ok b by blast
qed

definition example_chunk :: page_chunk where
  "example_chunk = \<lparr>pc_data = [1, 2, 3, 0], pc_length = 3, pc_capacity = 4\<rparr>"

definition example_spec :: "SpecEntry list" where
  "example_spec = [\<lparr>se_pattern = ''hot'', se_policy = ''clock'', se_bytes = 60\<rparr>]"

lemma example_storage_exists: "\<exists>st. policy_storage_new 100 0 ''lru'' (Inr example_spec) = Inr st"
  by (simp add: policy_storage_new_def IsValidEvictionPolicy_def example_spec_def explicit_bytes_def
      unsized_groups_def CreateEvictionPolicy_def u64_add_def U64_def)

lemma policy_budget_kept_witness:
  "\<exists>st. policy_storage_new 100 0 ''lru'' (Inr example_spec) = Inr st \<and>
     sum_list (map pg_used_bytes (ps_groups
       (fold policy_step [PPut (InMemCacheBlock ''hot'' 0 4) example_chunk [] 0] st))) \<le> 100"
proof -
  obtain st where "policy_storage_new 100 0 ''lru'' (Inr example_spec) = Inr st"
    using example_storage_exists by blast
  moreover have "sum_list (map se_bytes example_spec) < U64" by (simp add: example_spec_def U64_def)
  ultimately show ?thesis
    using policy_budget_kept [of 100 0 "''lru''" example_spec st _
        "[PPut (InMemCacheBlock ''hot'' 0 4) example_chunk [] 0]", OF _ _ _ _ refl] by auto
qed

text \<open>
  Making room works: for an entry that fits the group at all, \<open>EvictToFit\<close> ends
  with enough room for it, only ever removes entries, and leaves the group alone when
  there was room already. The early exit for a policy with nothing left is never taken.
\<close>

theorem evict_makes_room:
  assumes "group_ok g" "group_within g" "pg_bounded g" "needed \<le> pg_capacity_bytes g"
  shows "pg_used_bytes (EvictToFit g needed) + needed \<le> pg_capacity_bytes g \<and>
    map_of (pg_entries (EvictToFit g needed)) \<subseteq>\<^sub>m map_of (pg_entries g) \<and>
    (pg_used_bytes g + needed \<le> pg_capacity_bytes g \<longrightarrow> EvictToFit g needed = g)"
proof -
  note ev = EvictToFit_ok [OF assms(1,2,4)]
  have cap: "pg_capacity_bytes g < 2 ^ 63" using assms(2,3) by (simp add: group_within_def)
  then have "entry_sum pe_bytes (pg_entries (EvictToFit g needed)) < U64"
    using ev(4) [OF assms(3)] by (simp add: U64_def)
  then have used: "pg_used_bytes (EvictToFit g needed) = entry_sum pe_bytes (pg_entries (EvictToFit g needed))"
    using ev(1) by (simp add: group_ok_def)
  have "EvictToFit g needed = g" if "pg_used_bytes g + needed \<le> pg_capacity_bytes g"
    using that cap by (simp add: EvictToFit_def evict_loop.simps [of g] u64_add_exact U64_def)
  with ev used assms(3) show ?thesis by simp
qed

definition example_group :: policy_group where
  "example_group = new_group ''global'' [] (LruPolicy list_policy_new) True 10"

lemma evict_makes_room_witness: "pg_used_bytes (EvictToFit example_group 7) + 7 \<le> 10"
proof -
  have "group_ok example_group" "group_within example_group" "pg_bounded example_group"
      "pg_capacity_bytes example_group = 10"
    by (simp_all add: example_group_def new_group_def group_ok_def group_within_def)
  then show ?thesis using evict_makes_room [of example_group 7] by simp
qed

text \<open>
  Property C15. A block that was put is found again: a \<open>Get\<close> right after a \<open>Put\<close> of a chunk that
  fits its group returns that chunk, unless the entry has expired by then or the caller
  expects another version.
\<close>

theorem policy_get_after_put:
  assumes inv: "policy_storage_inv st" and tag: "ValidateVersionTag tag expected"
    and fits: "pg_bounded (ps_groups st ! choose_group (fname key) (ps_groups st)) \<longrightarrow>
      (if 0 < pc_capacity chunk then pc_capacity chunk else pc_length chunk) \<le>
        pg_capacity_bytes (ps_groups st ! choose_group (fname key) (ps_groups st))"
    and fresh: "ps_timeout_millisec st = 0 \<or> (now' - now) div 1000000 < ps_timeout_millisec st"
  shows "fst (policy_Get key expected now' (policy_Put key chunk tag now st)) = Some chunk"
proof -
  let ?i = "choose_group (fname key) (ps_groups st)" and ?h = "group_Put key chunk tag now"
  obtain st' where st': "GroupFor (fname key) st = (?i, st')" "policy_storage_inv st'"
    "ps_groups st' = ps_groups st" "ps_timeout_millisec st' = ps_timeout_millisec st"
    using GroupFor_ok [OF inv] by metis
  have i: "?i < length (ps_groups st')"
    using choose_group_bound policy_storage_invD(1) [OF inv] st'(3) by metis
  let ?g = "ps_groups st' ! ?i" and ?put = "on_group ?i ?h st'"
  have g: "group_ok ?g" "group_within ?g" using policy_storage_invD(2,3) [OF st'(2) i] .
  have put: "policy_Put key chunk tag now st = ?put" by (simp add: policy_Put_def st'(1))
  have "map_of (pg_entries (?h ?g)) key = Some \<lparr>pe_data = \<lparr>de_data = chunk, de_version_tag = tag\<rparr>,
      pe_bytes = (if 0 < pc_capacity chunk then pc_capacity chunk else pc_length chunk), pe_inserted_at = now\<rparr>"
    using group_Put_ok(5) [OF g, of chunk key tag now] fits st'(3) by simp
  moreover have "ps_groups ?put ! ?i = ?h ?g" using i by (simp add: on_group_def)
  moreover have "choose_group (fname key) (ps_groups ?put) = ?i"
  proof -
    have "map pg_pattern (ps_groups ?put) = map pg_pattern (ps_groups st)"
      using group_Put_ok(3) [OF g, of key chunk tag now] i st'(3)
      by (simp add: on_group_def map_update same_config_def list_update_same_conv)
    then show ?thesis by (rule choose_group_cong)
  qed
  moreover have "policy_storage_inv ?put" using policy_Put_laws(1) [OF inv, of key chunk tag now] put by simp
  then obtain st2 where "GroupFor (fname key) ?put = (choose_group (fname key) (ps_groups ?put), st2)"
    "ps_groups st2 = ps_groups ?put" "ps_timeout_millisec st2 = ps_timeout_millisec ?put"
    using GroupFor_ok by metis
  moreover have "ps_timeout_millisec ?put = ps_timeout_millisec st" by (simp add: on_group_def st'(4))
  ultimately show ?thesis
    using tag fresh by (auto simp: put policy_Get_def Expired_def)
qed

lemma policy_get_after_put_witness:
  "\<exists>st. policy_storage_new 100 0 ''lru'' (Inr []) = Inr st \<and>
     fst (policy_Get (InMemCacheBlock ''f'' 0 4) [] 5 (policy_Put (InMemCacheBlock ''f'' 0 4) example_chunk [] 0 st))
       = Some example_chunk"
proof -
  obtain st where st: "policy_storage_new 100 0 ''lru'' (Inr []) = Inr st"
    by (simp add: policy_storage_new_def IsValidEvictionPolicy_def explicit_bytes_def unsized_groups_def
        CreateEvictionPolicy_def)
  then have "st = \<lparr>ps_groups = [new_group ''global'' [] (LruPolicy list_policy_new) True 100],
      ps_group_by_file = [], ps_max_bytes = 100, ps_timeout_millisec = 0\<rparr>"
    by (simp add: policy_storage_new_def IsValidEvictionPolicy_def explicit_bytes_def unsized_groups_def
        CreateEvictionPolicy_def u64_sub_def U64_def)
  then have "pg_capacity_bytes (ps_groups st ! choose_group ''f'' (ps_groups st)) = 100"
      "ps_timeout_millisec st = 0"
    by (simp_all add: choose_group_def new_group_def)
  moreover have "policy_storage_inv st" using policy_storage_new_ok(1) [OF st] by (simp add: U64_def)
  ultimately show ?thesis
    using st policy_get_after_put [of st "[]" "[]" "InMemCacheBlock ''f'' 0 4" example_chunk 5 0]
    by (simp add: ValidateVersionTag_def example_chunk_def)
qed

lemma parse_entry_valid:
  "parse_entry trim stod rng scale mb t = Inr e \<Longrightarrow> se_pattern e \<noteq> [] \<and> IsValidEvictionPolicy (se_policy e)"
  by (auto simp: parse_entry_def Let_def split: option.splits sum.splits if_splits)

lemma parse_parts_valid:
  "parse_parts trim stod rng scale mb parts = Inr es \<Longrightarrow> e \<in> set es \<Longrightarrow>
   se_pattern e \<noteq> [] \<and> IsValidEvictionPolicy (se_policy e)"
  by (induction parts arbitrary: es)
    (auto split: if_splits sum.splits dest: parse_entry_valid)

lemma valid_policy_created: "IsValidEvictionPolicy name \<Longrightarrow> \<exists>p. CreateEvictionPolicy name = Inr p"
  by (auto simp: IsValidEvictionPolicy_def CreateEvictionPolicy_def)

lemma spec_groups_built:
  assumes "\<And>e. e \<in> set spec \<Longrightarrow> IsValidEvictionPolicy (se_policy e)"
  shows "\<exists>gs. spec_groups bounded share spec = Inr gs"
  using assms
proof (induction spec)
  case (Cons e es)
  then obtain p :: "InMemCacheBlock policy" where "CreateEvictionPolicy (se_policy e) = Inr p"
    using valid_policy_created [of "se_policy e"] by auto
  moreover obtain gs where "spec_groups bounded share es = Inr gs" using Cons by auto
  ultimately show ?case by simp
qed simp

text \<open>
  What the parser of the file policy specification accepts always builds: every
  entry has a pattern and a valid policy, so with a valid default policy the constructor
  fails only when the explicit budgets exceed the total.
\<close>

theorem parsed_spec_builds:
  assumes "ParseFilePolicySpec split trim stod rng scale spec max_bytes = Inr entries"
    and "IsValidEvictionPolicy default_policy"
  shows "(\<forall>e \<in> set entries. se_pattern e \<noteq> [] \<and> IsValidEvictionPolicy (se_policy e)) \<and>
    ((\<exists>st. policy_storage_new max_bytes timeout default_policy (Inr entries) = Inr st) \<longleftrightarrow>
     max_bytes = 0 \<or> explicit_bytes entries \<le> max_bytes)"
proof -
  have valid: "se_pattern e \<noteq> [] \<and> IsValidEvictionPolicy (se_policy e)" if "e \<in> set entries" for e
    using assms(1) that parse_parts_valid [OF _ that]
    by (simp add: ParseFilePolicySpec_def split: if_splits)
  obtain p :: "InMemCacheBlock policy" where p: "CreateEvictionPolicy default_policy = Inr p" using valid_policy_created assms(2) by blast
  have gs: "\<exists>gs. spec_groups bounded share entries = Inr gs" for bounded share
    using valid by (intro spec_groups_built) blast
  have "(\<exists>st. policy_storage_new max_bytes timeout default_policy (Inr entries) = Inr st) \<longleftrightarrow>
     \<not> (0 < max_bytes \<and> max_bytes < explicit_bytes entries)"
  proof -
    define bounded share where "bounded = (0 < max_bytes)" and
      "share = (if max_bytes = 0 then 0 else u64_sub max_bytes (explicit_bytes entries) div unsized_groups entries)"
    obtain gs' where "spec_groups bounded share entries = Inr gs'" using gs by blast
    then show ?thesis
      using p assms(2) by (simp add: policy_storage_new_def Let_def bounded_def [symmetric] share_def [symmetric])
  qed
  with valid show ?thesis by auto
qed

definition example_split :: "string \<Rightarrow> char \<Rightarrow> string list" where
  "example_split s c = [s]"

lemma parsed_spec_builds_witness:
  "ParseFilePolicySpec example_split id (\<lambda>_. None :: nat option) (\<lambda>_. True) (\<lambda>_ _. 0) ''hot=clock:60'' 100 =
     Inr example_spec \<and> (\<exists>st. policy_storage_new 100 0 ''lru'' (Inr example_spec) = Inr st)"
proof -
  have parse: "ParseFilePolicySpec example_split id (\<lambda>_. None :: nat option) (\<lambda>_. True) (\<lambda>_ _. 0) ''hot=clock:60'' 100 =
     Inr example_spec"
    by (simp add: ParseFilePolicySpec_def example_split_def parse_entry_def parse_size_def split_at_char_def
        stoull_def is_space_def is_digit_def digits_value_def example_spec_def IsValidEvictionPolicy_def
        less_eq_char_def U64_def Let_def)
  have "explicit_bytes example_spec = 60" by (simp add: explicit_bytes_def example_spec_def u64_add_def U64_def)
  with parsed_spec_builds [OF parse, of "''lru''"] parse show ?thesis
    by (auto simp: IsValidEvictionPolicy_def)
qed

text \<open>
  The sum of the explicit budgets is itself an unsigned 64-bit sum: two budgets of 2^63
  bytes add up to nothing, pass the check against a budget of 1000 bytes, and leave groups
  that may hold far more.
\<close>

definition huge_entry :: SpecEntry where
  "huge_entry = \<lparr>se_pattern = ''a'', se_policy = ''lru'', se_bytes = 2 ^ 63\<rparr>"

lemma budget_check_overflows:
  "\<exists>st. policy_storage_new 1000 0 ''lru'' (Inr [huge_entry, huge_entry]) = Inr st \<and>
    1000 < sum_list (map pg_capacity_bytes (ps_groups st))"
  by (simp add: huge_entry_def policy_storage_new_def IsValidEvictionPolicy_def explicit_bytes_def unsized_groups_def
      CreateEvictionPolicy_def u64_add_def U64_def new_group_def)

end
