(* ===== verification/Url_Hash.thy ===== *)
theory Url_Hash
  imports Prelude
begin

text \<open>
  The string utilities that name cache files: stripping and parsing URLs
  (\<open>src/utils/url_utils.cpp\<close>) and the hexadecimal form of a hash (\<open>src/utils/hash_utils.cpp\<close>).
  \<open>string::npos\<close> is \<open>None\<close>.
\<close>

section \<open>Searching a string\<close>

fun find_where :: "(char \<Rightarrow> bool) \<Rightarrow> nat \<Rightarrow> string \<Rightarrow> nat option" where
  "find_where P i [] = None"
| "find_where P i (c # s) = (if P c then Some i else find_where P (Suc i) s)"

text \<open>\<open>find\<close> of a character and \<open>find_first_of\<close>, from a position on.\<close>

definition str_find :: "char \<Rightarrow> nat \<Rightarrow> string \<Rightarrow> nat option" where
  "str_find c pos s = find_where (\<lambda>d. d = c) pos (drop pos s)"

definition str_find_first_of :: "string \<Rightarrow> nat \<Rightarrow> string \<Rightarrow> nat option" where
  "str_find_first_of cs pos s = find_where (\<lambda>d. d \<in> set cs) pos (drop pos s)"

fun find_sub :: "string \<Rightarrow> nat \<Rightarrow> string \<Rightarrow> nat option" where
  "find_sub pat i [] = (if pat = [] then Some i else None)"
| "find_sub pat i (c # s) = (if take (length pat) (c # s) = pat then Some i else find_sub pat (Suc i) s)"

section \<open>URLs\<close>

definition StripQueryAndFragment :: "string \<Rightarrow> string" where
  "StripQueryAndFragment url =
     (let question_pos = str_find (CHR ''?'') 0 url;
          hash_pos = str_find (CHR ''#'') 0 url;
          strip_pos = (case question_pos of
              Some q \<Rightarrow> (case hash_pos of Some h \<Rightarrow> Some (if q < h then q else h) | None \<Rightarrow> Some q)
            | None \<Rightarrow> hash_pos)
      in case strip_pos of Some p \<Rightarrow> take p url | None \<Rightarrow> url)"

record ParsedURL =
  url_scheme :: string
  url_host :: string
  url_path :: string
  url_query :: string
  url_fragment :: string
  url_without_query :: string

definition empty_url :: ParsedURL where
  "empty_url = \<lparr>url_scheme = [], url_host = [], url_path = [], url_query = [], url_fragment = [], url_without_query = []\<rparr>"

text \<open>Steps 4 and 5, from the position of the first \<open>?\<close> or \<open>#\<close> on.\<close>

definition parse_fragment :: "string \<Rightarrow> nat \<Rightarrow> ParsedURL \<Rightarrow> ParsedURL" where
  "parse_fragment url pos r =
     (if pos < length url \<and> url ! pos = CHR ''#'' then r\<lparr>url_fragment := drop (pos + 1) url\<rparr> else r)"

definition parse_query :: "string \<Rightarrow> nat \<Rightarrow> ParsedURL \<Rightarrow> ParsedURL" where
  "parse_query url pos r =
     (if pos < length url \<and> url ! pos = CHR ''?''
      then (case str_find (CHR ''#'') (pos + 1) url of
              None \<Rightarrow> r\<lparr>url_query := drop (pos + 1) url\<rparr>
            | Some query_end \<Rightarrow>
                parse_fragment url query_end (r\<lparr>url_query := take (query_end - (pos + 1)) (drop (pos + 1) url)\<rparr>))
      else parse_fragment url pos r)"

text \<open>Steps 2 and 3, from the start of the host on.\<close>

definition parse_host :: "string \<Rightarrow> nat \<Rightarrow> ParsedURL \<Rightarrow> ParsedURL" where
  "parse_host url pos r =
     (case str_find_first_of ''/?#'' pos url of
        None \<Rightarrow> r\<lparr>url_host := drop pos url, url_without_query := url\<rparr>
      | Some host_end \<Rightarrow>
          (let r1 = r\<lparr>url_host := take (host_end - pos) (drop pos url)\<rparr>
           in case str_find_first_of ''?#'' host_end url of
                None \<Rightarrow> r1\<lparr>url_path := drop host_end url, url_without_query := url\<rparr>
              | Some path_end \<Rightarrow>
                  parse_query url path_end
                    (r1\<lparr>url_path := take (path_end - host_end) (drop host_end url),
                        url_without_query := take path_end url\<rparr>)))"

definition ParseURL :: "string \<Rightarrow> ParsedURL" where
  "ParseURL url =
     (if url = [] then empty_url
      else case find_sub ''://'' 0 url of
             Some scheme_end \<Rightarrow> parse_host url (scheme_end + 3) (empty_url\<lparr>url_scheme := take scheme_end url\<rparr>)
           | None \<Rightarrow> parse_host url 0 empty_url)"

section \<open>Hexadecimal hashes\<close>

definition hex_chars :: string where
  "hex_chars = ''0123456789abcdef''"

definition Sha256ToHexString :: "byte list \<Rightarrow> string" where
  "Sha256ToHexString sha256 = concat (map (\<lambda>b. [hex_chars ! (b div 16), hex_chars ! (b mod 16)]) sha256)"

text \<open>\<open>sha\<close> is the SHA-256 of the linked library.\<close>

definition GetSha256 :: "(string \<Rightarrow> byte list) \<Rightarrow> string \<Rightarrow> string" where
  "GetSha256 sha input = Sha256ToHexString (sha input)"

text \<open>What the library promises of the digest: 32 bytes.\<close>

definition digest_ok :: "(string \<Rightarrow> byte list) \<Rightarrow> bool" where
  "digest_ok sha \<longleftrightarrow> (\<forall>s. length (sha s) = 32 \<and> (\<forall>b \<in> set (sha s). b < 256))"

section \<open>Lemmas\<close>

lemma find_where_Some:
  "find_where P i s = Some j \<Longrightarrow> i \<le> j \<and> j < i + length s \<and> P (s ! (j - i)) \<and> (\<forall>k < j - i. \<not> P (s ! k))"
proof (induction P i s rule: find_where.induct)
  case (2 P i c s)
  show ?case
  proof (cases "P c")
    case False
    with "2.prems" have "find_where P (Suc i) s = Some j" by simp
    from "2.IH" [OF False this] have "Suc i \<le> j" "j < Suc i + length s" "P (s ! (j - Suc i))"
      "\<forall>k < j - Suc i. \<not> P (s ! k)" by auto
    with False show ?thesis by (auto simp: nth_Cons' Suc_diff_Suc Suc_le_eq)
  qed (use "2.prems" in auto)
qed simp

lemma find_where_None: "find_where P i s = None \<longleftrightarrow> (\<forall>c \<in> set s. \<not> P c)"
  by (induction P i s rule: find_where.induct) auto

lemma find_where_takeWhile:
  "find_where P i s = Some j \<Longrightarrow> take (j - i) s = takeWhile (\<lambda>c. \<not> P c) s"
proof (induction P i s rule: find_where.induct)
  case (2 P i c s)
  show ?case
  proof (cases "P c")
    case False
    with "2.prems" have j: "find_where P (Suc i) s = Some j" by simp
    then have "Suc i \<le> j" using find_where_Some by blast
    then have "j - i = Suc (j - Suc i)" by simp
    with "2.IH" [OF False j] False show ?thesis by simp
  qed (use "2.prems" in auto)
qed simp

lemma find_sub_Some: "find_sub pat i s = Some j \<Longrightarrow> i \<le> j \<and> take (length pat) (drop (j - i) s) = pat"
proof (induction pat i s rule: find_sub.induct)
  case (2 pat i c s)
  show ?case
  proof (cases "take (length pat) (c # s) = pat")
    case False
    with "2.prems" have "find_sub pat (Suc i) s = Some j" by simp
    from "2.IH" [OF False this] show ?thesis by (simp add: drop_Cons' Suc_le_eq)
  qed (use "2.prems" in auto)
qed (auto split: if_splits)

text \<open>Stripping keeps everything in front of the first query or fragment mark.\<close>

lemma strip_takeWhile:
  "StripQueryAndFragment url = takeWhile (\<lambda>c. c \<noteq> CHR ''?'' \<and> c \<noteq> CHR ''#'') url"
proof -
  have tw: "take p url = takeWhile (\<lambda>d. d \<noteq> c) url" if "str_find c 0 url = Some p" for c p
    using find_where_takeWhile [of "\<lambda>d. d = c" 0 url p] that by (simp add: str_find_def)
  have none: "str_find c 0 url = None \<Longrightarrow> c \<notin> set url" for c
    by (auto simp: str_find_def find_where_None)
  have both: "takeWhile (\<lambda>c. c \<noteq> a \<and> c \<noteq> b) url = take (min p q) url"
    if "str_find a 0 url = Some p" "str_find b 0 url = Some q" for a b p q
  proof -
    have "takeWhile (\<lambda>c. c \<noteq> a \<and> c \<noteq> b) url = takeWhile (\<lambda>c. c \<noteq> b) (takeWhile (\<lambda>c. c \<noteq> a) url)"
      by (induction url) auto
    also have "\<dots> = take p (takeWhile (\<lambda>c. c \<noteq> b) url)"
      unfolding tw [OF that(1), symmetric] by (induction url arbitrary: p) (auto simp: take_Cons' )
    finally show ?thesis unfolding tw [OF that(2), symmetric] by simp
  qed
  have one: "takeWhile (\<lambda>c. c \<noteq> a \<and> c \<noteq> b) url = takeWhile (\<lambda>c. c \<noteq> a) url" if "b \<notin> set url" for a b
    using that by (intro takeWhile_cong) auto
  have swap: "takeWhile (\<lambda>c. c \<noteq> a \<and> c \<noteq> b) url = takeWhile (\<lambda>c. c \<noteq> b \<and> c \<noteq> a) url" for a b
    by (intro takeWhile_cong) auto
  show ?thesis
  proof (cases "str_find (CHR ''?'') 0 url")
    case None
    show ?thesis
    proof (cases "str_find (CHR ''#'') 0 url")
      case None
      have "takeWhile (\<lambda>c. c \<noteq> CHR ''?'' \<and> c \<noteq> CHR ''#'') url = url"
        using none [OF None] none [OF \<open>str_find (CHR ''?'') 0 url = None\<close>]
        by (auto simp: takeWhile_eq_all_conv)
      moreover have "StripQueryAndFragment url = url"
        using None \<open>str_find (CHR ''?'') 0 url = None\<close> by (simp add: StripQueryAndFragment_def)
      ultimately show ?thesis by (metis (no_types, lifting))
    next
      case (Some h)
      with \<open>str_find (CHR ''?'') 0 url = None\<close> show ?thesis
        using one [OF none, of "CHR ''?''" "CHR ''#''"] swap tw [OF Some] by (simp add: StripQueryAndFragment_def)
    qed
  next
    case (Some q)
    show ?thesis
    proof (cases "str_find (CHR ''#'') 0 url")
      case None
      with Some show ?thesis
        using one [OF none [OF None], of "CHR ''?''"] tw [OF Some] by (simp add: StripQueryAndFragment_def)
    next
      case (Some h)
      with \<open>str_find (CHR ''?'') 0 url = Some q\<close> show ?thesis
        using both [OF \<open>str_find (CHR ''?'') 0 url = Some q\<close> Some]
        by (auto simp: StripQueryAndFragment_def min_def)
    qed
  qed
qed

text \<open>A part of the URL with the mark that opens it, or nothing.\<close>

definition marked :: "string \<Rightarrow> string \<Rightarrow> string \<Rightarrow> bool" where
  "marked mark part s \<longleftrightarrow> (s = [] \<and> part = []) \<or> s = mark @ part"

lemma find_first_of_bounds:
  "str_find_first_of cs pos s = Some j \<Longrightarrow> pos \<le> j \<and> j < length s \<and> s ! j \<in> set cs"
  by (auto simp: str_find_first_of_def dest!: find_where_Some)

lemma str_find_bounds: "str_find c pos s = Some j \<Longrightarrow> pos \<le> j \<and> j < length s \<and> s ! j = c"
  by (auto simp: str_find_def dest!: find_where_Some)

lemma drop_at: "j < length s \<Longrightarrow> s ! j = c \<Longrightarrow> drop j s = [c] @ drop (j + 1) s"
  by (metis Cons_nth_drop_Suc Suc_eq_plus1 append_Cons append_Nil)

lemma split_between:
  assumes "i \<le> j"
  shows "drop i s = take (j - i) (drop i s) @ drop j s" "take j s = take i s @ take (j - i) (drop i s)"
proof -
  have "drop (j - i) (drop i s) = drop j s" using assms by simp
  then show "drop i s = take (j - i) (drop i s) @ drop j s" by (metis append_take_drop_id)
  show "take j s = take i s @ take (j - i) (drop i s)" using assms take_add [of i "j - i" s] by simp
qed

lemma parse_fragment_parts:
  assumes "pos < length url" "url ! pos = CHR ''#''"
  shows "marked ''#'' (url_fragment (parse_fragment url pos r)) (drop pos url)"
    and "url_scheme (parse_fragment url pos r) = url_scheme r" "url_host (parse_fragment url pos r) = url_host r"
    and "url_path (parse_fragment url pos r) = url_path r" "url_query (parse_fragment url pos r) = url_query r"
    and "url_without_query (parse_fragment url pos r) = url_without_query r"
  using assms drop_at [OF assms] by (simp_all add: parse_fragment_def marked_def)

lemma parse_query_parts:
  assumes "pos < length url" "url ! pos \<in> {CHR ''?'', CHR ''#''}" "url_query r = []" "url_fragment r = []"
  shows "\<exists>q f. drop pos url = q @ f \<and> marked ''?'' (url_query (parse_query url pos r)) q \<and>
      marked ''#'' (url_fragment (parse_query url pos r)) f \<and>
      url_scheme (parse_query url pos r) = url_scheme r \<and> url_host (parse_query url pos r) = url_host r \<and>
      url_path (parse_query url pos r) = url_path r \<and>
      url_without_query (parse_query url pos r) = url_without_query r"
proof (cases "url ! pos = CHR ''?''")
  case True
  note q = drop_at [OF assms(1) True]
  show ?thesis
  proof (cases "str_find (CHR ''#'') (pos + 1) url")
    case None
    with True assms q show ?thesis
      by (intro exI [of _ "drop pos url"] exI [of _ "[]"]) (simp add: parse_query_def marked_def)
  next
    case (Some e)
    note e = str_find_bounds [OF Some]
    let ?r = "r\<lparr>url_query := take (e - (pos + 1)) (drop (pos + 1) url)\<rparr>"
    have p: "parse_query url pos r = parse_fragment url e ?r" using True assms(1) Some by (simp add: parse_query_def)
    have "drop (pos + 1) url = take (e - (pos + 1)) (drop (pos + 1) url) @ drop e url"
      using e by (metis append_take_drop_id drop_drop le_add_diff_inverse2)
    then have "drop pos url = (''?'' @ url_query ?r) @ drop e url" unfolding q by simp
    moreover have "e < length url" "url ! e = CHR ''#''" using e by auto
    note parse_fragment_parts [OF this, of ?r]
    ultimately show ?thesis unfolding p
      by (intro exI [of _ "''?'' @ url_query ?r"] exI [of _ "drop e url"]) (simp add: marked_def)
  qed
next
  case False
  with assms(2) have h: "url ! pos = CHR ''#''" by simp
  have "parse_query url pos r = parse_fragment url pos r" using False by (simp add: parse_query_def)
  with parse_fragment_parts [OF assms(1) h, of r] assms(3) show ?thesis
    by (intro exI [of _ "[]"] exI [of _ "drop pos url"]) (simp add: marked_def)
qed

lemma parse_host_parts:
  assumes "pos \<le> length url" "url_path r = []" "url_query r = []" "url_fragment r = []"
  shows "\<exists>q f. drop pos url = url_host (parse_host url pos r) @ url_path (parse_host url pos r) @ q @ f \<and>
      marked ''?'' (url_query (parse_host url pos r)) q \<and> marked ''#'' (url_fragment (parse_host url pos r)) f \<and>
      url_scheme (parse_host url pos r) = url_scheme r \<and>
      url_without_query (parse_host url pos r) =
        take pos url @ url_host (parse_host url pos r) @ url_path (parse_host url pos r)"
proof (cases "str_find_first_of ''/?#'' pos url")
  case None
  with assms show ?thesis by (simp add: parse_host_def marked_def)
next
  case (Some h)
  note hb = find_first_of_bounds [OF Some]
  let ?r1 = "r\<lparr>url_host := take (h - pos) (drop pos url)\<rparr>"
  have host: "drop pos url = url_host ?r1 @ drop h url" "take h url = take pos url @ url_host ?r1"
    using split_between [of pos h url] hb by simp_all
  show ?thesis
  proof (cases "str_find_first_of ''?#'' h url")
    case None
    have "url = take pos url @ url_host ?r1 @ drop h url" using host(1) by (metis append_take_drop_id)
    with None Some assms host show ?thesis
      by (intro exI [of _ "[]"]) (simp add: parse_host_def marked_def Let_def)
  next
    case (Some p)
    note pb = find_first_of_bounds [OF Some]
    let ?r2 = "?r1\<lparr>url_path := take (p - h) (drop h url), url_without_query := take p url\<rparr>"
    have path: "drop h url = url_path ?r2 @ drop p url" "take p url = take h url @ url_path ?r2"
      using split_between [of h p url] pb by simp_all
    have eq: "parse_host url pos r = parse_query url p ?r2"
      using \<open>str_find_first_of ''/?#'' pos url = Some h\<close> Some by (simp add: parse_host_def Let_def)
    obtain q f where "drop p url = q @ f" "marked ''?'' (url_query (parse_query url p ?r2)) q"
        "marked ''#'' (url_fragment (parse_query url p ?r2)) f"
        "url_scheme (parse_query url p ?r2) = url_scheme ?r2" "url_host (parse_query url p ?r2) = url_host ?r2"
        "url_path (parse_query url p ?r2) = url_path ?r2"
        "url_without_query (parse_query url p ?r2) = url_without_query ?r2"
      using parse_query_parts [of p url ?r2] pb assms by auto
    with host path show ?thesis unfolding eq by (intro exI [of _ q] exI [of _ f]) simp
  qed
qed

text \<open>
  Parsing loses nothing: the URL is its scheme, host, path, query and fragment with their marks,
  and \<open>url_without_query\<close> is the part in front of the query.
\<close>

lemma parse_url_parts:
  "\<exists>sc q f. url = sc @ url_host (ParseURL url) @ url_path (ParseURL url) @ q @ f \<and>
    ((sc = [] \<and> url_scheme (ParseURL url) = []) \<or> sc = url_scheme (ParseURL url) @ ''://'') \<and>
    marked ''?'' (url_query (ParseURL url)) q \<and> marked ''#'' (url_fragment (ParseURL url)) f \<and>
    url_without_query (ParseURL url) = sc @ url_host (ParseURL url) @ url_path (ParseURL url)"
proof (cases "url = []")
  case True
  then show ?thesis by (simp add: ParseURL_def empty_url_def marked_def)
next
  case False
  show ?thesis
  proof (cases "find_sub ''://'' 0 url")
    case None
    with False have eq: "ParseURL url = parse_host url 0 empty_url" by (simp add: ParseURL_def)
    obtain q f where "drop 0 url = url_host (ParseURL url) @ url_path (ParseURL url) @ q @ f"
        "marked ''?'' (url_query (ParseURL url)) q" "marked ''#'' (url_fragment (ParseURL url)) f"
        "url_scheme (ParseURL url) = url_scheme empty_url"
        "url_without_query (ParseURL url) = take 0 url @ url_host (ParseURL url) @ url_path (ParseURL url)"
      using parse_host_parts [of 0 url empty_url] unfolding eq by (auto simp: empty_url_def)
    then show ?thesis
      by (intro exI [of _ "[]"] exI [of _ q] exI [of _ f]) (simp add: empty_url_def)
  next
    case (Some e)
    let ?r = "empty_url\<lparr>url_scheme := take e url\<rparr>"
    have at: "take 3 (drop e url) = ''://''" using find_sub_Some [OF Some] by (simp add: numeral_3_eq_3)
    have "length (take 3 (drop e url)) = 3" unfolding at by simp
    then have le: "e + 3 \<le> length url" by simp
    have tk: "take (e + 3) url = take e url @ ''://''" using at by (simp add: take_add)
    have eq: "ParseURL url = parse_host url (e + 3) ?r" using False Some by (simp add: ParseURL_def)
    obtain q f where p: "drop (e + 3) url = url_host (parse_host url (e + 3) ?r) @ url_path (parse_host url (e + 3) ?r) @ q @ f"
        "marked ''?'' (url_query (parse_host url (e + 3) ?r)) q" "marked ''#'' (url_fragment (parse_host url (e + 3) ?r)) f"
        "url_scheme (parse_host url (e + 3) ?r) = take e url"
        "url_without_query (parse_host url (e + 3) ?r) =
          take (e + 3) url @ url_host (parse_host url (e + 3) ?r) @ url_path (parse_host url (e + 3) ?r)"
      using parse_host_parts [OF le, of ?r] by (auto simp: empty_url_def)
    have "url = (take e url @ ''://'') @ drop (e + 3) url" using tk by (metis append_take_drop_id)
    with p tk show ?thesis unfolding eq by (intro exI [of _ "take e url @ ''://''"] exI [of _ q] exI [of _ f]) simp
  qed
qed

section \<open>The hexadecimal form\<close>

lemma hex_chars_nth_inj: "i < 16 \<Longrightarrow> j < 16 \<Longrightarrow> hex_chars ! i = hex_chars ! j \<longleftrightarrow> i = j"
proof -
  assume "i < 16" "j < 16"
  moreover have "distinct hex_chars" "length hex_chars = 16" by (simp_all add: hex_chars_def)
  ultimately show ?thesis by (simp add: nth_eq_iff_index_eq)
qed

lemma length_hex [simp]: "length (Sha256ToHexString bs) = 2 * length bs"
  by (induction bs) (simp_all add: Sha256ToHexString_def)

lemma hex_chars_clean: "\<forall>b \<in> set bs. b < 256 \<Longrightarrow> set (Sha256ToHexString bs) \<subseteq> set hex_chars"
proof -
  have nth: "i < 16 \<Longrightarrow> hex_chars ! i \<in> set hex_chars" for i by (intro nth_mem) (simp add: hex_chars_def)
  assume "\<forall>b \<in> set bs. b < 256"
  then show ?thesis by (induction bs) (simp_all add: Sha256ToHexString_def nth less_mult_imp_div_less)
qed

lemma hex_inj:
  assumes "\<forall>b \<in> set as. b < 256" "\<forall>b \<in> set bs. b < 256" "Sha256ToHexString as = Sha256ToHexString bs"
  shows "as = bs"
  using assms
proof (induction as arbitrary: bs)
  case Nil
  then show ?case by (cases bs) (simp_all add: Sha256ToHexString_def)
next
  case (Cons a as)
  then obtain b bs' where bs: "bs = b # bs'" by (cases bs) (simp_all add: Sha256ToHexString_def)
  have ab: "a < 256" "b < 256" using Cons.prems by (auto simp: bs)
  have "hex_chars ! (a div 16) = hex_chars ! (b div 16)" "hex_chars ! (a mod 16) = hex_chars ! (b mod 16)"
    and tl: "Sha256ToHexString as = Sha256ToHexString bs'"
    using Cons.prems(3) by (simp_all add: bs Sha256ToHexString_def)
  then have "a div 16 = b div 16" "a mod 16 = b mod 16"
    using ab by (simp_all add: hex_chars_nth_inj)
  then have "a = b" by (metis div_mult_mod_eq)
  with Cons.IH [OF _ _ tl] Cons.prems show ?case by (simp add: bs)
qed

end
