(* ===== verification/Disk_Cache_Path.thy ===== *)
theory Disk_Cache_Path
  imports Url_Hash
begin

unbundle bit_operations_syntax

text \<open>
  Names of on-disk cache files and what is recovered from them (\<open>src/disk_cache_util.cpp\<close>, the
  parts that compute on strings, and the limits of \<open>src/utils/filesystem_utils.cpp\<close>).

  The code of DuckDB that these functions call is a parameter: \<open>sha\<close> is SHA-256, \<open>gfn\<close> is
  \<open>StringUtil::GetFileName\<close>, \<open>split\<close> is \<open>StringUtil::Split\<close> at a dash and \<open>to_unsigned\<close> is
  \<open>StringUtil::ToUnsigned\<close>; \<open>uuid\<close> is the text of a fresh UUID.
\<close>

section \<open>Decimal numbers\<close>

fun digit_char :: "nat \<Rightarrow> char" where
  "digit_char d = ''0123456789'' ! d"

text \<open>The conversions \<open>%llu\<close> and \<open>%03llu\<close>.\<close>

fun dec :: "nat \<Rightarrow> string" where
  "dec n = (if n < 10 then [digit_char n] else dec (n div 10) @ [digit_char (n mod 10)])"

declare dec.simps [simp del]

definition dec3 :: "nat \<Rightarrow> string" where
  "dec3 n = replicate (3 - length (dec n)) (CHR ''0'') @ dec n"

definition undec :: "string \<Rightarrow> nat" where
  "undec s = foldl (\<lambda>a c. 10 * a + (of_char c - 48)) 0 s"

lemma digit_char_code: "d < 10 \<Longrightarrow> of_char (digit_char d) = d + 48"
proof -
  assume "d < 10"
  then have "d \<in> {0, 1, 2, 3, 4, 5, 6, 7, 8, 9}" by auto
  then show ?thesis by auto
qed

lemma undec_dec: "undec (dec n) = n"
  unfolding undec_def
proof (induction n rule: dec.induct)
  case (1 n)
  show ?case
  proof (cases "n < 10")
    case True
    then show ?thesis using digit_char_code [of n] by (subst dec.simps) (simp del: digit_char.simps)
  next
    case False
    with 1 show ?thesis using digit_char_code [of "n mod 10"] by (subst dec.simps) (simp del: digit_char.simps)
  qed
qed

lemma dec_inj [simp]: "dec m = dec n \<longleftrightarrow> m = n"
  by (metis undec_dec)

lemma undec_zeros: "undec (replicate k (CHR ''0'') @ s) = undec s"
  by (induction k) (simp_all add: undec_def)

lemma dec3_inj [simp]: "dec3 m = dec3 n \<longleftrightarrow> m = n"
  by (metis dec3_def undec_dec undec_zeros)

lemma digit_char_in: "d < 10 \<Longrightarrow> digit_char d \<in> set ''0123456789''"
  unfolding digit_char.simps by (rule nth_mem) simp

lemma dec_digits: "set (dec n) \<subseteq> set ''0123456789''"
proof (induction n rule: dec.induct)
  case (1 n)
  have "digit_char (n mod 10) \<in> set ''0123456789''" by (rule digit_char_in) simp
  with 1 show ?case using digit_char_in [of n]
    by (subst dec.simps) (auto simp del: digit_char.simps)
qed

lemma dec_nonempty [simp]: "dec n \<noteq> []"
  by (subst dec.simps) simp

lemma dec_clean: "CHR ''-'' \<notin> set (dec n)" "CHR ''/'' \<notin> set (dec n)" "CHR 0x5C \<notin> set (dec n)"
  using dec_digits [of n] by auto

section \<open>Platform limits\<close>

text \<open>On macOS the limit on attribute values is what \<open>pathconf\<close> reports.\<close>

datatype platform = Win32 | Apple nat | Linux

record MaxFileNameLength =
  max_filepath_len :: idx_t
  max_filename_len :: idx_t

fun GetMaxFileNameLength :: "platform \<Rightarrow> MaxFileNameLength" where
  "GetMaxFileNameLength Win32 = \<lparr>max_filepath_len = 260, max_filename_len = 255\<rparr>"
| "GetMaxFileNameLength (Apple _) = \<lparr>max_filepath_len = 1024, max_filename_len = 255\<rparr>"
| "GetMaxFileNameLength Linux = \<lparr>max_filepath_len = 4096, max_filename_len = 255\<rparr>"

fun GetMaxXattrValueSize :: "platform \<Rightarrow> idx_t" where
  "GetMaxXattrValueSize Win32 = 65536"
| "GetMaxXattrValueSize (Apple max_xattr_size) = max_xattr_size"
| "GetMaxXattrValueSize Linux = 65536"

section \<open>Values in several attributes\<close>

definition CACHE_FILEPATH_ATTR_PREFIX :: string where
  "CACHE_FILEPATH_ATTR_PREFIX = ''user.cache_httpfs_cache_filepath''"

definition REMOTE_PATH_ATTR_PREFIX :: string where
  "REMOTE_PATH_ATTR_PREFIX = ''user.cache_httpfs_remote_path''"

definition xattr_key :: "string \<Rightarrow> idx_t \<Rightarrow> string" where
  "xattr_key key_prefix idx = key_prefix @ ''.'' @ dec3 idx"

text \<open>\<open>get\<close> is \<open>GetFileXattr\<close> on the file, empty where there is no such attribute.\<close>

partial_function (option) read_chunks :: "(string \<Rightarrow> string) \<Rightarrow> string \<Rightarrow> idx_t \<Rightarrow> string \<Rightarrow> string option" where
  "read_chunks get key_prefix idx acc =
     (let chunk = get (xattr_key key_prefix idx)
      in if chunk = [] then Some acc else read_chunks get key_prefix (idx + 1) (acc @ chunk))"

definition ReadChunkedXattr :: "(string \<Rightarrow> string) \<Rightarrow> string \<Rightarrow> string option" where
  "ReadChunkedXattr get key_prefix = read_chunks get key_prefix 0 []"

definition TryGetOriginalCacheFilepath :: "(string \<Rightarrow> string) \<Rightarrow> string option" where
  "TryGetOriginalCacheFilepath get = ReadChunkedXattr get CACHE_FILEPATH_ATTR_PREFIX"

definition TryGetOriginalRemotePath :: "(string \<Rightarrow> string) \<Rightarrow> string option" where
  "TryGetOriginalRemotePath get = ReadChunkedXattr get REMOTE_PATH_ATTR_PREFIX"

definition xattr_chunk_count :: "idx_t \<Rightarrow> string \<Rightarrow> idx_t" where
  "xattr_chunk_count max_val value = (length value + max_val - 1) div max_val"

definition AddChunkedXattrEntries ::
  "idx_t \<Rightarrow> string \<Rightarrow> string \<Rightarrow> (string \<times> string) list \<Rightarrow> (string \<times> string) list" where
  "AddChunkedXattrEntries max_val key_prefix value attrs =
     fold (\<lambda>idx. let offset = idx * max_val; len = min max_val (length value - offset)
                  in AList.update (xattr_key key_prefix idx) (slice offset len value))
       [0 ..< xattr_chunk_count max_val value] attrs"

definition attr_value :: "(string \<times> string) list \<Rightarrow> string \<Rightarrow> string" where
  "attr_value attrs key = (case map_of attrs key of None \<Rightarrow> [] | Some v \<Rightarrow> v)"

section \<open>Cache files of a remote file\<close>

record CacheFileDestination =
  cf_cache_directory_idx :: idx_t
  cf_cache_filepath :: string

record RemoteFileCachePathInfo =
  pi_cache_directory_idx :: idx_t
  pi_cache_directory :: string
  pi_remote_file_sha256_hex :: string
  pi_sanitized_fname :: string

record RemoteFileInfo =
  ri_remote_filename :: string
  ri_start_offset :: idx_t
  ri_end_offset :: idx_t

record LocalCacheDestination =
  dest_local_filepath :: string
  temp_local_filepath :: string
  file_attrs :: "(string \<times> string) list"

definition ends_with :: "string \<Rightarrow> string \<Rightarrow> bool" where
  "ends_with s suf \<longleftrightarrow> length suf \<le> length s \<and> drop (length s - length suf) s = suf"

definition fnv_step :: "idx_t \<Rightarrow> byte \<Rightarrow> idx_t" where
  "fnv_step hash_value b = u64_mul (hash_value XOR b) 0x100000001b3"

definition GetCacheDirectoryIdx :: "byte list \<Rightarrow> idx_t \<Rightarrow> idx_t" where
  "GetCacheDirectoryIdx sha256_val cache_directory_count =
     foldl fnv_step 0xcbf29ce484222325 sha256_val mod cache_directory_count"

definition PopulateRemoteFileCacheKey ::
  "(string \<Rightarrow> byte list) \<Rightarrow> (string \<Rightarrow> string) \<Rightarrow> string \<Rightarrow> byte list \<times> string \<times> string" where
  "PopulateRemoteFileCacheKey sha gfn remote_file =
     (let remote_file_sha256_val = sha remote_file
      in (remote_file_sha256_val, Sha256ToHexString remote_file_sha256_val,
          gfn (StripQueryAndFragment remote_file)))"

definition BuildRemoteFileCachePathInfo ::
  "(string \<Rightarrow> byte list) \<Rightarrow> (string \<Rightarrow> string) \<Rightarrow> string list \<Rightarrow> string \<Rightarrow> RemoteFileCachePathInfo result" where
  "BuildRemoteFileCachePathInfo sha gfn cache_directories remote_file =
     (if cache_directories = [] then Inl (AssertionFailure ''!cache_directories.empty()'')
      else case PopulateRemoteFileCacheKey sha gfn remote_file of (sha_val, sha_hex, sanitized) \<Rightarrow>
        let idx = GetCacheDirectoryIdx sha_val (length cache_directories);
            dir = cache_directories ! idx
        in if ends_with dir ''/'' then Inl (InternalException (''Cache directory '' @ dir @ '' cannot ends with /''))
           else Inr \<lparr>pi_cache_directory_idx = idx, pi_cache_directory = dir,
                     pi_remote_file_sha256_hex = sha_hex, pi_sanitized_fname = sanitized\<rparr>)"

definition GetLocalCacheFile :: "RemoteFileCachePathInfo \<Rightarrow> idx_t \<Rightarrow> idx_t \<Rightarrow> CacheFileDestination" where
  "GetLocalCacheFile path_info start_offset bytes_to_read =
     \<lparr>cf_cache_directory_idx = pi_cache_directory_idx path_info,
      cf_cache_filepath = pi_cache_directory path_info @ ''/'' @ pi_remote_file_sha256_hex path_info @ ''-'' @
        pi_sanitized_fname path_info @ ''-'' @ dec start_offset @ ''-'' @ dec bytes_to_read\<rparr>"

definition GetLocalCacheFile_for ::
  "(string \<Rightarrow> byte list) \<Rightarrow> (string \<Rightarrow> string) \<Rightarrow> string list \<Rightarrow> string \<Rightarrow> idx_t \<Rightarrow> idx_t \<Rightarrow> CacheFileDestination result" where
  "GetLocalCacheFile_for sha gfn cache_directories remote_file start_offset bytes_to_read =
     (case BuildRemoteFileCachePathInfo sha gfn cache_directories remote_file of
        Inl e \<Rightarrow> Inl e
      | Inr path_info \<Rightarrow> Inr (GetLocalCacheFile path_info start_offset bytes_to_read))"

fun join :: "string \<Rightarrow> string list \<Rightarrow> string" where
  "join sep [] = []"
| "join sep [s] = s"
| "join sep (s # ss) = s @ sep @ join sep ss"

definition GetRemoteFileInfo ::
  "(string \<Rightarrow> string) \<Rightarrow> (string \<Rightarrow> string list) \<Rightarrow> (string \<Rightarrow> idx_t result) \<Rightarrow> (string \<Rightarrow> string) \<Rightarrow> string \<Rightarrow>
   RemoteFileInfo run" where
  "GetRemoteFileInfo gfn split to_unsigned get cache_filepath =
     (case TryGetOriginalCacheFilepath get of
        None \<Rightarrow> None
      | Some original_filepath \<Rightarrow>
          (let local_filename = gfn (if original_filepath \<noteq> [] then original_filepath else cache_filepath);
               tokens = split local_filename
           in if length tokens < 4 then Some (Inl (AssertionFailure ''tokens.size() >= 4''))
              else case to_unsigned (tokens ! (length tokens - 2)) of
                     Inl e \<Rightarrow> Some (Inl e)
                   | Inr start_offset \<Rightarrow>
                       (case to_unsigned (tokens ! (length tokens - 1)) of
                          Inl e \<Rightarrow> Some (Inl e)
                        | Inr block_size \<Rightarrow>
                            Some (Inr \<lparr>ri_remote_filename = join ''/'' (slice 1 (length tokens - 3) tokens),
                                       ri_start_offset = start_offset,
                                       ri_end_offset = u64_add start_offset block_size\<rparr>))))"

definition TEMP_CACHE_FILE_SUFFIX :: string where
  "TEMP_CACHE_FILE_SUFFIX = ''.httpfs_local_cache''"

definition IsTempCacheFile :: "string \<Rightarrow> bool" where
  "IsTempCacheFile filename = ends_with filename TEMP_CACHE_FILE_SUFFIX"

definition GetTempCacheFilePath :: "string \<Rightarrow> string \<Rightarrow> string" where
  "GetTempCacheFilePath uuid cache_filepath = cache_filepath @ ''.'' @ uuid @ ''.httpfs_local_cache''"

definition GetLocalCacheFilePrefix :: "(string \<Rightarrow> byte list) \<Rightarrow> (string \<Rightarrow> string) \<Rightarrow> string \<Rightarrow> string" where
  "GetLocalCacheFilePrefix sha gfn remote_file =
     (case PopulateRemoteFileCacheKey sha gfn remote_file of (_, sha_hex, sanitized) \<Rightarrow> sha_hex @ ''-'' @ sanitized)"

text \<open>\<open>uuid\<close> and \<open>uuid'\<close> are the texts of the two random UUIDs the function may draw.\<close>

definition ResolveLocalCacheDestination ::
  "platform \<Rightarrow> (string \<Rightarrow> byte list) \<Rightarrow> (string \<Rightarrow> string) \<Rightarrow> string \<Rightarrow> string \<Rightarrow> string \<Rightarrow> string \<Rightarrow> string \<Rightarrow>
   LocalCacheDestination result" where
  "ResolveLocalCacheDestination plat sha gfn uuid uuid' cache_directory local_cache_file original_remote_path =
     (if ends_with cache_directory ''/''
      then Inl (InvalidInputException (''Cache directory '' @ cache_directory @ '' cannot ends with /''))
      else
        let limit = GetMaxFileNameLength plat;
            local_temp_filepath = GetTempCacheFilePath uuid local_cache_file;
            local_temp_filename = gfn local_temp_filepath;
            dest =
              (if length local_temp_filename \<le> max_filename_len limit \<and>
                  length local_temp_filepath \<le> max_filepath_len limit
               then \<lparr>dest_local_filepath = local_cache_file, temp_local_filepath = local_temp_filepath,
                     file_attrs = []\<rparr>
               else let hashed = cache_directory @ ''/'' @ GetSha256 sha local_cache_file
                    in \<lparr>dest_local_filepath = hashed, temp_local_filepath = GetTempCacheFilePath uuid' hashed,
                        file_attrs = AddChunkedXattrEntries (GetMaxXattrValueSize plat)
                          CACHE_FILEPATH_ATTR_PREFIX local_cache_file []\<rparr>)
        in Inr (if original_remote_path \<noteq> []
                then dest\<lparr>file_attrs := AddChunkedXattrEntries (GetMaxXattrValueSize plat)
                            REMOTE_PATH_ATTR_PREFIX original_remote_path (file_attrs dest)\<rparr>
                else dest))"

section \<open>Attributes in pieces\<close>

lemma xattr_key_inj [simp]: "xattr_key p i = xattr_key p j \<longleftrightarrow> i = j"
  by (simp add: xattr_key_def)

text \<open>A shared fact on strings cut at a mark: the part behind the last mark and the part in front of it.\<close>

lemma cut_last:
  assumes "c \<notin> set s" "c \<notin> set t"
  shows "xs @ c # s = ys @ c # t \<longleftrightarrow> xs = ys \<and> s = t"
proof
  assume eq: "xs @ c # s = ys @ c # t"
  have tw: "takeWhile (\<lambda>d. d \<noteq> c) (rev (zs @ c # u)) = rev u" if "c \<notin> set u" for zs u
  proof -
    have "takeWhile (\<lambda>d. d \<noteq> c) (rev u @ c # rev zs) = rev u @ takeWhile (\<lambda>d. d \<noteq> c) (c # rev zs)"
      by (rule takeWhile_append2) (use that in auto)
    then show ?thesis by simp
  qed
  have "rev s = rev t" using tw [OF assms(1), of xs] tw [OF assms(2), of ys] eq by simp
  with eq show "xs = ys \<and> s = t" by simp
qed simp

lemma dec3_clean: "CHR ''.'' \<notin> set (dec3 n)"
  using dec_digits [of n] by (auto simp: dec3_def)

lemma xattr_key_prefixes [simp]: "xattr_key CACHE_FILEPATH_ATTR_PREFIX i \<noteq> xattr_key REMOTE_PATH_ATTR_PREFIX j"
proof
  assume "xattr_key CACHE_FILEPATH_ATTR_PREFIX i = xattr_key REMOTE_PATH_ATTR_PREFIX j"
  then have "CACHE_FILEPATH_ATTR_PREFIX @ CHR ''.'' # dec3 i = REMOTE_PATH_ATTR_PREFIX @ CHR ''.'' # dec3 j"
    by (simp add: xattr_key_def)
  then have "CACHE_FILEPATH_ATTR_PREFIX = REMOTE_PATH_ATTR_PREFIX"
    using cut_last [OF dec3_clean dec3_clean] by blast
  then show False by (simp add: CACHE_FILEPATH_ATTR_PREFIX_def REMOTE_PATH_ATTR_PREFIX_def)
qed

lemmas xattr_key_prefixes' [simp] = xattr_key_prefixes [symmetric]

lemma fold_update_key:
  "map_of (fold (\<lambda>i. AList.update (xattr_key p i) (f i)) [0 ..< n] attrs) (xattr_key p i) =
     (if i < n then Some (f i) else map_of attrs (xattr_key p i))"
  by (induction n) auto

lemma fold_update_other:
  assumes "\<And>i. k \<noteq> xattr_key p i"
  shows "map_of (fold (\<lambda>i. AList.update (xattr_key p i) (f i)) [0 ..< n] attrs) k = map_of attrs k"
  using assms by (induction n) auto

definition xattr_piece :: "idx_t \<Rightarrow> string \<Rightarrow> idx_t \<Rightarrow> string" where
  "xattr_piece max_val value idx = slice (idx * max_val) (min max_val (length value - idx * max_val)) value"

lemma AddChunked_fold:
  "AddChunkedXattrEntries max_val p value attrs =
     fold (\<lambda>i. AList.update (xattr_key p i) (xattr_piece max_val value i)) [0 ..< xattr_chunk_count max_val value] attrs"
  by (simp add: AddChunkedXattrEntries_def xattr_piece_def Let_def)

lemma map_of_AddChunked:
  "map_of (AddChunkedXattrEntries max_val p value attrs) (xattr_key p i) =
     (if i < xattr_chunk_count max_val value then Some (xattr_piece max_val value i)
      else map_of attrs (xattr_key p i))"
  unfolding AddChunked_fold by (rule fold_update_key)

lemma map_of_AddChunked_other:
  "(\<And>i. k \<noteq> xattr_key p i) \<Longrightarrow> map_of (AddChunkedXattrEntries max_val p value attrs) k = map_of attrs k"
  unfolding AddChunked_fold by (rule fold_update_other)

lemma chunk_count_bounds:
  assumes "0 < max_val"
  shows "i < xattr_chunk_count max_val value \<longleftrightarrow> i * max_val < length value"
proof -
  let ?n = "length value"
  have "i < xattr_chunk_count max_val value \<longleftrightarrow> Suc i * max_val \<le> ?n + max_val - 1"
    unfolding xattr_chunk_count_def by (metis Suc_le_eq assms less_eq_div_iff_mult_less_eq)
  also have "\<dots> \<longleftrightarrow> i * max_val < ?n" using assms by auto
  finally show ?thesis .
qed

lemma piece_nonempty: "0 < max_val \<Longrightarrow> i * max_val < length value \<Longrightarrow> xattr_piece max_val value i \<noteq> []"
  by (simp add: xattr_piece_def slice_def)

lemma piece_append:
  "take (i * max_val) value @ xattr_piece max_val value i = take (Suc i * max_val) value"
proof -
  have "xattr_piece max_val value i = take max_val (drop (i * max_val) value)"
    by (cases "max_val \<le> length value - i * max_val") (simp_all add: xattr_piece_def slice_def min_def)
  then show ?thesis by (simp add: take_add [symmetric] add.commute)
qed

lemma read_chunks_pieces:
  assumes mx: "0 < max_val"
    and get: "\<And>i. get (xattr_key p i) = (if i * max_val < length value then xattr_piece max_val value i else [])"
  shows "read_chunks get p i (take (i * max_val) value) = Some value"
proof (induction "length value - i * max_val" arbitrary: i rule: less_induct)
  case less
  show ?case
  proof (cases "i * max_val < length value")
    case True
    have "read_chunks get p (Suc i) (take (Suc i * max_val) value) = Some value"
      using True mx by (intro less) auto
    moreover have "xattr_piece max_val value i \<noteq> []" using mx True by (rule piece_nonempty)
    ultimately show ?thesis
      using True by (subst read_chunks.simps) (simp add: Let_def get piece_append del: mult_Suc)
  next
    case False
    then show ?thesis by (subst read_chunks.simps) (simp add: Let_def get)
  qed
qed

lemma read_added_chunks:
  assumes "0 < max_val" "\<And>i. map_of attrs (xattr_key p i) = None"
  shows "ReadChunkedXattr (attr_value (AddChunkedXattrEntries max_val p value attrs)) p = Some value"
proof -
  have "attr_value (AddChunkedXattrEntries max_val p value attrs) (xattr_key p i) =
      (if i * max_val < length value then xattr_piece max_val value i else [])" for i
    using assms by (simp add: attr_value_def map_of_AddChunked chunk_count_bounds)
  from read_chunks_pieces [OF assms(1) this, where i = 0] show ?thesis by (simp add: ReadChunkedXattr_def)
qed

lemma read_missing_chunks: "get (xattr_key p 0) = [] \<Longrightarrow> ReadChunkedXattr get p = Some []"
  unfolding ReadChunkedXattr_def by (subst read_chunks.simps) simp



section \<open>What the library functions promise\<close>

text \<open>The last component of a path.\<close>

definition file_name_ok :: "(string \<Rightarrow> string) \<Rightarrow> bool" where
  "file_name_ok gfn \<longleftrightarrow>
     (\<forall>s. CHR ''/'' \<notin> set (gfn s) \<and> CHR 0x5C \<notin> set (gfn s)) \<and>
     (\<forall>d s. CHR ''/'' \<notin> set s \<and> CHR 0x5C \<notin> set s \<and> (\<exists>c \<in> set s. c \<noteq> CHR ''.'') \<longrightarrow> gfn (d @ CHR ''/'' # s) = s)"

text \<open>Splitting at dashes; empty pieces are dropped.\<close>

fun tokens :: "string \<Rightarrow> string list" where
  "tokens [] = [[]]"
| "tokens (c # s) =
     (if c = CHR ''-'' then [] # tokens s
      else case tokens s of [] \<Rightarrow> [[c]] | t # ts \<Rightarrow> (c # t) # ts)"

definition split_ok :: "(string \<Rightarrow> string list) \<Rightarrow> bool" where
  "split_ok split \<longleftrightarrow> (\<forall>s. (\<exists>c \<in> set s. c \<noteq> CHR ''-'') \<longrightarrow> split s = filter (\<lambda>t. t \<noteq> []) (tokens s))"

definition to_unsigned_ok :: "(string \<Rightarrow> idx_t result) \<Rightarrow> bool" where
  "to_unsigned_ok to_unsigned \<longleftrightarrow> (\<forall>n < U64. to_unsigned (dec n) = Inr n)"

lemma tokens_nonempty [simp]: "tokens s \<noteq> []"
  by (induction s) (auto split: list.splits)

lemma tokens_no_dash: "CHR ''-'' \<notin> set s \<Longrightarrow> tokens s = [s]"
  by (induction s) auto

lemma tokens_snoc: "CHR ''-'' \<notin> set s \<Longrightarrow> tokens (xs @ CHR ''-'' # s) = tokens xs @ [s]"
proof (induction xs)
  case (Cons c xs)
  then show ?case by (cases "tokens xs") simp_all
qed (simp add: tokens_no_dash)

lemma tokens_cons: "CHR ''-'' \<notin> set s \<Longrightarrow> tokens (s @ CHR ''-'' # xs) = s # tokens xs"
  by (induction s) auto

lemma tokens_some: "\<exists>c \<in> set s. c \<noteq> CHR ''-'' \<Longrightarrow> filter (\<lambda>t. t \<noteq> []) (tokens s) \<noteq> []"
  by (induction s) (auto split: list.splits)

section \<open>A path names one block\<close>

definition cache_filename :: "RemoteFileCachePathInfo \<Rightarrow> idx_t \<Rightarrow> idx_t \<Rightarrow> string" where
  "cache_filename pinfo off len =
     pi_remote_file_sha256_hex pinfo @ CHR ''-'' # pi_sanitized_fname pinfo @ CHR ''-'' # dec off @ CHR ''-'' # dec len"

lemma cache_filepath_eq:
  "cf_cache_filepath (GetLocalCacheFile pinfo off len) = pi_cache_directory pinfo @ CHR ''/'' # cache_filename pinfo off len"
  by (simp add: GetLocalCacheFile_def cache_filename_def)

lemma Build_ok:
  assumes "BuildRemoteFileCachePathInfo sha gfn dirs r = Inr pinfo"
  shows "pi_remote_file_sha256_hex pinfo = Sha256ToHexString (sha r)"
    and "pi_sanitized_fname pinfo = gfn (StripQueryAndFragment r)"
    and "\<not> ends_with (pi_cache_directory pinfo) ''/''" "pi_cache_directory pinfo \<in> set dirs"
proof -
  have "dirs \<noteq> []" "\<not> ends_with (pi_cache_directory pinfo) ''/''"
      "pi_remote_file_sha256_hex pinfo = Sha256ToHexString (sha r)"
      "pi_sanitized_fname pinfo = gfn (StripQueryAndFragment r)"
      "pi_cache_directory pinfo = dirs ! GetCacheDirectoryIdx (sha r) (length dirs)"
    using assms by (auto simp: BuildRemoteFileCachePathInfo_def PopulateRemoteFileCacheKey_def Let_def split: if_splits)
  then show "pi_remote_file_sha256_hex pinfo = Sha256ToHexString (sha r)"
    "pi_sanitized_fname pinfo = gfn (StripQueryAndFragment r)"
    "\<not> ends_with (pi_cache_directory pinfo) ''/''" "pi_cache_directory pinfo \<in> set dirs"
    by (auto simp: GetCacheDirectoryIdx_def intro!: nth_mem mod_less_divisor)
qed

lemma hex_clean:
  assumes "digest_ok sha"
  shows "CHR ''-'' \<notin> set (Sha256ToHexString (sha s))" "CHR ''/'' \<notin> set (Sha256ToHexString (sha s))"
    "CHR 0x5C \<notin> set (Sha256ToHexString (sha s))" "CHR ''.'' \<notin> set (Sha256ToHexString (sha s))"
    "Sha256ToHexString (sha s) \<noteq> []" "length (Sha256ToHexString (sha s)) = 64"
proof -
  have "length (sha s) = 32" "set (Sha256ToHexString (sha s)) \<subseteq> set hex_chars"
    using assms hex_chars_clean by (auto simp: digest_ok_def)
  moreover from this(1) have "length (Sha256ToHexString (sha s)) = 64" by simp
  ultimately show "CHR ''-'' \<notin> set (Sha256ToHexString (sha s))" "CHR ''/'' \<notin> set (Sha256ToHexString (sha s))"
    "CHR 0x5C \<notin> set (Sha256ToHexString (sha s))" "CHR ''.'' \<notin> set (Sha256ToHexString (sha s))"
    "Sha256ToHexString (sha s) \<noteq> []" "length (Sha256ToHexString (sha s)) = 64"
    by (auto simp: hex_chars_def simp del: length_hex)
qed

lemma sha_hex_inj: "digest_ok sha \<Longrightarrow> Sha256ToHexString (sha a) = Sha256ToHexString (sha b) \<Longrightarrow> sha a = sha b"
  using hex_inj by (auto simp: digest_ok_def)

lemma cache_filename_clean:
  assumes "digest_ok sha" "file_name_ok gfn" "BuildRemoteFileCachePathInfo sha gfn dirs r = Inr pinfo"
  shows "CHR ''/'' \<notin> set (cache_filename pinfo off len)" "CHR 0x5C \<notin> set (cache_filename pinfo off len)"
    "\<exists>c \<in> set (cache_filename pinfo off len). c \<noteq> CHR ''.''" "CHR ''-'' \<in> set (cache_filename pinfo off len)"
  using hex_clean [OF assms(1), of r] Build_ok [OF assms(3)] assms(2) dec_clean
  by (auto simp: cache_filename_def file_name_ok_def)

lemma cut_dec: "xs @ CHR ''-'' # dec m = ys @ CHR ''-'' # dec n \<longleftrightarrow> xs = ys \<and> m = n"
  using cut_last [OF dec_clean(1) dec_clean(1)] by simp

lemma cache_filename_inj:
  assumes "digest_ok sha" "BuildRemoteFileCachePathInfo sha gfn dirs r = Inr pinfo"
    and "BuildRemoteFileCachePathInfo sha gfn dirs r' = Inr pinfo'"
    and eq: "cache_filename pinfo off len = cache_filename pinfo' off' len'"
  shows "sha r = sha r' \<and> off = off' \<and> len = len'"
proof -
  let ?a = "pi_remote_file_sha256_hex pinfo @ CHR ''-'' # pi_sanitized_fname pinfo"
  let ?b = "pi_remote_file_sha256_hex pinfo' @ CHR ''-'' # pi_sanitized_fname pinfo'"
  have "(?a @ CHR ''-'' # dec off) @ CHR ''-'' # dec len = (?b @ CHR ''-'' # dec off') @ CHR ''-'' # dec len'"
    using eq by (simp add: cache_filename_def)
  then have 1: "?a = ?b" "off = off'" "len = len'" by (simp_all only: cut_dec)
  have "pi_remote_file_sha256_hex pinfo = pi_remote_file_sha256_hex pinfo'"
    using 1(1) hex_clean(6) [OF assms(1)] Build_ok(1) [OF assms(2)] Build_ok(1) [OF assms(3)] by simp
  then have "sha r = sha r'"
    using sha_hex_inj [OF assms(1)] Build_ok(1) [OF assms(2)] Build_ok(1) [OF assms(3)] by simp
  with 1 show ?thesis by simp
qed

lemma resolve_dest:
  assumes "ResolveLocalCacheDestination plat sha gfn u u' dir path rp = Inr d"
  shows "dest_local_filepath d = path \<and> TryGetOriginalCacheFilepath (attr_value (file_attrs d)) = Some [] \<or>
    dest_local_filepath d = dir @ CHR ''/'' # GetSha256 sha path \<and>
    (0 < GetMaxXattrValueSize plat \<longrightarrow> TryGetOriginalCacheFilepath (attr_value (file_attrs d)) = Some path)"
    and "0 < GetMaxXattrValueSize plat \<Longrightarrow> TryGetOriginalRemotePath (attr_value (file_attrs d)) = Some rp"
    and "\<exists>v. temp_local_filepath d = GetTempCacheFilePath v (dest_local_filepath d) \<and> v \<in> {u, u'}"
proof -
  let ?mx = "GetMaxXattrValueSize plat"
  let ?fits = "length (gfn (GetTempCacheFilePath u path)) \<le> max_filename_len (GetMaxFileNameLength plat) \<and>
    length (GetTempCacheFilePath u path) \<le> max_filepath_len (GetMaxFileNameLength plat)"
  let ?base = "if ?fits then [] else AddChunkedXattrEntries ?mx CACHE_FILEPATH_ATTR_PREFIX path []"
  have d: "dest_local_filepath d = (if ?fits then path else dir @ CHR ''/'' # GetSha256 sha path)"
      "temp_local_filepath d = GetTempCacheFilePath (if ?fits then u else u') (dest_local_filepath d)"
      "file_attrs d = (if rp = [] then ?base else AddChunkedXattrEntries ?mx REMOTE_PATH_ATTR_PREFIX rp ?base)"
    using assms by (auto simp: ResolveLocalCacheDestination_def Let_def split: if_splits)
  have other: "attr_value (AddChunkedXattrEntries ?mx REMOTE_PATH_ATTR_PREFIX rp as) (xattr_key CACHE_FILEPATH_ATTR_PREFIX i) =
      attr_value as (xattr_key CACHE_FILEPATH_ATTR_PREFIX i)" for as i
    by (simp add: attr_value_def map_of_AddChunked_other)
  have base: "attr_value (file_attrs d) (xattr_key CACHE_FILEPATH_ATTR_PREFIX i) =
      attr_value ?base (xattr_key CACHE_FILEPATH_ATTR_PREFIX i)" for i
    unfolding d(3) using other by simp
  show "dest_local_filepath d = path \<and> TryGetOriginalCacheFilepath (attr_value (file_attrs d)) = Some [] \<or>
    dest_local_filepath d = dir @ CHR ''/'' # GetSha256 sha path \<and>
    (0 < ?mx \<longrightarrow> TryGetOriginalCacheFilepath (attr_value (file_attrs d)) = Some path)"
  proof (cases ?fits)
    case True
    then have "attr_value (file_attrs d) (xattr_key CACHE_FILEPATH_ATTR_PREFIX 0) = []"
      unfolding base by (simp add: attr_value_def)
    with True d(1) show ?thesis by (simp add: TryGetOriginalCacheFilepath_def read_missing_chunks)
  next
    case False
    have "TryGetOriginalCacheFilepath (attr_value (file_attrs d)) = Some path" if mx: "0 < ?mx"
    proof -
      have "attr_value (file_attrs d) (xattr_key CACHE_FILEPATH_ATTR_PREFIX i) =
          (if i * ?mx < length path then xattr_piece ?mx path i else [])" for i
        unfolding base if_not_P [OF False] using mx
        by (simp add: attr_value_def map_of_AddChunked chunk_count_bounds)
      from read_chunks_pieces [OF mx this, where i = 0] show ?thesis
        by (simp add: TryGetOriginalCacheFilepath_def ReadChunkedXattr_def)
    qed
    moreover have "dest_local_filepath d = dir @ CHR ''/'' # GetSha256 sha path"
      unfolding d(1) by (rule if_not_P [OF False])
    ultimately show ?thesis by blast
  qed
  have none: "map_of ?base (xattr_key REMOTE_PATH_ATTR_PREFIX i) = None" for i
    by (simp add: map_of_AddChunked_other)
  show "TryGetOriginalRemotePath (attr_value (file_attrs d)) = Some rp" if mx: "0 < ?mx"
  proof (cases "rp = []")
    case True
    have "attr_value ?base (xattr_key REMOTE_PATH_ATTR_PREFIX 0) = []" unfolding attr_value_def none by simp
    with True show ?thesis unfolding d(3) by (simp add: TryGetOriginalRemotePath_def read_missing_chunks)
  next
    case False
    then show ?thesis
      unfolding d(3) TryGetOriginalRemotePath_def using read_added_chunks [OF mx none] by simp
  qed
  show "\<exists>v. temp_local_filepath d = GetTempCacheFilePath v (dest_local_filepath d) \<and> v \<in> {u, u'}"
    unfolding d(2) by auto
qed

text \<open>Two resolved destinations agree only if they are of one block or two names collide in the hash.\<close>

lemma resolved_same:
  assumes ok: "digest_ok sha" "file_name_ok gfn"
    and b: "BuildRemoteFileCachePathInfo sha gfn dirs r = Inr p" "BuildRemoteFileCachePathInfo sha gfn dirs r' = Inr p'"
    and d: "ResolveLocalCacheDestination plat sha gfn u v (pi_cache_directory p)
        (cf_cache_filepath (GetLocalCacheFile p off len)) rp = Inr d"
      "ResolveLocalCacheDestination plat sha gfn u' v' (pi_cache_directory p')
        (cf_cache_filepath (GetLocalCacheFile p' off' len')) rp' = Inr d'"
    and eq: "dest_local_filepath d = dest_local_filepath d'"
  shows "sha r = sha r' \<and> off = off' \<and> len = len' \<or>
    cf_cache_filepath (GetLocalCacheFile p off len) \<noteq> cf_cache_filepath (GetLocalCacheFile p' off' len') \<and>
    sha (cf_cache_filepath (GetLocalCacheFile p off len)) = sha (cf_cache_filepath (GetLocalCacheFile p' off' len'))"
proof -
  let ?f = "cf_cache_filepath (GetLocalCacheFile p off len)" and ?f' = "cf_cache_filepath (GetLocalCacheFile p' off' len')"
  note clean = cache_filename_clean [OF ok b(1), of off len] cache_filename_clean [OF ok b(2), of off' len']
  note hex = hex_clean [OF ok(1), of ?f] hex_clean [OF ok(1), of ?f']
  have same: "sha r = sha r' \<and> off = off' \<and> len = len'" if "?f = ?f'"
  proof -
    have "cache_filename p off len = cache_filename p' off' len'"
      using that cut_last [OF clean(1) clean(5)] by (simp add: cache_filepath_eq)
    then show ?thesis by (rule cache_filename_inj [OF ok(1) b])
  qed
  have mixed: "dir @ CHR ''/'' # h \<noteq> dir' @ CHR ''/'' # n" if "CHR ''-'' \<notin> set h" "CHR ''/'' \<notin> set h"
      "CHR ''-'' \<in> set n" "CHR ''/'' \<notin> set n" for dir h dir' n :: string
    using that cut_last [of "CHR ''/''" h n dir dir'] by auto
  consider "dest_local_filepath d = ?f" "dest_local_filepath d' = ?f'"
    | "dest_local_filepath d = pi_cache_directory p @ CHR ''/'' # GetSha256 sha ?f" "dest_local_filepath d' = ?f'"
    | "dest_local_filepath d = ?f" "dest_local_filepath d' = pi_cache_directory p' @ CHR ''/'' # GetSha256 sha ?f'"
    | "dest_local_filepath d = pi_cache_directory p @ CHR ''/'' # GetSha256 sha ?f"
      "dest_local_filepath d' = pi_cache_directory p' @ CHR ''/'' # GetSha256 sha ?f'"
    using resolve_dest(1) [OF d(1)] resolve_dest(1) [OF d(2)] by blast
  then show ?thesis
  proof cases
    case 1
    with eq same show ?thesis by simp
  next
    case 2
    with eq mixed [OF hex(1) hex(2) clean(8) clean(5), of "pi_cache_directory p" "pi_cache_directory p'"]
    show ?thesis by (simp add: cache_filepath_eq GetSha256_def)
  next
    case 3
    with eq mixed [OF hex(7) hex(8) clean(4) clean(1), of "pi_cache_directory p'" "pi_cache_directory p"]
    show ?thesis by (simp add: cache_filepath_eq GetSha256_def)
  next
    case 4
    with eq have "GetSha256 sha ?f = GetSha256 sha ?f'"
      using cut_last [OF hex(2) hex(8), of "pi_cache_directory p" "pi_cache_directory p'"] by (simp add: GetSha256_def)
    then have "sha ?f = sha ?f'" using sha_hex_inj [OF ok(1)] by (simp add: GetSha256_def)
    with same show ?thesis by blast
  qed
qed

text \<open>
  Property C22. A cache file belongs to one block of one remote file: if the resolved
  destinations of two blocks are the same path, then the two remote names have the same SHA-256
  and the blocks the same offset and size, or two different full cache paths have the same
  SHA-256. So short of a collision of the hash no cache file is ever used for a block that is
  not its own, also where names exceed the limits of the platform and are replaced by a hash.
\<close>

theorem cache_path_identifies_block:
  assumes "digest_ok sha" "file_name_ok gfn"
    and "BuildRemoteFileCachePathInfo sha gfn dirs r = Inr p" "BuildRemoteFileCachePathInfo sha gfn dirs r' = Inr p'"
    and "ResolveLocalCacheDestination plat sha gfn u v (pi_cache_directory p)
        (cf_cache_filepath (GetLocalCacheFile p off len)) rp = Inr d"
    and "ResolveLocalCacheDestination plat sha gfn u' v' (pi_cache_directory p')
        (cf_cache_filepath (GetLocalCacheFile p' off' len')) rp' = Inr d'"
    and "dest_local_filepath d = dest_local_filepath d'"
  shows "sha r = sha r' \<and> off = off' \<and> len = len' \<or>
    cf_cache_filepath (GetLocalCacheFile p off len) \<noteq> cf_cache_filepath (GetLocalCacheFile p' off' len') \<and>
    sha (cf_cache_filepath (GetLocalCacheFile p off len)) = sha (cf_cache_filepath (GetLocalCacheFile p' off' len'))"
  using assms by (rule resolved_same)

definition example_sha :: "string \<Rightarrow> byte list" where
  "example_sha s = replicate 32 (length s mod 256)"

definition last_component :: "string \<Rightarrow> string" where
  "last_component s = rev (takeWhile (\<lambda>c. c \<noteq> CHR ''/'' \<and> c \<noteq> CHR 0x5C) (rev s))"

definition example_path_info :: RemoteFileCachePathInfo where
  "example_path_info =
     \<lparr>pi_cache_directory_idx = 0, pi_cache_directory = ''/c'',
      pi_remote_file_sha256_hex = Sha256ToHexString (example_sha ''s3://b/f''), pi_sanitized_fname = ''f''\<rparr>"

lemma example_sha_ok: "digest_ok example_sha"
  by (simp add: digest_ok_def example_sha_def)

lemma last_component_ok: "file_name_ok last_component"
proof -
  have "CHR ''/'' \<notin> set (last_component s) \<and> CHR 0x5C \<notin> set (last_component s)" for s
    unfolding last_component_def by (auto dest: set_takeWhileD)
  moreover have "last_component (d @ CHR ''/'' # s) = s" if "CHR ''/'' \<notin> set s" "CHR 0x5C \<notin> set s" for d s
  proof -
    have "takeWhile (\<lambda>c. c \<noteq> CHR ''/'' \<and> c \<noteq> CHR 0x5C) (rev s @ CHR ''/'' # rev d) =
        rev s @ takeWhile (\<lambda>c. c \<noteq> CHR ''/'' \<and> c \<noteq> CHR 0x5C) (CHR ''/'' # rev d)"
      by (rule takeWhile_append2) (use that in auto)
    then show ?thesis by (simp add: last_component_def)
  qed
  ultimately show ?thesis by (simp add: file_name_ok_def)
qed

lemma example_build:
  "BuildRemoteFileCachePathInfo example_sha last_component [''/c''] ''s3://b/f'' = Inr example_path_info"
  by (simp add: BuildRemoteFileCachePathInfo_def PopulateRemoteFileCacheKey_def GetCacheDirectoryIdx_def
    ends_with_def example_path_info_def last_component_def strip_takeWhile Let_def)

lemma example_resolve:
  "\<exists>d. ResolveLocalCacheDestination plat sha gfn u v (pi_cache_directory example_path_info) f rp = Inr d"
  by (simp add: ResolveLocalCacheDestination_def example_path_info_def ends_with_def Let_def)

lemma cache_path_identifies_block_witness:
  "\<exists>d. ResolveLocalCacheDestination Linux example_sha last_component ''1'' ''2'' ''/c''
      (cf_cache_filepath (GetLocalCacheFile example_path_info 0 4)) ''s3://b/f'' = Inr d \<and>
    (example_sha ''s3://b/f'' = example_sha ''s3://b/f'' \<and> (0::nat) = 0 \<and> (4::nat) = 4 \<or>
      cf_cache_filepath (GetLocalCacheFile example_path_info 0 4) \<noteq> cf_cache_filepath (GetLocalCacheFile example_path_info 0 4) \<and>
      example_sha (cf_cache_filepath (GetLocalCacheFile example_path_info 0 4)) =
        example_sha (cf_cache_filepath (GetLocalCacheFile example_path_info 0 4)))"
proof -
  obtain d where d: "ResolveLocalCacheDestination Linux example_sha last_component ''1'' ''2''
      (pi_cache_directory example_path_info) (cf_cache_filepath (GetLocalCacheFile example_path_info 0 4)) ''s3://b/f'' = Inr d"
    using example_resolve by blast
  from cache_path_identifies_block [OF example_sha_ok last_component_ok example_build example_build d d refl] d
  show ?thesis by (simp add: example_path_info_def)
qed

section \<open>Reading a cache file name back\<close>

lemma filename_tokens:
  assumes ok: "digest_ok sha" "split_ok split" and b: "BuildRemoteFileCachePathInfo sha gfn dirs r = Inr p"
    and nm: "\<exists>c \<in> set (pi_sanitized_fname p). c \<noteq> CHR ''-''"
  shows "split (cache_filename p off len) = pi_remote_file_sha256_hex p #
    filter (\<lambda>t. t \<noteq> []) (tokens (pi_sanitized_fname p)) @ [dec off, dec len]"
proof -
  have hex: "CHR ''-'' \<notin> set (pi_remote_file_sha256_hex p)" "pi_remote_file_sha256_hex p \<noteq> []"
    using hex_clean [OF ok(1), of r] Build_ok(1) [OF b] by simp_all
  have "tokens (cache_filename p off len) =
      tokens (pi_remote_file_sha256_hex p @ CHR ''-'' # pi_sanitized_fname p) @ [dec off] @ [dec len]"
    using tokens_snoc [OF dec_clean(1) [of len],
        of "pi_remote_file_sha256_hex p @ CHR ''-'' # pi_sanitized_fname p @ CHR ''-'' # dec off"]
      tokens_snoc [OF dec_clean(1) [of off], of "pi_remote_file_sha256_hex p @ CHR ''-'' # pi_sanitized_fname p"]
    by (simp add: cache_filename_def)
  moreover have "\<exists>c \<in> set (cache_filename p off len). c \<noteq> CHR ''-''" using nm by (auto simp: cache_filename_def)
  ultimately show ?thesis using ok(2) hex by (simp add: split_ok_def tokens_cons)
qed


definition undec_result :: "string \<Rightarrow> idx_t result" where
  "undec_result s = Inr (undec s)"


end
