(* ===== verification/Object_Cache_Storage.thy ===== *)
theory Object_Cache_Storage
  imports Data_Cache_Storage Disk_Cache_Path
begin

text \<open>
  \<open>ObjectCacheStorage\<close> (\<open>src/object_cache_data_cache_storage.cpp\<close>): the storage that keeps its blocks in
  DuckDB's object cache and only their metadata itself. The object cache evicts blocks on its own
  account; the destructor of a block then removes its metadata.

  The object cache is not part of the repository. It is a parameter, a record of the calls the storage
  makes, where a call also yields the blocks it let go of. \<open>view\<close> shows the storage's own blocks in it;
  what other users of the object cache do is, for this storage, the loss of some of its blocks. A pin
  keeps a block alive beyond that: an operation here starts when the pins of earlier look-ups have been
  dropped, so a block the cache lets go of is destroyed at once.
\<close>

section \<open>Blocks and metadata\<close>

record data_block =
  bk_key :: InMemCacheBlock
  bk_data :: page_chunk
  bk_id :: nat

record EntryMeta =
  md_obj_cache_key :: string
  md_length :: idx_t
  md_version_tag :: string
  md_insertion_time_ms :: nat
  md_block_id :: nat

record 'o object_cache =
  oc_Put :: "string \<Rightarrow> data_block \<Rightarrow> 'o \<Rightarrow> data_block list \<times> 'o"
  oc_Get :: "string \<Rightarrow> 'o \<Rightarrow> data_block option \<times> 'o"
  oc_Delete :: "string \<Rightarrow> 'o \<Rightarrow> data_block list \<times> 'o"

record 'o object_storage =
  os_timeout_millisec :: nat
  os_next_block_id :: nat
  os_entries :: "(InMemCacheBlock \<times> EntryMeta) list"
  os_cache :: 'o

definition MakeObjCacheKey :: "InMemCacheBlock \<Rightarrow> string" where
  "MakeObjCacheKey key =
     ''cache_httpfs/data/'' @ fname key @ '':'' @ dec (start_off key) @ '':'' @ dec (blk_size key)"

definition object_storage_new :: "nat \<Rightarrow> 'o \<Rightarrow> 'o object_storage" where
  "object_storage_new timeout_millisec_p cache =
     \<lparr>os_timeout_millisec = timeout_millisec_p, os_next_block_id = 0, os_entries = [], os_cache = cache\<rparr>"

section \<open>Operations\<close>

definition OnEntryDestroyed :: "InMemCacheBlock \<Rightarrow> nat \<Rightarrow> 'o object_storage \<Rightarrow> 'o object_storage" where
  "OnEntryDestroyed key block_id s =
     (case map_of (os_entries s) key of
        None \<Rightarrow> s
      | Some meta \<Rightarrow>
          if md_block_id meta \<noteq> block_id then s
          else s\<lparr>os_entries := AList.delete key (os_entries s)\<rparr>)"

text \<open>The destructors of the blocks a call let go of, and the call after which they run.\<close>

definition destroy_blocks :: "data_block list \<Rightarrow> 'o object_storage \<Rightarrow> 'o object_storage" where
  "destroy_blocks blocks s = fold (\<lambda>b. OnEntryDestroyed (bk_key b) (bk_id b)) blocks s"

definition cache_delete :: "'o object_cache \<Rightarrow> string \<Rightarrow> 'o object_storage \<Rightarrow> 'o object_storage" where
  "cache_delete oc obj_cache_key s =
     (case oc_Delete oc obj_cache_key (os_cache s) of (gone, o') \<Rightarrow> destroy_blocks gone (s\<lparr>os_cache := o'\<rparr>))"

text \<open>
  \<open>Put\<close> in its two parts: the block goes into the object cache without the storage's mutex, then the
  metadata is recorded under it. \<open>now\<close> is the steady clock in milliseconds.
\<close>

definition put_block ::
  "'o object_cache \<Rightarrow> InMemCacheBlock \<Rightarrow> page_chunk \<Rightarrow> string \<Rightarrow> nat \<Rightarrow> 'o object_storage \<Rightarrow>
   (EntryMeta \<times> 'o object_storage) result" where
  "put_block oc key chunk version_tag now s =
     (if pc_length chunk = 0 then Inl (AssertionFailure ''chunk.length > 0'')
      else
        let obj_cache_key = MakeObjCacheKey key;
            block_id = os_next_block_id s;
            block = \<lparr>bk_key = key, bk_data = chunk, bk_id = block_id\<rparr>;
            meta = \<lparr>md_obj_cache_key = obj_cache_key, md_length = pc_length chunk, md_version_tag = version_tag,
                    md_insertion_time_ms = now, md_block_id = block_id\<rparr>
        in case oc_Put oc obj_cache_key block (os_cache s) of (gone, o') \<Rightarrow>
             Inr (meta, destroy_blocks gone (s\<lparr>os_next_block_id := u64_add block_id 1, os_cache := o'\<rparr>)))"

definition put_meta :: "InMemCacheBlock \<Rightarrow> EntryMeta \<Rightarrow> 'o object_storage \<Rightarrow> 'o object_storage" where
  "put_meta key meta s = s\<lparr>os_entries := om_insert key meta (os_entries s)\<rparr>"

definition object_Put ::
  "'o object_cache \<Rightarrow> InMemCacheBlock \<Rightarrow> page_chunk \<Rightarrow> string \<Rightarrow> nat \<Rightarrow> 'o object_storage \<Rightarrow> 'o object_storage result" where
  "object_Put oc key chunk version_tag now s =
     (case put_block oc key chunk version_tag now s of
        Inl e \<Rightarrow> Inl e
      | Inr (meta, s1) \<Rightarrow> Inr (put_meta key meta s1))"

definition object_Get ::
  "'o object_cache \<Rightarrow> InMemCacheBlock \<Rightarrow> string \<Rightarrow> nat \<Rightarrow> 'o object_storage \<Rightarrow> page_chunk option \<times> 'o object_storage" where
  "object_Get oc key expected_version_tag now s =
     (case map_of (os_entries s) key of
        None \<Rightarrow> (None, s)
      | Some meta \<Rightarrow>
          let stale = (\<not> ValidateVersionTag (md_version_tag meta) expected_version_tag \<or>
                       0 < os_timeout_millisec s \<and>
                       os_timeout_millisec s < u64_sub now (md_insertion_time_ms meta))
          in if stale then (None, cache_delete oc (md_obj_cache_key meta) s)
             else case oc_Get oc (md_obj_cache_key meta) (os_cache s) of (block, o') \<Rightarrow>
                    (map_option bk_data block, s\<lparr>os_cache := o'\<rparr>))"

definition object_Delete :: "'o object_cache \<Rightarrow> InMemCacheBlock \<Rightarrow> 'o object_storage \<Rightarrow> bool \<times> 'o object_storage" where
  "object_Delete oc key s =
     (case map_of (os_entries s) key of
        None \<Rightarrow> (False, s)
      | Some meta \<Rightarrow> (True, cache_delete oc (md_obj_cache_key meta) s))"

definition object_Clear :: "'o object_cache \<Rightarrow> 'o object_storage \<Rightarrow> 'o object_storage" where
  "object_Clear oc s = fold (cache_delete oc) (map (md_obj_cache_key \<circ> snd) (os_entries s)) s"

definition object_Clear_from ::
  "'o object_cache \<Rightarrow> InMemCacheBlock \<Rightarrow> (InMemCacheBlock \<Rightarrow> bool) \<Rightarrow> 'o object_storage \<Rightarrow> 'o object_storage" where
  "object_Clear_from oc start_key flt s =
     fold (cache_delete oc)
       (map (md_obj_cache_key \<circ> snd) (takeWhile (\<lambda>kv. flt (fst kv)) (om_lower_bound start_key (os_entries s)))) s"

definition object_Keys :: "'o object_storage \<Rightarrow> InMemCacheBlock list" where
  "object_Keys s = map fst (os_entries s)"

fun take_snapshot ::
  "'o object_cache \<Rightarrow> (InMemCacheBlock \<times> EntryMeta) list \<Rightarrow> 'o object_storage \<Rightarrow>
   (InMemCacheBlock \<times> InMemCacheDataEntry) list \<times> 'o object_storage" where
  "take_snapshot oc [] s = ([], s)"
| "take_snapshot oc ((key, meta) # snaps) s =
     (case oc_Get oc (md_obj_cache_key meta) (os_cache s) of
        (None, o') \<Rightarrow> take_snapshot oc snaps (s\<lparr>os_cache := o'\<rparr>)
      | (Some block, o') \<Rightarrow>
          (case take_snapshot oc snaps (cache_delete oc (md_obj_cache_key meta) (s\<lparr>os_cache := o'\<rparr>)) of
             (es, s') \<Rightarrow> ((key, \<lparr>de_data = bk_data block, de_version_tag = md_version_tag meta\<rparr>) # es, s')))"

definition object_Take ::
  "'o object_cache \<Rightarrow> 'o object_storage \<Rightarrow> (InMemCacheBlock \<times> InMemCacheDataEntry) list \<times> 'o object_storage" where
  "object_Take oc s = take_snapshot oc (os_entries s) s"

section \<open>What the object cache promises\<close>

text \<open>
  A call keeps what it does not let go of, and says what it lets go of: a \<open>Put\<close> replaces what was under
  its key and may evict anything; a \<open>Delete\<close> removes its key only; a \<open>Get\<close> removes nothing.
\<close>

definition object_cache_ok :: "'o object_cache \<Rightarrow> ('o \<Rightarrow> string \<rightharpoonup> data_block) \<Rightarrow> bool" where
  "object_cache_ok oc view \<longleftrightarrow>
     (\<forall>key b c gone c'. oc_Put oc key b c = (gone, c') \<longrightarrow>
        view c' \<subseteq>\<^sub>m (view c)(key \<mapsto> b) \<and> set gone = (ran (view c) \<union> {b}) - ran (view c')) \<and>
     (\<forall>key c r c'. oc_Get oc key c = (r, c') \<longrightarrow> r = view c key \<and> view c' = view c) \<and>
     (\<forall>key c gone c'. oc_Delete oc key c = (gone, c') \<longrightarrow>
        view c' = (view c)(key := None) \<and> set gone = ran (view c) - ran (view c'))"

text \<open>A \<open>Put\<close> makes room for the new block.\<close>

definition keeps_new :: "'o object_cache \<Rightarrow> ('o \<Rightarrow> string \<rightharpoonup> data_block) \<Rightarrow> bool" where
  "keeps_new oc view \<longleftrightarrow> (\<forall>key b c. view (snd (oc_Put oc key b c)) key = Some b)"

section \<open>Metadata and blocks agree\<close>

lemma MakeObjCacheKey_inj [simp]: "MakeObjCacheKey a = MakeObjCacheKey b \<longleftrightarrow> a = b"
proof
  have clean: "CHR '':'' \<notin> set (dec n)" for n using dec_digits [of n] by auto
  assume "MakeObjCacheKey a = MakeObjCacheKey b"
  then have "(fname a @ CHR '':'' # dec (start_off a)) @ CHR '':'' # dec (blk_size a) =
      (fname b @ CHR '':'' # dec (start_off b)) @ CHR '':'' # dec (blk_size b)"
    by (simp add: MakeObjCacheKey_def)
  then have "fname a @ CHR '':'' # dec (start_off a) = fname b @ CHR '':'' # dec (start_off b)" "blk_size a = blk_size b"
    by (simp_all only: cut_last [OF clean clean] dec_inj)
  then show "a = b" by (cases a; cases b) (simp add: cut_last [OF clean clean])
qed simp

definition block_keys :: "(string \<rightharpoonup> data_block) \<Rightarrow> bool" where
  "block_keys v \<longleftrightarrow> (\<forall>key b. v key = Some b \<longrightarrow> key = MakeObjCacheKey (bk_key b))"

definition meta_live :: "(string \<rightharpoonup> data_block) \<Rightarrow> InMemCacheBlock \<Rightarrow> EntryMeta \<Rightarrow> bool" where
  "meta_live v k m \<longleftrightarrow> md_obj_cache_key m = MakeObjCacheKey k \<and>
     (\<exists>b. v (MakeObjCacheKey k) = Some b \<and> bk_id b = md_block_id m \<and> pc_length (bk_data b) = md_length m)"

definition object_inv :: "('o \<Rightarrow> string \<rightharpoonup> data_block) \<Rightarrow> 'o object_storage \<Rightarrow> bool" where
  "object_inv view s \<longleftrightarrow>
     om_sorted (os_entries s) \<and> block_keys (view (os_cache s)) \<and>
     (\<forall>k m. map_of (os_entries s) k = Some m \<longrightarrow> meta_live (view (os_cache s)) k m)"

definition object_entries :: "('o \<Rightarrow> string \<rightharpoonup> data_block) \<Rightarrow> 'o object_storage \<Rightarrow> block_entries" where
  "object_entries view s = (\<lambda>k.
     case map_of (os_entries s) k of
       None \<Rightarrow> None
     | Some m \<Rightarrow> map_option (\<lambda>b. \<lparr>de_data = bk_data b, de_version_tag = md_version_tag m\<rparr>)
                   (view (os_cache s) (md_obj_cache_key m)))"

lemma destroy_blocks_other [simp]:
  "os_cache (destroy_blocks bs s) = os_cache s"
  "os_timeout_millisec (destroy_blocks bs s) = os_timeout_millisec s"
  "os_next_block_id (destroy_blocks bs s) = os_next_block_id s"
  unfolding destroy_blocks_def
  by (induction bs arbitrary: s) (auto simp: OnEntryDestroyed_def split: option.splits)

lemma OnEntryDestroyed_entries:
  assumes "distinct (map fst (os_entries s))"
  shows "os_entries (OnEntryDestroyed key n s) =
    filter (\<lambda>(k, m). key \<noteq> k \<or> n \<noteq> md_block_id m) (os_entries s)"
proof (cases "map_of (os_entries s) key")
  case None
  then have "\<forall>(k, m) \<in> set (os_entries s). key \<noteq> k" by (auto simp: map_of_eq_None_iff rev_image_eqI)
  then have "filter (\<lambda>(k, m). key \<noteq> k \<or> n \<noteq> md_block_id m) (os_entries s) = os_entries s"
    by (auto simp: filter_id_conv)
  with None show ?thesis by (simp add: OnEntryDestroyed_def)
next
  case (Some m)
  with assms have "m' = m" if "(key, m') \<in> set (os_entries s)" for m' using that by auto
  then have "filter (\<lambda>(k, m). key \<noteq> k \<or> n \<noteq> md_block_id m) (os_entries s) =
      filter (\<lambda>(k, _). key \<noteq> k \<or> n \<noteq> md_block_id m) (os_entries s)"
    by (intro filter_cong) auto
  with Some show ?thesis by (cases "md_block_id m = n") (auto simp: OnEntryDestroyed_def AList.delete_eq)
qed

lemma destroy_entries:
  assumes "distinct (map fst (os_entries s))"
  shows "os_entries (destroy_blocks bs s) =
    filter (\<lambda>(k, m). \<forall>b \<in> set bs. bk_key b \<noteq> k \<or> bk_id b \<noteq> md_block_id m) (os_entries s)"
  using assms
proof (induction bs arbitrary: s)
  case Nil
  then show ?case by (simp add: destroy_blocks_def)
next
  case (Cons b bs)
  let ?s = "OnEntryDestroyed (bk_key b) (bk_id b) s"
  have "distinct (map fst (os_entries ?s))"
    using Cons.prems by (simp add: OnEntryDestroyed_entries distinct_map_filter)
  from Cons.IH [OF this] Cons.prems show ?case
    by (simp add: destroy_blocks_def OnEntryDestroyed_entries filter_filter)
       (auto intro!: filter_cong)
qed

lemma destroy_sorted: "om_sorted (os_entries s) \<Longrightarrow> om_sorted (os_entries (destroy_blocks bs s))"
  by (simp add: destroy_entries om_sorted_distinct sorted_wrt_map sorted_wrt_filter)

text \<open>The metadata that survives is that of the blocks that survive.\<close>

lemma destroyed_metadata:
  assumes "om_sorted (os_entries s)" "block_keys v" "block_keys v'" "set gone = ran v - ran v'"
    and live: "\<forall>k m. map_of (os_entries s) k = Some m \<longrightarrow> meta_live v k m"
  shows "os_entries (destroy_blocks gone s) =
    filter (\<lambda>(k, m). v' (MakeObjCacheKey k) = v (MakeObjCacheKey k)) (os_entries s)"
proof -
  have dist: "distinct (map fst (os_entries s))" using assms(1) by (rule om_sorted_distinct)
  have "(\<forall>b \<in> set gone. bk_key b \<noteq> k \<or> bk_id b \<noteq> md_block_id m) \<longleftrightarrow>
      v' (MakeObjCacheKey k) = v (MakeObjCacheKey k)" if "(k, m) \<in> set (os_entries s)" for k m
  proof -
    from that dist live obtain b where b: "v (MakeObjCacheKey k) = Some b" "bk_id b = md_block_id m"
      by (auto simp: meta_live_def)
    then have key: "bk_key b = k" using assms(2) unfolding block_keys_def by (metis MakeObjCacheKey_inj)
    have "x = b" if "x \<in> set gone" "bk_key x = k" for x
      using that assms(2,4) b(1) by (auto simp: ran_def block_keys_def)
    then have "(\<forall>x \<in> set gone. bk_key x \<noteq> k \<or> bk_id x \<noteq> md_block_id m) \<longleftrightarrow> b \<notin> set gone"
      using b(2) key by auto
    also have "\<dots> \<longleftrightarrow> b \<in> ran v'" using assms(4) b(1) by (auto simp: ran_def)
    also have "\<dots> \<longleftrightarrow> v' (MakeObjCacheKey k) = Some b"
      using assms(3) key by (auto simp: ran_def block_keys_def)
    finally show ?thesis using b(1) by simp
  qed
  then show ?thesis using dist by (auto simp: destroy_entries intro!: filter_cong)
qed

text \<open>When the cache loses blocks, the storage forgets exactly those.\<close>

lemma block_keys_mono: "block_keys v \<Longrightarrow> v' \<subseteq>\<^sub>m v \<Longrightarrow> block_keys v'"
  by (auto simp: block_keys_def map_le_def dom_def)

lemma map_of_kept:
  "map_of (filter (\<lambda>(k, m). P k) xs) = (\<lambda>k. if P k then map_of xs k else None)"
  by (induction xs) (auto simp: fun_eq_iff)

lemma lose_blocks:
  assumes "object_inv view s" "view c' \<subseteq>\<^sub>m view (os_cache s)" "set gone = ran (view (os_cache s)) - ran (view c')"
  defines "s' \<equiv> destroy_blocks gone (s\<lparr>os_cache := c'\<rparr>)"
  shows "object_inv view s'"
    and "object_entries view s' =
      (\<lambda>k. if view c' (MakeObjCacheKey k) = view (os_cache s) (MakeObjCacheKey k) then object_entries view s k else None)"
proof -
  let ?v = "view (os_cache s)"
  have bk: "block_keys (view c')" using assms(1,2) by (auto simp: object_inv_def intro: block_keys_mono)
  have "os_entries s' = filter (\<lambda>(k, m). view c' (MakeObjCacheKey k) = ?v (MakeObjCacheKey k)) (os_entries s)"
    using destroyed_metadata [of "s\<lparr>os_cache := c'\<rparr>" ?v "view c'" gone] assms bk by (simp add: object_inv_def)
  moreover have dist: "distinct (map fst (os_entries s))" using assms(1) by (simp add: object_inv_def om_sorted_distinct)
  ultimately have es: "map_of (os_entries s') =
      (\<lambda>k. if view c' (MakeObjCacheKey k) = ?v (MakeObjCacheKey k) then map_of (os_entries s) k else None)"
    and sorted: "om_sorted (os_entries s')"
    using assms(1) by (simp_all add: map_of_kept object_inv_def sorted_wrt_map sorted_wrt_filter)
  have c: "os_cache s' = c'" by (simp add: s'_def)
  show "object_inv view s'"
    using assms(1) sorted bk by (auto simp: object_inv_def es c meta_live_def)
  show "object_entries view s' =
      (\<lambda>k. if view c' (MakeObjCacheKey k) = ?v (MakeObjCacheKey k) then object_entries view s k else None)"
    using assms(1) by (auto simp: object_entries_def es c fun_eq_iff object_inv_def meta_live_def split: option.splits)
qed

section \<open>The operations keep them in agreement\<close>

lemma object_entries_dom:
  "object_inv view s \<Longrightarrow> object_entries view s k = None \<longleftrightarrow> map_of (os_entries s) k = None"
  by (auto simp: object_entries_def object_inv_def meta_live_def split: option.splits)

lemma cache_delete_law:
  assumes "object_cache_ok oc view" "object_inv view s"
  shows "object_inv view (cache_delete oc key s)"
    and "view (os_cache (cache_delete oc key s)) = (view (os_cache s))(key := None)"
    and "object_entries view (cache_delete oc key s) =
      (\<lambda>k. if MakeObjCacheKey k = key then None else object_entries view s k)"
proof -
  obtain gone c' where del: "oc_Delete oc key (os_cache s) = (gone, c')" by fastforce
  with assms(1) have v': "view c' = (view (os_cache s))(key := None)"
    and gone: "set gone = ran (view (os_cache s)) - ran (view c')"
    unfolding object_cache_ok_def by blast+
  have "view c' \<subseteq>\<^sub>m view (os_cache s)" by (simp add: v' map_le_def)
  note lose = lose_blocks [OF assms(2) this gone]
  from lose(1) show "object_inv view (cache_delete oc key s)" by (simp add: cache_delete_def del)
  show "view (os_cache (cache_delete oc key s)) = (view (os_cache s))(key := None)"
    by (simp add: cache_delete_def del v')
  have "object_entries view s k = None" if "view (os_cache s) (MakeObjCacheKey k) = None" for k
    using that assms(2)
    by (fastforce simp: object_entries_def object_inv_def meta_live_def split: option.split)
  then show "object_entries view (cache_delete oc key s) =
      (\<lambda>k. if MakeObjCacheKey k = key then None else object_entries view s k)"
    using lose(2) by (auto simp: cache_delete_def del v' fun_eq_iff)
qed

lemma delete_all_law:
  assumes "object_cache_ok oc view" "object_inv view s"
  shows "object_inv view (fold (cache_delete oc) keys s) \<and>
    object_entries view (fold (cache_delete oc) keys s) =
      (\<lambda>k. if MakeObjCacheKey k \<in> set keys then None else object_entries view s k)"
  using assms(2)
  by (induction keys arbitrary: s) (auto simp: fun_eq_iff cache_delete_law [OF assms(1)])

lemma object_Put_law:
  assumes "object_cache_ok oc view" "keeps_new oc view" "object_inv view s"
    and "object_Put oc k c tag now s = Inr s'"
  shows "object_inv view s'"
    and "object_entries view s' k = Some \<lparr>de_data = c, de_version_tag = tag\<rparr>"
    and "j \<noteq> k \<Longrightarrow> object_entries view s' j = object_entries view s j \<or> object_entries view s' j = None"
proof -
  let ?v = "view (os_cache s)"
  define b where "b = \<lparr>bk_key = k, bk_data = c, bk_id = os_next_block_id s\<rparr>"
  define meta where "meta = \<lparr>md_obj_cache_key = MakeObjCacheKey k, md_length = pc_length c, md_version_tag = tag,
    md_insertion_time_ms = now, md_block_id = os_next_block_id s\<rparr>"
  obtain gone c' where put: "oc_Put oc (MakeObjCacheKey k) b (os_cache s) = (gone, c')" by fastforce
  let ?s1 = "s\<lparr>os_next_block_id := u64_add (os_next_block_id s) 1, os_cache := c'\<rparr>"
  have s': "s' = put_meta k meta (destroy_blocks gone ?s1)"
    using assms(4) put by (simp add: object_Put_def put_block_def Let_def b_def meta_def split: if_splits)
  have sub: "view c' \<subseteq>\<^sub>m ?v(MakeObjCacheKey k \<mapsto> b)" and gone: "set gone = (ran ?v \<union> {b}) - ran (view c')"
    using assms(1) put unfolding object_cache_ok_def by blast+
  have kept: "view c' (MakeObjCacheKey k) = Some b"
    using assms(2) put unfolding keeps_new_def by (metis snd_conv)
  then have "b \<in> ran (view c')" by (auto simp: ran_def)
  then have gone: "set gone = ran ?v - ran (view c')" using gone by auto
  have "block_keys (?v(MakeObjCacheKey k \<mapsto> b))" using assms(3) by (auto simp: object_inv_def block_keys_def b_def)
  then have bk: "block_keys (view c')" using sub by (rule block_keys_mono)
  have "os_entries (destroy_blocks gone ?s1) =
      filter (\<lambda>(k, m). view c' (MakeObjCacheKey k) = ?v (MakeObjCacheKey k)) (os_entries s)"
    using destroyed_metadata [of ?s1 ?v "view c'" gone] assms(3) bk gone by (simp add: object_inv_def)
  moreover have "distinct (map fst (os_entries s))" using assms(3) by (simp add: object_inv_def om_sorted_distinct)
  ultimately have es: "map_of (os_entries s') =
      (\<lambda>j. if view c' (MakeObjCacheKey j) = ?v (MakeObjCacheKey j) then map_of (os_entries s) j else None)(k \<mapsto> meta)"
    and sorted: "om_sorted (os_entries s')"
    using assms(3)
    by (auto simp: s' put_meta_def map_of_kept object_inv_def sorted_wrt_map sorted_wrt_filter
        intro!: om_sorted_insert [unfolded sorted_wrt_map])
  have cc: "os_cache s' = c'" by (simp add: s' put_meta_def)
  show "object_inv view s'"
    using assms(3) sorted bk kept by (auto simp: object_inv_def es cc meta_live_def meta_def b_def)
  show "object_entries view s' k = Some \<lparr>de_data = c, de_version_tag = tag\<rparr>"
    using kept by (simp add: object_entries_def es cc meta_def b_def)
  show "object_entries view s' j = object_entries view s j \<or> object_entries view s' j = None" if "j \<noteq> k"
    using that assms(3)
    by (auto simp: object_entries_def es cc object_inv_def meta_live_def split: option.splits)
qed

lemma object_Get_law:
  assumes "object_cache_ok oc view" "object_inv view s" "object_Get oc k tag now s = (r, s')"
  shows "object_inv view s'" and "object_entries view s' \<subseteq>\<^sub>m object_entries view s"
    and "r = Some c \<Longrightarrow> \<exists>e. object_entries view s k = Some e \<and> de_data e = c \<and> ValidateVersionTag (de_version_tag e) tag"
proof -
  have get: "fst (oc_Get oc key d) = view d key" "view (snd (oc_Get oc key d)) = view d" for key d
    using assms(1) unfolding object_cache_ok_def by (metis prod.collapse)+
  have upd: "object_inv view (s\<lparr>os_cache := d\<rparr>)" "object_entries view (s\<lparr>os_cache := d\<rparr>) = object_entries view s"
    if "view d = view (os_cache s)" for d
    using assms(2) that by (simp add: object_inv_def, intro ext, simp add: object_entries_def split: option.split)
  consider (missing) "r = None" "s' = s"
    | (stale) m :: EntryMeta where "r = None" "s' = cache_delete oc (md_obj_cache_key m) s"
    | (hit) m where "map_of (os_entries s) k = Some m" "ValidateVersionTag (md_version_tag m) tag"
        "r = map_option bk_data (view (os_cache s) (md_obj_cache_key m))"
        "s' = s\<lparr>os_cache := snd (oc_Get oc (md_obj_cache_key m) (os_cache s))\<rparr>"
  proof (cases "map_of (os_entries s) k")
    case None
    with assms(3) show ?thesis by (intro missing) (simp_all add: object_Get_def)
  next
    case (Some m)
    let ?old = "0 < os_timeout_millisec s \<and> os_timeout_millisec s < u64_sub now (md_insertion_time_ms m)"
    show ?thesis
    proof (cases "\<not> ValidateVersionTag (md_version_tag m) tag \<or> ?old")
      case True
      with Some assms(3) show ?thesis by (intro stale [of m]) (auto simp: object_Get_def Let_def)
    next
      case False
      with Some assms(3) get(1) show ?thesis
        by (intro hit [of m]) (auto simp: object_Get_def Let_def case_prod_beta split: if_splits)
    qed
  qed
  note outcome = this
  show "object_inv view s'"
    using outcome by cases (use assms(2) cache_delete_law(1) [OF assms(1,2)] upd(1) get(2) in auto)
  show "object_entries view s' \<subseteq>\<^sub>m object_entries view s"
    using outcome by cases (use cache_delete_law(3) [OF assms(1,2)] upd(2) get(2) in \<open>auto simp: map_le_def\<close>)
  show "\<exists>e. object_entries view s k = Some e \<and> de_data e = c \<and> ValidateVersionTag (de_version_tag e) tag" if "r = Some c"
    using outcome by cases (use that in \<open>auto simp: object_entries_def dest!: sym [of "Some c"]\<close>)
qed

lemma object_inv_live:
  assumes "object_inv view s" "map_of (os_entries s) k = Some m"
  obtains b where "view (os_cache s) (MakeObjCacheKey k) = Some b" "md_obj_cache_key m = MakeObjCacheKey k"
  using assms by (auto simp: object_inv_def meta_live_def)

lemma cache_delete_entries:
  assumes "object_cache_ok oc view" "object_inv view s"
  shows "os_entries (cache_delete oc key s) = filter (\<lambda>(k, m). MakeObjCacheKey k \<noteq> key) (os_entries s)"
proof -
  let ?v = "view (os_cache s)"
  obtain gone c' where del: "oc_Delete oc key (os_cache s) = (gone, c')" by fastforce
  with assms(1) have v': "view c' = ?v(key := None)" and gone: "set gone = ran ?v - ran (view c')"
    unfolding object_cache_ok_def by blast+
  have "view c' \<subseteq>\<^sub>m ?v" by (simp add: v' map_le_def)
  then have "block_keys (view c')" using assms(2) by (auto simp: object_inv_def intro: block_keys_mono)
  then have "os_entries (cache_delete oc key s) =
      filter (\<lambda>(k, m). view c' (MakeObjCacheKey k) = ?v (MakeObjCacheKey k)) (os_entries s)"
    using destroyed_metadata [of "s\<lparr>os_cache := c'\<rparr>" ?v "view c'" gone] assms(2) gone
    by (simp add: object_inv_def cache_delete_def del)
  also have "\<dots> = filter (\<lambda>(k, m). MakeObjCacheKey k \<noteq> key) (os_entries s)"
  proof (rule filter_cong [OF refl], clarify)
    fix k m
    assume "(k, m) \<in> set (os_entries s)"
    with assms(2) have "map_of (os_entries s) k = Some m" by (simp add: object_inv_def om_sorted_distinct)
    with assms(2) have "?v (MakeObjCacheKey k) \<noteq> None" by (auto elim: object_inv_live)
    then show "view c' (MakeObjCacheKey k) = ?v (MakeObjCacheKey k) \<longleftrightarrow> MakeObjCacheKey k \<noteq> key" by (auto simp: v')
  qed
  finally show ?thesis .
qed

lemma take_snapshot_law:
  assumes "object_cache_ok oc view" "object_inv view s" "distinct (map fst snaps)"
    and "\<forall>(k, m) \<in> set snaps. map_of (os_entries s) k = Some m"
    and "take_snapshot oc snaps s = (es, s')"
  shows "object_inv view s' \<and> map fst es = map fst snaps \<and>
    (\<forall>(k, e) \<in> set es. object_entries view s k = Some e) \<and>
    os_entries s' = filter (\<lambda>(k, m). k \<notin> fst ` set snaps) (os_entries s)"
  using assms(2-5)
proof (induction snaps arbitrary: s es)
  case Nil
  then show ?case by simp
next
  case (Cons km snaps)
  obtain k m where km: "km = (k, m)" by fastforce
  have m: "map_of (os_entries s) k = Some m" using Cons.prems(3) km by auto
  then obtain b where b: "md_obj_cache_key m = MakeObjCacheKey k" "view (os_cache s) (MakeObjCacheKey k) = Some b"
    using Cons.prems(1) by (auto simp: object_inv_def meta_live_def)
  obtain r c' where get: "oc_Get oc (MakeObjCacheKey k) (os_cache s) = (r, c')" by fastforce
  with assms(1) have c': "r = view (os_cache s) (MakeObjCacheKey k)" "view c' = view (os_cache s)"
    unfolding object_cache_ok_def by blast+
  let ?s1 = "s\<lparr>os_cache := c'\<rparr>" let ?s2 = "cache_delete oc (MakeObjCacheKey k) ?s1"
  have s1: "object_inv view ?s1" using Cons.prems(1) c'(2) by (simp add: object_inv_def)
  have s2: "object_inv view ?s2" "os_entries ?s2 = filter (\<lambda>(j, m). j \<noteq> k) (os_entries s)"
    using cache_delete_law(1) [OF assms(1) s1] cache_delete_entries [OF assms(1) s1] by simp_all
  have ent: "object_entries view ?s2 j = object_entries view s j" if "j \<noteq> k" for j
    using that cache_delete_law(3) [OF assms(1) s1] c'(2)
    by (simp add: object_entries_def fun_eq_iff split: option.split)
  obtain es' where es': "take_snapshot oc snaps ?s2 = (es', s')"
    "es = (k, \<lparr>de_data = bk_data b, de_version_tag = md_version_tag m\<rparr>) # es'"
    using Cons.prems(4) c'(1) by (auto simp: km b get split: prod.splits)
  have "\<forall>(j, m) \<in> set snaps. map_of (os_entries ?s2) j = Some m"
  proof clarify
    fix j m'
    assume j: "(j, m') \<in> set snaps"
    with Cons.prems(2,3) km have "map_of (os_entries s) j = Some m'" "j \<noteq> k" by force+
    moreover have "distinct (map fst (os_entries s))" using Cons.prems(1) by (simp add: object_inv_def om_sorted_distinct)
    ultimately show "map_of (os_entries ?s2) j = Some m'" by (simp add: s2(2) map_of_kept)
  qed
  from Cons.IH [OF s2(1) _ this es'(1)] Cons.prems(2)
  have IH: "object_inv view s'" "map fst es' = map fst snaps" "\<forall>(j, e) \<in> set es'. object_entries view ?s2 j = Some e"
    "os_entries s' = filter (\<lambda>(j, m). j \<notin> fst ` set snaps) (os_entries ?s2)"
    by simp_all
  have "fst ` set es' = fst ` set snaps" using IH(2) by (metis image_set)
  with Cons.prems(2) km have "\<forall>(j, e) \<in> set es'. j \<noteq> k" by force
  with IH(3) ent have "\<forall>(j, e) \<in> set es'. object_entries view s j = Some e" by fastforce
  moreover have "object_entries view s k = Some \<lparr>de_data = bk_data b, de_version_tag = md_version_tag m\<rparr>"
    by (simp add: object_entries_def m b)
  moreover have "os_entries s' = filter (\<lambda>(j, m). j \<notin> fst ` set (km # snaps)) (os_entries s)"
    by (simp add: IH(4) s2(2) km filter_filter) (auto intro!: filter_cong)
  ultimately show ?case using IH(1,2) by (simp add: es'(2) km)
qed

section \<open>The storage contract\<close>

text \<open>A failed assertion leaves the storage as it was.\<close>

definition put_or_fail ::
  "'o object_cache \<Rightarrow> InMemCacheBlock \<Rightarrow> page_chunk \<Rightarrow> string \<Rightarrow> nat \<Rightarrow> 'o object_storage \<Rightarrow> 'o object_storage" where
  "put_or_fail oc key chunk tag now s = (case object_Put oc key chunk tag now s of Inl _ \<Rightarrow> s | Inr s' \<Rightarrow> s')"

lemma object_Keys_law: "object_inv view s \<Longrightarrow> set (object_Keys s) = dom (object_entries view s) \<and> distinct (object_Keys s)"
  by (auto simp: object_Keys_def object_inv_def om_sorted_distinct dom_def object_entries_dom [unfolded object_inv_def]
      map_of_eq_None_iff [symmetric] simp flip: dom_map_of_conv_image_fst)

lemma object_Clear_from_law:
  assumes "object_cache_ok oc view" "object_inv view s"
  shows "object_inv view (object_Clear_from oc (InMemCacheBlock f 0 0) (\<lambda>k. fname k = f) s)"
    and "object_entries view (object_Clear_from oc (InMemCacheBlock f 0 0) (\<lambda>k. fname k = f) s) =
      (\<lambda>k. if fname k = f then None else object_entries view s k)"
proof -
  let ?sel = "takeWhile (\<lambda>kv. fname (fst kv) = f) (om_lower_bound (InMemCacheBlock f 0 0) (os_entries s))"
  let ?keys = "map (md_obj_cache_key \<circ> snd) ?sel"
  have sorted: "om_sorted (os_entries s)" and dist: "distinct (map fst (os_entries s))"
    using assms(2) by (simp_all add: object_inv_def om_sorted_distinct)
  let ?lb = "om_lower_bound (InMemCacheBlock f 0 0) (os_entries s)"
  have lb: "set ?lb = {kv \<in> set (os_entries s). f \<le> fname (fst kv)}"
    using om_lower_bound_set [OF sorted, of "InMemCacheBlock f 0 0"] by (simp add: block_le_file)
  have "set (takeWhile (\<lambda>k. fname k = f) (map fst ?lb)) = {k \<in> set (map fst ?lb). fname k = f}"
  proof (rule takeWhile_sorted_block)
    show "sorted_wrt (<) (map fst ?lb)" using sorted by (rule om_sorted_lower_bound)
    show "fname y \<noteq> f" if "x \<in> set (map fst ?lb)" "y \<in> set (map fst ?lb)" "fname x \<noteq> f" "x < y" for x y
      using that lb by (force simp: block_less_iff)
  qed
  then have sel: "fst ` set ?sel = {k \<in> fst ` set (os_entries s). fname k = f}"
    using lb by (force simp: takeWhile_map o_def)
  have "set ?sel \<subseteq> set (os_entries s)" using lb by (auto dest: set_takeWhileD)
  then have "md_obj_cache_key m = MakeObjCacheKey k" if "(k, m) \<in> set ?sel" for k m
    using that assms(2) dist by (auto simp: subset_iff elim!: object_inv_live)
  then have keys: "set ?keys = MakeObjCacheKey ` {k \<in> fst ` set (os_entries s). fname k = f}"
    unfolding sel [symmetric] by (force simp: image_image)
  show "object_inv view (object_Clear_from oc (InMemCacheBlock f 0 0) (\<lambda>k. fname k = f) s)"
    unfolding object_Clear_from_def using delete_all_law [OF assms] by blast
  show "object_entries view (object_Clear_from oc (InMemCacheBlock f 0 0) (\<lambda>k. fname k = f) s) =
      (\<lambda>k. if fname k = f then None else object_entries view s k)"
  proof
    fix k
    have "object_entries view s k = None" if "k \<notin> fst ` set (os_entries s)"
      using that assms(2) by (simp add: object_entries_dom map_of_eq_None_iff)
    then show "object_entries view (object_Clear_from oc (InMemCacheBlock f 0 0) (\<lambda>k. fname k = f) s) k =
        (if fname k = f then None else object_entries view s k)"
      unfolding object_Clear_from_def using delete_all_law [OF assms, of ?keys] keys by auto
  qed
qed

lemma object_Delete_law:
  assumes "object_cache_ok oc view" "object_inv view s" "object_Delete oc k s = (present, s')"
  shows "object_inv view s' \<and> object_entries view s' = (object_entries view s)(k := None) \<and>
    (present \<longleftrightarrow> object_entries view s k \<noteq> None)"
proof (cases "map_of (os_entries s) k")
  case None
  with assms(2,3) show ?thesis by (auto simp: object_Delete_def fun_eq_iff object_entries_dom)
next
  case (Some m)
  with assms(2,3) have "md_obj_cache_key m = MakeObjCacheKey k" "present" "s' = cache_delete oc (MakeObjCacheKey k) s"
    by (auto simp: object_Delete_def elim: object_inv_live)
  with Some assms(2) cache_delete_law [OF assms(1,2)] show ?thesis by (auto simp: fun_eq_iff object_entries_dom)
qed

lemma object_Clear_law:
  assumes "object_cache_ok oc view" "object_inv view s"
  shows "object_inv view (object_Clear oc s)" "object_entries view (object_Clear oc s) = Map.empty"
proof -
  note law = delete_all_law [OF assms, of "map (md_obj_cache_key \<circ> snd) (os_entries s)", folded object_Clear_def]
  show "object_inv view (object_Clear oc s)" using law by blast
  show "object_entries view (object_Clear oc s) = Map.empty"
  proof
    fix k
    show "object_entries view (object_Clear oc s) k = None"
    proof (cases "map_of (os_entries s) k")
      case None
      with assms(2) law show ?thesis by (simp add: object_entries_dom)
    next
      case (Some m)
      with assms(2) have "MakeObjCacheKey k \<in> set (map (md_obj_cache_key \<circ> snd) (os_entries s))"
        by (force dest: map_of_SomeD elim: object_inv_live)
      with law show ?thesis by simp
    qed
  qed
qed

lemma object_Take_law:
  assumes "object_cache_ok oc view" "object_inv view s" "object_Take oc s = (es, s')"
  shows "object_inv view s' \<and> object_entries view s' = Map.empty \<and> distinct (map fst es) \<and>
    map_of es \<subseteq>\<^sub>m object_entries view s"
proof -
  have dist: "distinct (map fst (os_entries s))" using assms(2) by (simp add: object_inv_def om_sorted_distinct)
  then have "\<forall>(k, m) \<in> set (os_entries s). map_of (os_entries s) k = Some m" by auto
  from take_snapshot_law [OF assms(1,2) dist this assms(3) [unfolded object_Take_def]]
  have law: "object_inv view s'" "map fst es = map fst (os_entries s)"
    "\<forall>(k, e) \<in> set es. object_entries view s k = Some e" "os_entries s' = []"
    by (auto simp: filter_empty_conv rev_image_eqI)
  then have "object_entries view s' = Map.empty" by (simp add: object_entries_def fun_eq_iff)
  moreover have "map_of es \<subseteq>\<^sub>m object_entries view s"
    using law(3) by (intro map_leI) (auto dest!: map_of_SomeD)
  ultimately show ?thesis using law(1,2) dist by simp
qed

lemma put_or_fail_law:
  assumes "object_cache_ok oc view" "keeps_new oc view" "object_inv view s"
  shows "object_inv view (put_or_fail oc k c tag now s)"
    and "object_entries view (put_or_fail oc k c tag now s) j = Some e \<Longrightarrow>
      object_entries view s j = Some e \<or> j = k \<and> e = \<lparr>de_data = c, de_version_tag = tag\<rparr>"
proof -
  note put = object_Put_law [OF assms]
  show "object_inv view (put_or_fail oc k c tag now s)"
    using assms(3) put(1) by (auto simp: put_or_fail_def split: sum.split)
  show "object_entries view s j = Some e \<or> j = k \<and> e = \<lparr>de_data = c, de_version_tag = tag\<rparr>"
    if "object_entries view (put_or_fail oc k c tag now s) j = Some e"
    using that put(2,3) [of k c tag now] by (cases "j = k") (fastforce simp: put_or_fail_def split: sum.splits)+
qed

text \<open>
  Property C10. The storage on DuckDB's object cache meets the storage contract, for every object cache
  that behaves as documented and makes room for what is put: look-ups return what was stored under the
  version asked for, deleting and clearing remove exactly what they name, the listed keys are exactly the
  blocks there are, taking everything empties the storage. The object cache may evict any block at any
  insertion: the storage then forgets exactly that block.
\<close>
theorem object_storage_contract:
  assumes "object_cache_ok oc view" "keeps_new oc view"
  shows "data_cache_storage (put_or_fail oc) (object_Get oc) (object_Delete oc) (object_Clear oc)
    (object_Clear_from oc) object_Keys (\<lambda>_. object_Take oc) (object_entries view) (object_inv view)"
proof (unfold_locales, goal_cases)
  case (1 s k c tag now)
  then show ?case by (rule put_or_fail_law(1) [OF assms])
next
  case (2 s k c tag now j e)
  then show ?case by (rule put_or_fail_law(2) [OF assms])
next
  case (3 s k tag now r s')
  with object_Get_law(1,2) [OF assms(1)] show ?case by blast
next
  case (4 s k tag now c s')
  with object_Get_law(3) [OF assms(1)] show ?case by blast
next
  case (5 s k present s')
  then show ?case by (rule object_Delete_law [OF assms(1)])
next
  case (6 s)
  with object_Clear_law [OF assms(1)] show ?case by simp
next
  case (7 s f)
  with object_Clear_from_law [OF assms(1)] show ?case by simp
next
  case (8 s)
  then show ?case by (rule object_Keys_law)
next
  case (9 s clk es s')
  then show ?case by (rule object_Take_law [OF assms(1)])
qed

text \<open>An object cache that never evicts.\<close>

definition cached_blocks :: "(string \<times> data_block) list \<Rightarrow> data_block list" where
  "cached_blocks c = map (\<lambda>(k, _). the (map_of c k)) c"

definition list_cache :: "(string \<times> data_block) list object_cache" where
  "list_cache =
     \<lparr>oc_Put = (\<lambda>key b c. let c' = AList.update key b c
                         in (filter (\<lambda>x. x \<notin> set (cached_blocks c')) (b # cached_blocks c), c')),
      oc_Get = (\<lambda>key c. (map_of c key, c)),
      oc_Delete = (\<lambda>key c. let c' = AList.delete key c
                           in (filter (\<lambda>x. x \<notin> set (cached_blocks c')) (cached_blocks c), c'))\<rparr>"

lemma set_cached_blocks: "set (cached_blocks c) = ran (map_of c)"
proof
  show "set (cached_blocks c) \<subseteq> ran (map_of c)"
  proof
    fix x assume "x \<in> set (cached_blocks c)"
    then obtain k b where kb: "(k, b) \<in> set c" "x = the (map_of c k)" by (auto simp: cached_blocks_def)
    then have "map_of c k \<noteq> None" by (simp add: map_of_eq_None_iff rev_image_eqI)
    with kb show "x \<in> ran (map_of c)" by (auto simp: ran_def)
  qed
  show "ran (map_of c) \<subseteq> set (cached_blocks c)"
  proof
    fix x assume "x \<in> ran (map_of c)"
    then obtain k where k: "map_of c k = Some x" by (auto simp: ran_def)
    then have "(k, x) \<in> set c" by (rule map_of_SomeD)
    with k show "x \<in> set (cached_blocks c)" by (force simp: cached_blocks_def)
  qed
qed

lemma list_cache_ok: "object_cache_ok list_cache map_of" "keeps_new list_cache map_of"
  by (auto simp: object_cache_ok_def keeps_new_def list_cache_def Let_def set_cached_blocks update_conv' delete_conv')

theorem object_storage_contract_witness:
  "data_cache_storage (put_or_fail list_cache) (object_Get list_cache) (object_Delete list_cache)
     (object_Clear list_cache) (object_Clear_from list_cache) object_Keys (\<lambda>_. object_Take list_cache)
     (object_entries map_of) (object_inv map_of) \<and>
   object_inv map_of (object_storage_new 0 [])"
  using object_storage_contract [OF list_cache_ok]
  by (simp add: object_inv_def object_storage_new_def block_keys_def)

section \<open>A block lost before its metadata is recorded\<close>

text \<open>Metadata whose block is gone stays, whatever is deleted.\<close>

definition no_block :: "InMemCacheBlock \<Rightarrow> (string \<rightharpoonup> data_block) \<Rightarrow> bool" where
  "no_block key v \<longleftrightarrow> (\<forall>b \<in> ran v. bk_key b \<noteq> key)"

lemma delete_keeps_dangling:
  assumes "object_cache_ok oc view" "no_block key (view (os_cache s))" "distinct (map fst (os_entries s))"
    and "map_of (os_entries s) key = Some m"
  shows "no_block key (view (os_cache (cache_delete oc okey s))) \<and>
    distinct (map fst (os_entries (cache_delete oc okey s))) \<and>
    map_of (os_entries (cache_delete oc okey s)) key = Some m"
proof -
  obtain gone c' where del: "oc_Delete oc okey (os_cache s) = (gone, c')" by fastforce
  with assms(1) have v': "view c' = (view (os_cache s))(okey := None)" "set gone \<subseteq> ran (view (os_cache s))"
    unfolding object_cache_ok_def by blast+
  then have "no_block key (view c')" using assms(2) by (auto simp: no_block_def ran_def split: if_splits)
  moreover have "\<forall>b \<in> set gone. bk_key b \<noteq> key" using v'(2) assms(2) by (auto simp: no_block_def)
  moreover have "os_entries (cache_delete oc okey s) =
      filter (\<lambda>(k, m). \<forall>b \<in> set gone. bk_key b \<noteq> k \<or> bk_id b \<noteq> md_block_id m) (os_entries s)"
    using destroy_entries [of "s\<lparr>os_cache := c'\<rparr>" gone] assms(3) by (simp add: cache_delete_def del)
  moreover have "(key, m) \<in> set (os_entries s)" using assms(4) by (rule map_of_SomeD)
  ultimately show ?thesis
    using assms(3) by (auto simp: cache_delete_def del distinct_map_filter intro!: map_of_is_SomeI)
qed

lemma delete_all_keeps_dangling:
  assumes "object_cache_ok oc view" "no_block key (view (os_cache s))" "distinct (map fst (os_entries s))"
    and "map_of (os_entries s) key = Some m"
  shows "map_of (os_entries (fold (cache_delete oc) okeys s)) key = Some m"
  using assms(2-4)
proof (induction okeys arbitrary: s)
  case (Cons okey okeys)
  from delete_keeps_dangling [OF assms(1) Cons.prems, of okey] show ?case
    unfolding fold_Cons o_apply by (intro Cons.IH) blast+
qed simp

text \<open>
  Property C38. \<open>Put\<close> hands the block to the object cache before it records the metadata. When the
  object cache drops the block in between, its destructor finds no metadata to remove, and what is then
  recorded names a block that does not exist: the key is listed although every look-up misses, and
  neither looking it up, deleting it nor clearing the whole storage removes it.
\<close>
theorem lost_block_leaves_metadata:
  assumes "object_cache_ok oc view" "object_inv view s"
    and "put_block oc key chunk tag now s = Inr (meta, s1)"
    and "view c' \<subseteq>\<^sub>m view (os_cache s1)" "set gone = ran (view (os_cache s1)) - ran (view c')"
    and "view c' (MakeObjCacheKey key) = None"
    and s2: "s2 = put_meta key meta (destroy_blocks gone (s1\<lparr>os_cache := c'\<rparr>))"
  shows "key \<in> set (object_Keys s2) \<and>
    fst (object_Get oc key expected t s2) = None \<and> key \<in> set (object_Keys (snd (object_Get oc key expected t s2))) \<and>
    fst (object_Delete oc key s2) \<and> key \<in> set (object_Keys (snd (object_Delete oc key s2))) \<and>
    key \<in> set (object_Keys (object_Clear oc s2))"
proof -
  have listed: "map_of (os_entries r) key = Some m \<Longrightarrow> key \<in> set (object_Keys r)" for r :: "'a object_storage" and m
    by (force simp: object_Keys_def dest: map_of_SomeD)
  obtain g1 c1 where put: "oc_Put oc (MakeObjCacheKey key) \<lparr>bk_key = key, bk_data = chunk, bk_id = os_next_block_id s\<rparr> (os_cache s) = (g1, c1)"
    by fastforce
  have s1: "s1 = destroy_blocks g1 (s\<lparr>os_next_block_id := u64_add (os_next_block_id s) 1, os_cache := c1\<rparr>)"
    and meta: "md_obj_cache_key meta = MakeObjCacheKey key"
    using assms(3) put by (auto simp: put_block_def Let_def split: if_splits)
  have "view c1 \<subseteq>\<^sub>m (view (os_cache s))(MakeObjCacheKey key \<mapsto> \<lparr>bk_key = key, bk_data = chunk, bk_id = os_next_block_id s\<rparr>)"
    using assms(1) put unfolding object_cache_ok_def by blast
  moreover have "block_keys ((view (os_cache s))(MakeObjCacheKey key \<mapsto> \<lparr>bk_key = key, bk_data = chunk, bk_id = os_next_block_id s\<rparr>))"
    using assms(2) by (auto simp: object_inv_def block_keys_def)
  ultimately have "block_keys (view c1)" by (rule block_keys_mono [rotated])
  then have "block_keys (view c')" using assms(4) by (auto simp: s1 intro: block_keys_mono)
  then have none: "no_block key (view (os_cache s2))"
    using assms(6) by (auto simp: s2 put_meta_def no_block_def block_keys_def ran_def)
  have "om_sorted (os_entries (destroy_blocks gone (s1\<lparr>os_cache := c'\<rparr>)))"
    using assms(2) by (auto simp: s1 object_inv_def intro!: destroy_sorted)
  then have dist: "distinct (map fst (os_entries s2))"
    by (auto simp: s2 put_meta_def intro!: om_sorted_distinct om_sorted_insert)
  have m: "map_of (os_entries s2) key = Some meta" by (simp add: s2 put_meta_def)
  note dangling = delete_keeps_dangling [OF assms(1) none dist m, of "MakeObjCacheKey key"]
  obtain r c2 where get: "oc_Get oc (MakeObjCacheKey key) (os_cache s2) = (r, c2)" by fastforce
  then have "r = view (os_cache s2) (MakeObjCacheKey key)" using assms(1) unfolding object_cache_ok_def by blast
  then have "r = None" using assms(6) by (simp add: s2 put_meta_def)
  with get m meta dangling have "fst (object_Get oc key expected t s2) = None \<and>
      map_of (os_entries (snd (object_Get oc key expected t s2))) key = Some meta"
    by (simp add: object_Get_def Let_def)
  moreover have "fst (object_Delete oc key s2) \<and> map_of (os_entries (snd (object_Delete oc key s2))) key = Some meta"
    using m meta dangling by (simp add: object_Delete_def)
  moreover have "map_of (os_entries (object_Clear oc s2)) key = Some meta"
    unfolding object_Clear_def by (rule delete_all_keeps_dangling [OF assms(1) none dist m])
  ultimately show ?thesis using listed m by blast
qed

theorem lost_block_leaves_metadata_witness:
  "\<exists>meta s1. put_block list_cache (InMemCacheBlock ''f'' 0 4) \<lparr>pc_data = [1, 2, 3, 4], pc_length = 4, pc_capacity = 4\<rparr> ''v'' 7
       (object_storage_new 0 []) = Inr (meta, s1) \<and>
     InMemCacheBlock ''f'' 0 4 \<in> set (object_Keys (object_Clear list_cache
       (put_meta (InMemCacheBlock ''f'' 0 4) meta (destroy_blocks (map snd (os_cache s1)) (s1\<lparr>os_cache := []\<rparr>)))))"
proof -
  let ?k = "InMemCacheBlock ''f'' 0 4" and ?c = "\<lparr>pc_data = [1, 2, 3, 4], pc_length = 4, pc_capacity = 4\<rparr>"
  let ?b = "\<lparr>bk_key = ?k, bk_data = ?c, bk_id = 0\<rparr>"
  let ?s = "object_storage_new 0 [] :: (string \<times> data_block) list object_storage"
  have inv: "object_inv map_of ?s" by (simp add: object_inv_def object_storage_new_def block_keys_def)
  obtain meta s1 where put: "put_block list_cache ?k ?c ''v'' 7 ?s = Inr (meta, s1)"
    and cache: "os_cache s1 = [(MakeObjCacheKey ?k, ?b)]"
    by (auto simp: put_block_def list_cache_def object_storage_new_def Let_def)
  have "set (map snd (os_cache s1)) = ran (map_of (os_cache s1)) - ran (map_of [])" by (auto simp: cache ran_def)
  from lost_block_leaves_metadata [OF list_cache_ok(1) inv put _ this _ refl] cache
  show ?thesis using put by simp
qed

end
