(* ===== verification/Chunk_Plan.thy ===== *)
theory Chunk_Plan
  imports Data_Cache_Storage
begin

text \<open>
  How a read request is split into cache blocks: the alignment of the request to the block grid
  (\<open>src/utils/chunk_utils.cpp\<close>), the chunks handed to the worker threads
  (\<open>src/include/cache_read_chunk.hpp\<close>, \<open>src/cache_read_chunk.cpp\<close>) and the splitting loop of
  \<open>InMemoryCacheReader::ReadAndCache\<close> (\<open>src/in_memory_cache_reader.cpp\<close>). The predicate
  \<open>plan_ok\<close> is the contract of a split, which the planner for column chunks meets too.
\<close>

section \<open>Alignment of a request\<close>

record ReadRequestParams =
  rq_requested_start_offset :: idx_t
  rq_requested_bytes_to_read :: idx_t
  rq_block_size :: idx_t

record ChunkAlignmentInfo =
  ai_aligned_start_offset :: idx_t
  ai_aligned_last_chunk_offset :: idx_t
  ai_subrequest_count :: idx_t

text \<open>The division by the block size is the one operation of the function that can fail.\<close>

definition CalculateChunkAlignment :: "ReadRequestParams \<Rightarrow> ChunkAlignmentInfo result" where
  "CalculateChunkAlignment params =
     (if rq_block_size params = 0 then Inl DivisionByZero
      else
        (let bs = rq_block_size params;
             aligned_start = u64_mul (rq_requested_start_offset params div bs) bs;
             last = u64_sub (u64_add (rq_requested_start_offset params) (rq_requested_bytes_to_read params)) 1;
             aligned_last = u64_mul (last div bs) bs
         in Inr \<lparr>ai_aligned_start_offset = aligned_start,
                 ai_aligned_last_chunk_offset = aligned_last,
                 ai_subrequest_count = u64_add (u64_sub aligned_last aligned_start div bs) 1\<rparr>))"

definition GetThreadCountForSubrequests :: "nat \<Rightarrow> nat \<Rightarrow> nat" where
  "GetThreadCountForSubrequests io_request_count max_subrequest_count =
     (if max_subrequest_count = 0 then min io_request_count 1024
      else min io_request_count max_subrequest_count)"

section \<open>Chunks\<close>

record CacheReadChunk =
  cr_requested_start_addr :: addr
  cr_requested_start_offset :: idx_t
  cr_aligned_start_offset :: idx_t
  cr_chunk_size :: idx_t
  cr_bytes_to_copy :: idx_t

definition CopyBufferToRequestedMemory :: "CacheReadChunk \<Rightarrow> page_chunk \<Rightarrow> memory \<Rightarrow> memory result" where
  "CopyBufferToRequestedMemory c buffer m =
     (let delta_offset = u64_sub (cr_requested_start_offset c) (cr_aligned_start_offset c)
      in CopyTo buffer (cr_requested_start_addr c) delta_offset (cr_bytes_to_copy c) m)"

section \<open>The splitting loop of ReadAndCache\<close>

text \<open>
  The variables the loop carries: the offset of the block, the address to write to, the bytes
  handed out so far, the file offset of the next byte wanted, the chunks scheduled and the sum
  of their sizes.
\<close>

record split_state =
  io_start_offset :: idx_t
  addr_to_write :: addr
  already_read_bytes :: idx_t
  next_start_offset :: idx_t
  scheduled :: "CacheReadChunk list"
  total_bytes_to_cache :: idx_t

text \<open>
  The four cases of the loop body: a single block, the first, the last, and a middle one. The
  result is the size of the block, the bytes to copy from it, and how far the address and the
  count of handed-out bytes advance.
\<close>

definition split_case ::
  "ChunkAlignmentInfo \<Rightarrow> idx_t \<Rightarrow> idx_t \<Rightarrow> idx_t \<Rightarrow> split_state \<Rightarrow> idx_t \<times> idx_t \<times> idx_t" where
  "split_case al block_size file_size requested_bytes st =
     (let io = io_start_offset st;
          first = ai_aligned_start_offset al;
          last = ai_aligned_last_chunk_offset al;
          tail_size = min block_size (u64_sub file_size io)
      in if io = first \<and> io = last then (tail_size, requested_bytes, 0)
         else if io = first
         then (let delta_offset = u64_sub (next_start_offset st) first
               in (block_size, u64_sub block_size delta_offset, u64_sub block_size delta_offset))
         else if io = last then (tail_size, u64_sub requested_bytes (already_read_bytes st), 0)
         else (block_size, block_size, block_size))"

definition split_body ::
  "ChunkAlignmentInfo \<Rightarrow> idx_t \<Rightarrow> idx_t \<Rightarrow> idx_t \<Rightarrow> split_state \<Rightarrow> split_state" where
  "split_body al block_size file_size requested_bytes st =
     (case split_case al block_size file_size requested_bytes st of (csize, bytes, advance) \<Rightarrow>
        st\<lparr>addr_to_write := addr_to_write st + advance,
           already_read_bytes := u64_add (already_read_bytes st) advance,
           next_start_offset := u64_add (io_start_offset st) block_size,
           scheduled := scheduled st @
             [\<lparr>cr_requested_start_addr = addr_to_write st, cr_requested_start_offset = next_start_offset st,
               cr_aligned_start_offset = io_start_offset st, cr_chunk_size = csize, cr_bytes_to_copy = bytes\<rparr>],
           total_bytes_to_cache := u64_add (total_bytes_to_cache st) csize\<rparr>)"

text \<open>
  The loop increments an unsigned offset and compares it with the last one, so on offsets near
  \<open>2 ^ 64\<close> it need not end; \<open>None\<close> is not returning.
\<close>

partial_function (option) split_loop ::
  "ChunkAlignmentInfo \<Rightarrow> idx_t \<Rightarrow> idx_t \<Rightarrow> idx_t \<Rightarrow> split_state \<Rightarrow> split_state option" where
  "split_loop al block_size file_size requested_bytes st =
     (if ai_aligned_last_chunk_offset al < io_start_offset st then Some st
      else
        (let st' = (if io_start_offset st = file_size then st
                    else split_body al block_size file_size requested_bytes st)
         in split_loop al block_size file_size requested_bytes
              (st'\<lparr>io_start_offset := u64_add (io_start_offset st) block_size\<rparr>)))"

declare split_loop.simps [code]

definition split_fixed_blocks ::
  "addr \<Rightarrow> idx_t \<Rightarrow> idx_t \<Rightarrow> idx_t \<Rightarrow> idx_t \<Rightarrow> (CacheReadChunk list \<times> idx_t) option result" where
  "split_fixed_blocks buffer requested_start_offset requested_bytes file_size block_size =
     (case CalculateChunkAlignment \<lparr>rq_requested_start_offset = requested_start_offset,
             rq_requested_bytes_to_read = requested_bytes, rq_block_size = block_size\<rparr> of
        Inl e \<Rightarrow> Inl e
      | Inr al \<Rightarrow>
          Inr (map_option (\<lambda>st. (scheduled st, total_bytes_to_cache st))
            (split_loop al block_size file_size requested_bytes
              \<lparr>io_start_offset = ai_aligned_start_offset al, addr_to_write = buffer,
               already_read_bytes = 0, next_start_offset = requested_start_offset,
               scheduled = [], total_bytes_to_cache = 0\<rparr>)))"

section \<open>What a split promises\<close>

text \<open>
  A split of the file range \<open>[off, e)\<close> for the destination \<open>dst\<close>: the chunks are consecutive,
  each takes the next bytes of the range to the next addresses, is part of a block, and the
  block lies inside the file.
\<close>

definition chunk_within :: "idx_t \<Rightarrow> CacheReadChunk \<Rightarrow> bool" where
  "chunk_within file_size c \<longleftrightarrow>
     0 < cr_bytes_to_copy c \<and>
     cr_aligned_start_offset c \<le> cr_requested_start_offset c \<and>
     cr_requested_start_offset c + cr_bytes_to_copy c \<le> cr_aligned_start_offset c + cr_chunk_size c \<and>
     cr_aligned_start_offset c + cr_chunk_size c \<le> file_size"

fun plan_ok :: "idx_t \<Rightarrow> addr \<Rightarrow> idx_t \<Rightarrow> CacheReadChunk list \<Rightarrow> idx_t \<Rightarrow> bool" where
  "plan_ok file_size dst off [] e \<longleftrightarrow> off = e"
| "plan_ok file_size dst off (c # cs) e \<longleftrightarrow>
     chunk_within file_size c \<and> cr_requested_start_offset c = off \<and> cr_requested_start_addr c = dst \<and>
     plan_ok file_size (dst + cr_bytes_to_copy c) (off + cr_bytes_to_copy c) cs e"

text \<open>The chunk that covers an address of the destination.\<close>

definition covers_addr :: "CacheReadChunk \<Rightarrow> addr \<Rightarrow> bool" where
  "covers_addr c a \<longleftrightarrow> cr_requested_start_addr c \<le> a \<and> a < cr_requested_start_addr c + cr_bytes_to_copy c"

lemma plan_ok_le: "plan_ok fsz dst off cs e \<Longrightarrow> off \<le> e"
  by (induction cs arbitrary: dst off) fastforce+

lemma plan_ok_end: "plan_ok fsz dst off cs e \<Longrightarrow> cs \<noteq> [] \<Longrightarrow> e \<le> fsz"
proof (induction cs arbitrary: dst off)
  case (Cons c cs)
  then show ?case by (cases "cs = []") (auto simp: chunk_within_def)
qed simp

lemma plan_ok_append:
  "plan_ok fsz dst off (cs @ ds) e \<longleftrightarrow>
   (\<exists>mid. plan_ok fsz dst off cs mid \<and> plan_ok fsz (dst + (mid - off)) mid ds e)"
proof (induction cs arbitrary: dst off)
  case (Cons c cs)
  let ?n = "cr_bytes_to_copy c"
  have "plan_ok fsz (dst + ?n) (off + ?n) cs mid \<and> plan_ok fsz (dst + ?n + (mid - (off + ?n))) mid ds e \<longleftrightarrow>
      plan_ok fsz (dst + ?n) (off + ?n) cs mid \<and> plan_ok fsz (dst + (mid - off)) mid ds e" for mid
    using plan_ok_le [of fsz "dst + ?n" "off + ?n" cs mid] by (auto simp: le_iff_add)
  then show ?case by (auto simp: Cons.IH)
qed auto

lemma plan_ok_member:
  assumes "plan_ok fsz dst off cs e" "c \<in> set cs"
  shows "chunk_within fsz c" "off \<le> cr_requested_start_offset c"
    and "cr_requested_start_addr c = dst + (cr_requested_start_offset c - off)"
    and "cr_requested_start_offset c + cr_bytes_to_copy c \<le> e"
proof -
  obtain as bs where cs: "cs = as @ c # bs" using assms(2) by (auto simp: in_set_conv_decomp)
  then obtain mid where mid: "plan_ok fsz dst off as mid" "plan_ok fsz (dst + (mid - off)) mid (c # bs) e"
    using assms(1) plan_ok_append by blast
  then show "chunk_within fsz c" "off \<le> cr_requested_start_offset c"
    "cr_requested_start_addr c = dst + (cr_requested_start_offset c - off)"
    using plan_ok_le by auto
  show "cr_requested_start_offset c + cr_bytes_to_copy c \<le> e"
    using mid(2) plan_ok_le by auto
qed

text \<open>Every address of the destination is written, and by one chunk only.\<close>

lemma plan_ok_covered:
  assumes "plan_ok fsz dst off cs e" "dst \<le> a" "a < dst + (e - off)"
  shows "\<exists>c \<in> set cs. covers_addr c a"
  using assms
proof (induction cs arbitrary: dst off)
  case (Cons c cs)
  show ?case
  proof (cases "covers_addr c a")
    case False
    let ?n = "cr_bytes_to_copy c"
    have *: "plan_ok fsz (dst + ?n) (off + ?n) cs e" "dst + ?n \<le> a"
      using Cons.prems False by (auto simp: covers_addr_def)
    moreover have "a < dst + ?n + (e - (off + ?n))" using Cons.prems(3) plan_ok_le [OF *(1)] by simp
    ultimately show ?thesis using Cons.IH by fastforce
  qed simp
qed simp

lemma plan_ok_inside:
  assumes "plan_ok fsz dst off cs e" "c \<in> set cs" "covers_addr c a"
  shows "dst \<le> a \<and> a < dst + (e - off) \<and>
    cr_requested_start_offset c + (a - cr_requested_start_addr c) = off + (a - dst)"
  using plan_ok_member [OF assms(1,2)] assms(3) by (auto simp: covers_addr_def)

lemma plan_ok_disjoint:
  assumes "plan_ok fsz dst off cs e" "i < j" "j < length cs"
  shows "cr_requested_start_addr (cs ! i) + cr_bytes_to_copy (cs ! i) \<le> cr_requested_start_addr (cs ! j)"
  using assms
proof (induction cs arbitrary: dst off i j)
  case (Cons c cs)
  then obtain j' where j': "j = Suc j'" "j' < length cs" by (cases j) auto
  have tail: "plan_ok fsz (dst + cr_bytes_to_copy c) (off + cr_bytes_to_copy c) cs e" using Cons.prems by simp
  show ?case
  proof (cases i)
    case 0
    with j' Cons.prems plan_ok_member(3) [OF tail, of "cs ! j'"] show ?thesis by simp
  next
    case (Suc i')
    with Cons.IH [OF tail, of i' j'] j' Cons.prems show ?thesis by simp
  qed
qed simp

section \<open>The fixed-block split meets the contract\<close>

text \<open>The chunk of the block with index \<open>k\<close>, by what it should be.\<close>

definition block_chunk :: "addr \<Rightarrow> idx_t \<Rightarrow> idx_t \<Rightarrow> idx_t \<Rightarrow> idx_t \<Rightarrow> nat \<Rightarrow> CacheReadChunk" where
  "block_chunk buffer s e file_size bs k =
     \<lparr>cr_requested_start_addr = buffer + (max s (k * bs) - s),
      cr_requested_start_offset = max s (k * bs),
      cr_aligned_start_offset = k * bs,
      cr_chunk_size = min bs (file_size - k * bs),
      cr_bytes_to_copy = min e (k * bs + bs) - max s (k * bs)\<rparr>"

text \<open>A request inside a file whose size leaves room for one more block below \<open>2 ^ 64\<close>.\<close>

definition request_in_file :: "idx_t \<Rightarrow> idx_t \<Rightarrow> idx_t \<Rightarrow> idx_t \<Rightarrow> bool" where
  "request_in_file s n file_size bs \<longleftrightarrow> 0 < n \<and> 0 < bs \<and> s + n \<le> file_size \<and> file_size + bs < U64"

abbreviation first_block :: "idx_t \<Rightarrow> idx_t \<Rightarrow> nat" where
  "first_block s bs \<equiv> s div bs"

abbreviation last_block :: "idx_t \<Rightarrow> idx_t \<Rightarrow> idx_t \<Rightarrow> nat" where
  "last_block s n bs \<equiv> (s + n - 1) div bs"

lemma block_bounds:
  assumes "request_in_file s n fsz bs"
  shows "first_block s bs * bs \<le> s" "s < first_block s bs * bs + bs"
    and "last_block s n bs * bs < s + n" "s + n \<le> last_block s n bs * bs + bs"
    and "first_block s bs \<le> last_block s n bs"
proof -
  have n: "0 < n" "0 < bs" using assms by (simp_all add: request_in_file_def)
  show "first_block s bs * bs \<le> s" "s < first_block s bs * bs + bs"
    using div_mult_floor [where a = s and b = bs] n(2) by auto
  show "last_block s n bs * bs < s + n" "s + n \<le> last_block s n bs * bs + bs"
    using div_mult_floor [where a = "s + n - 1" and b = bs] n by linarith+
  show "first_block s bs \<le> last_block s n bs" using n(1) by (intro div_le_mono) simp
qed

lemma block_mult_le: "(k::nat) \<le> r \<Longrightarrow> k * bs \<le> r * bs"
  by simp

lemma block_mult_Suc_le: "(k::nat) < r \<Longrightarrow> k * bs + bs \<le> r * bs"
  using mult_le_mono1 [of "Suc k" r bs] by simp

lemma CalculateChunkAlignment_ok:
  assumes "request_in_file s n fsz bs"
  shows "CalculateChunkAlignment \<lparr>rq_requested_start_offset = s, rq_requested_bytes_to_read = n,
      rq_block_size = bs\<rparr> =
    Inr \<lparr>ai_aligned_start_offset = first_block s bs * bs,
         ai_aligned_last_chunk_offset = last_block s n bs * bs,
         ai_subrequest_count = last_block s n bs - first_block s bs + 1\<rparr>"
proof -
  let ?q = "first_block s bs" and ?r = "last_block s n bs"
  note b = block_bounds [OF assms]
  have f: "0 < n" "0 < bs" "s + n < U64" "s + n + bs < U64" using assms by (auto simp: request_in_file_def)
  have last: "u64_sub (u64_add s n) 1 = s + n - 1" using f by (simp add: u64_exact)
  have start: "u64_mul ?q bs = ?q * bs" using f b by (intro u64_mul_exact) linarith
  have l: "u64_mul ?r bs = ?r * bs" using f b by (intro u64_mul_exact) linarith
  have "u64_sub (?r * bs) (?q * bs) = ?r * bs - ?q * bs" using f b by (intro u64_sub_exact) auto
  also have "\<dots> = (?r - ?q) * bs" by (simp add: diff_mult_distrib)
  finally have d: "u64_sub (?r * bs) (?q * bs) div bs = ?r - ?q" using f by simp
  have "?r \<le> ?r * bs" using f(2) by simp
  then have "?r + 1 < U64" using f b by linarith
  then have "u64_add (?r - ?q) 1 = ?r - ?q + 1" by (simp add: u64_exact)
  with f(2) last start l d show ?thesis by (simp add: CalculateChunkAlignment_def Let_def)
qed

text \<open>The state of the loop in front of block \<open>k\<close>.\<close>

definition split_at :: "addr \<Rightarrow> idx_t \<Rightarrow> idx_t \<Rightarrow> idx_t \<Rightarrow> idx_t \<Rightarrow> nat \<Rightarrow> split_state \<Rightarrow> bool" where
  "split_at buffer s n file_size bs k st \<longleftrightarrow>
     io_start_offset st = k * bs \<and>
     scheduled st = map (block_chunk buffer s (s + n) file_size bs) [first_block s bs ..< k] \<and>
     total_bytes_to_cache st = sum_list (map cr_chunk_size (scheduled st)) \<and>
     (k \<le> last_block s n bs \<longrightarrow>
        next_start_offset st = max s (k * bs) \<and>
        already_read_bytes st = max s (k * bs) - s \<and>
        addr_to_write st = buffer + (max s (k * bs) - s))"

lemma block_sizes_sum:
  assumes "q \<le> k"
  shows "sum_list (map cr_chunk_size (map (block_chunk buffer s e fsz bs) [q ..< k])) \<le> (k - q) * bs"
proof -
  have "sum_list (map cr_chunk_size (map (block_chunk buffer s e fsz bs) [q ..< k])) \<le>
      sum_list (map (\<lambda>_. bs) [q ..< k])"
    unfolding map_map by (rule sum_list_mono) (simp add: block_chunk_def)
  then show ?thesis by (simp add: sum_list_triv)
qed

lemma split_case_block:
  assumes rq: "request_in_file s n fsz bs" and st: "split_at buffer s n fsz bs k st"
    and k: "first_block s bs \<le> k" "k \<le> last_block s n bs"
    and al: "ai_aligned_start_offset al = first_block s bs * bs"
      "ai_aligned_last_chunk_offset al = last_block s n bs * bs"
  shows "split_case al bs fsz n st =
    (min bs (fsz - k * bs), min (s + n) (k * bs + bs) - max s (k * bs),
     if k = last_block s n bs then 0 else k * bs + bs - max s (k * bs))"
proof -
  let ?q = "first_block s bs" and ?r = "last_block s n bs" and ?io = "k * bs"
  note b = block_bounds [OF rq]
  have f: "0 < n" "0 < bs" "s + n \<le> fsz" "fsz + bs < U64" using rq by (auto simp: request_in_file_def)
  have le: "?q * bs \<le> ?io" "?io \<le> ?r * bs" using k by (simp_all add: block_mult_le)
  have io: "io_start_offset st = ?io" and nx: "next_start_offset st = max s ?io"
    and ar: "already_read_bytes st = max s ?io - s"
    using st k(2) by (simp_all add: split_at_def)
  have tail: "u64_sub fsz ?io = fsz - ?io" using f(4) le b(3) f(3) by (intro u64_sub_exact) linarith+
  have eq_q: "?io = ?q * bs \<longleftrightarrow> k = ?q" and eq_r: "?io = ?r * bs \<longleftrightarrow> k = ?r" using f(2) by auto
  have gt: "k \<noteq> ?q \<Longrightarrow> s \<le> ?io" using block_mult_Suc_le [of ?q k bs] k(1) b(2) by linarith
  have lt: "k \<noteq> ?r \<Longrightarrow> ?io + bs \<le> ?r * bs" using block_mult_Suc_le [of k ?r bs] k(2) by linarith
  have "u64_sub s (?q * bs) = s - ?q * bs" using b(1) f by (intro u64_sub_exact) linarith+
  then have delta: "k = ?q \<Longrightarrow> u64_sub (max s ?io) (?q * bs) = s - ?io"
    using b(1) by (simp add: max_absorb1)
  have rest: "u64_sub n (max s ?io - s) = n - (max s ?io - s)"
    using le b(3) f by (intro u64_sub_exact) linarith+
  show ?thesis
  proof (cases "k = ?q")
    case True
    have "u64_sub bs (s - ?io) = bs - (s - ?io)"
      unfolding True using f b(2) by (intro u64_sub_exact) linarith+
    note facts = this True b f lt delta
    show ?thesis
    proof (cases "k = ?r")
      case True
      have "min (s + n) (?io + bs) - max s ?io = n" using facts True by simp
      with facts(2) tail True show ?thesis by (simp add: split_case_def Let_def al io eq_q eq_r)
    next
      case False
      with lt have "?io + bs \<le> ?r * bs" by blast
      then have "min (s + n) (?io + bs) - max s ?io = bs - (s - ?io)" "?io + bs - max s ?io = bs - (s - ?io)"
        "min bs (fsz - ?io) = bs" using facts by (simp_all add: min_def max_absorb1)
      with facts False show ?thesis by (simp add: split_case_def Let_def al io nx eq_q eq_r tail)
    qed
  next
    case False
    with gt have "s \<le> ?io" by blast
    note facts = this False
    show ?thesis
    proof (cases "k = ?r")
      case True
      have "min (s + n) (?io + bs) - max s ?io = n - (max s ?io - s)"
        using facts(1) b(4) [folded True] unfolding min_absorb1 [OF b(4) [folded True]] max_absorb2 [OF facts(1)]
        by linarith
      then show ?thesis
        unfolding split_case_def Let_def al io ar tail rest eq_q eq_r using facts(2)
        by (simp only: True simp_thms if_False if_True)
    next
      case False
      with lt have "?io + bs \<le> ?r * bs" by blast
      then have "min (s + n) (?io + bs) - max s ?io = bs" "?io + bs - max s ?io = bs"
        "min bs (fsz - ?io) = bs" using facts(1) b(3) f(3) by (simp_all add: min_def)
      with facts(2) False f(2) show ?thesis by (simp add: split_case_def Let_def al io eq_q eq_r)
    qed
  qed
qed

lemma split_body_block:
  assumes rq: "request_in_file s n fsz bs" and st: "split_at buffer s n fsz bs k st"
    and k: "first_block s bs \<le> k" "k \<le> last_block s n bs"
    and al: "ai_aligned_start_offset al = first_block s bs * bs"
      "ai_aligned_last_chunk_offset al = last_block s n bs * bs"
  shows "split_at buffer s n fsz bs (Suc k)
    ((split_body al bs fsz n st)\<lparr>io_start_offset := u64_add (io_start_offset st) bs\<rparr>)"
proof -
  let ?q = "first_block s bs" and ?r = "last_block s n bs" and ?io = "k * bs"
  let ?c = "block_chunk buffer s (s + n) fsz bs"
  note b = block_bounds [OF rq]
  have f: "s + n \<le> fsz" "fsz + bs < U64" using rq by (auto simp: request_in_file_def)
  have le: "?io \<le> ?r * bs" using k by (simp add: block_mult_le)
  have "s < ?io + bs" using block_mult_le [OF k(1), of bs] b(2) by linarith
  have st': "io_start_offset st = ?io" "next_start_offset st = max s ?io"
      "already_read_bytes st = max s ?io - s" "addr_to_write st = buffer + (max s ?io - s)"
      "scheduled st = map ?c [?q ..< k]" "total_bytes_to_cache st = sum_list (map cr_chunk_size (map ?c [?q ..< k]))"
    using st k(2) by (simp_all add: split_at_def)
  have next_io: "u64_add ?io bs = Suc k * bs" using f le b(3) by (subst u64_add_exact) (linarith, simp)
  have "(Suc k - ?q) * bs \<le> Suc k * bs" by (rule mult_le_mono1) simp
  then have "sum_list (map cr_chunk_size (map ?c [?q ..< Suc k])) \<le> ?io + bs"
    using block_sizes_sum [of ?q "Suc k" buffer s "s + n" fsz bs] k(1) by simp
  then have sum: "sum_list (map cr_chunk_size (map ?c [?q ..< Suc k])) < U64"
    using f le b(3) by linarith
  have "max s ?io - s + (?io + bs - max s ?io) < U64" using f le b(3) by linarith
  then have ar: "u64_add (max s ?io - s) (?io + bs - max s ?io) = ?io + bs - s"
    using \<open>s < ?io + bs\<close> by (subst u64_add_exact) (auto simp: max_def)
  have mx: "max s (Suc k * bs) = ?io + bs" using \<open>s < ?io + bs\<close> by simp
  have ad: "max s ?io - s + (?io + bs - max s ?io) = ?io + bs - s"
    using \<open>s < ?io + bs\<close> by (auto simp: max_def)
  have c: "map ?c [?q ..< Suc k] = map ?c [?q ..< k] @ [?c k]" using k(1) by simp
  let ?st = "(split_body al bs fsz n st)\<lparr>io_start_offset := u64_add (io_start_offset st) bs\<rparr>"
  have fields: "io_start_offset ?st = Suc k * bs" "next_start_offset ?st = Suc k * bs"
      "scheduled ?st = map ?c [?q ..< Suc k]"
    unfolding c split_body_def split_case_block [OF assms] by (simp_all add: st' next_io block_chunk_def)
  have "total_bytes_to_cache ?st = u64_add (sum_list (map cr_chunk_size (map ?c [?q ..< k]))) (cr_chunk_size (?c k))"
    unfolding split_body_def split_case_block [OF assms] by (simp add: st' block_chunk_def)
  also have "\<dots> = sum_list (map cr_chunk_size (map ?c [?q ..< Suc k]))"
    using sum unfolding c by (subst u64_add_exact) simp_all
  finally have total: "total_bytes_to_cache ?st = sum_list (map cr_chunk_size (map ?c [?q ..< Suc k]))" .
  have "k \<noteq> ?r \<Longrightarrow> already_read_bytes ?st = ?io + bs - s \<and> addr_to_write ?st = buffer + (?io + bs - s)"
    unfolding split_body_def split_case_block [OF assms] ad [symmetric]
    by (simp only: st' ar ad if_False case_prod_conv) (simp add: ad add.assoc)
  then show ?thesis
    unfolding split_at_def fields total mx by simp
qed

lemma split_loop_blocks:
  assumes rq: "request_in_file s n fsz bs"
    and al: "ai_aligned_start_offset al = first_block s bs * bs"
      "ai_aligned_last_chunk_offset al = last_block s n bs * bs"
    and "split_at buffer s n fsz bs k st" "first_block s bs \<le> k" "k \<le> Suc (last_block s n bs)"
  shows "\<exists>st'. split_loop al bs fsz n st = Some st' \<and> split_at buffer s n fsz bs (Suc (last_block s n bs)) st'"
  using assms(4-6)
proof (induction "Suc (last_block s n bs) - k" arbitrary: k st)
  case 0
  then have "k = Suc (last_block s n bs)" by simp
  moreover from this "0.prems"(1) have "last_block s n bs * bs < io_start_offset st"
    using rq by (simp add: split_at_def request_in_file_def)
  ultimately show ?case using "0.prems"(1) al by (simp add: split_loop.simps)
next
  case (Suc d)
  then have k: "k \<le> last_block s n bs" by simp
  have io: "io_start_offset st = k * bs" using Suc.prems(1) by (simp add: split_at_def)
  have "k * bs \<le> last_block s n bs * bs" using k by (rule block_mult_le)
  moreover have "last_block s n bs * bs < fsz"
    using block_bounds(3) [OF rq] rq by (simp add: request_in_file_def)
  ultimately have "io_start_offset st < fsz" "io_start_offset st \<le> ai_aligned_last_chunk_offset al"
    unfolding io al by linarith+
  then have "split_loop al bs fsz n st = split_loop al bs fsz n
      ((split_body al bs fsz n st)\<lparr>io_start_offset := u64_add (io_start_offset st) bs\<rparr>)"
    by (subst split_loop.simps) simp
  moreover have "d = Suc (last_block s n bs) - Suc k" using Suc.hyps(2) by simp
  ultimately show ?case
    using Suc.hyps(1) [OF _ split_body_block [OF rq Suc.prems(1,2) k al]] Suc.prems(2) k by simp
qed

lemma block_plan_ok:
  assumes rq: "request_in_file s n fsz bs" and "first_block s bs \<le> k" "k \<le> last_block s n bs"
  shows "plan_ok fsz buffer s (map (block_chunk buffer s (s + n) fsz bs) [first_block s bs ..< Suc k])
    (min (s + n) (k * bs + bs))"
  using assms(2,3)
proof (induction k)
  case (Suc k)
  let ?q = "first_block s bs"
  note b = block_bounds [OF rq]
  have f: "0 < n" "0 < bs" "s + n \<le> fsz" using rq by (auto simp: request_in_file_def)
  have io: "Suc k * bs < s + n" using block_mult_le [OF Suc.prems(2), of bs] b(3) by linarith
  show ?case
  proof (cases "?q = Suc k")
    case True
    have q: "Suc k * bs \<le> s" "s < Suc k * bs + bs" using b(1,2) True by simp_all
    then have "max s (Suc k * bs) = s" by simp
    with True f io q show ?thesis
      by (simp only: True upt_rec [of "Suc k" "Suc (Suc k)"]) (auto simp: block_chunk_def chunk_within_def min_def)
  next
    case False
    then have k: "?q \<le> k" "k \<le> last_block s n bs" using Suc.prems by simp_all
    have "k * bs + bs \<le> Suc k * bs" by simp
    then have m: "min (s + n) (k * bs + bs) = Suc k * bs" using io by simp
    have "s < Suc k * bs" using block_mult_le [OF k(1), of bs] b(2) unfolding mult_Suc by linarith
    then have mx: "max s (Suc k * bs) = Suc k * bs" by simp
    have "plan_ok fsz (buffer + (Suc k * bs - s)) (Suc k * bs) [block_chunk buffer s (s + n) fsz bs (Suc k)]
        (min (s + n) (Suc k * bs + bs))"
      unfolding plan_ok.simps chunk_within_def block_chunk_def CacheReadChunk.simps mx
      using io f by (auto simp: min_def)
    with Suc.IH [OF k] m show ?thesis
      using Suc.prems(1) by (simp add: plan_ok_append)
  qed
next
  case 0
  note b = block_bounds [OF rq]
  have f: "0 < n" "0 < bs" "s + n \<le> fsz" using rq by (auto simp: request_in_file_def)
  have "first_block s bs = 0" using 0 by simp
  with b(2) have "s < bs" by simp
  with f \<open>first_block s bs = 0\<close> show ?case
    by (auto simp: block_chunk_def chunk_within_def min_def)
qed

lemma fixed_block_split:
  assumes "request_in_file s n file_size bs"
  shows "\<exists>cs. split_fixed_blocks buffer s n file_size bs = Inr (Some (cs, sum_list (map cr_chunk_size cs))) \<and>
    plan_ok file_size buffer s cs (s + n) \<and>
    map cr_aligned_start_offset cs = map (\<lambda>k. k * bs) [s div bs ..< Suc ((s + n - 1) div bs)] \<and>
    (\<forall>c \<in> set cs. cr_chunk_size c = min bs (file_size - cr_aligned_start_offset c)) \<and>
    (\<exists>al. CalculateChunkAlignment \<lparr>rq_requested_start_offset = s, rq_requested_bytes_to_read = n,
            rq_block_size = bs\<rparr> = Inr al \<and> ai_subrequest_count al = length cs)"
proof -
  let ?q = "first_block s bs" and ?r = "last_block s n bs"
  let ?cs = "map (block_chunk buffer s (s + n) file_size bs) [?q ..< Suc ?r]"
  note b = block_bounds [OF assms]
  let ?al = "\<lparr>ai_aligned_start_offset = ?q * bs, ai_aligned_last_chunk_offset = ?r * bs,
    ai_subrequest_count = ?r - ?q + 1\<rparr>"
  let ?st = "\<lparr>io_start_offset = ?q * bs, addr_to_write = buffer, already_read_bytes = 0,
    next_start_offset = s, scheduled = [], total_bytes_to_cache = 0\<rparr>"
  have "split_at buffer s n file_size bs ?q ?st"
    using b(1) by (simp add: split_at_def max_absorb1)
  then obtain st' where st': "split_loop ?al bs file_size n ?st = Some st'"
      "split_at buffer s n file_size bs (Suc ?r) st'"
    using split_loop_blocks [OF assms, of ?al buffer ?q ?st] b(5) by auto
  have "plan_ok file_size buffer s ?cs (s + n)"
    using block_plan_ok [OF assms b(5) order_refl, of buffer] b(4) by (simp add: min_absorb1)
  then show ?thesis
    using st' CalculateChunkAlignment_ok [OF assms] b(5)
    by (intro exI [of _ ?cs])
       (auto simp: split_fixed_blocks_def split_at_def block_chunk_def Suc_diff_le)
qed

section \<open>Property\<close>

text \<open>
  Property C16. For every request inside the file the splitting loop of \<open>ReadAndCache\<close> ends, the
  arithmetic of the offsets does not wrap, and it schedules one chunk for every block the
  request touches, in order: each block starts on the grid and is cut at the end of the file
  only; the chunks are a split of the request, so their copies cover the destination buffer
  without a gap; and the number of subrequests computed for the thread count is the number of
  chunks.
\<close>

theorem fixed_block_plan:
  assumes "request_in_file s n file_size bs"
  shows "\<exists>cs. split_fixed_blocks buffer s n file_size bs = Inr (Some (cs, sum_list (map cr_chunk_size cs))) \<and>
    plan_ok file_size buffer s cs (s + n) \<and>
    map cr_aligned_start_offset cs = map (\<lambda>k. k * bs) [s div bs ..< Suc ((s + n - 1) div bs)] \<and>
    (\<forall>c \<in> set cs. cr_chunk_size c = min bs (file_size - cr_aligned_start_offset c)) \<and>
    (\<exists>al. CalculateChunkAlignment \<lparr>rq_requested_start_offset = s, rq_requested_bytes_to_read = n,
            rq_block_size = bs\<rparr> = Inr al \<and> ai_subrequest_count al = length cs)"
  using assms by (rule fixed_block_split)

lemma fixed_block_plan_witness:
  "request_in_file 5 18 23 8 \<and>
   (\<exists>cs. split_fixed_blocks 1000 5 18 23 8 = Inr (Some (cs, sum_list (map cr_chunk_size cs))) \<and>
     plan_ok 23 1000 5 cs 23 \<and> map cr_aligned_start_offset cs = [0, 8, 16])"
proof -
  have rq: "request_in_file 5 18 23 8" by (simp add: request_in_file_def U64_def)
  have "map (\<lambda>k. k * 8) [5 div 8 ..< Suc ((5 + 18 - 1) div 8)] = [0, 8, 16 :: nat]"
    by (simp add: upt_rec)
  with rq fixed_block_plan [OF rq, of 1000] show ?thesis by fastforce
qed

end
