(* ===== verification/Parquet_Layout.thy ===== *)
theory Parquet_Layout
  imports Chunk_Plan
begin

text \<open>
  Column-chunk granularity: the registry of Parquet column-chunk extents
  (\<open>src/parquet_layout_registry.cpp\<close>) and the planner that splits a read request along them
  (\<open>src/utils/column_chunk_planner.cpp\<close>). The planner meets the same contract \<open>plan_ok\<close> as the
  fixed-block split, and its cache entries never straddle an extent.
\<close>

section \<open>Extents\<close>

record FileExtent =
  fe_offset :: idx_t
  fe_size :: idx_t

definition fe_End :: "FileExtent \<Rightarrow> idx_t" where
  "fe_End e = u64_add (fe_offset e) (fe_size e)"

type_synonym layouts = "(string \<times> FileExtent list) list"

section \<open>The registry\<close>

text \<open>
  Zero-length extents and extents that start before the end of the last one kept are dropped.
\<close>

fun clean_extents :: "FileExtent list \<Rightarrow> FileExtent list \<Rightarrow> FileExtent list" where
  "clean_extents cleaned [] = cleaned"
| "clean_extents cleaned (extent # rest) =
     (if fe_size extent = 0 then clean_extents cleaned rest
      else if cleaned \<noteq> [] \<and> fe_offset extent < fe_End (last cleaned) then clean_extents cleaned rest
      else clean_extents (cleaned @ [extent]) rest)"

text \<open>
  \<open>std::sort\<close> by offset leaves the order of equal offsets open; \<open>srt\<close> is what it does, and
  \<open>std_sort\<close> what the standard promises of it.
\<close>

definition std_sort :: "(FileExtent list \<Rightarrow> FileExtent list) \<Rightarrow> bool" where
  "std_sort srt \<longleftrightarrow> (\<forall>xs. mset (srt xs) = mset xs \<and> sorted (map fe_offset (srt xs)))"

definition Register ::
  "(FileExtent list \<Rightarrow> FileExtent list) \<Rightarrow> string \<Rightarrow> FileExtent list \<Rightarrow> layouts \<Rightarrow> idx_t \<times> layouts" where
  "Register srt path extents ls =
     (let cleaned = clean_extents [] (srt extents)
      in (length cleaned, AList.update path cleaned ls))"

definition HasLayout :: "string \<Rightarrow> layouts \<Rightarrow> bool" where
  "HasLayout path ls \<longleftrightarrow> map_of ls path \<noteq> None"

text \<open>
  \<open>std::upper_bound\<close> and \<open>std::lower_bound\<close> return the partition point of the sorted vector:
  the end of the longest prefix whose elements satisfy the predicate.
\<close>

definition find_extent :: "idx_t \<Rightarrow> FileExtent list \<Rightarrow> FileExtent option" where
  "find_extent offset extents =
     (let before = takeWhile (\<lambda>e. \<not> offset < fe_offset e) extents
      in if before = [] then None
         else if offset < fe_End (last before) then Some (last before)
         else None)"

definition Find :: "string \<Rightarrow> idx_t \<Rightarrow> layouts \<Rightarrow> FileExtent option" where
  "Find path offset ls =
     (case map_of ls path of None \<Rightarrow> None | Some extents \<Rightarrow> find_extent offset extents)"

definition next_start :: "idx_t \<Rightarrow> FileExtent list \<Rightarrow> idx_t option" where
  "next_start offset extents =
     (case dropWhile (\<lambda>e. fe_offset e < offset) extents of [] \<Rightarrow> None | e # _ \<Rightarrow> Some (fe_offset e))"

definition NextStart :: "string \<Rightarrow> idx_t \<Rightarrow> layouts \<Rightarrow> idx_t option" where
  "NextStart path offset ls =
     (case map_of ls path of None \<Rightarrow> None | Some extents \<Rightarrow> next_start offset extents)"

definition List_layouts :: "layouts \<Rightarrow> (string \<times> idx_t \<times> idx_t) list" where
  "List_layouts ls =
     map (\<lambda>(path, es). (path, length es, fold (\<lambda>e covered. u64_add covered (fe_size e)) es 0)) ls"

definition layouts_Clear :: "layouts \<Rightarrow> layouts" where
  "layouts_Clear ls = []"

definition layouts_Clear_path :: "string \<Rightarrow> layouts \<Rightarrow> layouts" where
  "layouts_Clear_path path ls = AList.delete path ls"

text \<open>
  Registration from the footer. The SQL query over \<open>parquet_metadata\<close> runs inside DuckDB;
  \<open>query\<close> is what it answers for a path, an error or rows of start offset and byte count.
\<close>

definition footer_extents :: "(int \<times> int) list \<Rightarrow> FileExtent list" where
  "footer_extents rows =
     map (\<lambda>(start, nbytes). \<lparr>fe_offset = nat start, fe_size = nat nbytes\<rparr>)
       (filter (\<lambda>(start, nbytes). \<not> (start < 0 \<or> nbytes \<le> 0)) rows)"

definition RegisterParquetLayoutFromFooter ::
  "(FileExtent list \<Rightarrow> FileExtent list) \<Rightarrow> (string \<Rightarrow> string + (int \<times> int) list) \<Rightarrow>
   string \<Rightarrow> layouts \<Rightarrow> (idx_t \<times> layouts) result" where
  "RegisterParquetLayoutFromFooter srt query path ls =
     (case query path of
        Inl err \<Rightarrow> Inl (InvalidInputException (''Could not read Parquet metadata for '' @ path @ '': '' @ err))
      | Inr rows \<Rightarrow> Inr (Register srt path (footer_extents rows) ls))"

section \<open>The planner\<close>

record ColumnChunkPlanRequest =
  cp_buffer :: addr
  cp_requested_start_offset :: idx_t
  cp_requested_bytes_to_read :: idx_t
  cp_file_size :: idx_t
  cp_max_gap_entry_size :: idx_t

definition plan_end :: "ColumnChunkPlanRequest \<Rightarrow> idx_t" where
  "plan_end rq = u64_add (cp_requested_start_offset rq) (cp_requested_bytes_to_read rq)"

definition gap_cap :: "ColumnChunkPlanRequest \<Rightarrow> idx_t" where
  "gap_cap rq = (if 0 < cp_max_gap_entry_size rq then cp_max_gap_entry_size rq
                 else cp_requested_bytes_to_read rq)"

text \<open>The cache entry for position \<open>pos\<close>: the extent that holds it, or a synthesised gap entry.\<close>

definition plan_entry :: "ColumnChunkPlanRequest \<Rightarrow> string \<Rightarrow> layouts \<Rightarrow> idx_t \<Rightarrow> idx_t \<times> idx_t" where
  "plan_entry rq path ls pos =
     (case Find path pos ls of
        Some extent \<Rightarrow> (fe_offset extent, fe_size extent)
      | None \<Rightarrow>
          (let gap_end = (case NextStart path pos ls of
                            Some next \<Rightarrow> next
                          | None \<Rightarrow> max (plan_end rq) (cp_file_size rq))
           in (pos, min (gap_cap rq) (u64_sub gap_end pos))))"

text \<open>One round of the loop; \<open>None\<close> is a \<open>break\<close>.\<close>

definition plan_step ::
  "ColumnChunkPlanRequest \<Rightarrow> string \<Rightarrow> layouts \<Rightarrow> idx_t \<Rightarrow> (CacheReadChunk \<times> idx_t) option" where
  "plan_step rq path ls pos =
     (case plan_entry rq path ls pos of (entry_start, entry_size0) \<Rightarrow>
        if 0 < cp_file_size rq \<and> cp_file_size rq \<le> entry_start then None
        else
          (let entry_size = (if 0 < cp_file_size rq
                             then min entry_size0 (u64_sub (cp_file_size rq) entry_start) else entry_size0);
               entry_end = u64_add entry_start entry_size;
               copy_from = max pos entry_start;
               copy_to = min (plan_end rq) entry_end
           in if entry_size = 0 \<or> copy_to \<le> copy_from then None
              else Some (\<lparr>cr_requested_start_addr = cp_buffer rq + (copy_from - cp_requested_start_offset rq),
                          cr_requested_start_offset = copy_from,
                          cr_aligned_start_offset = entry_start,
                          cr_chunk_size = entry_size,
                          cr_bytes_to_copy = copy_to - copy_from\<rparr>, copy_to)))"

lemma plan_step_progress:
  "plan_step rq path ls pos = Some (c, pos') \<Longrightarrow> pos < pos' \<and> pos' \<le> plan_end rq"
  by (auto simp: plan_step_def Let_def split: prod.splits if_splits)

function plan_loop ::
  "ColumnChunkPlanRequest \<Rightarrow> string \<Rightarrow> layouts \<Rightarrow> idx_t \<Rightarrow> CacheReadChunk list" where
  "plan_loop rq path ls pos =
     (if pos < plan_end rq
      then (case plan_step rq path ls pos of
              None \<Rightarrow> []
            | Some (c, pos') \<Rightarrow> c # plan_loop rq path ls pos')
      else [])"
  by pat_completeness auto
termination
  by (relation "measure (\<lambda>(rq, path, ls, pos). plan_end rq - pos)")
    (auto dest: plan_step_progress)

declare plan_loop.simps [simp del]

definition PlanColumnChunks :: "ColumnChunkPlanRequest \<Rightarrow> string \<Rightarrow> layouts \<Rightarrow> CacheReadChunk list" where
  "PlanColumnChunks rq path ls =
     (if cp_requested_bytes_to_read rq = 0 then []
      else plan_loop rq path ls (cp_requested_start_offset rq))"

section \<open>Registered extents are disjoint and ascending\<close>

text \<open>The ends do not wrap around.\<close>

definition fits :: "FileExtent \<Rightarrow> bool" where
  "fits e \<longleftrightarrow> fe_offset e + fe_size e < U64"

definition extents_ok :: "FileExtent list \<Rightarrow> bool" where
  "extents_ok es \<longleftrightarrow>
     sorted_wrt (\<lambda>a b. fe_offset a + fe_size a \<le> fe_offset b) es \<and>
     (\<forall>e \<in> set es. 0 < fe_size e \<and> fits e)"

definition in_extent :: "idx_t \<Rightarrow> FileExtent \<Rightarrow> bool" where
  "in_extent off e \<longleftrightarrow> fe_offset e \<le> off \<and> off < fe_offset e + fe_size e"

lemma fe_End_exact: "fits e \<Longrightarrow> fe_End e = fe_offset e + fe_size e"
  by (simp add: fits_def fe_End_def u64_exact)

lemma extents_ok_snoc:
  assumes "extents_ok es" "0 < fe_size e" "fits e"
    and "es \<noteq> [] \<Longrightarrow> fe_offset (last es) + fe_size (last es) \<le> fe_offset e"
  shows "extents_ok (es @ [e])"
proof -
  have "fe_offset a + fe_size a \<le> fe_offset e" if "a \<in> set es" for a
  proof -
    have bs: "es = butlast es @ [last es]" using that by (cases es rule: rev_cases) auto
    have "sorted_wrt (\<lambda>a b. fe_offset a + fe_size a \<le> fe_offset b) (butlast es @ [last es])"
      using assms(1) bs by (simp add: extents_ok_def)
    then have "a \<in> set (butlast es) \<Longrightarrow> fe_offset a + fe_size a \<le> fe_offset (last es)"
      by (simp add: sorted_wrt_append)
    moreover have "a \<in> set (butlast es) \<or> a = last es" using that bs
      by (metis UnE empty_iff insertE list.set(1,2) set_append)
    moreover have "es \<noteq> []" using that by auto
    ultimately show ?thesis using assms(4) by force
  qed
  with assms show ?thesis by (auto simp: extents_ok_def sorted_wrt_append)
qed

text \<open>
  Cleaning keeps an ordered disjoint selection, and every other extent is empty or starts
  inside one that is kept.
\<close>

lemma clean_extents_ok:
  assumes "extents_ok cleaned" "\<forall>e \<in> set es. fits e" "sorted (map fe_offset (cleaned @ es))"
  shows "extents_ok (clean_extents cleaned es) \<and> set cleaned \<subseteq> set (clean_extents cleaned es) \<and>
    set (clean_extents cleaned es) \<subseteq> set cleaned \<union> set es \<and>
    (\<forall>e \<in> set es. 0 < fe_size e \<longrightarrow> (\<exists>k \<in> set (clean_extents cleaned es). in_extent (fe_offset e) k))"
  using assms
proof (induction cleaned es rule: clean_extents.induct)
  case (2 cleaned e rest)
  have srt: "sorted (map fe_offset (cleaned @ rest))" "sorted (map fe_offset ((cleaned @ [e]) @ rest))"
    using "2.prems"(3) by (auto simp: sorted_append)
  have fits: "\<forall>e \<in> set rest. fits e" "fits e" using "2.prems"(2) by auto
  have fl: "cleaned \<noteq> [] \<Longrightarrow> fits (last cleaned)" using "2.prems"(1) by (auto simp: extents_ok_def)
  consider (zero) "fe_size e = 0"
    | (overlap) "fe_size e \<noteq> 0" "cleaned \<noteq> []" "fe_offset e < fe_End (last cleaned)"
    | (keep) "fe_size e \<noteq> 0" "cleaned = [] \<or> \<not> fe_offset e < fe_End (last cleaned)" by blast
  then show ?case
  proof cases
    case zero
    with "2.IH"(1) [OF zero "2.prems"(1) fits(1) srt(1)] show ?thesis by auto
  next
    case overlap
    have "in_extent (fe_offset e) (last cleaned)"
      using overlap fl "2.prems"(3) by (simp add: in_extent_def fe_End_exact sorted_append)
    then have "\<exists>k \<in> set cleaned. in_extent (fe_offset e) k" using overlap(2) by (intro bexI) auto
    with overlap "2.IH"(2) [OF overlap(1) _ "2.prems"(1) fits(1) srt(1)] show ?thesis by auto
  next
    case keep
    have "extents_ok (cleaned @ [e])"
      using "2.prems"(1) keep fits(2) fl by (intro extents_ok_snoc) (auto simp: fe_End_exact)
    moreover have "in_extent (fe_offset e) e" using keep(1) by (simp add: in_extent_def)
    ultimately show ?thesis
      using keep "2.IH"(3) [OF keep(1) _ _ fits(1) srt(2)] by auto
  qed
qed simp

lemma Register_ok:
  assumes "std_sort srt" "\<forall>e \<in> set extents. fits e" "Register srt path extents ls = (n, ls')"
  obtains es where "map_of ls' = (map_of ls)(path \<mapsto> es)" "n = length es" "extents_ok es" "set es \<subseteq> set extents"
    "\<forall>e \<in> set extents. 0 < fe_size e \<longrightarrow> (\<exists>k \<in> set es. in_extent (fe_offset e) k)"
proof -
  let ?es = "clean_extents [] (srt extents)"
  have s: "sorted (map fe_offset (srt extents))" "set (srt extents) = set extents"
    using assms(1) by (auto simp: std_sort_def dest: mset_eq_setD)
  have "extents_ok ?es \<and> set ?es \<subseteq> set extents \<and>
      (\<forall>e \<in> set extents. 0 < fe_size e \<longrightarrow> (\<exists>k \<in> set ?es. in_extent (fe_offset e) k))"
    using clean_extents_ok [of "[]" "srt extents"] assms(2) s by (simp add: extents_ok_def)
  with assms(3) show ?thesis by (intro that [of ?es]) (auto simp: Register_def Let_def)
qed

section \<open>Looking up an extent\<close>

lemma extents_ok_Cons:
  "extents_ok (e # es) \<longleftrightarrow> 0 < fe_size e \<and> fits e \<and> extents_ok es \<and>
     (\<forall>x \<in> set es. fe_offset e + fe_size e \<le> fe_offset x)"
  by (auto simp: extents_ok_def)

lemma find_extent_Cons:
  assumes "extents_ok (e # es)"
  shows "find_extent off (e # es) =
    (if off < fe_offset e then None
     else case find_extent off es of
            Some x \<Rightarrow> Some x
          | None \<Rightarrow> if off < fe_offset e + fe_size e then Some e else None)"
proof -
  have e: "fits e" "0 < fe_size e" "\<forall>x \<in> set es. fe_offset e + fe_size e \<le> fe_offset x" "extents_ok es"
    using assms by (simp_all add: extents_ok_Cons)
  let ?b = "takeWhile (\<lambda>e. \<not> off < fe_offset e) es"
  have "off < fe_End (last ?b) \<or> fe_offset e + fe_size e \<le> off" if "?b \<noteq> []"
  proof -
    have "last ?b \<in> set ?b" using that by simp
    then have "last ?b \<in> set es" "\<not> off < fe_offset (last ?b)" by (auto dest: set_takeWhileD)
    with e(3) show ?thesis by fastforce
  qed
  with e(1) show ?thesis by (auto simp: find_extent_def Let_def fe_End_exact)
qed

lemma find_extent_iff:
  "extents_ok es \<Longrightarrow> find_extent off es = Some x \<longleftrightarrow> x \<in> set es \<and> in_extent off x"
proof (induction es arbitrary: x)
  case (Cons e es)
  have e: "0 < fe_size e" "extents_ok es" "\<forall>x \<in> set es. fe_offset e + fe_size e \<le> fe_offset x"
    using Cons.prems by (simp_all add: extents_ok_Cons)
  show ?case
  proof (cases "find_extent off es")
    case None
    then have "\<not> (x \<in> set es \<and> in_extent off x)" using Cons.IH [OF e(2)] by simp
    with None show ?thesis
      by (auto simp: find_extent_Cons [OF Cons.prems] in_extent_def)
  next
    case (Some y)
    then have y: "y \<in> set es" "in_extent off y" using Cons.IH [OF e(2)] by simp_all
    with Some Cons.IH [OF e(2)] e show ?thesis
      by (fastforce simp: find_extent_Cons [OF Cons.prems] in_extent_def)
  qed
qed (simp add: find_extent_def)

lemma next_start_Some:
  assumes "extents_ok es" "next_start off es = Some n"
  shows "\<exists>x \<in> set es. fe_offset x = n" "off \<le> n" "\<And>x. x \<in> set es \<Longrightarrow> fe_offset x < off \<or> n \<le> fe_offset x"
proof -
  let ?d = "dropWhile (\<lambda>e. fe_offset e < off) es"
  obtain e r where d: "?d = e # r" "n = fe_offset e"
    using assms(2) by (auto simp: next_start_def split: list.splits)
  have es: "es = takeWhile (\<lambda>e. fe_offset e < off) es @ e # r" using d(1) by (metis takeWhile_dropWhile_id)
  then show "\<exists>x \<in> set es. fe_offset x = n" using d(2) by (metis in_set_conv_decomp)
  show "off \<le> n" using d by (metis hd_dropWhile list.distinct(1) list.sel(1) not_le)
  have "\<forall>x \<in> set r. fe_offset e + fe_size e \<le> fe_offset x"
    using assms(1) es by (metis extents_ok_def list.set_intros(1) sorted_wrt.simps(2) sorted_wrt_append)
  then show "fe_offset x < off \<or> n \<le> fe_offset x" if "x \<in> set es" for x
    using that es d(2) by (metis Un_iff add_leD1 le_refl set_ConsD set_append set_takeWhileD)
qed

lemma next_start_None: "next_start off es = None \<Longrightarrow> x \<in> set es \<Longrightarrow> fe_offset x < off"
  by (auto simp: next_start_def split: list.splits)

section \<open>The planner meets the contract of a split\<close>

text \<open>
  What an entry made for a layout is: a whole extent, cut at the end of the file only, or a
  range that no extent meets.
\<close>

definition layout_entry :: "FileExtent list \<Rightarrow> idx_t \<Rightarrow> CacheReadChunk \<Rightarrow> bool" where
  "layout_entry es file_size c \<longleftrightarrow>
     (\<exists>x \<in> set es. cr_aligned_start_offset c = fe_offset x \<and>
        cr_chunk_size c = min (fe_size x) (file_size - fe_offset x)) \<or>
     (\<forall>x \<in> set es. cr_aligned_start_offset c + cr_chunk_size c \<le> fe_offset x \<or>
        fe_offset x + fe_size x \<le> cr_aligned_start_offset c)"

definition plan_request_ok :: "ColumnChunkPlanRequest \<Rightarrow> bool" where
  "plan_request_ok rq \<longleftrightarrow> 0 < cp_requested_bytes_to_read rq \<and>
     cp_requested_start_offset rq + cp_requested_bytes_to_read rq \<le> cp_file_size rq \<and> cp_file_size rq < U64"

lemma plan_end_exact:
  "plan_request_ok rq \<Longrightarrow> plan_end rq = cp_requested_start_offset rq + cp_requested_bytes_to_read rq"
  by (simp add: plan_request_ok_def plan_end_def u64_exact)

lemma plan_entry_ok:
  assumes rq: "plan_request_ok rq" and ls: "map_of ls path = Some es" "extents_ok es"
    and pos: "pos < plan_end rq" and entry: "plan_entry rq path ls pos = (start, len)"
  shows "start \<le> pos" "pos < start + len" "start + len < U64"
    and "(\<exists>x \<in> set es. start = fe_offset x \<and> len = fe_size x) \<or>
      (\<forall>x \<in> set es. start + len \<le> fe_offset x \<or> fe_offset x + fe_size x \<le> start)"
proof -
  have "start \<le> pos \<and> pos < start + len \<and> start + len < U64 \<and>
    ((\<exists>x \<in> set es. start = fe_offset x \<and> len = fe_size x) \<or>
      (\<forall>x \<in> set es. start + len \<le> fe_offset x \<or> fe_offset x + fe_size x \<le> start))"
  proof (cases "find_extent pos es")
    case (Some x)
    then have x: "x \<in> set es" "in_extent pos x" using find_extent_iff [OF ls(2)] by simp_all
    then have "fits x" using ls(2) by (auto simp: extents_ok_def)
    with Some x entry ls(1) show ?thesis
      by (auto simp: plan_entry_def Find_def in_extent_def fits_def)
  next
    case None
    then have out: "x \<in> set es \<Longrightarrow> \<not> in_extent pos x" for x
      using find_extent_iff [OF ls(2), of pos x] by simp
    define gap_end where "gap_end = (case next_start pos es of Some n \<Rightarrow> n | None \<Rightarrow> max (plan_end rq) (cp_file_size rq))"
    have e: "start = pos" "len = min (gap_cap rq) (u64_sub gap_end pos)"
      using entry None ls(1) by (auto simp: plan_entry_def Find_def NextStart_def gap_end_def Let_def)
    have ge: "pos < gap_end \<and> gap_end < U64 \<and>
        (\<forall>x \<in> set es. gap_end \<le> fe_offset x \<or> fe_offset x + fe_size x \<le> pos)"
    proof (cases "next_start pos es")
      case None
      then have "x \<in> set es \<Longrightarrow> fe_offset x + fe_size x \<le> pos" for x
        using next_start_None [OF None] out by (fastforce simp: in_extent_def)
      with None pos rq plan_end_exact [OF rq] show ?thesis
        by (auto simp: gap_end_def plan_request_ok_def)
    next
      case (Some n)
      note n = next_start_Some [OF ls(2) Some]
      obtain x where x: "x \<in> set es" "fe_offset x = n" using n(1) by blast
      then have "0 < fe_size x" "fits x" using ls(2) by (auto simp: extents_ok_def)
      with x out [of x] n(2) have "pos < n" "n < U64" by (auto simp: in_extent_def fits_def)
      moreover have "\<forall>y \<in> set es. n \<le> fe_offset y \<or> fe_offset y + fe_size y \<le> pos"
        using n(3) out by (fastforce simp: in_extent_def)
      ultimately show ?thesis using Some by (simp add: gap_end_def)
    qed
    then have "u64_sub gap_end pos = gap_end - pos" by (simp add: u64_exact)
    moreover have "0 < gap_cap rq" using rq by (simp add: gap_cap_def plan_request_ok_def)
    ultimately show ?thesis using e ge by (fastforce simp: min_def)
  qed
  then show "start \<le> pos" "pos < start + len" "start + len < U64"
    "(\<exists>x \<in> set es. start = fe_offset x \<and> len = fe_size x) \<or>
      (\<forall>x \<in> set es. start + len \<le> fe_offset x \<or> fe_offset x + fe_size x \<le> start)" by blast+
qed

lemma plan_step_ok:
  assumes rq: "plan_request_ok rq" and ls: "map_of ls path = Some es" "extents_ok es"
    and pos: "pos < plan_end rq"
  shows "\<exists>c. plan_step rq path ls pos = Some (c, pos + cr_bytes_to_copy c) \<and>
    chunk_within (cp_file_size rq) c \<and> cr_requested_start_offset c = pos \<and>
    cr_requested_start_addr c = cp_buffer rq + (pos - cp_requested_start_offset rq) \<and>
    layout_entry es (cp_file_size rq) c"
proof -
  obtain start len where e: "plan_entry rq path ls pos = (start, len)" by fastforce
  note en = plan_entry_ok [OF rq ls pos e]
  let ?fs = "cp_file_size rq"
  let ?n = "min len (?fs - start)"
  have fs: "plan_end rq \<le> ?fs" "?fs < U64" "0 < ?fs" using rq plan_end_exact [OF rq] by (auto simp: plan_request_ok_def)
  have x: "u64_sub ?fs start = ?fs - start" "u64_add start ?n = start + ?n"
    using fs en(1,3) pos by (auto intro!: u64_sub_exact u64_add_exact)
  have n: "0 < ?n" "pos < start + ?n" "start < ?fs" "start + ?n \<le> ?fs" using en(1,2) fs pos by auto
  let ?c = "\<lparr>cr_requested_start_addr = cp_buffer rq + (pos - cp_requested_start_offset rq),
    cr_requested_start_offset = pos, cr_aligned_start_offset = start, cr_chunk_size = ?n,
    cr_bytes_to_copy = min (plan_end rq) (start + ?n) - pos\<rparr>"
  have "plan_step rq path ls pos = Some (?c, pos + cr_bytes_to_copy ?c)"
    using n pos en(1) fs by (simp add: plan_step_def e Let_def x max_absorb1)
  moreover have "chunk_within ?fs ?c" using n pos en(1) by (simp add: chunk_within_def)
  moreover have "layout_entry es ?fs ?c"
    using en(4) by (fastforce simp: layout_entry_def)
  ultimately show ?thesis by (intro exI [of _ ?c]) simp
qed

lemma plan_loop_ok:
  assumes rq: "plan_request_ok rq" and ls: "map_of ls path = Some es" "extents_ok es"
    and "cp_requested_start_offset rq \<le> pos" "pos \<le> plan_end rq"
  shows "plan_ok (cp_file_size rq) (cp_buffer rq + (pos - cp_requested_start_offset rq)) pos
      (plan_loop rq path ls pos) (plan_end rq) \<and>
    (\<forall>c \<in> set (plan_loop rq path ls pos). layout_entry es (cp_file_size rq) c)"
  using assms(4,5)
proof (induction "plan_end rq - pos" arbitrary: pos rule: less_induct)
  case less
  show ?case
  proof (cases "pos < plan_end rq")
    case True
    from plan_step_ok [OF rq ls True] obtain c where c:
      "plan_step rq path ls pos = Some (c, pos + cr_bytes_to_copy c)" "chunk_within (cp_file_size rq) c"
      "cr_requested_start_offset c = pos" "layout_entry es (cp_file_size rq) c"
      "cr_requested_start_addr c = cp_buffer rq + (pos - cp_requested_start_offset rq)" by blast
    note pr = plan_step_progress [OF c(1)]
    have "cp_buffer rq + (pos - cp_requested_start_offset rq) + cr_bytes_to_copy c =
        cp_buffer rq + (pos + cr_bytes_to_copy c - cp_requested_start_offset rq)"
      using less.prems(1) by simp
    with less.hyps [of "pos + cr_bytes_to_copy c"] pr less.prems True c show ?thesis
      by (subst (1 2) plan_loop.simps) (auto simp: diff_less_mono2)
  next
    case False
    with less.prems show ?thesis by (simp add: plan_loop.simps)
  qed
qed

lemma column_split:
  assumes "plan_request_ok rq" "map_of ls path = Some es" "extents_ok es"
  shows "plan_ok (cp_file_size rq) (cp_buffer rq) (cp_requested_start_offset rq) (PlanColumnChunks rq path ls)
      (cp_requested_start_offset rq + cp_requested_bytes_to_read rq) \<and>
    (\<forall>c \<in> set (PlanColumnChunks rq path ls). layout_entry es (cp_file_size rq) c)"
  using plan_loop_ok [OF assms, of "cp_requested_start_offset rq"] assms(1) plan_end_exact [OF assms(1)]
  by (simp add: PlanColumnChunks_def plan_request_ok_def)

section \<open>Properties\<close>

text \<open>
  Property C20. Registering a layout stores disjoint, ascending, non-empty extents taken from the
  ones given, whatever \<open>std::sort\<close> does with equal offsets; an extent is left out only when it
  is empty or starts inside one that is stored; the number returned is the number stored; and
  \<open>Find\<close> on the new registry answers exactly the stored extent that holds the offset.
\<close>

theorem register_then_find:
  assumes "std_sort srt" "\<forall>e \<in> set extents. fits e" "Register srt path extents ls = (n, ls')"
  shows "\<exists>es. map_of ls' = (map_of ls)(path \<mapsto> es) \<and> n = length es \<and> extents_ok es \<and>
    set es \<subseteq> set extents \<and>
    (\<forall>e \<in> set extents. 0 < fe_size e \<longrightarrow> (\<exists>k \<in> set es. in_extent (fe_offset e) k)) \<and>
    (\<forall>off x. Find path off ls' = Some x \<longleftrightarrow> x \<in> set es \<and> in_extent off x)"
proof -
  obtain es where es: "map_of ls' = (map_of ls)(path \<mapsto> es)" "n = length es" "extents_ok es" "set es \<subseteq> set extents"
    "\<forall>e \<in> set extents. 0 < fe_size e \<longrightarrow> (\<exists>k \<in> set es. in_extent (fe_offset e) k)"
    using Register_ok [OF assms] .
  have "Find path off ls' = Some x \<longleftrightarrow> x \<in> set es \<and> in_extent off x" for off x
    using es(1) find_extent_iff [OF es(3)] by (simp add: Find_def)
  with es show ?thesis by blast
qed

lemma std_sort_sort_key: "std_sort (sort_key fe_offset)"
  by (simp add: std_sort_def)

definition example_extents :: "FileExtent list" where
  "example_extents = [\<lparr>fe_offset = 20, fe_size = 10\<rparr>, \<lparr>fe_offset = 4, fe_size = 8\<rparr>, \<lparr>fe_offset = 8, fe_size = 2\<rparr>]"

lemma example_extents_registered:
  "Register (sort_key fe_offset) ''f'' example_extents [] =
     (2, [(''f'', [\<lparr>fe_offset = 4, fe_size = 8\<rparr>, \<lparr>fe_offset = 20, fe_size = 10\<rparr>])])"
  by (simp add: Register_def example_extents_def Let_def fe_End_def u64_add_def U64_def)

lemma register_then_find_witness:
  "\<exists>es. map_of (snd (Register (sort_key fe_offset) ''f'' example_extents [])) ''f'' = Some es \<and> extents_ok es \<and>
    (\<forall>off x. Find ''f'' off (snd (Register (sort_key fe_offset) ''f'' example_extents [])) = Some x \<longleftrightarrow>
      x \<in> set es \<and> in_extent off x)"
proof -
  have "\<forall>e \<in> set example_extents. fits e" by (simp add: example_extents_def fits_def U64_def)
  from register_then_find [OF std_sort_sort_key this prod.collapse [symmetric], of "''f''" "[]"]
  show ?thesis by (metis fun_upd_same)
qed

text \<open>
  Property C19. The planner splits a request inside the file completely: its chunks are
  consecutive, inside the file and cover the destination without a gap or an overlap; and each
  cache entry it names is either one whole column chunk, cut at the end of the file only, or a
  range that meets no column chunk.
\<close>

theorem column_plan_ok:
  assumes "plan_request_ok rq" "map_of ls path = Some es" "extents_ok es"
  shows "plan_ok (cp_file_size rq) (cp_buffer rq) (cp_requested_start_offset rq) (PlanColumnChunks rq path ls)
      (cp_requested_start_offset rq + cp_requested_bytes_to_read rq) \<and>
    (\<forall>c \<in> set (PlanColumnChunks rq path ls). layout_entry es (cp_file_size rq) c)"
  using assms by (rule column_split)

lemma column_plan_ok_witness:
  "plan_ok 40 100 2 (PlanColumnChunks
      \<lparr>cp_buffer = 100, cp_requested_start_offset = 2, cp_requested_bytes_to_read = 25, cp_file_size = 40,
       cp_max_gap_entry_size = 16\<rparr> ''f'' (snd (Register (sort_key fe_offset) ''f'' example_extents []))) 27"
proof -
  have "extents_ok [\<lparr>fe_offset = 4, fe_size = 8\<rparr>, \<lparr>fe_offset = 20, fe_size = 10\<rparr>]"
    by (simp add: extents_ok_def fits_def U64_def)
  from column_plan_ok [OF _ _ this, of "\<lparr>cp_buffer = 100, cp_requested_start_offset = 2,
      cp_requested_bytes_to_read = 25, cp_file_size = 40, cp_max_gap_entry_size = 16\<rparr>"
      "snd (Register (sort_key fe_offset) ''f'' example_extents [])" "''f''"]
  show ?thesis by (simp add: example_extents_registered plan_request_ok_def U64_def)
qed

text \<open>Extents read from a footer never wrap around: their fields are non-negative 64-bit signed.\<close>

lemma footer_extents_fit:
  assumes "\<forall>(start, nbytes) \<in> set rows. start < 2 ^ 63 \<and> nbytes < 2 ^ 63"
  shows "\<forall>e \<in> set (footer_extents rows). fits e \<and> 0 < fe_size e"
proof
  fix e assume "e \<in> set (footer_extents rows)"
  then obtain start nbytes where r: "(start, nbytes) \<in> set rows" "0 \<le> start" "0 < nbytes"
      "e = \<lparr>fe_offset = nat start, fe_size = nat nbytes\<rparr>"
    by (auto simp: footer_extents_def)
  with assms have "start < 2 ^ 63" "nbytes < 2 ^ 63" by auto
  with r show "fits e \<and> 0 < fe_size e" by (simp add: fits_def U64_def)
qed

end
