(* ===== verification/Cache_Remap.thy ===== *)
theory Cache_Remap
  imports Chunk_Plan
begin

text \<open>
  Changing the block size keeps what is cached: \<open>RemapInMemCacheEntries\<close>
  (\<open>src/in_mem_cache_remap.cpp\<close>) joins the entries of a file into contiguous runs of one version
  and cuts each run along the new block grid.
\<close>

section \<open>Data\<close>

record CachedSlice =
  cs_byte_len :: idx_t
  cs_entry :: InMemCacheDataEntry

record Segment =
  sg_start :: idx_t
  sg_byte_len :: idx_t
  sg_entry :: InMemCacheDataEntry

type_synonym block_entry = "InMemCacheBlock \<times> InMemCacheDataEntry"
type_synonym file_sizes = "(string \<times> idx_t) list"

section \<open>Operations\<close>

text \<open>The block is positive in every call.\<close>

definition AlignUpToBlock :: "idx_t \<Rightarrow> idx_t \<Rightarrow> idx_t" where
  "AlignUpToBlock offset block =
     (let aligned = u64_mul (offset div block) block
      in if aligned < offset then u64_add aligned block else aligned)"

text \<open>
  The index into the segments only moves forward, so the segments from it on stand for it. The
  three assertions are the checks in front of the copy.
\<close>

definition skip_segments :: "idx_t \<Rightarrow> Segment list \<Rightarrow> Segment list" where
  "skip_segments pos segs = dropWhile (\<lambda>seg. u64_add (sg_start seg) (sg_byte_len seg) \<le> pos) segs"

lemma inner_less:
  "sg_start seg \<le> pos \<Longrightarrow> pos < u64_add (sg_start seg) (sg_byte_len seg) \<Longrightarrow> pos - sg_start seg < sg_byte_len seg"
  unfolding u64_add_def by (metis add_diff_inverse_nat less_diff_conv2 mod_less_eq_dividend not_less order_less_le_trans
      add.commute)

function copy_range ::
  "Segment list \<Rightarrow> idx_t \<Rightarrow> idx_t \<Rightarrow> idx_t \<Rightarrow> byte list \<Rightarrow> byte list result" where
  "copy_range segs global_start copy_len don dest =
     (if don < copy_len
      then (let pos = u64_add global_start don
            in case skip_segments pos segs of
                 [] \<Rightarrow> Inl (AssertionFailure ''idx < segs.size()'')
               | seg # rest \<Rightarrow>
                   if \<not> sg_start seg \<le> pos then Inl (AssertionFailure ''pos >= seg.start'')
                   else if \<not> pos < u64_add (sg_start seg) (sg_byte_len seg)
                   then Inl (AssertionFailure ''pos < seg.start + seg.byte_len'')
                   else (let inner = pos - sg_start seg;
                             chunk = min (sg_byte_len seg - inner) (copy_len - don)
                         in copy_range (seg # rest) global_start copy_len (don + chunk)
                              (overwrite don (slice inner chunk (pc_data (de_data (sg_entry seg)))) dest)))
      else Inr dest)"
  by pat_completeness auto
termination
  by (relation "measure (\<lambda>(segs, g, copy_len, don, dest). copy_len - don)")
    (auto dest: inner_less)

declare copy_range.simps [simp del]

definition CopyRange :: "Segment list \<Rightarrow> idx_t \<Rightarrow> idx_t \<Rightarrow> byte list \<Rightarrow> byte list result" where
  "CopyRange segs global_start copy_len dest = copy_range segs global_start copy_len 0 dest"

text \<open>\<open>emplace\<close> keeps the slice already stored under an offset.\<close>

definition index_emplace :: "idx_t \<Rightarrow> CachedSlice \<Rightarrow> (idx_t \<times> CachedSlice) list \<Rightarrow> (idx_t \<times> CachedSlice) list" where
  "index_emplace off sl m = (case map_of m off of Some _ \<Rightarrow> m | None \<Rightarrow> om_insert off sl m)"

type_synonym file_index = "(string \<times> (idx_t \<times> CachedSlice) list) list"

definition index_entry :: "block_entry \<Rightarrow> file_index \<Rightarrow> file_index" where
  "index_entry kv by_file =
     (let key = fst kv;
          blk_map = (case map_of by_file (fname key) of Some m \<Rightarrow> m | None \<Rightarrow> [])
      in AList.update (fname key)
           (index_emplace (start_off key) \<lparr>cs_byte_len = blk_size key, cs_entry = snd kv\<rparr> blk_map) by_file)"

fun build_index :: "block_entry list \<Rightarrow> file_index \<Rightarrow> file_index result" where
  "build_index [] by_file = Inr by_file"
| "build_index (kv # taken) by_file =
     (if chunk_empty (de_data (snd kv)) then Inl (AssertionFailure ''!val->data.empty()'')
      else if pc_length (de_data (snd kv)) \<noteq> blk_size (fst kv)
      then Inl (AssertionFailure ''val->data.length == key.blk_size'')
      else build_index taken (index_entry kv by_file))"

definition BuildFileIndex :: "block_entry list \<Rightarrow> file_index result" where
  "BuildFileIndex taken = build_index taken []"

text \<open>
  One new entry: a fresh chunk of \<open>piece_len\<close> bytes filled from the run. \<open>page\<close> is the page size
  and \<open>junk\<close> the content of fresh memory.
\<close>

definition emit_piece ::
  "idx_t \<Rightarrow> (nat \<Rightarrow> byte) \<Rightarrow> string \<Rightarrow> Segment list \<Rightarrow> string \<Rightarrow> idx_t \<Rightarrow> idx_t \<Rightarrow> block_entry result" where
  "emit_piece page junk f segs tag B piece_len =
     (let chunk = AllocatePageAlignedChunk page junk piece_len
      in case CopyRange segs B piece_len (pc_data chunk) of
           Inl e \<Rightarrow> Inl e
         | Inr bytes \<Rightarrow>
             Inr (InMemCacheBlock f B piece_len,
                  \<lparr>de_data = chunk\<lparr>pc_data := bytes, pc_length := piece_len\<rparr>, de_version_tag = tag\<rparr>))"

text \<open>The run ends inside the file: whole blocks only.\<close>

partial_function (option) emit_whole ::
  "idx_t \<Rightarrow> (nat \<Rightarrow> byte) \<Rightarrow> string \<Rightarrow> Segment list \<Rightarrow> string \<Rightarrow> idx_t \<Rightarrow> idx_t \<Rightarrow> idx_t \<Rightarrow>
   block_entry list \<Rightarrow> block_entry list run" where
  "emit_whole page junk f segs tag new_block_size run_end B out =
     (if u64_add B new_block_size \<le> run_end
      then (case emit_piece page junk f segs tag B new_block_size of
              Inl e \<Rightarrow> Some (Inl e)
            | Inr p \<Rightarrow> emit_whole page junk f segs tag new_block_size run_end (u64_add B new_block_size) (out @ [p]))
      else Some (Inr out))"

text \<open>The run reaches the end of the file, or its size is not known: the last piece may be short.\<close>

partial_function (option) emit_tail ::
  "idx_t \<Rightarrow> (nat \<Rightarrow> byte) \<Rightarrow> string \<Rightarrow> Segment list \<Rightarrow> string \<Rightarrow> idx_t \<Rightarrow> idx_t \<Rightarrow> idx_t \<Rightarrow>
   block_entry list \<Rightarrow> block_entry list run" where
  "emit_tail page junk f segs tag new_block_size emit_end B out =
     (if B < emit_end
      then (let piece_len = min new_block_size (emit_end - B)
            in case emit_piece page junk f segs tag B piece_len of
                 Inl e \<Rightarrow> Some (Inl e)
               | Inr p \<Rightarrow> emit_tail page junk f segs tag new_block_size emit_end
                            (AlignUpToBlock (u64_add B piece_len) new_block_size) (out @ [p]))
      else Some (Inr out))"

definition EmitRunOnNewGrid ::
  "idx_t \<Rightarrow> (nat \<Rightarrow> byte) \<Rightarrow> string \<Rightarrow> idx_t \<Rightarrow> idx_t \<Rightarrow> Segment list \<Rightarrow> string \<Rightarrow> idx_t \<Rightarrow> file_sizes \<Rightarrow>
   block_entry list \<Rightarrow> block_entry list run" where
  "EmitRunOnNewGrid page junk f run_start run_end segs tag new_block_size sizes out =
     (let emit_end = (case map_of sizes f of Some file_size \<Rightarrow> min run_end file_size | None \<Rightarrow> run_end)
      in if emit_end \<le> run_start then Some (Inr out)
         else if (case map_of sizes f of Some file_size \<Rightarrow> run_end < file_size | None \<Rightarrow> False)
         then emit_whole page junk f segs tag new_block_size run_end (AlignUpToBlock run_start new_block_size) out
         else emit_tail page junk f segs tag new_block_size emit_end (AlignUpToBlock run_start new_block_size) out)"

text \<open>The run that is being collected.\<close>

record remap_run =
  rr_segments :: "Segment list"
  rr_start :: idx_t
  rr_end :: idx_t
  rr_tag :: string

definition begin_run :: "idx_t \<Rightarrow> idx_t \<Rightarrow> InMemCacheDataEntry \<Rightarrow> remap_run" where
  "begin_run s len entry =
     \<lparr>rr_segments = [\<lparr>sg_start = s, sg_byte_len = len, sg_entry = entry\<rparr>], rr_start = s,
      rr_end = u64_add s len, rr_tag = de_version_tag entry\<rparr>"

definition flush_run ::
  "idx_t \<Rightarrow> (nat \<Rightarrow> byte) \<Rightarrow> string \<Rightarrow> idx_t \<Rightarrow> file_sizes \<Rightarrow> remap_run option \<Rightarrow> block_entry list \<Rightarrow>
   block_entry list run" where
  "flush_run page junk f new_block_size sizes run out =
     (case run of
        None \<Rightarrow> Some (Inr out)
      | Some r \<Rightarrow> EmitRunOnNewGrid page junk f (rr_start r) (rr_end r) (rr_segments r) (rr_tag r)
                    new_block_size sizes out)"

fun remap_slices ::
  "idx_t \<Rightarrow> (nat \<Rightarrow> byte) \<Rightarrow> string \<Rightarrow> idx_t \<Rightarrow> file_sizes \<Rightarrow> (idx_t \<times> CachedSlice) list \<Rightarrow> remap_run option \<Rightarrow>
   block_entry list \<Rightarrow> block_entry list run" where
  "remap_slices page junk f nbs sizes [] run out = flush_run page junk f nbs sizes run out"
| "remap_slices page junk f nbs sizes ((s, sl) # rest) run out =
     (let len = cs_byte_len sl; entry = cs_entry sl
      in if len = 0 then remap_slices page junk f nbs sizes rest run out
         else (case run of
           None \<Rightarrow> remap_slices page junk f nbs sizes rest (Some (begin_run s len entry)) out
         | Some r \<Rightarrow>
             if s < rr_end r then remap_slices page junk f nbs sizes rest run out
             else if s = rr_end r \<and> de_version_tag entry = rr_tag r
             then remap_slices page junk f nbs sizes rest
                    (Some (r\<lparr>rr_end := u64_add s len,
                             rr_segments := rr_segments r @ [\<lparr>sg_start = s, sg_byte_len = len, sg_entry = entry\<rparr>]\<rparr>)) out
             else run_bind (flush_run page junk f nbs sizes run out)
                    (\<lambda>out. remap_slices page junk f nbs sizes rest (Some (begin_run s len entry)) out)))"

definition RemapOneFile ::
  "idx_t \<Rightarrow> (nat \<Rightarrow> byte) \<Rightarrow> string \<Rightarrow> (idx_t \<times> CachedSlice) list \<Rightarrow> idx_t \<Rightarrow> file_sizes \<Rightarrow> block_entry list \<Rightarrow>
   block_entry list run" where
  "RemapOneFile page junk f blk_map new_block_size sizes out =
     remap_slices page junk f new_block_size sizes blk_map None out"

fun remap_files ::
  "idx_t \<Rightarrow> (nat \<Rightarrow> byte) \<Rightarrow> idx_t \<Rightarrow> file_sizes \<Rightarrow> file_index \<Rightarrow> block_entry list \<Rightarrow> block_entry list run" where
  "remap_files page junk nbs sizes [] out = Some (Inr out)"
| "remap_files page junk nbs sizes ((f, blk_map) # rest) out =
     run_bind (RemapOneFile page junk f blk_map nbs sizes out) (\<lambda>out. remap_files page junk nbs sizes rest out)"

definition RemapInMemCacheEntries ::
  "idx_t \<Rightarrow> (nat \<Rightarrow> byte) \<Rightarrow> block_entry list \<Rightarrow> idx_t \<Rightarrow> file_sizes \<Rightarrow> block_entry list run" where
  "RemapInMemCacheEntries page junk taken new_block_size sizes =
     (if new_block_size = 0 then Some (Inr [])
      else (case BuildFileIndex taken of
              Inl e \<Rightarrow> Some (Inl e)
            | Inr by_file \<Rightarrow> remap_files page junk new_block_size sizes by_file []))"

section \<open>Entries that hold what the file holds\<close>

text \<open>
  \<open>content f tag\<close> is what the file \<open>f\<close> holds in the version \<open>tag\<close>. An entry is sound when its
  chunk holds the bytes of the block its key names.
\<close>

type_synonym contents = "string \<Rightarrow> string \<Rightarrow> byte list"

definition chunk_holds :: "byte list \<Rightarrow> idx_t \<Rightarrow> idx_t \<Rightarrow> page_chunk \<Rightarrow> bool" where
  "chunk_holds fc off len c \<longleftrightarrow>
     chunk_wf c \<and> pc_length c = len \<and> off + len \<le> length fc \<and> chunk_bytes c = slice off len fc"

definition entry_sound :: "contents \<Rightarrow> InMemCacheBlock \<Rightarrow> InMemCacheDataEntry \<Rightarrow> bool" where
  "entry_sound content k e \<longleftrightarrow>
     0 < blk_size k \<and> chunk_holds (content (fname k) (de_version_tag e)) (start_off k) (blk_size k) (de_data e)"

lemma chunk_holds_slice:
  assumes "chunk_holds fc off len c" "i + n \<le> len"
  shows "slice i n (pc_data c) = slice (off + i) n fc"
proof -
  have "slice i n (pc_data c) = slice i n (chunk_bytes c)"
    using assms by (simp add: chunk_holds_def chunk_bytes_def slice_def drop_take take_take min_def)
  with assms show ?thesis by (simp add: chunk_holds_def slice_slice)
qed

lemma chunk_holds_wfI:
  assumes "length bytes = cap" "len \<le> cap" "off + len \<le> length fc" "take len bytes = slice off len fc"
  shows "chunk_holds fc off len \<lparr>pc_data = bytes, pc_length = len, pc_capacity = cap\<rparr>"
  using assms by (simp add: chunk_holds_def chunk_wf_def chunk_bytes_def)

section \<open>A run of segments\<close>

fun run_ok :: "byte list \<Rightarrow> idx_t \<Rightarrow> Segment list \<Rightarrow> idx_t \<Rightarrow> bool" where
  "run_ok fc a [] b \<longleftrightarrow> a = b"
| "run_ok fc a (sg # sgs) b \<longleftrightarrow>
     sg_start sg = a \<and> 0 < sg_byte_len sg \<and> chunk_holds fc a (sg_byte_len sg) (de_data (sg_entry sg)) \<and>
     run_ok fc (a + sg_byte_len sg) sgs b"

lemma run_ok_le: "run_ok fc a segs b \<Longrightarrow> a \<le> b"
  by (induction segs arbitrary: a) fastforce+

lemma run_ok_end: "run_ok fc a segs b \<Longrightarrow> segs \<noteq> [] \<Longrightarrow> b \<le> length fc"
proof (induction segs arbitrary: a)
  case (Cons sg sgs)
  then show ?case by (cases "sgs = []") (auto simp: chunk_holds_def)
qed simp

lemma run_ok_snoc:
  "run_ok fc a (segs @ [sg]) b \<longleftrightarrow>
   (\<exists>m. run_ok fc a segs m \<and> sg_start sg = m \<and> 0 < sg_byte_len sg \<and>
      chunk_holds fc m (sg_byte_len sg) (de_data (sg_entry sg)) \<and> b = m + sg_byte_len sg)"
  by (induction segs arbitrary: a) auto

lemma skip_segments_run:
  assumes "run_ok fc a segs b" "a \<le> pos" "pos < b" "length fc < U64"
  shows "\<exists>sg rest. skip_segments pos segs = sg # rest \<and> sg_start sg \<le> pos \<and>
    pos < sg_start sg + sg_byte_len sg \<and> run_ok fc (sg_start sg) (sg # rest) b"
  using assms(1,2)
proof (induction segs arbitrary: a)
  case Nil
  with assms(3) show ?case by simp
next
  case (Cons sg sgs)
  then have sg: "sg_start sg = a" "chunk_holds fc a (sg_byte_len sg) (de_data (sg_entry sg))"
      "run_ok fc (a + sg_byte_len sg) sgs b" by simp_all
  have ex: "u64_add (sg_start sg) (sg_byte_len sg) = a + sg_byte_len sg"
    using sg assms(4) by (simp add: chunk_holds_def u64_exact)
  show ?case
  proof (cases "a + sg_byte_len sg \<le> pos")
    case True
    with Cons.IH [OF sg(3)] ex show ?thesis by (simp add: skip_segments_def)
  next
    case False
    with ex sg Cons.prems show ?thesis by (simp add: skip_segments_def)
  qed
qed

lemma copy_range_ok:
  assumes "run_ok fc a segs b" "a \<le> g + don" "g + n \<le> b" "don \<le> n" "n \<le> length dest"
    and "take don dest = slice g don fc" "length fc < U64" "segs \<noteq> []"
  shows "\<exists>dest'. copy_range segs g n don dest = Inr dest' \<and> length dest' = length dest \<and>
    take n dest' = slice g n fc"
  using assms(1-6) assms(8)
proof (induction segs g n don dest arbitrary: a rule: copy_range.induct)
  case (1 segs g n don dest)
  have bl: "b \<le> length fc" using run_ok_end "1.prems"(1,7) by blast
  show ?case
  proof (cases "don < n")
    case True
    let ?pos = "u64_add g don"
    have pos: "?pos = g + don" using "1.prems"(3) True bl assms(7) by (simp add: u64_exact)
    obtain sg rest where sg: "skip_segments ?pos segs = sg # rest" "sg_start sg \<le> ?pos"
        "?pos < sg_start sg + sg_byte_len sg" "run_ok fc (sg_start sg) (sg # rest) b"
      using skip_segments_run [OF "1.prems"(1), of "g + don"] "1.prems"(2,3) True assms(7) pos by auto
    have hold: "chunk_holds fc (sg_start sg) (sg_byte_len sg) (de_data (sg_entry sg))" using sg(4) by simp
    have ex: "u64_add (sg_start sg) (sg_byte_len sg) = sg_start sg + sg_byte_len sg"
      using hold assms(7) by (simp add: chunk_holds_def u64_exact)
    let ?inner = "?pos - sg_start sg"
    let ?chunk = "min (sg_byte_len sg - ?inner) (n - don)"
    let ?bs = "slice ?inner ?chunk (pc_data (de_data (sg_entry sg)))"
    have in_len: "?inner + ?chunk \<le> sg_byte_len sg" using sg(2,3) by simp
    have bs: "?bs = slice (g + don) ?chunk fc" using chunk_holds_slice [OF hold in_len] sg(2) pos by simp
    have "g + don + ?chunk \<le> length fc" using "1.prems"(3) bl True by simp
    then have lb: "length ?bs = ?chunk" unfolding bs by simp
    have "take (don + ?chunk) (overwrite don ?bs dest) = take don dest @ ?bs"
      using take_overwrite [of don dest ?bs] lb "1.prems"(4,5) by simp
    also have "\<dots> = slice g (don + ?chunk) fc" unfolding bs "1.prems"(6) by (simp add: slice_append_slice)
    finally have tk: "take (don + ?chunk) (overwrite don ?bs dest) = slice g (don + ?chunk) fc" .
    have "don + length ?bs \<le> length dest" unfolding lb using "1.prems"(5) True by simp
    then have len: "length (overwrite don ?bs dest) = length dest" by (rule length_overwrite)
    have "copy_range segs g n don dest =
        copy_range (sg # rest) g n (don + ?chunk) (overwrite don ?bs dest)"
      using True sg(1,2,3) ex by (subst copy_range.simps) (simp add: Let_def)
    moreover have "\<exists>dest'. copy_range (sg # rest) g n (don + ?chunk) (overwrite don ?bs dest) = Inr dest' \<and>
        length dest' = length (overwrite don ?bs dest) \<and> take n dest' = slice g n fc"
      using sg pos ex True tk len "1.prems"(3,5)
      by (intro "1.IH" [OF True refl sg(1) _ _ refl refl sg(4)]) auto
    ultimately show ?thesis using len by simp
  next
    case False
    with "1.prems"(4,6) show ?thesis by (simp add: copy_range.simps)
  qed
qed

section \<open>Cutting a run along the new grid\<close>

definition remap_bounds :: "contents \<Rightarrow> idx_t \<Rightarrow> idx_t \<Rightarrow> bool" where
  "remap_bounds content page nbs \<longleftrightarrow>
     0 < page \<and> 0 < nbs \<and> (\<forall>f tag. length (content f tag) + 2 * nbs + 2 * page < U64)"

text \<open>The new entries: sound, on the new grid, and no longer than a new block.\<close>

definition grid_entry :: "contents \<Rightarrow> idx_t \<Rightarrow> block_entry \<Rightarrow> bool" where
  "grid_entry content nbs p \<longleftrightarrow>
     entry_sound content (fst p) (snd p) \<and> start_off (fst p) mod nbs = 0 \<and> blk_size (fst p) \<le> nbs"

lemma remap_boundsD:
  assumes "remap_bounds content page nbs"
  shows "0 < page" "0 < nbs" "length (content f tag) + 2 * nbs + 2 * page < U64"
  using assms by (simp_all add: remap_bounds_def)

lemma AlignUpToBlock_ok:
  assumes "0 < block" "offset + block < U64"
  shows "AlignUpToBlock offset block mod block = 0" "offset \<le> AlignUpToBlock offset block"
    and "AlignUpToBlock offset block < offset + block"
proof -
  let ?a = "offset div block * block"
  have a: "?a \<le> offset" "offset < ?a + block" using div_mult_floor [where a = offset and b = block] assms(1) by auto
  then have "u64_mul (offset div block) block = ?a" "u64_add ?a block = ?a + block"
    using assms(2) by (intro u64_mul_exact u64_add_exact; linarith)+
  then have "AlignUpToBlock offset block = (if ?a < offset then ?a + block else ?a)"
    by (simp add: AlignUpToBlock_def Let_def)
  then consider "AlignUpToBlock offset block = ?a + block" "?a < offset" | "AlignUpToBlock offset block = ?a" "\<not> ?a < offset"
    by (auto split: if_splits)
  then have "AlignUpToBlock offset block mod block = 0 \<and> offset \<le> AlignUpToBlock offset block \<and>
      AlignUpToBlock offset block < offset + block"
  proof cases
    case 1
    then show ?thesis using a by (simp only: mod_add_self2 mod_mult_self2_is_0) linarith
  next
    case 2
    then show ?thesis using a assms(1) by (simp only: mod_mult_self2_is_0) linarith
  qed
  then show "AlignUpToBlock offset block mod block = 0" "offset \<le> AlignUpToBlock offset block"
    "AlignUpToBlock offset block < offset + block" by blast+
qed

lemma emit_piece_ok:
  assumes run: "run_ok (content f tag) a segs b" "segs \<noteq> []" and B: "a \<le> B" "B + n \<le> b" "0 < n"
    and bd: "0 < page" "length (content f tag) + 2 * page < U64"
  shows "\<exists>e. emit_piece page junk f segs tag B n = Inr (InMemCacheBlock f B n, e) \<and>
    de_version_tag e = tag \<and> entry_sound content (InMemCacheBlock f B n) e"
proof -
  let ?fc = "content f tag" and ?chunk = "AllocatePageAlignedChunk page junk n"
  have b: "b \<le> length ?fc" using run by (rule run_ok_end)
  then have n: "n + 2 * page < U64" using B bd by linarith
  note al = AllocatePageAlignedChunk_ok [OF bd(1) n, of junk]
  have dl: "length (pc_data ?chunk) = pc_capacity ?chunk" using al(4) by (simp add: chunk_wf_def)
  have "\<exists>bytes. copy_range segs B n 0 (pc_data ?chunk) = Inr bytes \<and> length bytes = length (pc_data ?chunk) \<and>
      take n bytes = slice B n ?fc"
    using run B al(1) bd dl by (intro copy_range_ok [where a = a and b = b]) auto
  then obtain bytes where bytes: "CopyRange segs B n (pc_data ?chunk) = Inr bytes"
      "length bytes = pc_capacity ?chunk" "take n bytes = slice B n ?fc"
    using dl by (auto simp: CopyRange_def)
  have "chunk_holds ?fc B n (?chunk\<lparr>pc_data := bytes, pc_length := n\<rparr>)"
    using bytes al(1) B b by (simp add: chunk_holds_def chunk_wf_def chunk_bytes_def)
  with bytes(1) B(3) show ?thesis by (simp add: emit_piece_def Let_def entry_sound_def)
qed

lemma emit_whole_ok:
  assumes run: "run_ok (content f tag) a segs b" "segs \<noteq> []" and bd: "remap_bounds content page nbs"
    and "a \<le> B" "B \<le> length (content f tag) + nbs" "B mod nbs = 0"
  shows "\<exists>ps. emit_whole page junk f segs tag nbs b B out = Some (Inr (out @ ps)) \<and>
    (\<forall>p \<in> set ps. grid_entry content nbs p \<and> fname (fst p) = f \<and> de_version_tag (snd p) = tag)"
  using assms(4-6)
proof (induction "b - B" arbitrary: B out rule: less_induct)
  case less
  note D = remap_boundsD(1,2) [OF bd] remap_boundsD(3) [OF bd, where f = f and tag = tag]
  have b: "b \<le> length (content f tag)" using run by (rule run_ok_end)
  have ex: "u64_add B nbs = B + nbs" using less.prems(2) D by (intro u64_add_exact) linarith
  show ?case
  proof (cases "u64_add B nbs \<le> b")
    case False
    then show ?thesis by (subst emit_whole.simps) simp
  next
    case True
    obtain e where e: "emit_piece page junk f segs tag B nbs = Inr (InMemCacheBlock f B nbs, e)"
        "de_version_tag e = tag" "entry_sound content (InMemCacheBlock f B nbs) e"
      using emit_piece_ok [where content = content and f = f and tag = tag, OF run, of B nbs page junk] less.prems D True ex by auto
    then have "grid_entry content nbs (InMemCacheBlock f B nbs, e)"
      using less.prems(3) by (simp add: grid_entry_def)
    moreover have "emit_whole page junk f segs tag nbs b B out =
        emit_whole page junk f segs tag nbs b (B + nbs) (out @ [(InMemCacheBlock f B nbs, e)])"
      using True e(1) by (subst emit_whole.simps) (simp add: ex)
    moreover have "(B + nbs) mod nbs = 0" using less.prems(3) by simp
    ultimately show ?thesis
      using less.hyps [of "B + nbs" "out @ [(InMemCacheBlock f B nbs, e)]"] less.prems D True ex b e(2)
      by fastforce
  qed
qed

lemma emit_tail_ok:
  assumes run: "run_ok (content f tag) a segs b" "segs \<noteq> []" and bd: "remap_bounds content page nbs"
    and e: "e \<le> b" and "a \<le> B" "B mod nbs = 0"
  shows "\<exists>ps. emit_tail page junk f segs tag nbs e B out = Some (Inr (out @ ps)) \<and>
    (\<forall>p \<in> set ps. grid_entry content nbs p \<and> fname (fst p) = f \<and> de_version_tag (snd p) = tag)"
  using assms(5,6)
proof (induction "e - B" arbitrary: B out rule: less_induct)
  case less
  note D = remap_boundsD(1,2) [OF bd] remap_boundsD(3) [OF bd, where f = f and tag = tag]
  have b: "b \<le> length (content f tag)" using run by (rule run_ok_end)
  show ?case
  proof (cases "B < e")
    case False
    then show ?thesis by (subst emit_tail.simps) simp
  next
    case True
    let ?n = "min nbs (e - B)" and ?B = "AlignUpToBlock (B + min nbs (e - B)) nbs"
    have n: "0 < ?n" "B + ?n \<le> e" using True D(2) by auto
    have ex: "u64_add B ?n = B + ?n" using n(2) assms(4) b D by (intro u64_add_exact) linarith
    obtain x where x: "emit_piece page junk f segs tag B ?n = Inr (InMemCacheBlock f B ?n, x)"
        "de_version_tag x = tag" "entry_sound content (InMemCacheBlock f B ?n) x"
      using emit_piece_ok [where content = content and f = f and tag = tag, OF run less.prems(1) _ n(1), of page junk] n(2) assms(4) D by auto
    then have g: "grid_entry content nbs (InMemCacheBlock f B ?n, x)"
      using less.prems(2) by (simp add: grid_entry_def)
    have al: "?B mod nbs = 0" "B + ?n \<le> ?B"
      using AlignUpToBlock_ok [of nbs "B + ?n"] D n(2) assms(4) b by auto
    have "emit_tail page junk f segs tag nbs e B out =
        emit_tail page junk f segs tag nbs e ?B (out @ [(InMemCacheBlock f B ?n, x)])"
      using True x(1) by (subst emit_tail.simps) (simp add: ex Let_def)
    with less.hyps [of ?B "out @ [(InMemCacheBlock f B ?n, x)]"] less.prems True al n g x(2)
    show ?thesis by fastforce
  qed
qed

definition run_inv :: "contents \<Rightarrow> string \<Rightarrow> remap_run \<Rightarrow> bool" where
  "run_inv content f r \<longleftrightarrow>
     run_ok (content f (rr_tag r)) (rr_start r) (rr_segments r) (rr_end r) \<and> rr_segments r \<noteq> []"

lemma flush_run_ok:
  assumes run: "\<And>r. run = Some r \<Longrightarrow> run_inv content f r" and bd: "remap_bounds content page nbs"
  shows "\<exists>ps. flush_run page junk f nbs sizes run out = Some (Inr (out @ ps)) \<and>
    (\<forall>p \<in> set ps. grid_entry content nbs p \<and> fname (fst p) = f)"
proof (cases run)
  case (Some r)
  let ?fc = "content f (rr_tag r)"
  note D = remap_boundsD(1,2) [OF bd] remap_boundsD(3) [OF bd, where f = f and tag = "rr_tag r"]
  have r: "run_ok ?fc (rr_start r) (rr_segments r) (rr_end r)" "rr_segments r \<noteq> []"
    using run [OF Some] by (simp_all add: run_inv_def)
  have e: "rr_start r \<le> rr_end r" "rr_end r \<le> length ?fc" using r run_ok_le run_ok_end by blast+
  let ?B = "AlignUpToBlock (rr_start r) nbs"
  have B: "?B mod nbs = 0" "rr_start r \<le> ?B" "?B \<le> length ?fc + nbs"
    using AlignUpToBlock_ok [of nbs "rr_start r"] D e by auto
  have whole: "\<exists>ps. emit_whole page junk f (rr_segments r) (rr_tag r) nbs (rr_end r) ?B out = Some (Inr (out @ ps)) \<and>
      (\<forall>p \<in> set ps. grid_entry content nbs p \<and> fname (fst p) = f)"
    using emit_whole_ok [where content = content and f = f, OF r bd B(2,3,1)] by blast
  have tail: "\<exists>ps. emit_tail page junk f (rr_segments r) (rr_tag r) nbs e ?B out = Some (Inr (out @ ps)) \<and>
      (\<forall>p \<in> set ps. grid_entry content nbs p \<and> fname (fst p) = f)" if "e \<le> rr_end r" for e
    using emit_tail_ok [where content = content and f = f, OF r bd that B(2,1)] by blast
  show ?thesis
    using Some whole tail by (auto simp: flush_run_def EmitRunOnNewGrid_def Let_def split: option.splits)
qed (simp add: flush_run_def)

lemma remap_slices_ok:
  assumes bd: "remap_bounds content page nbs"
    and "\<forall>(s, sl) \<in> set slices. 0 < cs_byte_len sl \<longrightarrow>
      chunk_holds (content f (de_version_tag (cs_entry sl))) s (cs_byte_len sl) (de_data (cs_entry sl))"
    and "\<And>r. run = Some r \<Longrightarrow> run_inv content f r"
  shows "\<exists>ps. remap_slices page junk f nbs sizes slices run out = Some (Inr (out @ ps)) \<and>
    (\<forall>p \<in> set ps. grid_entry content nbs p \<and> fname (fst p) = f)"
  using assms(2,3)
proof (induction slices arbitrary: run out)
  case Nil
  then show ?case using flush_run_ok [OF _ bd, of run f junk sizes out] by simp
next
  case (Cons x slices)
  obtain s sl where x: "x = (s, sl)" by (cases x)
  let ?len = "cs_byte_len sl" and ?e = "cs_entry sl"
  have rest: "\<forall>(s, sl) \<in> set slices. 0 < cs_byte_len sl \<longrightarrow>
      chunk_holds (content f (de_version_tag (cs_entry sl))) s (cs_byte_len sl) (de_data (cs_entry sl))"
    using Cons.prems(1) by simp
  note IH = Cons.IH [OF rest]
  show ?case
  proof (cases "?len = 0")
    case True
    with IH [OF Cons.prems(2)] show ?thesis by (simp add: x)
  next
    case False
    then have hold: "chunk_holds (content f (de_version_tag ?e)) s ?len (de_data ?e)"
      using Cons.prems(1) by (simp add: x)
    have ex: "u64_add s ?len = s + ?len"
      using hold remap_boundsD(3) [OF bd, where f = f and tag = "de_version_tag ?e"]
      by (simp add: chunk_holds_def u64_exact)
    have new: "run_inv content f (begin_run s ?len ?e)"
      using hold False by (simp add: run_inv_def begin_run_def ex)
    show ?thesis
    proof (cases run)
      case None
      with IH [of "Some (begin_run s ?len ?e)" out] new False show ?thesis by (simp add: x)
    next
      case (Some r)
      have r: "run_inv content f r" using Cons.prems(2) Some by blast
      let ?r = "r\<lparr>rr_end := s + ?len,
        rr_segments := rr_segments r @ [\<lparr>sg_start = s, sg_byte_len = ?len, sg_entry = ?e\<rparr>]\<rparr>"
      have ext: "s = rr_end r \<and> de_version_tag ?e = rr_tag r \<Longrightarrow> run_inv content f ?r"
        using r hold False by (auto simp: run_inv_def run_ok_snoc)
      obtain ps where ps: "flush_run page junk f nbs sizes run out = Some (Inr (out @ ps))"
          "\<forall>p \<in> set ps. grid_entry content nbs p \<and> fname (fst p) = f"
        using flush_run_ok [OF Cons.prems(2) bd] by blast
      consider (skip) "s < rr_end r" | (extend) "\<not> s < rr_end r" "s = rr_end r \<and> de_version_tag ?e = rr_tag r"
        | (cut) "\<not> s < rr_end r" "\<not> (s = rr_end r \<and> de_version_tag ?e = rr_tag r)" by blast
      then show ?thesis
      proof cases
        case skip
        with False Some IH [of run out] r show ?thesis by (simp add: x)
      next
        case extend
        with False Some IH [of "Some ?r" out] ext ex show ?thesis by (simp add: x Let_def)
      next
        case cut
        obtain qs where "remap_slices page junk f nbs sizes slices (Some (begin_run s ?len ?e)) (out @ ps) =
            Some (Inr ((out @ ps) @ qs))" "\<forall>p \<in> set qs. grid_entry content nbs p \<and> fname (fst p) = f"
          using IH [of "Some (begin_run s ?len ?e)" "out @ ps"] new by auto
        with cut False Some ps show ?thesis by (intro exI [of _ "ps @ qs"]) (auto simp: x)
      qed
    qed
  qed
qed

section \<open>The whole remap\<close>

definition index_sound :: "contents \<Rightarrow> file_index \<Rightarrow> bool" where
  "index_sound content idx \<longleftrightarrow>
     (\<forall>(f, m) \<in> set idx. \<forall>(s, sl) \<in> set m.
        chunk_holds (content f (de_version_tag (cs_entry sl))) s (cs_byte_len sl) (de_data (cs_entry sl)))"

lemma set_update_subset: "set (AList.update k v m) \<subseteq> insert (k, v) (set m)"
  by (induction m) auto

lemma set_om_insert_subset: "set (om_insert k v m) \<subseteq> insert (k, v) (set m)"
  by (induction k v m rule: om_insert.induct) auto

lemma index_entry_sound:
  assumes "index_sound content idx" "entry_sound content (fst kv) (snd kv)"
  shows "index_sound content (index_entry kv idx)"
proof -
  let ?f = "fname (fst kv)"
  let ?m = "case map_of idx ?f of Some m \<Rightarrow> m | None \<Rightarrow> []"
  let ?sl = "\<lparr>cs_byte_len = blk_size (fst kv), cs_entry = snd kv\<rparr>"
  have old: "chunk_holds (content ?f (de_version_tag (cs_entry sl))) s (cs_byte_len sl) (de_data (cs_entry sl))"
    if "(s, sl) \<in> set ?m" for s sl
  proof (cases "map_of idx ?f")
    case (Some m)
    then have "(?f, m) \<in> set idx" by (rule map_of_SomeD)
    with that assms(1) Some show ?thesis by (fastforce simp: index_sound_def)
  qed (use that in simp)
  have "set (index_emplace (start_off (fst kv)) ?sl ?m) \<subseteq> insert (start_off (fst kv), ?sl) (set ?m)"
    using set_om_insert_subset by (fastforce simp: index_emplace_def split: option.splits)
  with old assms(2) have new: "\<forall>(s, sl) \<in> set (index_emplace (start_off (fst kv)) ?sl ?m).
      chunk_holds (content ?f (de_version_tag (cs_entry sl))) s (cs_byte_len sl) (de_data (cs_entry sl))"
    by (fastforce simp: entry_sound_def)
  have "set (index_entry kv idx) \<subseteq> insert (?f, index_emplace (start_off (fst kv)) ?sl ?m) (set idx)"
    unfolding index_entry_def Let_def by (rule set_update_subset)
  with new assms(1) show ?thesis by (fastforce simp: index_sound_def)
qed

lemma build_index_ok:
  assumes "\<forall>p \<in> set taken. entry_sound content (fst p) (snd p)" "index_sound content idx"
  shows "\<exists>idx'. build_index taken idx = Inr idx' \<and> index_sound content idx'"
  using assms
proof (induction taken arbitrary: idx)
  case (Cons kv taken)
  have snd: "entry_sound content (fst kv) (snd kv)" using Cons.prems(1) by simp
  then have "\<not> chunk_empty (de_data (snd kv))" "pc_length (de_data (snd kv)) = blk_size (fst kv)"
    by (auto simp: entry_sound_def chunk_holds_def chunk_empty_def chunk_wf_def)
  with Cons.IH [OF _ index_entry_sound [OF Cons.prems(2) snd]] Cons.prems(1) show ?case by simp
qed simp

lemma remap_files_ok:
  assumes "remap_bounds content page nbs" "index_sound content idx"
  shows "\<exists>ps. remap_files page junk nbs sizes idx out = Some (Inr (out @ ps)) \<and>
    (\<forall>p \<in> set ps. grid_entry content nbs p)"
  using assms(2)
proof (induction idx arbitrary: out)
  case (Cons x idx)
  obtain f m where x: "x = (f, m)" by (cases x)
  have m: "\<forall>(s, sl) \<in> set m. 0 < cs_byte_len sl \<longrightarrow>
      chunk_holds (content f (de_version_tag (cs_entry sl))) s (cs_byte_len sl) (de_data (cs_entry sl))"
    using Cons.prems by (auto simp: index_sound_def x)
  obtain ps where ps: "RemapOneFile page junk f m nbs sizes out = Some (Inr (out @ ps))"
      "\<forall>p \<in> set ps. grid_entry content nbs p"
    using remap_slices_ok [where run = None, OF assms(1) m] by (force simp: RemapOneFile_def)
  obtain qs where "remap_files page junk nbs sizes idx (out @ ps) = Some (Inr ((out @ ps) @ qs))"
      "\<forall>p \<in> set qs. grid_entry content nbs p"
    using Cons.IH [of "out @ ps"] Cons.prems by (auto simp: index_sound_def)
  with ps show ?case by (intro exI [of _ "ps @ qs"]) (auto simp: x)
qed simp

lemma remap_entries:
  assumes "remap_bounds content page nbs" "\<forall>p \<in> set taken. entry_sound content (fst p) (snd p)"
  shows "\<exists>out. RemapInMemCacheEntries page junk taken nbs sizes = Some (Inr out) \<and>
    (\<forall>p \<in> set out. entry_sound content (fst p) (snd p) \<and> start_off (fst p) mod nbs = 0 \<and>
       blk_size (fst p) \<le> nbs)"
proof -
  obtain idx where idx: "BuildFileIndex taken = Inr idx" "index_sound content idx"
    using build_index_ok [OF assms(2), of "[]"] by (auto simp: BuildFileIndex_def index_sound_def)
  from remap_files_ok [OF assms(1) idx(2), of junk sizes "[]"] idx(1) remap_boundsD(2) [OF assms(1)]
  show ?thesis by (auto simp: RemapInMemCacheEntries_def grid_entry_def)
qed

section \<open>Property\<close>

text \<open>
  Property C18. Changing the block size never corrupts the cache: when every entry taken out
  holds the bytes of its block in its version of the file, the remap ends, fails none of its
  assertions, and every entry it makes holds the bytes of its new block in the same version,
  starts on the new grid and is at most one new block long. This holds whatever block sizes,
  gaps, overlaps and version changes the old entries have, and whether or not file sizes are
  known.
\<close>

theorem remap_sound:
  assumes "remap_bounds content page nbs" "\<forall>p \<in> set taken. entry_sound content (fst p) (snd p)"
  shows "\<exists>out. RemapInMemCacheEntries page junk taken nbs sizes = Some (Inr out) \<and>
    (\<forall>p \<in> set out. entry_sound content (fst p) (snd p) \<and> start_off (fst p) mod nbs = 0 \<and>
       blk_size (fst p) \<le> nbs)"
  using assms by (rule remap_entries)

definition example_content :: contents where
  "example_content f tag = (if tag = ''v1'' then [0, 1, 2, 3, 4, 5, 6, 7] else [9, 9])"

definition example_block :: "idx_t \<Rightarrow> block_entry" where
  "example_block off =
     (InMemCacheBlock ''f'' off 2,
      \<lparr>de_data = \<lparr>pc_data = [off, off + 1, 0, 0], pc_length = 2, pc_capacity = 4\<rparr>, de_version_tag = ''v1''\<rparr>)"

lemma remap_sound_witness:
  "\<exists>out. RemapInMemCacheEntries 4 (\<lambda>_. 0) [example_block 2, example_block 0] 3 [(''f'', 8)] = Some (Inr out) \<and>
    (\<forall>p \<in> set out. entry_sound example_content (fst p) (snd p) \<and> start_off (fst p) mod 3 = 0)"
proof -
  have bd: "remap_bounds example_content 4 3" by (simp add: remap_bounds_def example_content_def U64_def)
  have "\<forall>p \<in> set [example_block 2, example_block 0]. entry_sound example_content (fst p) (snd p)"
    by (simp add: example_block_def entry_sound_def chunk_holds_def chunk_wf_def chunk_bytes_def
        example_content_def slice_def)
  from remap_sound [OF bd this, of "\<lambda>_. 0" "[(''f'', 8)]"] show ?thesis by blast
qed

end
