(* ===== verification/Storage_Dispatch.thy ===== *)
theory Storage_Dispatch
  imports Policy_Storage
begin

text \<open>
  The storage a reader holds a pointer to: the virtual calls of
  \<open>src/include/in_memory_data_cache_storage.hpp\<close> as a dispatch over the backends, which meets the
  storage contract because every backend does, and the choice of the backend by name
  (\<open>src/in_memory_data_cache_storage.cpp\<close>).
\<close>

section \<open>Dispatch\<close>

datatype data_storage =
    ExtensionBounded ext_storage
  | PolicyDriven policy_storage

fun storage_Put :: "InMemCacheBlock \<Rightarrow> page_chunk \<Rightarrow> string \<Rightarrow> nat \<Rightarrow> data_storage \<Rightarrow> data_storage" where
  "storage_Put key chunk tag now (ExtensionBounded s) = ExtensionBounded (ext_Put key chunk tag now s)"
| "storage_Put key chunk tag now (PolicyDriven s) = PolicyDriven (policy_Put key chunk tag now s)"

fun storage_Get :: "InMemCacheBlock \<Rightarrow> string \<Rightarrow> nat \<Rightarrow> data_storage \<Rightarrow> page_chunk option \<times> data_storage" where
  "storage_Get key tag now (ExtensionBounded s) = map_prod id ExtensionBounded (ext_Get key tag now s)"
| "storage_Get key tag now (PolicyDriven s) = map_prod id PolicyDriven (policy_Get key tag now s)"

fun storage_Delete :: "InMemCacheBlock \<Rightarrow> data_storage \<Rightarrow> bool \<times> data_storage" where
  "storage_Delete key (ExtensionBounded s) = map_prod id ExtensionBounded (ext_Delete key s)"
| "storage_Delete key (PolicyDriven s) = map_prod id PolicyDriven (policy_Delete key s)"

fun storage_Clear :: "data_storage \<Rightarrow> data_storage" where
  "storage_Clear (ExtensionBounded s) = ExtensionBounded (ext_Clear s)"
| "storage_Clear (PolicyDriven s) = PolicyDriven (policy_Clear_all s)"

fun storage_Clear_from ::
  "InMemCacheBlock \<Rightarrow> (InMemCacheBlock \<Rightarrow> bool) \<Rightarrow> data_storage \<Rightarrow> data_storage" where
  "storage_Clear_from key flt (ExtensionBounded s) = ExtensionBounded (ext_Clear_from key flt s)"
| "storage_Clear_from key flt (PolicyDriven s) = PolicyDriven (policy_Clear_from key flt s)"

fun storage_Keys :: "data_storage \<Rightarrow> InMemCacheBlock list" where
  "storage_Keys (ExtensionBounded s) = ext_Keys s"
| "storage_Keys (PolicyDriven s) = policy_Keys s"

fun storage_Take ::
  "(nat \<Rightarrow> nat) \<Rightarrow> data_storage \<Rightarrow> (InMemCacheBlock \<times> InMemCacheDataEntry) list \<times> data_storage" where
  "storage_Take clk (ExtensionBounded s) = map_prod id ExtensionBounded (ext_Take clk s)"
| "storage_Take clk (PolicyDriven s) = map_prod id PolicyDriven (policy_Take s)"

text \<open>The statistics exist for the policy-driven storage only (a \<open>dynamic_cast\<close> in the reader).\<close>

fun storage_stats :: "data_storage \<Rightarrow> PolicyGroupStats list" where
  "storage_stats (ExtensionBounded s) = []"
| "storage_stats (PolicyDriven s) = policy_GetStats s"

section \<open>The contract\<close>

fun storage_entries :: "data_storage \<Rightarrow> block_entries" where
  "storage_entries (ExtensionBounded s) = ext_entries s"
| "storage_entries (PolicyDriven s) = policy_entries s"

fun storage_inv :: "data_storage \<Rightarrow> bool" where
  "storage_inv (ExtensionBounded s) = shared_inv s"
| "storage_inv (PolicyDriven s) = policy_storage_inv s"

interpretation storage: data_cache_storage storage_Put storage_Get storage_Delete storage_Clear
  storage_Clear_from storage_Keys storage_Take storage_entries storage_inv
proof (unfold_locales, goal_cases)
  case (1 s k c tag now)
  then show ?case by (cases s) (simp_all add: ext.put_inv policy_storage.put_inv)
next
  case (2 s k c tag now j e)
  then show ?case by (cases s) (auto dest: ext.put_law policy_storage.put_law)
next
  case (3 s k tag now r s')
  then show ?case by (cases s) (auto simp: map_prod_def split: prod.splits dest: ext.get_law policy_storage.get_law)
next
  case (4 s k tag now c s')
  then show ?case by (cases s) (auto simp: map_prod_def split: prod.splits dest: ext.get_found policy_storage.get_found)
next
  case (5 s k r s')
  then show ?case by (cases s) (auto simp: map_prod_def split: prod.splits dest: ext.del_law policy_storage.del_law)
next
  case (6 s)
  then show ?case by (cases s) (simp_all add: ext.clear_law policy_storage.clear_law)
next
  case (7 s f)
  then show ?case by (cases s) (auto simp: ext.clear_file policy_storage.clear_file)
next
  case (8 s)
  then show ?case by (cases s) (simp_all add: ext.keys_law policy_storage.keys_law)
next
  case (9 s clk es s')
  then show ?case
  proof (cases s)
    case (ExtensionBounded t)
    with 9 obtain t' where "ext_Take clk t = (es, t')" "s' = ExtensionBounded t'" by (cases "ext_Take clk t") auto
    with ExtensionBounded 9(1) ext.take_law show ?thesis by fastforce
  next
    case (PolicyDriven t)
    with 9 obtain t' where "policy_Take t = (es, t')" "s' = PolicyDriven t'" by (cases "policy_Take t") auto
    with PolicyDriven 9(1) policy_storage.take_law show ?thesis by fastforce
  qed
qed

section \<open>Choosing the backend\<close>

definition OBJECT_CACHE_STORAGE :: string where
  "OBJECT_CACHE_STORAGE = ''object_cache''"

definition POLICY_STORAGE :: string where
  "POLICY_STORAGE = ''policy''"

record PolicyStorageOptions =
  po_max_bytes :: idx_t
  po_eviction_policy :: string
  po_file_policies :: string
  po_per_file_scope :: bool

text \<open>
  The object-cache backend lives in DuckDB's object cache; \<open>object_storage\<close> stands for it and is
  what the mode \<open>object_cache\<close> yields when there is a database instance. \<open>parse\<close> is
  \<open>ParseFilePolicySpec\<close> on the specification, skipped when the scope is not per file.
\<close>

definition BuildInMemoryDataCacheStorage ::
  "(string \<Rightarrow> idx_t \<Rightarrow> SpecEntry list result) \<Rightarrow> 'o option \<Rightarrow> string \<Rightarrow> nat \<Rightarrow> nat \<Rightarrow> PolicyStorageOptions \<Rightarrow>
   ('o + data_storage) result" where
  "BuildInMemoryDataCacheStorage parse object_storage mode max_entries_p timeout_p opts =
     (if mode = POLICY_STORAGE
      then (case policy_storage_new (po_max_bytes opts) timeout_p (po_eviction_policy opts)
                   (if po_per_file_scope opts then parse (po_file_policies opts) (po_max_bytes opts) else Inr []) of
              Inl e \<Rightarrow> Inl e
            | Inr s \<Rightarrow> Inr (Inr (PolicyDriven s)))
      else if mode = OBJECT_CACHE_STORAGE
      then (case object_storage of
              None \<Rightarrow> Inl (AssertionFailure ''db_instance != nullptr'')
            | Some o' \<Rightarrow> Inr (Inl o'))
      else Inr (Inr (ExtensionBounded (ext_new max_entries_p timeout_p))))"

end
