(* ===== verification/In_Memory_Reader.thy ===== *)
theory In_Memory_Reader
  imports Storage_Dispatch Parquet_Layout Cache_Remap
begin

text \<open>
  The in-memory cache reader (\<open>src/in_memory_cache_reader.cpp\<close>): planning a read, processing its
  chunks on worker threads that interleave with each other and with every other user of the
  storage, and the operations on the whole cache. The main result is that the cache is
  transparent: a finished read leaves in the buffer exactly the bytes of the remote file.
\<close>

section \<open>Configuration\<close>

record InMemoryCacheReaderConfig =
  ic_max_cache_block_count :: idx_t
  ic_cache_block_timeout_millisec :: idx_t
  ic_cache_block_size :: idx_t
  ic_max_subrequest_count :: nat
  ic_enable_cache_validation :: bool
  ic_in_mem_cache_storage :: string
  ic_chunking :: string
  ic_in_mem_cache_bytes :: idx_t
  ic_eviction_policy :: string
  ic_policy_scope :: string
  ic_file_policies :: string

definition COLUMN_CHUNK_CHUNKING :: string where
  "COLUMN_CHUNK_CHUNKING = ''column_chunk''"

definition PER_FILE_POLICY_SCOPE :: string where
  "PER_FILE_POLICY_SCOPE = ''per_file''"

text \<open>The storage is built by the first read, once.\<close>

definition reader_policy_options :: "InMemoryCacheReaderConfig \<Rightarrow> PolicyStorageOptions" where
  "reader_policy_options cfg =
     \<lparr>po_max_bytes = ic_in_mem_cache_bytes cfg, po_eviction_policy = ic_eviction_policy cfg,
      po_file_policies = ic_file_policies cfg,
      po_per_file_scope = (ic_policy_scope cfg = PER_FILE_POLICY_SCOPE)\<rparr>"

definition reader_init_storage ::
  "(string \<Rightarrow> idx_t \<Rightarrow> SpecEntry list result) \<Rightarrow> 'o option \<Rightarrow> InMemoryCacheReaderConfig \<Rightarrow>
   ('o + data_storage) option \<Rightarrow> ('o + data_storage) result" where
  "reader_init_storage parse object_storage cfg storage =
     (case storage of
        Some s \<Rightarrow> Inr s
      | None \<Rightarrow> BuildInMemoryDataCacheStorage parse object_storage (ic_in_mem_cache_storage cfg)
                  (ic_max_cache_block_count cfg) (ic_cache_block_timeout_millisec cfg)
                  (reader_policy_options cfg))"

section \<open>Planning a read\<close>

text \<open>
  The column-chunk plan when it applies and is not empty, the fixed blocks otherwise, and the
  number of bytes that will be cached.
\<close>

definition reader_plan ::
  "InMemoryCacheReaderConfig \<Rightarrow> layouts \<Rightarrow> string \<Rightarrow> addr \<Rightarrow> idx_t \<Rightarrow> idx_t \<Rightarrow> idx_t \<Rightarrow>
   (CacheReadChunk list \<times> idx_t) run" where
  "reader_plan cfg ls path buffer start bytes file_size =
     (if bytes = 0 then Some (Inr ([], 0)) else
      let planned =
            (if ic_chunking cfg = COLUMN_CHUNK_CHUNKING \<and> HasLayout path ls
             then PlanColumnChunks
                    \<lparr>cp_buffer = buffer, cp_requested_start_offset = start, cp_requested_bytes_to_read = bytes,
                     cp_file_size = file_size, cp_max_gap_entry_size = ic_cache_block_size cfg\<rparr> path ls
             else [])
      in if planned \<noteq> []
         then Some (Inr (planned, fold (\<lambda>c total. u64_add total (cr_chunk_size c)) planned 0))
         else (case split_fixed_blocks buffer start bytes file_size (ic_cache_block_size cfg) of
                 Inl e \<Rightarrow> Some (Inl e)
               | Inr plan \<Rightarrow> map_option Inr plan))"

section \<open>Processing one chunk\<close>

text \<open>
  Where a worker stands in \<open>ProcessCacheReadChunk\<close>: before the look-up, holding a pinned block,
  after a miss, holding the fetched content before and after the copy, finished, or ended by an
  exception.
\<close>

datatype chunk_phase =
    Todo
  | Hit page_chunk
  | Missed
  | Loaded page_chunk
  | Copied page_chunk
  | Finished
  | Failed cpp_error

definition phase_over :: "chunk_phase \<Rightarrow> bool" where
  "phase_over p \<longleftrightarrow> (case p of Finished \<Rightarrow> True | Failed _ \<Rightarrow> True | _ \<Rightarrow> False)"

record 's read_state =
  rs_mem :: memory
  rs_store :: 's
  rs_tasks :: "(CacheReadChunk \<times> chunk_phase) list"
  rs_log :: "(bool \<times> idx_t) list"

definition chunk_key :: "string \<Rightarrow> CacheReadChunk \<Rightarrow> InMemCacheBlock" where
  "chunk_key path c = InMemCacheBlock path (cr_aligned_start_offset c) (cr_chunk_size c)"

text \<open>
  The remote read of a miss. \<open>rd off len\<close> is the read of the internal file system on the open
  handle, an error or the bytes it puts at the start of the fresh chunk.
\<close>

definition fetch_chunk ::
  "(idx_t \<Rightarrow> idx_t \<Rightarrow> byte list result) \<Rightarrow> idx_t \<Rightarrow> (nat \<Rightarrow> byte) \<Rightarrow> CacheReadChunk \<Rightarrow> page_chunk result" where
  "fetch_chunk rd page junk c =
     (let content = AllocatePageAlignedChunk page junk (cr_chunk_size c)
      in case rd (cr_aligned_start_offset c) (cr_chunk_size c) of
           Inl e \<Rightarrow> Inl e
         | Inr bytes \<Rightarrow> Inr (content\<lparr>pc_data := overwrite 0 bytes (pc_data content), pc_length := cr_chunk_size c\<rparr>))"

definition set_phase :: "nat \<Rightarrow> chunk_phase \<Rightarrow> 's read_state \<Rightarrow> 's read_state" where
  "set_phase i p st = st\<lparr>rs_tasks := (rs_tasks st)[i := (fst (rs_tasks st ! i), p)]\<rparr>"

definition copy_out :: "nat \<Rightarrow> page_chunk \<Rightarrow> chunk_phase \<Rightarrow> 's read_state \<Rightarrow> 's read_state" where
  "copy_out i d after st =
     (case CopyBufferToRequestedMemory (fst (rs_tasks st ! i)) d (rs_mem st) of
        Inl e \<Rightarrow> set_phase i (Failed e) st
      | Inr m \<Rightarrow> set_phase i after (st\<lparr>rs_mem := m\<rparr>))"

text \<open>
  The next action of worker \<open>i\<close>; the look-up and the insertion are atomic in the storage, which
  takes its own lock.
\<close>

definition ProcessCacheReadChunk ::
  "(InMemCacheBlock \<Rightarrow> page_chunk \<Rightarrow> string \<Rightarrow> nat \<Rightarrow> 's \<Rightarrow> 's) \<Rightarrow>
   (InMemCacheBlock \<Rightarrow> string \<Rightarrow> nat \<Rightarrow> 's \<Rightarrow> page_chunk option \<times> 's) \<Rightarrow>
   (idx_t \<Rightarrow> idx_t \<Rightarrow> byte list result) \<Rightarrow> idx_t \<Rightarrow> (nat \<Rightarrow> byte) \<Rightarrow> string \<Rightarrow> string \<Rightarrow>
   nat \<Rightarrow> nat \<Rightarrow> 's read_state \<Rightarrow> 's read_state" where
  "ProcessCacheReadChunk put get rd page junk path version_tag i now st =
     (let c = fst (rs_tasks st ! i)
      in case snd (rs_tasks st ! i) of
           Todo \<Rightarrow>
             (case get (chunk_key path c) version_tag now (rs_store st) of
                (Some d, s) \<Rightarrow>
                  set_phase i (Hit d) (st\<lparr>rs_store := s, rs_log := rs_log st @ [(True, cr_bytes_to_copy c)]\<rparr>)
              | (None, s) \<Rightarrow>
                  set_phase i Missed (st\<lparr>rs_store := s, rs_log := rs_log st @ [(False, cr_bytes_to_copy c)]\<rparr>))
         | Hit d \<Rightarrow> copy_out i d Finished st
         | Missed \<Rightarrow>
             (case fetch_chunk rd page junk c of
                Inl e \<Rightarrow> set_phase i (Failed e) st
              | Inr d \<Rightarrow> set_phase i (Loaded d) st)
         | Loaded d \<Rightarrow> copy_out i d (Copied d) st
         | Copied d \<Rightarrow>
             set_phase i Finished (st\<lparr>rs_store := put (chunk_key path c) d version_tag now (rs_store st)\<rparr>)
         | Finished \<Rightarrow> st
         | Failed e \<Rightarrow> st)"

text \<open>
  A read in progress: any unfinished worker moves, or some other thread operates on the storage.
\<close>

inductive read_step ::
  "(InMemCacheBlock \<Rightarrow> page_chunk \<Rightarrow> string \<Rightarrow> nat \<Rightarrow> 's \<Rightarrow> 's) \<Rightarrow>
   (InMemCacheBlock \<Rightarrow> string \<Rightarrow> nat \<Rightarrow> 's \<Rightarrow> page_chunk option \<times> 's) \<Rightarrow>
   (idx_t \<Rightarrow> idx_t \<Rightarrow> byte list result) \<Rightarrow> idx_t \<Rightarrow> (nat \<Rightarrow> byte) \<Rightarrow> string \<Rightarrow> string \<Rightarrow> ('s \<Rightarrow> 's) set \<Rightarrow>
   's read_state \<Rightarrow> 's read_state \<Rightarrow> bool"
  for put get rd page junk path version_tag ops where
  worker: "i < length (rs_tasks st) \<Longrightarrow> \<not> phase_over (snd (rs_tasks st ! i)) \<Longrightarrow>
    read_step put get rd page junk path version_tag ops st
      (ProcessCacheReadChunk put get rd page junk path version_tag i now st)"
| other: "f \<in> ops \<Longrightarrow>
    read_step put get rd page junk path version_tag ops st (st\<lparr>rs_store := f (rs_store st)\<rparr>)"

inductive_cases read_stepE: "read_step put get rd page junk path version_tag ops st st'"

definition read_start :: "memory \<Rightarrow> 's \<Rightarrow> CacheReadChunk list \<Rightarrow> 's read_state" where
  "read_start m s cs = \<lparr>rs_mem = m, rs_store = s, rs_tasks = map (\<lambda>c. (c, Todo)) cs, rs_log = []\<rparr>"

definition read_done :: "'s read_state \<Rightarrow> bool" where
  "read_done st \<longleftrightarrow> (\<forall>t \<in> set (rs_tasks st). phase_over (snd t))"

text \<open>\<open>WaitAll\<close> returns when all workers are done; getting the futures in order rethrows the first exception.\<close>

fun first_error :: "(CacheReadChunk \<times> chunk_phase) list \<Rightarrow> cpp_error option" where
  "first_error [] = None"
| "first_error ((c, p) # ts) = (case p of Failed e \<Rightarrow> Some e | _ \<Rightarrow> first_error ts)"

definition WaitAll :: "'s read_state \<Rightarrow> unit result option" where
  "WaitAll st =
     (if read_done st then Some (case first_error (rs_tasks st) of None \<Rightarrow> Inr () | Some e \<Rightarrow> Inl e) else None)"

section \<open>Operations on the whole cache\<close>

record DataCacheEntryInfo =
  ci_cache_filepath :: string
  ci_original_remote_path :: string
  ci_start_offset :: nat
  ci_end_offset :: nat
  ci_cache_type :: string

definition entry_info :: "InMemCacheBlock \<Rightarrow> DataCacheEntryInfo" where
  "entry_info k =
     \<lparr>ci_cache_filepath = ''(no disk cache)'', ci_original_remote_path = fname k,
      ci_start_offset = start_off k, ci_end_offset = u64_add (start_off k) (blk_size k),
      ci_cache_type = ''in-mem''\<rparr>"

definition GetCacheEntriesInfo :: "data_storage option \<Rightarrow> DataCacheEntryInfo list" where
  "GetCacheEntriesInfo storage =
     (case storage of None \<Rightarrow> [] | Some s \<Rightarrow> map entry_info (storage_Keys s))"

definition GetPolicyStats :: "data_storage option \<Rightarrow> PolicyGroupStats list" where
  "GetPolicyStats storage = (case storage of None \<Rightarrow> [] | Some s \<Rightarrow> storage_stats s)"

definition ClearCache :: "data_storage option \<Rightarrow> data_storage option" where
  "ClearCache storage = map_option storage_Clear storage"

definition ClearCache_file :: "string \<Rightarrow> data_storage option \<Rightarrow> data_storage option" where
  "ClearCache_file f storage =
     map_option (storage_Clear_from (InMemCacheBlock f 0 0) (\<lambda>block. fname block = f)) storage"

definition RemapInMemoryDataBlocksForNewBlockSize ::
  "idx_t \<Rightarrow> (nat \<Rightarrow> byte) \<Rightarrow> (nat \<Rightarrow> nat) \<Rightarrow> nat \<Rightarrow> idx_t \<Rightarrow> data_storage option \<Rightarrow> data_storage option run" where
  "RemapInMemoryDataBlocksForNewBlockSize page junk clk now new_block_size storage =
     (case storage of
        None \<Rightarrow> Some (Inr None)
      | Some s \<Rightarrow>
          (case storage_Take clk s of (taken, s1) \<Rightarrow>
             run_bind (RemapInMemCacheEntries page junk taken new_block_size [])
               (\<lambda>rebuilt. Some (Inr (Some
                  (fold (\<lambda>(k, e). storage_Put k (de_data e) (de_version_tag e) now) rebuilt s1))))))"

section \<open>Copies write what the file holds\<close>

text \<open>The byte a destination address should get.\<close>

abbreviation wanted :: "byte list \<Rightarrow> addr \<Rightarrow> idx_t \<Rightarrow> addr \<Rightarrow> byte" where
  "wanted fc buffer start a \<equiv> fc ! (start + (a - buffer))"

definition data_ok :: "byte list \<Rightarrow> CacheReadChunk \<Rightarrow> page_chunk \<Rightarrow> bool" where
  "data_ok fc c d \<longleftrightarrow> chunk_holds fc (cr_aligned_start_offset c) (cr_chunk_size c) d"

lemma CopyBuffer_ok:
  assumes c: "chunk_within fsz c" and d: "data_ok fc c d" and U: "length fc < U64"
  shows "\<exists>m'. CopyBufferToRequestedMemory c d m = Inr m' \<and>
    (\<forall>a. m' a = (if covers_addr c a then fc ! (cr_requested_start_offset c + (a - cr_requested_start_addr c)) else m a))"
proof -
  let ?s = "cr_requested_start_offset c" and ?al = "cr_aligned_start_offset c" and ?n = "cr_bytes_to_copy c"
  have cw: "?al \<le> ?s" "?s + ?n \<le> ?al + cr_chunk_size c" using c by (simp_all add: chunk_within_def)
  have h: "chunk_wf d" "pc_length d = cr_chunk_size c" "?al + cr_chunk_size c \<le> length fc"
      "chunk_bytes d = slice ?al (cr_chunk_size c) fc"
    using d by (simp_all add: data_ok_def chunk_holds_def)
  have delta: "u64_sub ?s ?al = ?s - ?al" using cw h(3) U by (intro u64_sub_exact) linarith+
  have "CopyTo d (cr_requested_start_addr c) (?s - ?al) ?n m =
      Inr (mem_write (cr_requested_start_addr c) (slice (?s - ?al) ?n (chunk_bytes d)) m)"
    using cw h U by (intro CopyTo_ok) linarith+
  moreover have "slice (?s - ?al) ?n (chunk_bytes d) = slice ?s ?n fc"
    using cw unfolding h(4) by (subst slice_slice) simp_all
  moreover have "mem_write p (slice ?s ?n fc) m a =
      (if p \<le> a \<and> a < p + ?n then fc ! (?s + (a - p)) else m a)" for p a
    using cw h(3) by (auto simp: mem_write_def slice_nth)
  ultimately show ?thesis
    by (simp add: CopyBufferToRequestedMemory_def delta covers_addr_def)
qed

lemma fetch_chunk_ok:
  assumes rd: "rd (cr_aligned_start_offset c) (cr_chunk_size c) =
      Inr (slice (cr_aligned_start_offset c) (cr_chunk_size c) fc)"
    and c: "cr_aligned_start_offset c + cr_chunk_size c \<le> length fc"
    and U: "0 < page" "length fc + 2 * page < U64"
  shows "\<exists>d. fetch_chunk rd page junk c = Inr d \<and> data_ok fc c d"
proof -
  let ?n = "cr_chunk_size c" and ?ch = "AllocatePageAlignedChunk page junk (cr_chunk_size c)"
  have "?n + 2 * page < U64" using c U(2) by linarith
  note al = AllocatePageAlignedChunk_ok [OF U(1) this, of junk]
  have len: "length (pc_data ?ch) = pc_capacity ?ch" using al(4) by (simp add: chunk_wf_def)
  let ?bs = "slice (cr_aligned_start_offset c) ?n fc"
  have "length ?bs = ?n" using c by simp
  moreover have "take (0 + length ?bs) (overwrite 0 ?bs (pc_data ?ch)) = take 0 (pc_data ?ch) @ ?bs"
    by (rule take_overwrite) simp
  ultimately have "data_ok fc c (?ch\<lparr>pc_data := overwrite 0 ?bs (pc_data ?ch), pc_length := ?n\<rparr>)"
    using al(1) len c by (simp add: data_ok_def chunk_holds_def chunk_wf_def chunk_bytes_def)
  with rd show ?thesis by (simp add: fetch_chunk_def Let_def)
qed

section \<open>The invariant of a read in progress\<close>

fun phase_ok :: "byte list \<Rightarrow> CacheReadChunk \<Rightarrow> chunk_phase \<Rightarrow> bool" where
  "phase_ok fc c (Hit d) = data_ok fc c d"
| "phase_ok fc c (Loaded d) = data_ok fc c d"
| "phase_ok fc c (Copied d) = data_ok fc c d"
| "phase_ok fc c (Failed e) = False"
| "phase_ok fc c p = True"

fun written :: "chunk_phase \<Rightarrow> bool" where
  "written (Copied d) = True"
| "written Finished = True"
| "written p = False"

definition tasks_ok ::
  "byte list \<Rightarrow> addr \<Rightarrow> idx_t \<Rightarrow> memory \<Rightarrow> CacheReadChunk list \<Rightarrow> (CacheReadChunk \<times> chunk_phase) list \<Rightarrow>
   memory \<Rightarrow> bool" where
  "tasks_ok fc buffer start m0 cs ts m \<longleftrightarrow>
     map fst ts = cs \<and>
     (\<forall>i < length ts. phase_ok fc (fst (ts ! i)) (snd (ts ! i))) \<and>
     (\<forall>i < length ts. written (snd (ts ! i)) \<longrightarrow>
        (\<forall>a. covers_addr (fst (ts ! i)) a \<longrightarrow> m a = wanted fc buffer start a)) \<and>
     (\<forall>a. (\<forall>c \<in> set cs. \<not> covers_addr c a) \<longrightarrow> m a = m0 a)"

lemma tasks_ok_update:
  assumes ok: "tasks_ok fc buffer start m0 cs ts m" and i: "i < length ts" and p: "phase_ok fc (fst (ts ! i)) p"
    and w: "\<And>a. written p \<Longrightarrow> covers_addr (fst (ts ! i)) a \<Longrightarrow> m' a = wanted fc buffer start a"
    and m': "\<And>a. m' a = m a \<or> covers_addr (fst (ts ! i)) a \<and> m' a = wanted fc buffer start a"
  shows "tasks_ok fc buffer start m0 cs (ts[i := (fst (ts ! i), p)]) m'"
proof -
  let ?ts = "ts[i := (fst (ts ! i), p)]"
  have fst_eq: "fst (?ts ! j) = fst (ts ! j)" if "j < length ts" for j using that by (cases "j = i") simp_all
  have "map fst ?ts = map fst ts" using fst_eq by (intro nth_equalityI) simp_all
  moreover have "phase_ok fc (fst (?ts ! j)) (snd (?ts ! j))" if "j < length ts" for j
    using that ok p by (cases "j = i") (simp_all add: tasks_ok_def)
  moreover have "m' a = wanted fc buffer start a"
    if "j < length ts" "written (snd (?ts ! j))" "covers_addr (fst (?ts ! j)) a" for j a
  proof (cases "j = i")
    case True
    with that w show ?thesis by simp
  next
    case False
    with that ok have "m a = wanted fc buffer start a" by (simp add: tasks_ok_def)
    with m' [of a] show ?thesis by auto
  qed
  moreover have "m' a = m0 a" if "\<forall>c \<in> set cs. \<not> covers_addr c a" for a
  proof -
    have "fst (ts ! i) \<in> set cs" using ok i by (metis length_map nth_map nth_mem tasks_ok_def)
    with that m' [of a] ok show ?thesis by (auto simp: tasks_ok_def)
  qed
  ultimately show ?thesis using ok by (simp add: tasks_ok_def)
qed

lemma tasks_ok_chunk: "tasks_ok fc buffer start m0 cs ts m \<Longrightarrow> i < length ts \<Longrightarrow> fst (ts ! i) \<in> set cs"
  by (metis length_map nth_map nth_mem tasks_ok_def)

text \<open>A change of phase that copies nothing, and a copy.\<close>

lemma tasks_ok_phase:
  assumes "tasks_ok fc buffer start m0 cs ts m" "i < length ts" "phase_ok fc (fst (ts ! i)) p"
    and "written p \<Longrightarrow> written (snd (ts ! i))"
  shows "tasks_ok fc buffer start m0 cs (ts[i := (fst (ts ! i), p)]) m"
  by (rule tasks_ok_update [OF assms(1,2,3)]) (use assms(1,2,4) in \<open>auto simp: tasks_ok_def\<close>)

lemma tasks_ok_copy:
  assumes plan: "plan_ok (length fc) buffer start cs e" and U: "length fc < U64"
    and ok: "tasks_ok fc buffer start m0 cs ts m" and i: "i < length ts" and d: "data_ok fc (fst (ts ! i)) d"
    and p: "phase_ok fc (fst (ts ! i)) p"
  shows "\<exists>m'. CopyBufferToRequestedMemory (fst (ts ! i)) d m = Inr m' \<and>
    tasks_ok fc buffer start m0 cs (ts[i := (fst (ts ! i), p)]) m'"
proof -
  let ?c = "fst (ts ! i)"
  have c: "?c \<in> set cs" by (rule tasks_ok_chunk [OF ok i])
  obtain m' where m': "CopyBufferToRequestedMemory ?c d m = Inr m'"
      "\<And>a. m' a = (if covers_addr ?c a then fc ! (cr_requested_start_offset ?c + (a - cr_requested_start_addr ?c)) else m a)"
    using CopyBuffer_ok [OF plan_ok_member(1) [OF plan c] d U] by blast
  then have "m' a = wanted fc buffer start a" if "covers_addr ?c a" for a
    using that plan_ok_inside [OF plan c that] by simp
  then have "tasks_ok fc buffer start m0 cs (ts[i := (?c, p)]) m'"
    using m'(2) by (intro tasks_ok_update [OF ok i p]) auto
  with m'(1) show ?thesis by blast
qed

section \<open>Reads over any storage\<close>

text \<open>
  What other threads do to the storage meanwhile: insert sound entries, look up, delete, clear
  everything or one file, drain it for a remap.
\<close>

definition storage_ops ::
  "(InMemCacheBlock \<Rightarrow> page_chunk \<Rightarrow> string \<Rightarrow> nat \<Rightarrow> 's \<Rightarrow> 's) \<Rightarrow>
   (InMemCacheBlock \<Rightarrow> string \<Rightarrow> nat \<Rightarrow> 's \<Rightarrow> page_chunk option \<times> 's) \<Rightarrow>
   (InMemCacheBlock \<Rightarrow> 's \<Rightarrow> bool \<times> 's) \<Rightarrow> ('s \<Rightarrow> 's) \<Rightarrow>
   (InMemCacheBlock \<Rightarrow> (InMemCacheBlock \<Rightarrow> bool) \<Rightarrow> 's \<Rightarrow> 's) \<Rightarrow>
   ((nat \<Rightarrow> nat) \<Rightarrow> 's \<Rightarrow> (InMemCacheBlock \<times> InMemCacheDataEntry) list \<times> 's) \<Rightarrow> contents \<Rightarrow> ('s \<Rightarrow> 's) set" where
  "storage_ops put get del clear clear_from take_all content =
     {put k d tag now | k d tag now. entry_sound content k \<lparr>de_data = d, de_version_tag = tag\<rparr>} \<union>
     {\<lambda>s. snd (get k tag now s) | k tag now. True} \<union> {\<lambda>s. snd (del k s) | k. True} \<union> {clear} \<union>
     {clear_from (InMemCacheBlock f 0 0) (\<lambda>k. fname k = f) | f. True} \<union> {\<lambda>s. snd (take_all clk s) | clk. True}"

text \<open>The remote file holds \<open>fc\<close>: a read inside it succeeds and returns its bytes.\<close>

definition remote_ok :: "(idx_t \<Rightarrow> idx_t \<Rightarrow> byte list result) \<Rightarrow> byte list \<Rightarrow> bool" where
  "remote_ok rd fc \<longleftrightarrow> (\<forall>off len. off + len \<le> length fc \<longrightarrow> rd off len = Inr (slice off len fc))"

text \<open>
  With validation off the tag is empty and matches entries of every version: then the file must
  not change at all. With validation on a version tag identifies the content.
\<close>

definition tag_reliable :: "contents \<Rightarrow> string \<Rightarrow> string \<Rightarrow> bool" where
  "tag_reliable content path tag \<longleftrightarrow> tag \<noteq> [] \<or> (\<forall>t. content path t = content path tag)"

text \<open>Everything a read relies on, apart from the state of the storage.\<close>

definition read_setting ::
  "contents \<Rightarrow> (idx_t \<Rightarrow> idx_t \<Rightarrow> byte list result) \<Rightarrow> idx_t \<Rightarrow> string \<Rightarrow> string \<Rightarrow> addr \<Rightarrow> idx_t \<Rightarrow> idx_t \<Rightarrow>
   CacheReadChunk list \<Rightarrow> bool" where
  "read_setting content rd page path tag buffer start bytes cs \<longleftrightarrow>
     remote_ok rd (content path tag) \<and> tag_reliable content path tag \<and> 0 < page \<and>
     length (content path tag) + 2 * page < U64 \<and>
     plan_ok (length (content path tag)) buffer start cs (start + bytes)"

context data_cache_storage
begin

abbreviation sound_ops :: "contents \<Rightarrow> ('s \<Rightarrow> 's) set" where
  "sound_ops content \<equiv> storage_ops put get del clear clear_from take_all content"

definition sound_store :: "contents \<Rightarrow> 's \<Rightarrow> bool" where
  "sound_store content s \<longleftrightarrow> inv s \<and> holds (entry_sound content) s"

lemma sound_store_put:
  "sound_store content s \<Longrightarrow> entry_sound content k \<lparr>de_data = d, de_version_tag = tag\<rparr> \<Longrightarrow>
   sound_store content (put k d tag now s)"
  by (simp add: sound_store_def put_inv holds_put)

lemma sound_store_get: "sound_store content s \<Longrightarrow> sound_store content (snd (get k tag now s))"
  unfolding sound_store_def using holds_get by (metis prod.collapse)

lemma sound_store_ops:
  assumes "sound_store content s" "f \<in> sound_ops content"
  shows "sound_store content (f s)"
proof -
  have inv: "inv s" and h: "holds (entry_sound content) s" using assms(1) by (simp_all add: sound_store_def)
  have del: "sound_store content (snd (del k s))" for k
    using del_law [OF inv, of k "fst (del k s)" "snd (del k s)"] h by (auto simp: sound_store_def holds_def)
  have tk: "sound_store content (snd (take_all clk s))" for clk
    using take_law [OF inv, of clk "fst (take_all clk s)" "snd (take_all clk s)"]
    by (auto simp: sound_store_def holds_def)
  have cl: "sound_store content (clear s)" using clear_law [OF inv] by (simp add: sound_store_def holds_def)
  have cf: "sound_store content (clear_from (InMemCacheBlock g 0 0) (\<lambda>k. fname k = g) s)" for g
    using clear_file [OF inv, of g] h by (simp add: sound_store_def holds_def)
  show ?thesis
    using assms(2) sound_store_put [OF assms(1)] sound_store_get [OF assms(1)] del tk cl cf
    unfolding storage_ops_def by blast
qed

text \<open>A hit yields the bytes of the wanted block of the current version.\<close>

lemma get_sound:
  assumes "sound_store content s" "get (chunk_key path c) tag now s = (Some d, s')" "tag_reliable content path tag"
  shows "data_ok (content path tag) c d"
proof -
  from assms(1) have "inv s" "holds (entry_sound content) s" by (simp_all add: sound_store_def)
  from get_holds [OF this assms(2)] obtain e where e: "entry_sound content (chunk_key path c) e"
    "de_data e = d" "ValidateVersionTag (de_version_tag e) tag" by blast
  have "content path (de_version_tag e) = content path tag"
    using e(3) assms(3) by (auto simp: ValidateVersionTag_def tag_reliable_def)
  with e show ?thesis by (simp add: entry_sound_def chunk_key_def data_ok_def)
qed

definition read_inv ::
  "contents \<Rightarrow> string \<Rightarrow> string \<Rightarrow> addr \<Rightarrow> idx_t \<Rightarrow> memory \<Rightarrow> CacheReadChunk list \<Rightarrow> 's read_state \<Rightarrow> bool" where
  "read_inv content path tag buffer start m0 cs st \<longleftrightarrow>
     sound_store content (rs_store st) \<and> tasks_ok (content path tag) buffer start m0 cs (rs_tasks st) (rs_mem st)"

lemma read_inv_set_phase:
  assumes "read_inv content path tag buffer start m0 cs st" "i < length (rs_tasks st)"
    and "phase_ok (content path tag) (fst (rs_tasks st ! i)) p" "sound_store content s"
    and "written p \<Longrightarrow> written (snd (rs_tasks st ! i))"
  shows "read_inv content path tag buffer start m0 cs (set_phase i p (st\<lparr>rs_store := s, rs_log := l\<rparr>))"
  using assms tasks_ok_update [of "content path tag" buffer start m0 cs "rs_tasks st" "rs_mem st" i p "rs_mem st"]
  by (auto simp: read_inv_def set_phase_def tasks_ok_def)

lemma read_inv_copy_out:
  assumes set: "read_setting content rd page path tag buffer start bytes cs"
    and inv: "read_inv content path tag buffer start m0 cs st" and i: "i < length (rs_tasks st)"
    and d: "data_ok (content path tag) (fst (rs_tasks st ! i)) d"
    and p: "phase_ok (content path tag) (fst (rs_tasks st ! i)) p"
  shows "read_inv content path tag buffer start m0 cs (copy_out i d p st)"
proof -
  let ?fc = "content path tag" and ?c = "fst (rs_tasks st ! i)"
  have plan: "plan_ok (length ?fc) buffer start cs (start + bytes)" and U: "length ?fc < U64"
    using set by (auto simp: read_setting_def)
  have ok: "tasks_ok ?fc buffer start m0 cs (rs_tasks st) (rs_mem st)" using inv by (simp add: read_inv_def)
  from tasks_ok_copy [OF plan U ok i d p] inv show ?thesis
    by (auto simp: copy_out_def set_phase_def read_inv_def)
qed

lemma read_inv_process:
  assumes set: "read_setting content rd page path tag buffer start bytes cs"
    and inv: "read_inv content path tag buffer start m0 cs st" and i: "i < length (rs_tasks st)"
  shows "read_inv content path tag buffer start m0 cs (ProcessCacheReadChunk put get rd page junk path tag i now st)"
proof -
  let ?fc = "content path tag" and ?c = "fst (rs_tasks st ! i)" and ?p = "snd (rs_tasks st ! i)"
  have ss: "sound_store content (rs_store st)" and ok: "tasks_ok ?fc buffer start m0 cs (rs_tasks st) (rs_mem st)"
    using inv by (simp_all add: read_inv_def)
  have ph: "phase_ok ?fc ?c ?p" using ok i by (simp add: tasks_ok_def)
  have plan: "plan_ok (length ?fc) buffer start cs (start + bytes)" using set by (simp add: read_setting_def)
  have c: "?c \<in> set cs" using ok i by (metis length_map nth_map nth_mem tasks_ok_def)
  have cw: "chunk_within (length ?fc) ?c" by (rule plan_ok_member(1) [OF plan c])
  show ?thesis
  proof (cases ?p)
    case Todo
    obtain r s' where g: "get (chunk_key path ?c) tag now (rs_store st) = (r, s')" by fastforce
    have s': "sound_store content s'" using sound_store_get [OF ss, of "chunk_key path ?c" tag now] g by simp
    show ?thesis
    proof (cases r)
      case None
      with Todo g show ?thesis
        using read_inv_set_phase [OF inv i _ s', of Missed] by (simp add: ProcessCacheReadChunk_def Let_def)
    next
      case (Some d)
      then have "data_ok ?fc ?c d" using get_sound [OF ss] g set by (auto simp: read_setting_def)
      with Todo g Some show ?thesis
        using read_inv_set_phase [OF inv i _ s', of "Hit d"] by (simp add: ProcessCacheReadChunk_def Let_def)
    qed
  next
    case (Hit d)
    with ph have "data_ok ?fc ?c d" by simp
    then show ?thesis
      using read_inv_copy_out [OF set inv i, of d Finished] Hit by (simp add: ProcessCacheReadChunk_def Let_def)
  next
    case Missed
    have "cr_aligned_start_offset ?c + cr_chunk_size ?c \<le> length ?fc" using cw by (simp add: chunk_within_def)
    moreover from this set have "rd (cr_aligned_start_offset ?c) (cr_chunk_size ?c) =
        Inr (slice (cr_aligned_start_offset ?c) (cr_chunk_size ?c) ?fc)"
      by (simp add: read_setting_def remote_ok_def)
    ultimately obtain d where d: "fetch_chunk rd page junk ?c = Inr d" "data_ok ?fc ?c d"
      using fetch_chunk_ok [of rd ?c ?fc page junk] set by (auto simp: read_setting_def)
    then show ?thesis
      using Missed read_inv_set_phase [OF inv i _ ss, of "Loaded d" "rs_log st"]
      by (simp add: ProcessCacheReadChunk_def Let_def)
  next
    case (Loaded d)
    with ph have "data_ok ?fc ?c d" by simp
    then show ?thesis
      using read_inv_copy_out [OF set inv i, of d "Copied d"] Loaded by (simp add: ProcessCacheReadChunk_def Let_def)
  next
    case (Copied d)
    have "entry_sound content (chunk_key path ?c) \<lparr>de_data = d, de_version_tag = tag\<rparr>"
      using ph Copied cw by (auto simp: entry_sound_def chunk_key_def data_ok_def chunk_within_def)
    then have "sound_store content (put (chunk_key path ?c) d tag now (rs_store st))" by (rule sound_store_put [OF ss])
    then show ?thesis
      using Copied read_inv_set_phase [OF inv i, of Finished _ "rs_log st"]
      by (simp add: ProcessCacheReadChunk_def Let_def)
  qed (use inv in \<open>simp_all add: ProcessCacheReadChunk_def Let_def\<close>)
qed

lemma read_inv_step:
  assumes "read_setting content rd page path tag buffer start bytes cs"
    and "read_step put get rd page junk path tag (sound_ops content) st st'"
    and "read_inv content path tag buffer start m0 cs st"
  shows "read_inv content path tag buffer start m0 cs st'"
  using assms(2)
proof (cases rule: read_step.cases)
  case (worker i now)
  with read_inv_process [OF assms(1,3)] show ?thesis by simp
next
  case (other f)
  with assms(3) sound_store_ops show ?thesis by (auto simp: read_inv_def)
qed

lemma read_inv_start:
  "sound_store content s \<Longrightarrow> read_inv content path tag buffer start m cs (read_start m s cs)"
  by (simp add: read_inv_def read_start_def tasks_ok_def comp_def)

lemma read_inv_reachable:
  assumes "read_setting content rd page path tag buffer start bytes cs"
    and "(read_step put get rd page junk path tag (sound_ops content))\<^sup>*\<^sup>* (read_start m s cs) st"
    and "sound_store content s"
  shows "read_inv content path tag buffer start m cs st"
  using assms(2)
proof (induction rule: rtranclp_induct)
  case base
  show ?case by (rule read_inv_start [OF assms(3)])
next
  case (step y z)
  then show ?case using read_inv_step [OF assms(1)] by blast
qed

end

section \<open>Finished reads\<close>

lemma tasks_ok_no_error: "tasks_ok fc buffer start m0 cs ts m \<Longrightarrow> first_error ts = None"
proof -
  assume "tasks_ok fc buffer start m0 cs ts m"
  then have "\<forall>t \<in> set ts. phase_ok fc (fst t) (snd t)"
    unfolding tasks_ok_def all_set_conv_all_nth by blast
  then show ?thesis by (induction ts) (auto split: chunk_phase.splits)
qed

lemma tasks_ok_done:
  assumes plan: "plan_ok (length fc) buffer start cs (start + bytes)"
    and ok: "tasks_ok fc buffer start m0 cs ts m" and over: "\<forall>t \<in> set ts. phase_over (snd t)"
  shows "mem_read buffer bytes m = slice start bytes fc"
    and "\<And>a. a < buffer \<or> buffer + bytes \<le> a \<Longrightarrow> m a = m0 a"
proof -
  have fin: "snd (ts ! i) = Finished" if "i < length ts" for i
  proof -
    have "phase_over (snd (ts ! i))" "phase_ok fc (fst (ts ! i)) (snd (ts ! i))"
      using that ok over by (simp_all add: tasks_ok_def)
    then show ?thesis by (cases "snd (ts ! i)") (simp_all add: phase_over_def)
  qed
  have val: "m a = wanted fc buffer start a" if a: "buffer \<le> a" "a < buffer + bytes" for a
  proof -
    obtain c where "c \<in> set cs" "covers_addr c a" using plan_ok_covered [OF plan a(1)] a(2) by auto
    moreover have "cs = map fst ts" using ok by (simp add: tasks_ok_def)
    ultimately obtain i where "i < length ts" "covers_addr (fst (ts ! i)) a"
      by (auto simp: in_set_conv_nth)
    with ok fin show ?thesis by (simp add: tasks_ok_def)
  qed
  show "mem_read buffer bytes m = slice start bytes fc"
  proof (cases "cs = []")
    case True
    with plan show ?thesis by (simp add: mem_read_def)
  next
    case False
    with plan_ok_end [OF plan] have "start + bytes \<le> length fc" by simp
    with val show ?thesis by (intro mem_read_eqI) (simp_all add: slice_nth)
  qed
  show "m a = m0 a" if "a < buffer \<or> buffer + bytes \<le> a" for a
  proof -
    have "\<not> covers_addr c a" if "c \<in> set cs" for c
      using \<open>a < buffer \<or> buffer + bytes \<le> a\<close> plan_ok_inside [OF plan that, of a] by linarith
    with ok show ?thesis by (simp add: tasks_ok_def)
  qed
qed

section \<open>Every worker finishes\<close>

fun phase_rank :: "chunk_phase \<Rightarrow> nat" where
  "phase_rank Todo = 4"
| "phase_rank Missed = 3"
| "phase_rank (Loaded d) = 2"
| "phase_rank (Hit d) = 1"
| "phase_rank (Copied d) = 1"
| "phase_rank Finished = 0"
| "phase_rank (Failed e) = 0"

definition remaining :: "'s read_state \<Rightarrow> nat" where
  "remaining st = sum_list (map (phase_rank \<circ> snd) (rs_tasks st))"

lemma remaining_set_phase:
  assumes "i < length (rs_tasks st)" "phase_rank p < phase_rank (snd (rs_tasks st ! i))"
  shows "remaining (set_phase i p (st\<lparr>rs_store := s, rs_mem := m, rs_log := l\<rparr>)) < remaining st"
proof -
  let ?ts = "rs_tasks st"
  have "?ts = take i ?ts @ ?ts ! i # drop (Suc i) ?ts" using assms(1) by (rule id_take_nth_drop)
  then have "remaining st = sum_list (map (phase_rank \<circ> snd) (take i ?ts)) + phase_rank (snd (?ts ! i)) +
      sum_list (map (phase_rank \<circ> snd) (drop (Suc i) ?ts))"
    unfolding remaining_def by (metis (no_types, lifting) add.assoc comp_apply list.simps(9) map_append
      sum_list.Cons sum_list_append)
  moreover have "?ts[i := (fst (?ts ! i), p)] = take i ?ts @ (fst (?ts ! i), p) # drop (Suc i) ?ts"
    using assms(1) by (rule upd_conv_take_nth_drop)
  ultimately show ?thesis using assms(2) by (simp add: remaining_def set_phase_def)
qed

lemma remaining_process:
  assumes i: "i < length (rs_tasks st)" and p: "\<not> phase_over (snd (rs_tasks st ! i))"
  shows "remaining (ProcessCacheReadChunk put get rd page junk path tag i now st) < remaining st"
proof -
  have dec: "remaining (set_phase i q (st\<lparr>rs_store := s, rs_mem := m, rs_log := l\<rparr>)) < remaining st"
    if "phase_rank q < phase_rank (snd (rs_tasks st ! i))" for q s m l
    by (rule remaining_set_phase [OF i that])
  note dec' = dec [where s = "rs_store st" and m = "rs_mem st" and l = "rs_log st", simplified]
  have copy: "remaining (copy_out i d q st) < remaining st"
    if "phase_rank q < phase_rank (snd (rs_tasks st ! i))" "0 < phase_rank (snd (rs_tasks st ! i))" for d q
    using that dec [where q = q and s = "rs_store st" and l = "rs_log st", simplified] dec' [of "Failed _"]
    by (simp add: copy_out_def split: sum.splits)
  show ?thesis
  proof (cases "snd (rs_tasks st ! i)")
    case Todo
    obtain r s' where g: "get (chunk_key path (fst (rs_tasks st ! i))) tag now (rs_store st) = (r, s')" by fastforce
    show ?thesis using Todo dec [where s = s' and m = "rs_mem st", simplified]
      by (cases r) (simp_all add: ProcessCacheReadChunk_def Let_def g)
  next
    case Missed
    then show ?thesis using dec' by (simp add: ProcessCacheReadChunk_def Let_def split: sum.splits)
  next
    case (Copied d)
    then show ?thesis using dec [where q = Finished and m = "rs_mem st" and l = "rs_log st", simplified]
      by (simp add: ProcessCacheReadChunk_def Let_def)
  qed (use p copy in \<open>simp_all add: ProcessCacheReadChunk_def Let_def phase_over_def\<close>)
qed

lemma read_can_finish:
  "\<exists>st'. (read_step put get rd page junk path tag ops)\<^sup>*\<^sup>* st st' \<and> read_done st'"
proof (induction "remaining st" arbitrary: st rule: less_induct)
  case less
  show ?case
  proof (cases "read_done st")
    case False
    then obtain i where i: "i < length (rs_tasks st)" "\<not> phase_over (snd (rs_tasks st ! i))"
      by (auto simp: read_done_def in_set_conv_nth)
    let ?st = "ProcessCacheReadChunk put get rd page junk path tag i 0 st"
    have "read_step put get rd page junk path tag ops st ?st" using i by (rule read_step.worker)
    moreover obtain st' where "(read_step put get rd page junk path tag ops)\<^sup>*\<^sup>* ?st st'" "read_done st'"
      using less [OF remaining_process [OF i]] by blast
    ultimately show ?thesis by (meson converse_rtranclp_into_rtranclp)
  qed blast
qed

section \<open>The plan of a read\<close>

lemma reader_plan_ok:
  assumes n: "0 < bytes" and fl: "start + bytes \<le> file_size" "file_size + ic_cache_block_size cfg < U64"
    and bs: "0 < ic_cache_block_size cfg" and ls: "\<forall>es. map_of ls path = Some es \<longrightarrow> extents_ok es"
  shows "\<exists>cs total. reader_plan cfg ls path buffer start bytes file_size = Some (Inr (cs, total)) \<and>
    plan_ok file_size buffer start cs (start + bytes)"
proof -
  let ?rq = "\<lparr>cp_buffer = buffer, cp_requested_start_offset = start, cp_requested_bytes_to_read = bytes,
    cp_file_size = file_size, cp_max_gap_entry_size = ic_cache_block_size cfg\<rparr>"
  have "request_in_file start bytes file_size (ic_cache_block_size cfg)"
    using assms by (simp add: request_in_file_def)
  from fixed_block_split [OF this, of buffer] obtain cs total where
    fx: "split_fixed_blocks buffer start bytes file_size (ic_cache_block_size cfg) = Inr (Some (cs, total))"
      "plan_ok file_size buffer start cs (start + bytes)" by blast
  have col: "plan_ok file_size buffer start (PlanColumnChunks ?rq path ls) (start + bytes)" if "HasLayout path ls"
  proof -
    obtain es where es: "map_of ls path = Some es" using \<open>HasLayout path ls\<close> by (auto simp: HasLayout_def)
    have "plan_request_ok ?rq" using assms by (simp add: plan_request_ok_def)
    from column_split [OF this es] es ls show ?thesis by simp
  qed
  show ?thesis using n fx col by (auto simp: reader_plan_def Let_def)
qed

section \<open>Properties\<close>

definition storage_sound :: "contents \<Rightarrow> data_storage \<Rightarrow> bool" where
  "storage_sound content s \<longleftrightarrow>
     storage_inv s \<and> (\<forall>k e. storage_entries s k = Some e \<longrightarrow> entry_sound content k e)"

lemma storage_sound_iff: "storage_sound content s \<longleftrightarrow> storage.sound_store content s"
  by (simp add: storage_sound_def storage.sound_store_def storage.holds_def)

text \<open>
  The steps of a read on the reader's storage, with any other threads using the same storage.
\<close>

definition memory_read_step ::
  "contents \<Rightarrow> (idx_t \<Rightarrow> idx_t \<Rightarrow> byte list result) \<Rightarrow> idx_t \<Rightarrow> (nat \<Rightarrow> byte) \<Rightarrow> string \<Rightarrow> string \<Rightarrow>
   data_storage read_state \<Rightarrow> data_storage read_state \<Rightarrow> bool" where
  "memory_read_step content rd page junk path tag =
     read_step storage_Put storage_Get rd page junk path tag
       (storage_ops storage_Put storage_Get storage_Delete storage_Clear storage_Clear_from storage_Take content)"

lemma memory_read_outcome:
  assumes set: "read_setting content rd page path tag buffer start bytes cs" and s: "storage_sound content s"
    and run: "(memory_read_step content rd page junk path tag)\<^sup>*\<^sup>* (read_start m s cs) st"
  shows "storage_sound content (rs_store st)"
    and "\<exists>st'. (memory_read_step content rd page junk path tag)\<^sup>*\<^sup>* st st' \<and> read_done st'"
    and "read_done st \<Longrightarrow> WaitAll st = Some (Inr ()) \<and>
      mem_read buffer bytes (rs_mem st) = slice start bytes (content path tag) \<and>
      (\<forall>a. a < buffer \<or> buffer + bytes \<le> a \<longrightarrow> rs_mem st a = m a)"
proof -
  have plan: "plan_ok (length (content path tag)) buffer start cs (start + bytes)"
    using set by (simp add: read_setting_def)
  have inv: "storage.read_inv content path tag buffer start m cs st"
    using run s unfolding memory_read_step_def storage_sound_iff
    by (rule storage.read_inv_reachable [OF set])
  then have ok: "tasks_ok (content path tag) buffer start m cs (rs_tasks st) (rs_mem st)" and
    ss: "storage_sound content (rs_store st)"
    by (simp_all add: storage.read_inv_def storage_sound_iff)
  show "storage_sound content (rs_store st)" by (rule ss)
  show "\<exists>st'. (memory_read_step content rd page junk path tag)\<^sup>*\<^sup>* st st' \<and> read_done st'"
    unfolding memory_read_step_def by (rule read_can_finish)
  show "WaitAll st = Some (Inr ()) \<and> mem_read buffer bytes (rs_mem st) = slice start bytes (content path tag) \<and>
      (\<forall>a. a < buffer \<or> buffer + bytes \<le> a \<longrightarrow> rs_mem st a = m a)" if "read_done st"
    using that tasks_ok_no_error [OF ok] tasks_ok_done [OF plan ok] by (simp add: WaitAll_def read_done_def)
qed

text \<open>
  Property C1. The in-memory cache is transparent. For every request inside the file, every
  configuration of block size and chunking, both storages and every interleaving of the worker
  threads with each other and with other users of the storage (insertions of other reads,
  look-ups, deletions, clears, remaps): the plan is made; no worker ends with an exception; the
  read can always finish; and once \<open>WaitAll\<close> returns, the buffer holds exactly the requested
  bytes of the remote file and no byte outside the buffer has changed. The storage never comes
  to hold a wrong byte. The remote read is assumed to return the bytes of the file, and a
  version tag, or the file being immutable when validation is off, to identify its content.
\<close>

theorem read_is_transparent:
  assumes "0 < bytes" "start + bytes \<le> length (content path tag)"
    and "0 < page" "0 < ic_cache_block_size cfg"
    and "length (content path tag) + ic_cache_block_size cfg + 2 * page < U64"
    and "\<forall>es. map_of ls path = Some es \<longrightarrow> extents_ok es"
    and "remote_ok rd (content path tag)" "tag_reliable content path tag" "storage_sound content s"
  shows "\<exists>cs total.
    reader_plan cfg ls path buffer start bytes (length (content path tag)) = Some (Inr (cs, total)) \<and>
    (\<forall>m st. (memory_read_step content rd page junk path tag)\<^sup>*\<^sup>* (read_start m s cs) st \<longrightarrow>
       storage_sound content (rs_store st) \<and>
       (\<exists>st'. (memory_read_step content rd page junk path tag)\<^sup>*\<^sup>* st st' \<and> read_done st') \<and>
       (read_done st \<longrightarrow>
          WaitAll st = Some (Inr ()) \<and>
          mem_read buffer bytes (rs_mem st) = slice start bytes (content path tag) \<and>
          (\<forall>a. a < buffer \<or> buffer + bytes \<le> a \<longrightarrow> rs_mem st a = m a)))"
proof -
  let ?fc = "content path tag"
  obtain cs total where plan: "reader_plan cfg ls path buffer start bytes (length ?fc) = Some (Inr (cs, total))"
      "plan_ok (length ?fc) buffer start cs (start + bytes)"
    using reader_plan_ok [of bytes start "length ?fc" cfg ls path buffer] assms by auto
  have set: "read_setting content rd page path tag buffer start bytes cs"
    using plan(2) assms by (simp add: read_setting_def)
  note outcome = memory_read_outcome [OF set assms(9), where junk = junk]
  show ?thesis using plan(1) outcome by (intro exI [of _ cs] exI [of _ total]) blast
qed

definition example_config :: InMemoryCacheReaderConfig where
  "example_config =
     \<lparr>ic_max_cache_block_count = 2, ic_cache_block_timeout_millisec = 0, ic_cache_block_size = 3,
      ic_max_subrequest_count = 0, ic_enable_cache_validation = True, ic_in_mem_cache_storage = [],
      ic_chunking = [], ic_in_mem_cache_bytes = 0, ic_eviction_policy = ''lru'', ic_policy_scope = [],
      ic_file_policies = []\<rparr>"

lemma example_storage_sound: "storage_sound content (ExtensionBounded (ext_new 2 0))"
  by (simp add: storage_sound_def ext_new_def ext_entries_def lru_abs_def lru_new_def [of 2] sl_empty_def)
    (simp flip: lru_new_def sl_empty_def)

lemma read_is_transparent_witness:
  "\<exists>cs total st.
    reader_plan example_config [] ''f'' 100 2 5 8 = Some (Inr (cs, total)) \<and>
    (memory_read_step example_content (\<lambda>off len. Inr (slice off len (example_content ''f'' ''v1''))) 4 (\<lambda>_. 7) ''f'' ''v1'')\<^sup>*\<^sup>*
      (read_start (\<lambda>_. 0) (ExtensionBounded (ext_new 2 0)) cs) st \<and>
    WaitAll st = Some (Inr ()) \<and> mem_read 100 5 (rs_mem st) = [2, 3, 4, 5, 6] \<and> rs_mem st 99 = 0"
proof -
  let ?rd = "\<lambda>off len. Inr (slice off len (example_content ''f'' ''v1'')) :: byte list result"
  have fc: "example_content ''f'' ''v1'' = [0, 1, 2, 3, 4, 5, 6, 7]" by (simp add: example_content_def)
  have len: "length (example_content ''f'' ''v1'') = 8" by (simp add: fc)
  have rd: "remote_ok ?rd (example_content ''f'' ''v1'')" by (simp add: remote_ok_def)
  have tag: "tag_reliable example_content ''f'' ''v1''" by (simp add: tag_reliable_def)
  have "\<exists>cs total. reader_plan example_config [] ''f'' 100 2 5 (length (example_content ''f'' ''v1'')) = Some (Inr (cs, total)) \<and>
    (\<forall>m st. (memory_read_step example_content ?rd 4 (\<lambda>_. 7) ''f'' ''v1'')\<^sup>*\<^sup>*
        (read_start m (ExtensionBounded (ext_new 2 0)) cs) st \<longrightarrow>
      storage_sound example_content (rs_store st) \<and>
      (\<exists>st'. (memory_read_step example_content ?rd 4 (\<lambda>_. 7) ''f'' ''v1'')\<^sup>*\<^sup>* st st' \<and> read_done st') \<and>
      (read_done st \<longrightarrow> WaitAll st = Some (Inr ()) \<and>
        mem_read 100 5 (rs_mem st) = slice 2 5 (example_content ''f'' ''v1'') \<and>
        (\<forall>a. a < 100 \<or> 100 + 5 \<le> a \<longrightarrow> rs_mem st a = m a)))"
    by (rule read_is_transparent [OF _ _ _ _ _ _ rd tag example_storage_sound])
      (simp_all add: len example_config_def U64_def)
  then obtain cs total where plan: "reader_plan example_config [] ''f'' 100 2 5 8 = Some (Inr (cs, total))"
    and runs: "\<And>m st. (memory_read_step example_content ?rd 4 (\<lambda>_. 7) ''f'' ''v1'')\<^sup>*\<^sup>*
        (read_start m (ExtensionBounded (ext_new 2 0)) cs) st \<Longrightarrow>
      (\<exists>st'. (memory_read_step example_content ?rd 4 (\<lambda>_. 7) ''f'' ''v1'')\<^sup>*\<^sup>* st st' \<and> read_done st') \<and>
      (read_done st \<longrightarrow> WaitAll st = Some (Inr ()) \<and>
        mem_read 100 5 (rs_mem st) = slice 2 5 (example_content ''f'' ''v1'') \<and>
        (\<forall>a. a < 100 \<or> 100 + 5 \<le> a \<longrightarrow> rs_mem st a = m a))"
    unfolding len by blast
  obtain st where "(memory_read_step example_content ?rd 4 (\<lambda>_. 7) ''f'' ''v1'')\<^sup>*\<^sup>*
      (read_start (\<lambda>_. 0) (ExtensionBounded (ext_new 2 0)) cs) st" "read_done st"
    using runs [OF rtranclp.rtrancl_refl] by blast
  with plan runs [of "\<lambda>_. 0" st] show ?thesis by (auto simp: fc slice_def)
qed

text \<open>
  A read ends under every schedule: each action of a worker brings the read
  strictly closer to its end, and what other threads do to the storage does not set it back, so
  there are at most four actions per chunk; and every thread of a read that is not done can act.
\<close>

theorem read_makes_progress:
  assumes "i < length (rs_tasks st)" "\<not> phase_over (snd (rs_tasks st ! i))"
  shows "remaining (read_start m s cs) = 4 * length cs \<and>
    (read_done st' \<longleftrightarrow> remaining st' = 0) \<and>
    remaining (ProcessCacheReadChunk put get rd page junk path tag i now st) < remaining st \<and>
    remaining (st\<lparr>rs_store := f (rs_store st)\<rparr>) = remaining st"
proof -
  have start: "remaining (read_start m s cs) = 4 * length cs"
    by (simp add: remaining_def read_start_def comp_def sum_list_triv)
  have "phase_over p \<longleftrightarrow> phase_rank p = 0" for p by (cases p) (simp_all add: phase_over_def)
  then have "read_done st' \<longleftrightarrow> remaining st' = 0"
    by (simp add: read_done_def remaining_def sum_list_eq_0_iff)
  with start remaining_process [OF assms] show ?thesis by (simp add: remaining_def)
qed

lemma read_makes_progress_witness:
  "remaining (ProcessCacheReadChunk ext_Put ext_Get (\<lambda>off len. Inr []) 4 (\<lambda>_. 0) ''f'' [] 0 0
      (read_start (\<lambda>_. 0) (ext_new 1 0) [block_chunk 100 0 4 4 4 0])) < 4"
proof -
  let ?st = "read_start (\<lambda>_. 0) (ext_new 1 0) [block_chunk 100 0 4 4 4 0]"
  have i: "0 < length (rs_tasks ?st)" "\<not> phase_over (snd (rs_tasks ?st ! 0))"
    by (simp_all add: read_start_def phase_over_def)
  from read_makes_progress [OF i, of "\<lambda>_. 0" "ext_new 1 0" "[block_chunk 100 0 4 4 4 0]" ?st
      ext_Put ext_Get "\<lambda>off len. Inr []" 4 "\<lambda>_. 0" "''f''" "[]" 0 id]
  show ?thesis by simp
qed

text \<open>
  The rebuilt entries go back one by one.
\<close>

lemma storage_puts_sound:
  assumes "storage_sound content s"
    and "\<forall>(k, e) \<in> set es. entry_sound content k e \<and> P k"
    and "\<forall>k e. storage_entries s k = Some e \<longrightarrow> P k"
  shows "storage_sound content (fold (\<lambda>(k, e). storage_Put k (de_data e) (de_version_tag e) now) es s) \<and>
    (\<forall>k e. storage_entries (fold (\<lambda>(k, e). storage_Put k (de_data e) (de_version_tag e) now) es s) k = Some e \<longrightarrow> P k)"
  using assms
proof (induction es arbitrary: s)
  case (Cons ke es)
  obtain k e where ke: "ke = (k, e)" by (cases ke)
  let ?s = "storage_Put k (de_data e) (de_version_tag e) now s"
  have snd: "entry_sound content k e" "P k" using Cons.prems(2) by (auto simp: ke)
  have sound: "storage_sound content ?s"
    using Cons.prems(1) storage.sound_store_put [of content s k "de_data e" "de_version_tag e" now] snd(1)
    by (cases e) (simp add: storage_sound_iff)
  have keys: "\<forall>j x. storage_entries ?s j = Some x \<longrightarrow> P j"
  proof (intro allI impI)
    fix j x assume j: "storage_entries ?s j = Some x"
    have "storage_inv s" using Cons.prems(1) by (simp add: storage_sound_def)
    from storage.put_law [OF this j] Cons.prems(3) snd(2) show "P j" by blast
  qed
  have tail: "\<forall>(k, e) \<in> set es. entry_sound content k e \<and> P k" using Cons.prems(2) by simp
  from Cons.IH [OF sound tail keys] show ?case unfolding ke fold_simps case_prod_conv .
qed simp

lemma remap_storage_live:
  assumes "remap_bounds content page nbs" "storage_sound content s"
  shows "\<exists>s'. RemapInMemoryDataBlocksForNewBlockSize page junk clk now nbs (Some s) = Some (Inr (Some s')) \<and>
    storage_sound content s' \<and>
    (\<forall>k e. storage_entries s' k = Some e \<longrightarrow> start_off k mod nbs = 0 \<and> blk_size k \<le> nbs)"
proof -
  obtain taken s1 where t: "storage_Take clk s = (taken, s1)" by fastforce
  have inv: "storage_inv s" and ent: "\<And>k e. storage_entries s k = Some e \<Longrightarrow> entry_sound content k e"
    using assms(2) by (simp_all add: storage_sound_def)
  note tl = storage.take_law [OF inv t]
  have "entry_sound content (fst p) (snd p)" if "p \<in> set taken" for p
  proof -
    have "map_of taken (fst p) = Some (snd p)" using that tl by (simp add: map_of_eq_Some_iff)
    then have "storage_entries s (fst p) = Some (snd p)" using tl by (meson map_leD)
    then show ?thesis by (rule ent)
  qed
  then obtain rebuilt where r: "RemapInMemCacheEntries page junk taken nbs [] = Some (Inr rebuilt)"
      "\<forall>p \<in> set rebuilt. entry_sound content (fst p) (snd p) \<and> start_off (fst p) mod nbs = 0 \<and> blk_size (fst p) \<le> nbs"
    using remap_entries [OF assms(1), of taken] by blast
  have "storage_sound content s1" using tl by (simp add: storage_sound_def)
  from storage_puts_sound [where P = "\<lambda>k. start_off k mod nbs = 0 \<and> blk_size k \<le> nbs", OF this, of rebuilt now]
  show ?thesis
    using r tl t by (fastforce simp: RemapInMemoryDataBlocksForNewBlockSize_def)
qed

text \<open>
  Changing the block size of a live cache is safe: the storage is drained, its
  entries are joined and cut along the new grid, and put back; this ends without an exception,
  afterwards every entry still holds the bytes of the file range its key names, and every key
  lies on the new grid and is at most one new block long.
\<close>

theorem remap_live_cache:
  assumes "remap_bounds content page nbs" "storage_sound content s"
  shows "\<exists>s'. RemapInMemoryDataBlocksForNewBlockSize page junk clk now nbs (Some s) = Some (Inr (Some s')) \<and>
    storage_sound content s' \<and>
    (\<forall>k e. storage_entries s' k = Some e \<longrightarrow> start_off k mod nbs = 0 \<and> blk_size k \<le> nbs)"
  using remap_storage_live [OF assms] .

lemma remap_live_cache_witness:
  "\<exists>s'. RemapInMemoryDataBlocksForNewBlockSize 4 (\<lambda>_. 0) (\<lambda>_. 0) 0 3 (Some (ExtensionBounded (ext_new 2 0))) =
      Some (Inr (Some s')) \<and> storage_sound example_content s'"
proof -
  have "remap_bounds example_content 4 3" by (simp add: remap_bounds_def example_content_def U64_def)
  from remap_live_cache [OF this example_storage_sound, of "\<lambda>_. 0" "\<lambda>_. 0" 0] show ?thesis by blast
qed

lemma dom_drop_keys: "dom (\<lambda>k. if fname k = f then None else m k) = {k \<in> dom m. fname k \<noteq> f}"
  by (auto simp: dom_def)

lemma entry_info_image:
  "entry_info ` {k \<in> K. fname k \<noteq> f} = {i \<in> entry_info ` K. ci_original_remote_path i \<noteq> f}"
proof -
  have "ci_original_remote_path (entry_info k) = fname k" for k by (simp add: entry_info_def)
  then show ?thesis by auto
qed

text \<open>
  Clearing one file removes exactly its entries from the listing of the cache: what
  \<open>GetCacheEntriesInfo\<close> reports afterwards is what it reported before, less the entries of that
  file, and a look-up of any block of the file misses.
\<close>

theorem clear_file_listing:
  assumes "storage_inv s"
  shows "set (GetCacheEntriesInfo (ClearCache_file f (Some s))) =
      {i \<in> set (GetCacheEntriesInfo (Some s)). ci_original_remote_path i \<noteq> f} \<and>
    fst (storage_Get (InMemCacheBlock f off len) tag now (the (ClearCache_file f (Some s)))) = None"
proof -
  let ?s = "storage_Clear_from (InMemCacheBlock f 0 0) (\<lambda>block. fname block = f) s"
  have c: "storage_inv ?s" "storage_entries ?s = (\<lambda>k. if fname k = f then None else storage_entries s k)"
    using storage.clear_file [OF assms] by blast+
  have ks: "set (storage_Keys ?s) = dom (storage_entries ?s)" "set (storage_Keys s) = dom (storage_entries s)"
    using storage.keys_law [OF c(1)] storage.keys_law [OF assms] by blast+
  have "set (storage_Keys ?s) = {k \<in> set (storage_Keys s). fname k \<noteq> f}"
    unfolding ks c(2) by (rule dom_drop_keys)
  then have "set (GetCacheEntriesInfo (ClearCache_file f (Some s))) =
      {i \<in> set (GetCacheEntriesInfo (Some s)). ci_original_remote_path i \<noteq> f}"
    using entry_info_image [of "set (storage_Keys s)" f]
    by (simp only: GetCacheEntriesInfo_def ClearCache_file_def option.map option.case set_map)
  with storage.get_after_clear_file [OF assms, of "InMemCacheBlock f off len" f tag now] show ?thesis
    by (simp add: ClearCache_file_def)
qed

lemma clear_file_listing_witness:
  "set (GetCacheEntriesInfo (ClearCache_file ''f'' (Some (ExtensionBounded (ext_new 2 0))))) = {} \<and>
   fst (storage_Get (InMemCacheBlock ''f'' 0 4) [] 0
     (the (ClearCache_file ''f'' (Some (ExtensionBounded (ext_new 2 0)))))) = None"
proof -
  have "storage_inv (ExtensionBounded (ext_new 2 0))" by (simp add: ext_new_def)
  from clear_file_listing [OF this, of "''f''" 0 4 "[]" 0] show ?thesis
    by (simp add: GetCacheEntriesInfo_def ext_Keys_def shared_Keys_def ext_new_def lru_new_def)
qed

end
