(* ===== verification/Local_Files.thy ===== *)
theory Local_Files
  imports Disk_Cache_Path
begin

text \<open>
  The local file system as the cache sees it, and the helpers of
  \<open>src/utils/filesystem_utils.cpp\<close>. Its state maps paths to files, each with its bytes, its
  extended attributes and its modification time in microseconds; a system call has its documented
  effect on that state, and where the caller looks at its outcome, \<open>ok\<close> says whether it
  succeeded.
\<close>

section \<open>State and system calls\<close>

record local_file =
  lf_content :: "byte list"
  lf_xattrs :: "(string \<times> string) list"
  lf_mtime :: int

type_synonym local_fs = "(string \<times> local_file) list"

abbreviation fs_wf :: "local_fs \<Rightarrow> bool" where
  "fs_wf fs \<equiv> distinct (map fst fs)"

definition in_directory :: "string \<Rightarrow> string \<Rightarrow> bool" where
  "in_directory dir path \<longleftrightarrow>
     take (length dir + 1) path = dir @ ''/'' \<and> CHR ''/'' \<notin> set (drop (length dir + 1) path)"

definition ListFiles :: "string \<Rightarrow> local_fs \<Rightarrow> string list" where
  "ListFiles dir fs = map (\<lambda>path. drop (length dir + 1) path) (filter (in_directory dir) (map fst fs))"

definition full_name :: "string \<Rightarrow> string \<Rightarrow> string" where
  "full_name dir name = dir @ ''/'' @ name"

definition TryRemoveFile :: "string \<Rightarrow> local_fs \<Rightarrow> bool \<times> local_fs" where
  "TryRemoveFile path fs = (map_of fs path \<noteq> None, AList.delete path fs)"

definition create_file :: "string \<Rightarrow> int \<Rightarrow> local_fs \<Rightarrow> local_fs" where
  "create_file path now fs =
     (case map_of fs path of
        None \<Rightarrow> AList.update path \<lparr>lf_content = [], lf_xattrs = [], lf_mtime = now\<rparr> fs
      | Some f \<Rightarrow> AList.update path (f\<lparr>lf_content := [], lf_mtime := now\<rparr>) fs)"

text \<open>A write through an open handle; a file that has been removed meanwhile stays removed.\<close>

definition write_file :: "string \<Rightarrow> byte list \<Rightarrow> int \<Rightarrow> local_fs \<Rightarrow> local_fs" where
  "write_file path bytes now fs =
     (case map_of fs path of
        None \<Rightarrow> fs
      | Some f \<Rightarrow> AList.update path (f\<lparr>lf_content := bytes, lf_mtime := now\<rparr>) fs)"

definition MoveFile :: "string \<Rightarrow> string \<Rightarrow> local_fs \<Rightarrow> local_fs result" where
  "MoveFile source target fs =
     (case map_of fs source of
        None \<Rightarrow> Inl (IOException ''Could not rename file'')
      | Some f \<Rightarrow> Inr (AList.update target f (AList.delete source fs)))"

definition RemoveDirectory :: "string \<Rightarrow> local_fs \<Rightarrow> local_fs" where
  "RemoveDirectory dir fs = filter (\<lambda>(path, _). take (length dir + 1) path \<noteq> dir @ ''/'') fs"

section \<open>Attributes and timestamps\<close>

definition CACHE_VERSION_ATTR_KEY :: string where
  "CACHE_VERSION_ATTR_KEY = ''user.cache_version''"

definition GetFileXattr :: "local_fs \<Rightarrow> string \<Rightarrow> string \<Rightarrow> string" where
  "GetFileXattr fs path key = (case map_of fs path of None \<Rightarrow> [] | Some f \<Rightarrow> attr_value (lf_xattrs f) key)"

definition GetCacheVersion :: "local_fs \<Rightarrow> string \<Rightarrow> string" where
  "GetCacheVersion fs path = GetFileXattr fs path CACHE_VERSION_ATTR_KEY"

definition SetSingleFileAttribute ::
  "platform \<Rightarrow> bool \<Rightarrow> string \<Rightarrow> string \<Rightarrow> string \<Rightarrow> local_fs \<Rightarrow> bool result \<times> local_fs" where
  "SetSingleFileAttribute plat ok path key value fs =
     (if length key > GetMaxXattrValueSize plat
      then (Inl (InternalException (''File attribute key '' @ key @ '' is longer than upper limit'')), fs)
      else if length value > GetMaxXattrValueSize plat
      then (Inl (InternalException (''File attribute value '' @ value @ '' is longer than upper limit'')), fs)
      else case map_of fs path of
             None \<Rightarrow> (Inr False, fs)
           | Some f \<Rightarrow>
               if ok then (Inr True, AList.update path (f\<lparr>lf_xattrs := AList.update key value (lf_xattrs f)\<rparr>) fs)
               else (Inr False, fs))"

text \<open>The loop goes on after a failure; \<open>ok key\<close> is the outcome of the call for that key.\<close>

fun set_xattrs ::
  "platform \<Rightarrow> (string \<Rightarrow> bool) \<Rightarrow> string \<Rightarrow> bool \<Rightarrow> (string \<times> string) list \<Rightarrow> local_fs \<Rightarrow> bool result \<times> local_fs" where
  "set_xattrs plat ok path all_ok [] fs = (Inr all_ok, fs)"
| "set_xattrs plat ok path all_ok ((key, value) # attrs) fs =
     (case SetSingleFileAttribute plat (ok key) path key value fs of
        (Inl e, fs') \<Rightarrow> (Inl e, fs')
      | (Inr b, fs') \<Rightarrow> set_xattrs plat ok path (all_ok \<and> b) attrs fs')"

definition SetFileXattrs ::
  "platform \<Rightarrow> (string \<Rightarrow> bool) \<Rightarrow> string \<Rightarrow> (string \<times> string) list \<Rightarrow> local_fs \<Rightarrow> bool result \<times> local_fs" where
  "SetFileXattrs plat ok path attrs fs = set_xattrs plat ok path True attrs fs"

definition SetCacheVersion :: "platform \<Rightarrow> bool \<Rightarrow> string \<Rightarrow> string \<Rightarrow> local_fs \<Rightarrow> bool result \<times> local_fs" where
  "SetCacheVersion plat ok path version fs = SetSingleFileAttribute plat ok path CACHE_VERSION_ATTR_KEY version fs"

definition UpdateFileTimestamps :: "string \<Rightarrow> int \<Rightarrow> local_fs \<Rightarrow> local_fs" where
  "UpdateFileTimestamps path now fs =
     (case map_of fs path of None \<Rightarrow> fs | Some f \<Rightarrow> AList.update path (f\<lparr>lf_mtime := now\<rparr>) fs)"

section \<open>Directories\<close>

definition GetFileCountUnder :: "string \<Rightarrow> local_fs \<Rightarrow> nat" where
  "GetFileCountUnder folder fs = fold (\<lambda>_ n. n + 1) (ListFiles folder fs) 0"

definition GetSortedFilesUnder :: "string \<Rightarrow> local_fs \<Rightarrow> string list" where
  "GetSortedFilesUnder folder fs = sort (ListFiles folder fs)"

definition CACHE_FILE_STALENESS_MICROSEC :: int where
  "CACHE_FILE_STALENESS_MICROSEC = 86400000000"

text \<open>The outcome of \<open>std::remove\<close> is compared with a value it never has, so it is ignored.\<close>

definition evict_stale :: "int \<Rightarrow> string \<Rightarrow> string \<Rightarrow> string list \<times> local_fs \<Rightarrow> string list \<times> local_fs" where
  "evict_stale now dir name st =
     (case map_of (snd st) (full_name dir name) of
        None \<Rightarrow> st
      | Some f \<Rightarrow>
          if now - lf_mtime f \<ge> CACHE_FILE_STALENESS_MICROSEC
          then (fst st @ [full_name dir name], snd (TryRemoveFile (full_name dir name) (snd st)))
          else st)"

definition EvictStaleCacheFiles :: "int \<Rightarrow> string \<Rightarrow> local_fs \<Rightarrow> string list \<times> local_fs" where
  "EvictStaleCacheFiles now dir fs = fold (evict_stale now dir) (ListFiles dir fs) ([], fs)"

text \<open>Finding a free slot for a timestamp.\<close>

function free_slot :: "(int \<times> 'v) list \<Rightarrow> int \<Rightarrow> int" where
  "free_slot m t = (if map_of m t = None then t else free_slot m (t + 1))"
  by auto
termination
proof (relation "measure (\<lambda>(m, t). card {k \<in> fst ` set m. t \<le> k})", simp, unfold in_measure case_prod_conv)
  fix m :: "(int \<times> 'v) list" and t :: int
  assume "map_of m t \<noteq> None"
  then have "t \<in> {k \<in> fst ` set m. t \<le> k}" by (auto simp: keys_map_of)
  then have "{k \<in> fst ` set m. t + 1 \<le> k} \<subset> {k \<in> fst ` set m. t \<le> k}" by force
  then show "card {k \<in> fst ` set m. t + 1 \<le> k} < card {k \<in> fst ` set m. t \<le> k}"
    by (intro psubset_card_mono) auto
qed

declare free_slot.simps [simp del]

definition on_disk_file :: "local_fs \<Rightarrow> string \<Rightarrow> string \<Rightarrow> (int \<times> string) list \<Rightarrow> (int \<times> string) list" where
  "on_disk_file fs folder name m =
     (case map_of fs (full_name folder name) of
        None \<Rightarrow> m
      | Some f \<Rightarrow> om_insert (free_slot m (lf_mtime f)) (full_name folder name) m)"

definition GetOnDiskFilesUnder :: "string list \<Rightarrow> local_fs \<Rightarrow> (int \<times> string) list" where
  "GetOnDiskFilesUnder folders fs =
     fold (\<lambda>folder. fold (on_disk_file fs folder) (ListFiles folder fs)) folders []"

section \<open>Disk space\<close>

text \<open>
  \<open>avail\<close> and \<open>overall\<close> are what the system reports of free and overall space. The share that must
  stay free is 5\%; the quotient of doubles is written as the comparison of products it
  approximates, and a total of zero makes it infinite.
\<close>

definition DEFAULT_MIN_DISK_BYTES_FOR_CACHE :: idx_t where
  "DEFAULT_MIN_DISK_BYTES_FOR_CACHE = 0"

definition CanCacheOnDisk :: "idx_t option \<Rightarrow> idx_t option \<Rightarrow> idx_t \<Rightarrow> idx_t \<Rightarrow> bool" where
  "CanCacheOnDisk avail overall cache_block_size min_disk_bytes_for_cache =
     (case avail of
        None \<Rightarrow> False
      | Some avai_fs_bytes \<Rightarrow>
          if avai_fs_bytes \<le> cache_block_size then False
          else if min_disk_bytes_for_cache \<noteq> DEFAULT_MIN_DISK_BYTES_FOR_CACHE
          then min_disk_bytes_for_cache \<le> avai_fs_bytes
          else case overall of
                 None \<Rightarrow> False
               | Some total_fs_bytes \<Rightarrow> total_fs_bytes = 0 \<or> 100 * avai_fs_bytes > 5 * total_fs_bytes)"

section \<open>Directories and paths\<close>

lemma in_directory_iff: "in_directory dir path \<longleftrightarrow> (\<exists>name. path = full_name dir name \<and> CHR ''/'' \<notin> set name)"
proof
  assume "in_directory dir path"
  then have "path = (dir @ ''/'') @ drop (length dir + 1) path" "CHR ''/'' \<notin> set (drop (length dir + 1) path)"
    unfolding in_directory_def by (metis append_take_drop_id)+
  then show "\<exists>name. path = full_name dir name \<and> CHR ''/'' \<notin> set name"
    by (intro exI [of _ "drop (length dir + 1) path"]) (simp add: full_name_def)
qed (auto simp: in_directory_def full_name_def)

lemma full_name_inj:
  assumes "CHR ''/'' \<notin> set n" "CHR ''/'' \<notin> set n'"
  shows "full_name d n = full_name d' n' \<longleftrightarrow> d = d' \<and> n = n'"
  using cut_last [OF assms, of d d'] by (simp add: full_name_def)

lemma full_name_drop: "in_directory dir path \<Longrightarrow> full_name dir (drop (length dir + 1) path) = path"
  by (auto simp: in_directory_iff full_name_def)

lemma mem_ListFiles: "n \<in> set (ListFiles dir fs) \<longleftrightarrow> CHR ''/'' \<notin> set n \<and> full_name dir n \<in> fst ` set fs"
proof
  assume "n \<in> set (ListFiles dir fs)"
  then obtain p where p: "p \<in> fst ` set fs" "in_directory dir p" "n = drop (length dir + 1) p"
    unfolding ListFiles_def set_map set_filter by blast
  then show "CHR ''/'' \<notin> set n \<and> full_name dir n \<in> fst ` set fs"
    using full_name_drop [OF p(2)] by (simp add: in_directory_def)
next
  assume n: "CHR ''/'' \<notin> set n \<and> full_name dir n \<in> fst ` set fs"
  then have "in_directory dir (full_name dir n)" by (auto simp: in_directory_iff)
  moreover have "n = drop (length dir + 1) (full_name dir n)" by (simp add: full_name_def)
  ultimately show "n \<in> set (ListFiles dir fs)"
    unfolding ListFiles_def set_map set_filter using n by blast
qed

lemma paths_ListFiles: "map (full_name dir) (ListFiles dir fs) = filter (in_directory dir) (map fst fs)"
proof -
  have "map (full_name dir) (ListFiles dir fs) = map (\<lambda>p. p) (filter (in_directory dir) (map fst fs))"
    unfolding ListFiles_def map_map by (intro map_cong) (auto simp: full_name_drop [simplified])
  then show ?thesis by simp
qed

lemma distinct_ListFiles: "fs_wf fs \<Longrightarrow> distinct (ListFiles dir fs)"
  by (metis distinct_filter distinct_map paths_ListFiles)

definition files_under :: "string list \<Rightarrow> local_fs \<Rightarrow> string list" where
  "files_under dirs fs = concat (map (\<lambda>dir. map (full_name dir) (ListFiles dir fs)) dirs)"

lemma set_files_under: "set (files_under dirs fs) = {p \<in> fst ` set fs. \<exists>dir \<in> set dirs. in_directory dir p}"
  by (auto simp: files_under_def paths_ListFiles)

lemma distinct_files_under: "fs_wf fs \<Longrightarrow> distinct dirs \<Longrightarrow> distinct (files_under dirs fs)"
proof (induction dirs)
  case (Cons d dirs)
  have "in_directory d p \<Longrightarrow> in_directory d' p \<Longrightarrow> d = d'" for d' p
    by (auto simp: in_directory_iff full_name_inj)
  then have "set (filter (in_directory d) (map fst fs)) \<inter> set (files_under dirs fs) = {}"
    using Cons.prems by (auto simp: set_files_under)
  with Cons show ?case by (simp add: files_under_def paths_ListFiles)
qed (simp add: files_under_def)

lemma fold_dirs:
  "fold (\<lambda>d. fold (\<lambda>n. g (full_name d n)) (ListFiles d fs)) dirs z = fold g (files_under dirs fs) z"
  by (induction dirs arbitrary: z) (simp_all add: files_under_def fold_map comp_def)

section \<open>Files by modification time\<close>

lemma free_slot_free: "map_of m (free_slot m t) = None \<and> t \<le> free_slot m t"
proof (induction m t rule: free_slot.induct)
  case (1 m t)
  show ?case
  proof (cases "map_of m t = None")
    case True
    then show ?thesis by (subst (1 2) free_slot.simps) simp
  next
    case False
    with 1 show ?thesis by (subst (1 2) free_slot.simps) auto
  qed
qed

lemma mset_om_insert_new: "k \<notin> fst ` set m \<Longrightarrow> mset (om_insert k v m) = add_mset (k, v) (mset m)"
  by (induction k v m rule: om_insert.induct) auto

definition add_by_time :: "local_fs \<Rightarrow> string \<Rightarrow> (int \<times> string) list \<Rightarrow> (int \<times> string) list" where
  "add_by_time fs path m =
     (case map_of fs path of None \<Rightarrow> m | Some f \<Rightarrow> om_insert (free_slot m (lf_mtime f)) path m)"

lemma GetOnDiskFilesUnder_fold: "GetOnDiskFilesUnder folders fs = fold (add_by_time fs) (files_under folders fs) []"
  unfolding GetOnDiskFilesUnder_def on_disk_file_def [abs_def] add_by_time_def [abs_def] by (rule fold_dirs)

lemma add_by_time_mset:
  assumes "map_of fs path = Some f"
  shows "mset (add_by_time fs path m) = add_mset (free_slot m (lf_mtime f), path) (mset m)"
proof -
  have "free_slot m (lf_mtime f) \<notin> fst ` set m" using free_slot_free [of m "lf_mtime f"] by (simp add: map_of_eq_None_iff)
  with assms show ?thesis by (simp add: add_by_time_def mset_om_insert_new)
qed

lemma fold_add_by_time:
  assumes "set ps \<subseteq> fst ` set fs" "om_sorted m" "\<forall>(t, p) \<in> set m. \<exists>f. map_of fs p = Some f \<and> lf_mtime f \<le> t"
  shows "om_sorted (fold (add_by_time fs) ps m) \<and>
    mset (map snd (fold (add_by_time fs) ps m)) = mset ps + mset (map snd m) \<and>
    (\<forall>(t, p) \<in> set (fold (add_by_time fs) ps m). \<exists>f. map_of fs p = Some f \<and> lf_mtime f \<le> t)"
  using assms
proof (induction ps arbitrary: m)
  case (Cons p ps)
  then obtain f where f: "map_of fs p = Some f" by (metis domD insert_subset keys_map_of list.simps(15))
  let ?m = "add_by_time fs p m"
  note ms = add_by_time_mset [OF f, of m]
  have "set ?m = insert (free_slot m (lf_mtime f), p) (set m)" using ms by (metis set_mset_add_mset_insert set_mset_mset)
  then have "\<forall>(t, p) \<in> set ?m. \<exists>f. map_of fs p = Some f \<and> lf_mtime f \<le> t"
    using Cons.prems(3) f free_slot_free [of m "lf_mtime f"] by auto
  moreover have "om_sorted ?m" using Cons.prems(2) f by (simp add: add_by_time_def om_sorted_insert)
  ultimately show ?case using Cons.IH [of ?m] Cons.prems(1) ms by simp
qed simp

lemma on_disk_files:
  assumes "fs_wf fs" "distinct folders"
  shows "om_sorted (GetOnDiskFilesUnder folders fs)" "distinct (map snd (GetOnDiskFilesUnder folders fs))"
    "snd ` set (GetOnDiskFilesUnder folders fs) = {p \<in> fst ` set fs. \<exists>dir \<in> set folders. in_directory dir p}"
    "(t, p) \<in> set (GetOnDiskFilesUnder folders fs) \<Longrightarrow> \<exists>f. map_of fs p = Some f \<and> lf_mtime f \<le> t"
proof -
  let ?M = "GetOnDiskFilesUnder folders fs"
  have sub: "set (files_under folders fs) \<subseteq> fst ` set fs" by (auto simp: set_files_under)
  have f: "om_sorted ?M" "mset (map snd ?M) = mset (files_under folders fs)"
      "\<forall>(t, p) \<in> set ?M. \<exists>f. map_of fs p = Some f \<and> lf_mtime f \<le> t"
    using fold_add_by_time [OF sub, of "[]"] unfolding GetOnDiskFilesUnder_fold by simp_all
  show "om_sorted ?M" by (rule f(1))
  show "distinct (map snd ?M)" using f(2) distinct_files_under [OF assms] by (metis mset_eq_imp_distinct_iff)
  show "snd ` set ?M = {p \<in> fst ` set fs. \<exists>dir \<in> set folders. in_directory dir p}"
    using f(2) by (metis image_set mset_eq_setD set_files_under)
  show "(t, p) \<in> set ?M \<Longrightarrow> \<exists>f. map_of fs p = Some f \<and> lf_mtime f \<le> t" using f(3) by auto
qed

text \<open>
  Property C27. Collecting the cache files by modification time ends and loses none, even where
  files share a timestamp: the map is sorted, it names every file of the directories exactly
  once, and the time a file is filed under is never before its modification time.
\<close>

theorem on_disk_files_complete:
  assumes "fs_wf fs" "distinct folders"
  shows "om_sorted (GetOnDiskFilesUnder folders fs) \<and> distinct (map snd (GetOnDiskFilesUnder folders fs)) \<and>
    snd ` set (GetOnDiskFilesUnder folders fs) = {p \<in> fst ` set fs. \<exists>dir \<in> set folders. in_directory dir p} \<and>
    (\<forall>(t, p) \<in> set (GetOnDiskFilesUnder folders fs). \<exists>f. map_of fs p = Some f \<and> lf_mtime f \<le> t)"
  using on_disk_files [OF assms] by blast

lemma on_disk_files_complete_witness:
  "distinct (map snd (GetOnDiskFilesUnder [''/c'']
     [(''/c/a'', \<lparr>lf_content = [], lf_xattrs = [], lf_mtime = 5\<rparr>), (''/c/b'', \<lparr>lf_content = [], lf_xattrs = [], lf_mtime = 5\<rparr>)]))"
  by (rule on_disk_files_complete [THEN conjunct2, THEN conjunct1]) simp_all

end
