(* ===== verification/Disk_Lru.thy ===== *)
theory Disk_Lru
  imports Local_Files
begin

text \<open>
  The access order of on-disk cache files for the eviction policy \<open>lru_sp\<close>: the two maps of
  \<open>DiskCacheReader\<close> (\<open>src/disk_cache_reader.cpp\<close>) between timestamps and paths. Each operation
  runs under \<open>cache_file_access_timestamp_map_mutex\<close>. Timestamps are microseconds.
\<close>

section \<open>Maps and operations\<close>

record access_maps =
  cache_file_access_timestamp_map :: "(int \<times> string) list"
  cache_filepath_to_access_timestamp :: "(string \<times> int) list"

definition no_accesses :: access_maps where
  "no_accesses = \<lparr>cache_file_access_timestamp_map = [], cache_filepath_to_access_timestamp = []\<rparr>"

definition sizes_agree :: "access_maps \<Rightarrow> bool" where
  "sizes_agree m \<longleftrightarrow>
     length (cache_file_access_timestamp_map m) = length (cache_filepath_to_access_timestamp m)"

definition check_sizes :: "access_maps \<Rightarrow> access_maps result" where
  "check_sizes m =
     (if sizes_agree m then Inr m
      else Inl (AssertionFailure ''cache_file_access_timestamp_map.size() == cache_filepath_to_access_timestamp.size()''))"

definition RemoveCacheFileAccessTimestamp :: "string \<Rightarrow> access_maps \<Rightarrow> access_maps result" where
  "RemoveCacheFileAccessTimestamp filepath m =
     (case map_of (cache_filepath_to_access_timestamp m) filepath of
        None \<Rightarrow> Inr m
      | Some ts \<Rightarrow>
          if map_of (cache_file_access_timestamp_map m) ts = None then Inl (AssertionFailure ''erased == 1'')
          else Inr \<lparr>cache_file_access_timestamp_map = AList.delete ts (cache_file_access_timestamp_map m),
                    cache_filepath_to_access_timestamp =
                      AList.delete filepath (cache_filepath_to_access_timestamp m)\<rparr>)"

text \<open>\<open>emplace\<close> into the map by path, with the assertion that the path is new.\<close>

definition emplace_path :: "string \<Rightarrow> int \<Rightarrow> (string \<times> int) list \<Rightarrow> (string \<times> int) list result" where
  "emplace_path filepath ts m =
     (if map_of m filepath = None then Inr (AList.update filepath ts m) else Inl (AssertionFailure ''inserted''))"

fun load_paths :: "(int \<times> string) list \<Rightarrow> (string \<times> int) list \<Rightarrow> (string \<times> int) list result" where
  "load_paths [] m = Inr m"
| "load_paths ((ts, filepath) # es) m =
     (case emplace_path filepath ts m of Inl e \<Rightarrow> Inl e | Inr m' \<Rightarrow> load_paths es m')"

definition LoadCacheFileAccessTimestampMapsFromDisk :: "string list \<Rightarrow> local_fs \<Rightarrow> access_maps \<Rightarrow> access_maps result" where
  "LoadCacheFileAccessTimestampMapsFromDisk cache_directories fs m =
     (if cache_file_access_timestamp_map m \<noteq> [] then Inl (AssertionFailure ''cache_file_access_timestamp_map.empty()'')
      else if cache_filepath_to_access_timestamp m \<noteq> []
      then Inl (AssertionFailure ''cache_filepath_to_access_timestamp.empty()'')
      else let by_time = GetOnDiskFilesUnder cache_directories fs
           in case load_paths by_time [] of
                Inl e \<Rightarrow> Inl e
              | Inr by_path \<Rightarrow>
                  check_sizes \<lparr>cache_file_access_timestamp_map = by_time,
                               cache_filepath_to_access_timestamp = by_path\<rparr>)"

text \<open>The part of \<open>UpsertCacheFileAccessTimestamp\<close> under the lock; \<open>now\<close> is the current time.\<close>

definition upsert_access :: "string \<Rightarrow> int \<Rightarrow> access_maps \<Rightarrow> access_maps result" where
  "upsert_access filepath now m =
     (case RemoveCacheFileAccessTimestamp filepath m of
        Inl e \<Rightarrow> Inl e
      | Inr m1 \<Rightarrow>
          (let ts = free_slot (cache_file_access_timestamp_map m1) now;
               by_time = om_insert ts filepath (cache_file_access_timestamp_map m1)
           in case emplace_path filepath ts (cache_filepath_to_access_timestamp m1) of
                Inl e \<Rightarrow> Inl e
              | Inr by_path \<Rightarrow>
                  check_sizes \<lparr>cache_file_access_timestamp_map = by_time,
                               cache_filepath_to_access_timestamp = by_path\<rparr>))"

definition UpsertCacheFileAccessTimestamp ::
  "string \<Rightarrow> int \<Rightarrow> access_maps \<times> local_fs \<Rightarrow> access_maps result \<times> local_fs" where
  "UpsertCacheFileAccessTimestamp filepath now st =
     (upsert_access filepath now (fst st), UpdateFileTimestamps filepath now (snd st))"

definition evict_oldest :: "access_maps \<Rightarrow> (string option \<times> access_maps) result" where
  "evict_oldest m =
     (case cache_file_access_timestamp_map m of
        [] \<Rightarrow> Inr (None, m)
      | (ts, filepath) # _ \<Rightarrow>
          (case RemoveCacheFileAccessTimestamp filepath m of
             Inl e \<Rightarrow> Inl e
           | Inr m1 \<Rightarrow> (case check_sizes m1 of Inl e \<Rightarrow> Inl e | Inr m2 \<Rightarrow> Inr (Some filepath, m2))))"

definition EvictCacheBlockLru :: "string list \<Rightarrow> local_fs \<Rightarrow> access_maps \<Rightarrow> (string option \<times> access_maps) result" where
  "EvictCacheBlockLru cache_directories fs m =
     (case (if cache_file_access_timestamp_map m = []
            then LoadCacheFileAccessTimestampMapsFromDisk cache_directories fs m else Inr m) of
        Inl e \<Rightarrow> Inl e
      | Inr m1 \<Rightarrow> evict_oldest m1)"

section \<open>The invariant\<close>

definition access_inv :: "access_maps \<Rightarrow> bool" where
  "access_inv m \<longleftrightarrow>
     om_sorted (cache_file_access_timestamp_map m) \<and> distinct (map fst (cache_filepath_to_access_timestamp m)) \<and>
     (\<forall>t p. map_of (cache_file_access_timestamp_map m) t = Some p \<longleftrightarrow>
            map_of (cache_filepath_to_access_timestamp m) p = Some t)"

text \<open>The abstract view: when each path was last used.\<close>

definition last_access :: "access_maps \<Rightarrow> string \<rightharpoonup> int" where
  "last_access m = map_of (cache_filepath_to_access_timestamp m)"

lemma access_inv_none [simp]: "access_inv no_accesses"
  by (simp add: access_inv_def no_accesses_def)

lemma access_inv_sizes: "access_inv m \<Longrightarrow> sizes_agree m"
proof -
  assume inv: "access_inv m"
  let ?T = "cache_file_access_timestamp_map m" and ?P = "cache_filepath_to_access_timestamp m"
  have d: "distinct (map fst ?T)" "distinct (map fst ?P)"
    and iff: "\<And>t p. map_of ?T t = Some p \<longleftrightarrow> map_of ?P p = Some t"
    using inv om_sorted_distinct by (auto simp: access_inv_def)
  have mem: "(p, t) \<in> set ?P \<longleftrightarrow> (t, p) \<in> set ?T" for p t
    using iff [of t p] map_of_eq_Some_iff [OF d(1), of t p] map_of_eq_Some_iff [OF d(2), of p t] by metis
  have "prod.swap ` set ?T = set ?P" by (force simp: mem image_iff)
  then have "card (set ?T) = card (set ?P)" by (metis card_image inj_swap)
  then show ?thesis
    using d by (metis distinct_card distinct_map sizes_agree_def)
qed

lemma check_sizes_ok: "access_inv m \<Longrightarrow> check_sizes m = Inr m"
  by (simp add: check_sizes_def access_inv_sizes)

lemma remove_access:
  assumes "access_inv m"
  shows "\<exists>m'. RemoveCacheFileAccessTimestamp filepath m = Inr m' \<and> access_inv m' \<and>
    last_access m' = (last_access m)(filepath := None)"
proof (cases "map_of (cache_filepath_to_access_timestamp m) filepath")
  case None
  then have "(last_access m)(filepath := None) = last_access m" by (auto simp: last_access_def)
  with None assms show ?thesis by (auto simp: RemoveCacheFileAccessTimestamp_def)
next
  case (Some ts)
  let ?m = "\<lparr>cache_file_access_timestamp_map = AList.delete ts (cache_file_access_timestamp_map m),
    cache_filepath_to_access_timestamp = AList.delete filepath (cache_filepath_to_access_timestamp m)\<rparr>"
  have iff: "\<And>t p. map_of (cache_file_access_timestamp_map m) t = Some p \<longleftrightarrow>
      map_of (cache_filepath_to_access_timestamp m) p = Some t"
    using assms by (simp add: access_inv_def)
  have at: "map_of (cache_file_access_timestamp_map m) ts = Some filepath" using iff Some by simp
  have "(t \<noteq> ts \<and> map_of (cache_file_access_timestamp_map m) t = Some p) \<longleftrightarrow>
      (p \<noteq> filepath \<and> map_of (cache_filepath_to_access_timestamp m) p = Some t)" for t p
    using iff at Some by (metis option.inject)
  then have "access_inv ?m"
    using assms by (auto simp: access_inv_def distinct_delete om_sorted_delete)
  with Some at show ?thesis by (simp add: RemoveCacheFileAccessTimestamp_def last_access_def)
qed

lemma upsert_access_ok:
  assumes "access_inv m"
  shows "\<exists>m' t. upsert_access filepath now m = Inr m' \<and> access_inv m' \<and> now \<le> t \<and>
    (\<forall>p. last_access m p = Some t \<longrightarrow> p = filepath) \<and> last_access m' = (last_access m)(filepath \<mapsto> t)"
proof -
  obtain m1 where m1: "RemoveCacheFileAccessTimestamp filepath m = Inr m1" "access_inv m1"
      "last_access m1 = (last_access m)(filepath := None)"
    using remove_access [OF assms] by blast
  define t where "t = free_slot (cache_file_access_timestamp_map m1) now"
  have t: "map_of (cache_file_access_timestamp_map m1) t = None" "now \<le> t"
    using free_slot_free [of "cache_file_access_timestamp_map m1" now] by (simp_all add: t_def)
  let ?m = "\<lparr>cache_file_access_timestamp_map = om_insert t filepath (cache_file_access_timestamp_map m1),
    cache_filepath_to_access_timestamp = AList.update filepath t (cache_filepath_to_access_timestamp m1)\<rparr>"
  have new: "map_of (cache_filepath_to_access_timestamp m1) filepath = None"
    using m1(3) by (metis fun_upd_same last_access_def)
  have iff: "\<And>t p. map_of (cache_file_access_timestamp_map m1) t = Some p \<longleftrightarrow>
      map_of (cache_filepath_to_access_timestamp m1) p = Some t"
    using m1(2) by (simp add: access_inv_def)
  have "((map_of (cache_file_access_timestamp_map m1))(t \<mapsto> filepath)) s = Some p \<longleftrightarrow>
      ((map_of (cache_filepath_to_access_timestamp m1))(filepath \<mapsto> t)) p = Some s" for s p
    using iff t(1) new by (metis fun_upd_apply option.distinct(1) option.inject)
  then have inv: "access_inv ?m"
    using m1(2) unfolding access_inv_def by (simp add: distinct_update om_sorted_insert)
  have "p = filepath" if "last_access m p = Some t" for p
  proof (rule ccontr)
    assume "p \<noteq> filepath"
    with that m1(3) have "map_of (cache_filepath_to_access_timestamp m1) p = Some t"
      by (metis fun_upd_other last_access_def)
    with iff t(1) show False by (metis option.distinct(1))
  qed
  moreover have "upsert_access filepath now m = Inr ?m"
    using m1(1) new check_sizes_ok [OF inv]
    by (simp add: upsert_access_def emplace_path_def Let_def flip: t_def)
  moreover have "last_access ?m = (last_access m)(filepath \<mapsto> t)" using m1(3) by (simp add: last_access_def)
  ultimately show ?thesis using inv t(2) by blast
qed

section \<open>Loading and evicting\<close>

lemma load_paths_ok:
  assumes "distinct (map snd es)" "fst ` set m \<inter> snd ` set es = {}" "distinct (map fst m)"
  shows "\<exists>m'. load_paths es m = Inr m' \<and> distinct (map fst m') \<and>
    (\<forall>p t. map_of m' p = Some t \<longleftrightarrow> (t, p) \<in> set es \<or> map_of m p = Some t)"
  using assms
proof (induction es m rule: load_paths.induct)
  case (2 ts filepath es m)
  have new: "map_of m filepath = None" using "2.prems"(2) by (force simp: map_of_eq_None_iff)
  have step: "emplace_path filepath ts m = Inr (AList.update filepath ts m)" using new by (simp add: emplace_path_def)
  have "fst ` set (AList.update filepath ts m) = insert filepath (fst ` set m)" by (simp add: dom_update)
  then obtain m' where m': "load_paths es (AList.update filepath ts m) = Inr m'" "distinct (map fst m')"
      "\<And>p t. map_of m' p = Some t \<longleftrightarrow> (t, p) \<in> set es \<or> map_of (AList.update filepath ts m) p = Some t"
    using "2.IH" [OF step] "2.prems" by (auto simp: distinct_update)
  have "filepath \<notin> snd ` set es" using "2.prems"(1) by simp
  then have "map_of m' p = Some t \<longleftrightarrow> (t, p) \<in> set ((ts, filepath) # es) \<or> map_of m p = Some t" for p t
    using m'(3) [of p t] new by (cases "p = filepath") force+
  with m'(1,2) step show ?case by auto
qed simp

lemma load_ok:
  assumes "fs_wf fs" "distinct dirs"
  shows "\<exists>m. LoadCacheFileAccessTimestampMapsFromDisk dirs fs no_accesses = Inr m \<and> access_inv m \<and>
    dom (last_access m) = {p \<in> fst ` set fs. \<exists>dir \<in> set dirs. in_directory dir p} \<and>
    (\<forall>p t. last_access m p = Some t \<longrightarrow> (\<exists>f. map_of fs p = Some f \<and> lf_mtime f \<le> t))"
proof -
  let ?T = "GetOnDiskFilesUnder dirs fs"
  note T = on_disk_files [OF assms]
  obtain P where P: "load_paths ?T [] = Inr P" "distinct (map fst P)"
      "\<And>p t. map_of P p = Some t \<longleftrightarrow> (t, p) \<in> set ?T"
    using load_paths_ok [of ?T "[]"] T(2) by auto
  let ?m = "\<lparr>cache_file_access_timestamp_map = ?T, cache_filepath_to_access_timestamp = P\<rparr>"
  have inv: "access_inv ?m"
    using T(1) P om_sorted_distinct [OF T(1)] by (simp add: access_inv_def map_of_eq_Some_iff)
  have "dom (last_access ?m) = snd ` set ?T" using P(3) by (force simp: last_access_def dom_def)
  moreover have "\<exists>f. map_of fs p = Some f \<and> lf_mtime f \<le> t" if "last_access ?m p = Some t" for p t
    using that P(3) T(4) by (simp add: last_access_def)
  ultimately show ?thesis
    using inv P(1) T(3) check_sizes_ok [OF inv]
    by (simp add: LoadCacheFileAccessTimestampMapsFromDisk_def no_accesses_def)
qed

lemma evict_oldest_ok:
  assumes "access_inv m"
  shows "\<exists>r m'. evict_oldest m = Inr (r, m') \<and> access_inv m' \<and>
    (case r of
       None \<Rightarrow> last_access m = Map.empty \<and> m' = m
     | Some p \<Rightarrow> last_access m' = (last_access m)(p := None) \<and>
         (\<exists>t. last_access m p = Some t \<and> (\<forall>q u. last_access m q = Some u \<longrightarrow> t \<le> u)))"
proof (cases "cache_file_access_timestamp_map m")
  case Nil
  with access_inv_sizes [OF assms] have "last_access m = Map.empty" by (simp add: sizes_agree_def last_access_def)
  with Nil assms show ?thesis by (simp add: evict_oldest_def)
next
  case (Cons tp rest)
  obtain t p where tp: "tp = (t, p)" by fastforce
  obtain m1 where m1: "RemoveCacheFileAccessTimestamp p m = Inr m1" "access_inv m1"
      "last_access m1 = (last_access m)(p := None)"
    using remove_access [OF assms] by blast
  have iff: "map_of (cache_file_access_timestamp_map m) s = Some q \<longleftrightarrow> last_access m q = Some s" for s q
    using assms by (simp add: access_inv_def last_access_def)
  have "last_access m p = Some t" using iff [of t p] Cons tp by simp
  moreover have "t \<le> u" if "last_access m q = Some u" for q u
  proof -
    have "(u, q) \<in> set (cache_file_access_timestamp_map m)" using iff [of u q] that by (simp add: map_of_SomeD)
    moreover have "om_sorted ((t, p) # rest)" using assms Cons tp by (simp add: access_inv_def)
    ultimately show ?thesis using Cons tp by force
  qed
  ultimately show ?thesis
    using Cons tp m1 check_sizes_ok [OF m1(2)] by (auto simp: evict_oldest_def)
qed

text \<open>
  Property C26. The access order of on-disk files. The two maps stay inverse to each other, so
  none of the assertions of the operations on them can fail: using a file files it under a
  timestamp not before the current time that no other path has; an eviction yields the path with
  the oldest access, or nothing when no file is known, and forgets exactly that path; when
  nothing is known yet it first learns the files on disk.
\<close>

theorem disk_access_order:
  assumes "access_inv m" "fs_wf fs" "distinct dirs"
  shows "(\<exists>m' t. upsert_access filepath now m = Inr m' \<and> access_inv m' \<and> now \<le> t \<and>
      (\<forall>p. last_access m p = Some t \<longrightarrow> p = filepath) \<and> last_access m' = (last_access m)(filepath \<mapsto> t)) \<and>
    (\<exists>m'. RemoveCacheFileAccessTimestamp filepath m = Inr m' \<and> access_inv m' \<and>
      last_access m' = (last_access m)(filepath := None)) \<and>
    (\<exists>m0 r m'. EvictCacheBlockLru dirs fs m = Inr (r, m') \<and> access_inv m' \<and>
      (if last_access m = Map.empty
       then dom (last_access m0) = {p \<in> fst ` set fs. \<exists>dir \<in> set dirs. in_directory dir p} else m0 = m) \<and>
      (case r of
         None \<Rightarrow> last_access m0 = Map.empty \<and> last_access m' = Map.empty
       | Some p \<Rightarrow> last_access m' = (last_access m0)(p := None) \<and>
           (\<exists>t. last_access m0 p = Some t \<and> (\<forall>q u. last_access m0 q = Some u \<longrightarrow> t \<le> u))))"
proof -
  have empty: "cache_file_access_timestamp_map m = [] \<longleftrightarrow> last_access m = Map.empty"
    "last_access m = Map.empty \<Longrightarrow> m = no_accesses"
    using access_inv_sizes [OF assms(1)]
    by (cases m; auto simp: sizes_agree_def last_access_def no_accesses_def)+
  obtain m0 where m0: "(if cache_file_access_timestamp_map m = []
        then LoadCacheFileAccessTimestampMapsFromDisk dirs fs m else Inr m) = Inr m0" "access_inv m0"
      "if last_access m = Map.empty
       then dom (last_access m0) = {p \<in> fst ` set fs. \<exists>dir \<in> set dirs. in_directory dir p} else m0 = m"
    using load_ok [OF assms(2,3)] empty assms(1) by (cases "last_access m = Map.empty") auto
  obtain r m' where "evict_oldest m0 = Inr (r, m')" "access_inv m'"
      "case r of None \<Rightarrow> last_access m0 = Map.empty \<and> m' = m0
       | Some p \<Rightarrow> last_access m' = (last_access m0)(p := None) \<and>
           (\<exists>t. last_access m0 p = Some t \<and> (\<forall>q u. last_access m0 q = Some u \<longrightarrow> t \<le> u))"
    using evict_oldest_ok [OF m0(2)] by blast
  then have "EvictCacheBlockLru dirs fs m = Inr (r, m')" "access_inv m'"
      "case r of None \<Rightarrow> last_access m0 = Map.empty \<and> last_access m' = Map.empty
       | Some p \<Rightarrow> last_access m' = (last_access m0)(p := None) \<and>
           (\<exists>t. last_access m0 p = Some t \<and> (\<forall>q u. last_access m0 q = Some u \<longrightarrow> t \<le> u))"
    using m0(1) by (auto simp: EvictCacheBlockLru_def split: option.splits)
  with m0(3) upsert_access_ok [OF assms(1), of filepath now] remove_access [OF assms(1), of filepath] show ?thesis
    by blast
qed

lemma disk_access_order_witness:
  "\<exists>m'. upsert_access ''/c/a'' 7 no_accesses = Inr m' \<and> access_inv m'"
proof -
  have "fs_wf []" "distinct [''/c'']" by simp_all
  from disk_access_order [OF access_inv_none this, of "''/c/a''" 7] show ?thesis by blast
qed

end
