(* ===== verification/Disk_Cache_Files.thy ===== *)
theory Disk_Cache_Files
  imports Disk_Lru In_Memory_Reader
begin

text \<open>
  Storing, reading, validating and evicting cache files (\<open>src/disk_cache_util.cpp\<close>, the parts that
  touch the disk). Storing and reading are sequences of system calls between which other threads
  and processes act, so each is a machine whose step is one system call.
\<close>

section \<open>Configuration and environment\<close>

record DiskCacheConfig =
  dc_on_disk_cache_directories :: "string list"
  dc_cache_block_size :: idx_t
  dc_min_disk_bytes_for_cache :: idx_t
  dc_on_disk_eviction_policy :: string
  dc_enable_disk_reader_mem_cache :: bool
  dc_in_mem_cache_storage :: string
  dc_disk_reader_max_mem_cache_block_count :: idx_t
  dc_disk_reader_max_mem_cache_timeout_millisec :: idx_t
  dc_enable_cache_validation :: bool

definition ON_DISK_CREATION_TIMESTAMP_EVICTION :: string where
  "ON_DISK_CREATION_TIMESTAMP_EVICTION = ''creation_timestamp''"

definition ON_DISK_LRU_SINGLE_PROC_EVICTION :: string where
  "ON_DISK_LRU_SINGLE_PROC_EVICTION = ''lru_sp''"

text \<open>
  What the system answers at one step: the time, the clock of the in-memory storage, whether a
  call that writes succeeds, how much of a failed write reaches the file, whether setting an
  attribute succeeds, whether opening and reading an existing file succeeds, the free and the
  overall disk space.
\<close>

record disk_env =
  en_now :: int
  en_clock :: nat
  en_ok :: bool
  en_partial :: nat
  en_attr_ok :: "string \<Rightarrow> bool"
  en_read_ok :: bool
  en_avail :: "idx_t option"
  en_overall :: "idx_t option"

section \<open>Validation and eviction\<close>

definition ValidateCacheFile :: "local_fs \<Rightarrow> string \<Rightarrow> string \<Rightarrow> bool" where
  "ValidateCacheFile fs cache_filepath version_tag =
     (if version_tag = [] then True
      else let cached_version_tag = GetCacheVersion fs cache_filepath
           in if cached_version_tag = [] then False else cached_version_tag = version_tag)"

definition EvictCacheFiles ::
  "DiskCacheConfig \<Rightarrow> int \<Rightarrow> string \<Rightarrow> local_fs \<Rightarrow> access_maps \<Rightarrow> cpp_error option \<times> local_fs \<times> access_maps" where
  "EvictCacheFiles cfg now cache_directory fs lru =
     (if dc_on_disk_eviction_policy cfg = ON_DISK_CREATION_TIMESTAMP_EVICTION
      then (None, snd (EvictStaleCacheFiles now cache_directory fs), lru)
      else if dc_on_disk_eviction_policy cfg \<noteq> ON_DISK_LRU_SINGLE_PROC_EVICTION
      then (Some (AssertionFailure ''eviction_policy == *ON_DISK_LRU_SINGLE_PROC_EVICTION''), fs, lru)
      else case EvictCacheBlockLru (dc_on_disk_cache_directories cfg) fs lru of
             Inl e \<Rightarrow> (Some e, fs, lru)
           | Inr (None, lru') \<Rightarrow> (None, fs, lru')
           | Inr (Some filepath_to_evict, lru') \<Rightarrow> (None, snd (TryRemoveFile filepath_to_evict fs), lru'))"

section \<open>Storing a cache file\<close>

text \<open>
  The control points of \<open>StoreLocalCacheFile\<close>: the check of the disk space, creating and writing
  the temporary file, its version, its other attributes, the move to the destination, the removal
  of the temporary file by the scope guard, and the end with the exception in flight, if any.
\<close>

datatype store_phase =
    Store_Check
  | Store_Create
  | Store_Write
  | Store_Version
  | Store_Attrs
  | Store_Move
  | Store_Cleanup "cpp_error option"
  | Store_End "cpp_error option"

definition after_attr :: "store_phase \<Rightarrow> bool result \<times> local_fs \<Rightarrow> store_phase \<times> local_fs" where
  "after_attr next r =
     (case r of
        (Inl e, fs) \<Rightarrow> (Store_Cleanup (Some e), fs)
      | (Inr b, fs) \<Rightarrow> (if b then next else Store_Cleanup None, fs))"

fun StoreLocalCacheFile ::
  "platform \<Rightarrow> DiskCacheConfig \<Rightarrow> string \<Rightarrow> LocalCacheDestination \<Rightarrow> byte list \<Rightarrow> string \<Rightarrow> disk_env \<Rightarrow>
   store_phase \<Rightarrow> local_fs \<Rightarrow> access_maps \<Rightarrow> store_phase \<times> local_fs \<times> access_maps" where
  "StoreLocalCacheFile plat cfg dir dest bytes tag env Store_Check fs lru =
     (if CanCacheOnDisk (en_avail env) (en_overall env) (dc_cache_block_size cfg) (dc_min_disk_bytes_for_cache cfg)
      then (Store_Create, fs, lru)
      else case EvictCacheFiles cfg (en_now env) dir fs lru of (err, fs', lru') \<Rightarrow> (Store_End err, fs', lru'))"
| "StoreLocalCacheFile plat cfg dir dest bytes tag env Store_Create fs lru =
     (if en_ok env then (Store_Write, create_file (temp_local_filepath dest) (en_now env) fs, lru)
      else (Store_Cleanup (Some (IOException ''Cannot open file'')), fs, lru))"
| "StoreLocalCacheFile plat cfg dir dest bytes tag env Store_Write fs lru =
     (if en_ok env then (Store_Version, write_file (temp_local_filepath dest) bytes (en_now env) fs, lru)
      else (Store_Cleanup (Some (IOException ''Could not write file'')),
            write_file (temp_local_filepath dest) (take (en_partial env) bytes) (en_now env) fs, lru))"
| "StoreLocalCacheFile plat cfg dir dest bytes tag env Store_Version fs lru =
     (case (if tag = [] then (Store_Attrs, fs)
            else after_attr Store_Attrs
                   (SetCacheVersion plat (en_attr_ok env CACHE_VERSION_ATTR_KEY) (temp_local_filepath dest) tag fs)) of
        (ph, fs') \<Rightarrow> (ph, fs', lru))"
| "StoreLocalCacheFile plat cfg dir dest bytes tag env Store_Attrs fs lru =
     (case (if file_attrs dest = [] then (Store_Move, fs)
            else after_attr Store_Move
                   (SetFileXattrs plat (en_attr_ok env) (temp_local_filepath dest) (file_attrs dest) fs)) of
        (ph, fs') \<Rightarrow> (ph, fs', lru))"
| "StoreLocalCacheFile plat cfg dir dest bytes tag env Store_Move fs lru =
     (if en_ok env
      then case MoveFile (temp_local_filepath dest) (dest_local_filepath dest) fs of
             Inl e \<Rightarrow> (Store_Cleanup (Some e), fs, lru)
           | Inr fs' \<Rightarrow> (Store_Cleanup None, fs', lru)
      else (Store_Cleanup (Some (IOException ''Could not rename file'')), fs, lru))"
| "StoreLocalCacheFile plat cfg dir dest bytes tag env (Store_Cleanup err) fs lru =
     (Store_End err, if en_ok env then snd (TryRemoveFile (temp_local_filepath dest) fs) else fs, lru)"
| "StoreLocalCacheFile plat cfg dir dest bytes tag env (Store_End err) fs lru = (Store_End err, fs, lru)"

section \<open>Reading a cache file\<close>

text \<open>
  The control points of \<open>ReadLocalCacheFile\<close>: opening the file, validating it by its path while the
  handle is open, removing an invalid file, reading through the handle, refreshing the timestamps.
  The handle keeps the file it was opened on, whatever happens to the path.
\<close>

datatype local_read_phase =
    Read_Open
  | Read_Validate local_file
  | Read_Discard
  | Read_Content local_file
  | Read_Touch page_chunk
  | Read_Hit page_chunk
  | Read_Miss
  | Read_Error cpp_error

text \<open>A read through the handle puts \<open>chunk_size\<close> bytes into a fresh chunk or raises an exception.\<close>

definition read_handle :: "idx_t \<Rightarrow> (nat \<Rightarrow> byte) \<Rightarrow> idx_t \<Rightarrow> bool \<Rightarrow> local_file \<Rightarrow> page_chunk result" where
  "read_handle page junk chunk_size ok f =
     (let content = AllocatePageAlignedChunk page junk chunk_size
      in if \<not> ok \<or> length (lf_content f) < chunk_size then Inl (IOException ''Could not read from file'')
         else Inr (content\<lparr>pc_data := overwrite 0 (take chunk_size (lf_content f)) (pc_data content),
                           pc_length := chunk_size\<rparr>))"

fun ReadLocalCacheFile ::
  "idx_t \<Rightarrow> (nat \<Rightarrow> byte) \<Rightarrow> string \<Rightarrow> idx_t \<Rightarrow> string \<Rightarrow> disk_env \<Rightarrow> local_read_phase \<Rightarrow> local_fs \<Rightarrow>
   local_read_phase \<times> local_fs" where
  "ReadLocalCacheFile page junk path chunk_size tag env Read_Open fs =
     (case map_of fs path of
        None \<Rightarrow> (Read_Miss, fs)
      | Some f \<Rightarrow> (if en_read_ok env then Read_Validate f else Read_Error (IOException ''Cannot open file''), fs))"
| "ReadLocalCacheFile page junk path chunk_size tag env (Read_Validate f) fs =
     (if ValidateCacheFile fs path tag then (Read_Content f, fs) else (Read_Discard, fs))"
| "ReadLocalCacheFile page junk path chunk_size tag env Read_Discard fs =
     (Read_Miss, if en_ok env then snd (TryRemoveFile path fs) else fs)"
| "ReadLocalCacheFile page junk path chunk_size tag env (Read_Content f) fs =
     (case read_handle page junk chunk_size (en_read_ok env) f of
        Inl e \<Rightarrow> (Read_Error e, fs)
      | Inr d \<Rightarrow> (Read_Touch d, fs))"
| "ReadLocalCacheFile page junk path chunk_size tag env (Read_Touch d) fs =
     (Read_Hit d, if en_ok env then UpdateFileTimestamps path (en_now env) fs else fs)"
| "ReadLocalCacheFile page junk path chunk_size tag env ph fs = (ph, fs)"

section \<open>Dead temporary files\<close>

definition DEAD_TEMP_STALENESS_MICROSEC :: int where
  "DEAD_TEMP_STALENESS_MICROSEC = 10 * 60 * 1000 * 1000"

definition temp_files_under :: "string list \<Rightarrow> local_fs \<Rightarrow> string list" where
  "temp_files_under cache_directories fs =
     concat (map (\<lambda>dir. map (full_name dir) (filter IsTempCacheFile (ListFiles dir fs))) cache_directories)"

text \<open>The task of one path; the counter is atomic.\<close>

definition cleanup_task :: "int \<Rightarrow> string \<Rightarrow> idx_t \<times> local_fs \<Rightarrow> idx_t \<times> local_fs" where
  "cleanup_task now path st =
     (case map_of (snd st) path of
        None \<Rightarrow> st
      | Some f \<Rightarrow>
          if now - lf_mtime f \<ge> DEAD_TEMP_STALENESS_MICROSEC \<and> fst (TryRemoveFile path (snd st))
          then (fst st + 1, snd (TryRemoveFile path (snd st)))
          else st)"

definition CleanupDeadTempFiles :: "string list \<Rightarrow> int \<Rightarrow> local_fs \<Rightarrow> idx_t \<times> local_fs" where
  "CleanupDeadTempFiles cache_directories now fs =
     (let temp_file_paths = temp_files_under cache_directories fs
      in if temp_file_paths = [] then (0, fs) else fold (cleanup_task now) temp_file_paths (0, fs))"

section \<open>Effects on the file system\<close>

text \<open>A step that only removes files.\<close>

definition only_removes :: "local_fs \<Rightarrow> local_fs \<Rightarrow> bool" where
  "only_removes fs fs' \<longleftrightarrow> map_of fs' \<subseteq>\<^sub>m map_of fs \<and> (fs_wf fs \<longrightarrow> fs_wf fs')"

lemma only_removes_refl [simp]: "only_removes fs fs"
  by (simp add: only_removes_def)

lemma only_removes_trans: "only_removes a b \<Longrightarrow> only_removes b c \<Longrightarrow> only_removes a c"
  unfolding only_removes_def by (meson map_le_trans)

lemma only_removes_TryRemove [simp]: "only_removes fs (snd (TryRemoveFile p fs))"
  by (auto simp: only_removes_def TryRemoveFile_def distinct_delete map_le_def)

lemma only_removes_evict_stale: "only_removes (snd st) (snd (evict_stale now dir n st))"
  by (simp add: evict_stale_def split: option.splits)

lemma only_removes_EvictStale: "only_removes fs (snd (EvictStaleCacheFiles now dir fs))"
proof -
  have "only_removes (snd st) (snd (fold (evict_stale now dir) ns st))" for ns st
  proof (induction ns arbitrary: st)
    case (Cons n ns)
    show ?case using only_removes_trans [OF only_removes_evict_stale Cons] by simp
  qed simp
  from this [of "([], fs)"] show ?thesis by (simp add: EvictStaleCacheFiles_def)
qed

lemma only_removes_EvictCacheFiles:
  "EvictCacheFiles cfg now dir fs lru = (err, fs', lru') \<Longrightarrow> only_removes fs fs'"
  using only_removes_EvictStale [of fs now dir]
  by (auto simp: EvictCacheFiles_def split: if_splits sum.splits option.splits)

lemma evict_keeps_access_inv:
  assumes "access_inv lru" "fs_wf fs" "distinct (dc_on_disk_cache_directories cfg)"
    and "EvictCacheFiles cfg now dir fs lru = (err, fs', lru')"
  shows "access_inv lru'"
proof -
  let ?dirs = "dc_on_disk_cache_directories cfg"
  have "access_inv l'" if ev: "EvictCacheBlockLru ?dirs fs lru = Inr (r, l')" for r l'
  proof -
    obtain m0 where m0: "(if cache_file_access_timestamp_map lru = []
        then LoadCacheFileAccessTimestampMapsFromDisk ?dirs fs lru else Inr lru) = Inr m0" "evict_oldest m0 = Inr (r, l')"
      using ev by (auto simp: EvictCacheBlockLru_def split: sum.splits)
    have "access_inv m0"
    proof (cases "cache_file_access_timestamp_map lru = []")
      case True
      with access_inv_sizes [OF assms(1)] have "lru = no_accesses"
        by (cases lru) (simp add: sizes_agree_def no_accesses_def)
      with True m0(1) load_ok [OF assms(2,3)] show ?thesis by auto
    qed (use m0 assms in simp)
    with evict_oldest_ok m0(2) show ?thesis by fastforce
  qed
  then show ?thesis
    using assms(1,4) by (auto simp: EvictCacheFiles_def split: if_splits sum.splits option.splits)
qed

text \<open>A step that changes one path only.\<close>

definition changes_only :: "string \<Rightarrow> local_fs \<Rightarrow> local_fs \<Rightarrow> bool" where
  "changes_only path fs fs' \<longleftrightarrow> (\<forall>p. p \<noteq> path \<longrightarrow> map_of fs' p = map_of fs p) \<and> (fs_wf fs \<longrightarrow> fs_wf fs')"

lemma changes_only_refl [simp]: "changes_only p fs fs"
  by (simp add: changes_only_def)

lemma changes_only_update [simp]: "changes_only p fs (AList.update p f fs)"
  by (simp add: changes_only_def distinct_update)

lemma changes_only_delete [simp]: "changes_only p fs (AList.delete p fs)"
  by (simp add: changes_only_def distinct_delete)

lemma changes_only_trans: "changes_only p a b \<Longrightarrow> changes_only p b c \<Longrightarrow> changes_only p a c"
  by (simp add: changes_only_def)

lemma changes_only_SetSingle:
  "changes_only p fs (snd (SetSingleFileAttribute plat ok p key value fs))"
  by (simp add: SetSingleFileAttribute_def split: option.splits)

lemma changes_only_set_xattrs: "changes_only p fs (snd (set_xattrs plat ok p b attrs fs))"
proof (induction plat ok p b attrs fs rule: set_xattrs.induct)
  case (2 plat ok p b key v attrs fs)
  obtain r fs1 where r: "SetSingleFileAttribute plat (ok key) p key v fs = (r, fs1)" by fastforce
  have "changes_only p fs fs1" using changes_only_SetSingle [of p fs plat "ok key" key v] r by simp
  with 2 r show ?case by (auto split: sum.splits intro: changes_only_trans)
qed simp

lemma set_single_true:
  assumes "SetSingleFileAttribute plat ok p key value fs = (Inr True, fs')"
  shows "\<exists>f. map_of fs p = Some f \<and> map_of fs' p = Some (f\<lparr>lf_xattrs := AList.update key value (lf_xattrs f)\<rparr>)"
  using assms by (auto simp: SetSingleFileAttribute_def split: if_splits option.splits)

lemma set_xattrs_false: "set_xattrs plat ok p False attrs fs \<noteq> (Inr True, fs')"
  by (induction attrs arbitrary: fs) (auto split: sum.splits prod.splits)

lemma set_xattrs_true:
  assumes "set_xattrs plat ok p b attrs fs = (Inr True, fs')" "attrs \<noteq> []"
  shows "\<exists>f. map_of fs p = Some f \<and>
    map_of fs' p = Some (f\<lparr>lf_xattrs := fold (\<lambda>(k, v). AList.update k v) attrs (lf_xattrs f)\<rparr>)"
  using assms
proof (induction attrs arbitrary: fs b)
  case (Cons kv attrs)
  obtain k v where kv: "kv = (k, v)" by fastforce
  obtain c fs1 where s: "SetSingleFileAttribute plat (ok k) p k v fs = (Inr c, fs1)"
      "set_xattrs plat ok p (b \<and> c) attrs fs1 = (Inr True, fs')"
    using Cons.prems(1) kv by (auto split: sum.splits prod.splits)
  have c: "b \<and> c" using s(2) set_xattrs_false by (cases "b \<and> c") auto
  then obtain f where f: "map_of fs p = Some f" "map_of fs1 p = Some (f\<lparr>lf_xattrs := AList.update k v (lf_xattrs f)\<rparr>)"
    using set_single_true [of plat "ok k" p k v fs fs1] s(1) by auto
  show ?case
  proof (cases "attrs = []")
    case True
    with s(2) f kv show ?thesis by auto
  next
    case False
    from Cons.IH [OF s(2) False] f kv show ?thesis by auto
  qed
qed simp

lemma map_of_fold_update:
  "distinct (map fst attrs) \<Longrightarrow>
   map_of (fold (\<lambda>(k, v). AList.update k v) attrs xs) = map_of xs ++ map_of attrs"
proof (induction attrs arbitrary: xs)
  case (Cons kv attrs)
  obtain k v where kv: "kv = (k, v)" by fastforce
  have k: "k \<notin> dom (map_of attrs)" using Cons.prems kv by (simp add: dom_map_of_conv_image_fst)
  have "map_of (fold (\<lambda>(k, v). AList.update k v) (kv # attrs) xs) = (map_of xs)(k \<mapsto> v) ++ map_of attrs"
    using Cons kv by simp
  also have "\<dots> = map_of xs ++ map_of (kv # attrs)" using k kv by (simp add: map_add_upd_left)
  finally show ?case .
qed simp

section \<open>The write protocol\<close>

text \<open>What a published file must hold: the content, the version and all the attributes.\<close>

definition finished_file :: "LocalCacheDestination \<Rightarrow> byte list \<Rightarrow> string \<Rightarrow> local_file \<Rightarrow> bool" where
  "finished_file dest bytes tag f \<longleftrightarrow>
     lf_content f = bytes \<and> attr_value (lf_xattrs f) CACHE_VERSION_ATTR_KEY = tag \<and>
     (\<forall>k v. map_of (file_attrs dest) k = Some v \<longrightarrow> map_of (lf_xattrs f) k = Some v)"

definition version_attrs :: "string \<Rightarrow> (string \<times> string) list" where
  "version_attrs tag = (if tag = [] then [] else [(CACHE_VERSION_ATTR_KEY, tag)])"

text \<open>What is known of the temporary file at each control point, if it is still there.\<close>

fun temp_file_ok :: "LocalCacheDestination \<Rightarrow> byte list \<Rightarrow> string \<Rightarrow> store_phase \<Rightarrow> local_file \<Rightarrow> bool" where
  "temp_file_ok dest bytes tag Store_Check f = False"
| "temp_file_ok dest bytes tag Store_Create f = False"
| "temp_file_ok dest bytes tag Store_Write f = (lf_xattrs f = [])"
| "temp_file_ok dest bytes tag Store_Version f = (lf_content f = bytes \<and> lf_xattrs f = [])"
| "temp_file_ok dest bytes tag Store_Attrs f = (lf_content f = bytes \<and> lf_xattrs f = version_attrs tag)"
| "temp_file_ok dest bytes tag Store_Move f = finished_file dest bytes tag f"
| "temp_file_ok dest bytes tag ph f = True"

definition temp_ok :: "LocalCacheDestination \<Rightarrow> byte list \<Rightarrow> string \<Rightarrow> store_phase \<Rightarrow> local_fs \<Rightarrow> bool" where
  "temp_ok dest bytes tag ph fs \<longleftrightarrow>
     (\<forall>f. map_of fs (temp_local_filepath dest) = Some f \<longrightarrow> temp_file_ok dest bytes tag ph f)"

definition dest_ok :: "LocalCacheDestination \<Rightarrow> bool" where
  "dest_ok dest \<longleftrightarrow>
     distinct (map fst (file_attrs dest)) \<and> map_of (file_attrs dest) CACHE_VERSION_ATTR_KEY = None \<and>
     temp_local_filepath dest \<noteq> dest_local_filepath dest"

lemma version_attrs_value: "attr_value (version_attrs tag) CACHE_VERSION_ATTR_KEY = tag"
  by (simp add: version_attrs_def attr_value_def)

lemma finished_attrs:
  assumes "dest_ok dest" "lf_content f = bytes" "lf_xattrs f = version_attrs tag"
  shows "finished_file dest bytes tag
    (f\<lparr>lf_xattrs := fold (\<lambda>(k, v). AList.update k v) (file_attrs dest) (lf_xattrs f)\<rparr>)"
proof -
  have m: "map_of (fold (\<lambda>(k, v). AList.update k v) (file_attrs dest) (version_attrs tag)) =
      map_of (version_attrs tag) ++ map_of (file_attrs dest)"
    using assms(1) by (intro map_of_fold_update) (simp add: dest_ok_def)
  have "(map_of (version_attrs tag) ++ map_of (file_attrs dest)) CACHE_VERSION_ATTR_KEY =
      map_of (version_attrs tag) CACHE_VERSION_ATTR_KEY"
    using assms(1) by (simp add: dest_ok_def map_add_def)
  then have "attr_value (fold (\<lambda>(k, v). AList.update k v) (file_attrs dest) (version_attrs tag)) CACHE_VERSION_ATTR_KEY = tag"
    using version_attrs_value [of tag] by (simp add: attr_value_def m)
  then show ?thesis using assms(2,3) by (simp add: finished_file_def m)
qed

lemma finished_no_attrs:
  "file_attrs dest = [] \<Longrightarrow> lf_content f = bytes \<Longrightarrow> lf_xattrs f = version_attrs tag \<Longrightarrow> finished_file dest bytes tag f"
  by (simp add: finished_file_def version_attrs_value)

lemma after_attr_cases:
  assumes "after_attr nxt r = (ph, fs')"
  shows "fs' = snd r \<and> (ph = nxt \<and> fst r = Inr True \<or> (\<exists>e. ph = Store_Cleanup e))"
  using assms by (cases r) (auto simp: after_attr_def split: sum.splits if_splits)

lemma store_temp_ok:
  assumes d: "dest_ok dest" and t: "temp_ok dest bytes tag ph fs"
    and st: "StoreLocalCacheFile plat cfg dir dest bytes tag env ph fs lru = (ph', fs', lru')"
  shows "temp_ok dest bytes tag ph' fs'"
proof (cases ph)
  case Store_Check
  with t st show ?thesis by (auto simp: temp_ok_def split: if_splits prod.splits)
next
  case Store_Create
  with t st show ?thesis by (auto simp: temp_ok_def create_file_def split: if_splits option.splits)
next
  case Store_Write
  with t st show ?thesis by (auto simp: temp_ok_def write_file_def split: if_splits option.splits)
next
  case Store_Version
  show ?thesis
  proof (cases "tag = []")
    case True
    with Store_Version t st show ?thesis by (auto simp: temp_ok_def version_attrs_def)
  next
    case False
    let ?r = "SetCacheVersion plat (en_attr_ok env CACHE_VERSION_ATTR_KEY) (temp_local_filepath dest) tag fs"
    have r: "after_attr Store_Attrs ?r = (ph', fs')" using False Store_Version st by (auto split: prod.splits)
    show ?thesis
    proof (cases "\<exists>e. ph' = Store_Cleanup e")
      case False
      with after_attr_cases [OF r] have a: "ph' = Store_Attrs" "?r = (Inr True, fs')" by (auto simp: prod_eq_iff)
      from set_single_true [OF a(2) [unfolded SetCacheVersion_def]] t Store_Version a(1) \<open>tag \<noteq> []\<close> show ?thesis
        by (auto simp: temp_ok_def version_attrs_def)
    qed (auto simp: temp_ok_def)
  qed
next
  case Store_Attrs
  show ?thesis
  proof (cases "file_attrs dest = []")
    case True
    with Store_Attrs t st show ?thesis by (auto simp: temp_ok_def finished_no_attrs)
  next
    case False
    let ?r = "SetFileXattrs plat (en_attr_ok env) (temp_local_filepath dest) (file_attrs dest) fs"
    have r: "after_attr Store_Move ?r = (ph', fs')" using False Store_Attrs st by (auto split: prod.splits)
    show ?thesis
    proof (cases "\<exists>e. ph' = Store_Cleanup e")
      case False
      with after_attr_cases [OF r] have a: "ph' = Store_Move" "?r = (Inr True, fs')" by (auto simp: prod_eq_iff)
      from set_xattrs_true [OF a(2) [unfolded SetFileXattrs_def] \<open>file_attrs dest \<noteq> []\<close>] t Store_Attrs a(1) show ?thesis
        using finished_attrs [OF d] by (auto simp: temp_ok_def)
    qed (auto simp: temp_ok_def)
  qed
next
  case Store_Move
  with st show ?thesis by (auto simp: temp_ok_def split: if_splits sum.splits)
qed (use st in \<open>auto simp: temp_ok_def\<close>)

text \<open>What one step may do to the files, apart from the temporary file.\<close>

lemma store_effect:
  assumes t: "temp_ok dest bytes tag ph fs"
    and st: "StoreLocalCacheFile plat cfg dir dest bytes tag env ph fs lru = (ph', fs', lru')"
    and f: "map_of fs' p = Some f" "p \<noteq> temp_local_filepath dest"
  shows "map_of fs p = Some f \<or> p = dest_local_filepath dest \<and> finished_file dest bytes tag f"
proof -
  have same: "map_of fs p = Some f" if "changes_only (temp_local_filepath dest) fs fs'"
    using that f by (simp add: changes_only_def)
  show ?thesis
  proof (cases ph)
    case Store_Check
    then have "only_removes fs fs'"
      using st only_removes_EvictCacheFiles by (auto split: if_splits prod.splits)
    with f show ?thesis by (meson map_leD only_removes_def)
  next
    case Store_Create
    with st show ?thesis by (intro disjI1 same) (auto simp: create_file_def split: if_splits option.splits)
  next
    case Store_Write
    with st show ?thesis by (intro disjI1 same) (auto simp: write_file_def split: if_splits option.splits)
  next
    case Store_Version
    have "changes_only (temp_local_filepath dest) fs (snd (after_attr Store_Attrs
        (SetCacheVersion plat (en_attr_ok env CACHE_VERSION_ATTR_KEY) (temp_local_filepath dest) tag fs)))"
      using after_attr_cases changes_only_SetSingle by (metis SetCacheVersion_def prod.collapse)
    with Store_Version st show ?thesis by (intro disjI1 same) (auto split: if_splits prod.splits)
  next
    case Store_Attrs
    have "changes_only (temp_local_filepath dest) fs (snd (after_attr Store_Move
        (SetFileXattrs plat (en_attr_ok env) (temp_local_filepath dest) (file_attrs dest) fs)))"
      using after_attr_cases changes_only_set_xattrs by (metis SetFileXattrs_def prod.collapse)
    with Store_Attrs st show ?thesis by (intro disjI1 same) (auto split: if_splits prod.splits)
  next
    case Store_Move
    with st t f show ?thesis
      by (auto simp: MoveFile_def temp_ok_def split: if_splits sum.splits option.splits)
  next
    case (Store_Cleanup e)
    with st have "only_removes fs fs'" by (auto split: if_splits)
    with f show ?thesis by (meson map_leD only_removes_def)
  qed (use st f in auto)
qed

lemma store_wf:
  assumes st: "StoreLocalCacheFile plat cfg dir dest bytes tag env ph fs lru = (ph', fs', lru')" and wf: "fs_wf fs"
  shows "fs_wf fs'"
proof -
  have c: "fs_wf g" if "changes_only p fs g" for p g using that wf by (simp add: changes_only_def)
  have r: "fs_wf g" if "only_removes fs g" for g using that wf by (simp add: only_removes_def)
  show ?thesis
  proof (cases ph)
    case Store_Check
    then have "only_removes fs fs'" using st only_removes_EvictCacheFiles by (auto split: if_splits prod.splits)
    then show ?thesis by (rule r)
  next
    case Store_Create
    with st wf show ?thesis by (auto simp: create_file_def distinct_update split: if_splits option.splits)
  next
    case Store_Write
    with st wf show ?thesis by (auto simp: write_file_def distinct_update split: if_splits option.splits)
  next
    case Store_Version
    then have "fs' = fs \<or> fs' = snd (SetCacheVersion plat (en_attr_ok env CACHE_VERSION_ATTR_KEY) (temp_local_filepath dest) tag fs)"
      using st after_attr_cases by (auto split: if_splits prod.splits)
    then show ?thesis using wf c changes_only_SetSingle unfolding SetCacheVersion_def by metis
  next
    case Store_Attrs
    then have "fs' = fs \<or> fs' = snd (SetFileXattrs plat (en_attr_ok env) (temp_local_filepath dest) (file_attrs dest) fs)"
      using st after_attr_cases by (auto split: if_splits prod.splits)
    then show ?thesis using wf c changes_only_set_xattrs unfolding SetFileXattrs_def by metis
  next
    case Store_Move
    with st wf show ?thesis
      by (auto simp: MoveFile_def distinct_update distinct_delete split: if_splits sum.splits option.splits)
  next
    case (Store_Cleanup e)
    with st have "only_removes fs fs'" by (auto split: if_splits)
    then show ?thesis by (rule r)
  qed (use st wf in auto)
qed

lemma store_access_inv:
  assumes "StoreLocalCacheFile plat cfg dir dest bytes tag env ph fs lru = (ph', fs', lru')" "fs_wf fs"
    and "access_inv lru" "distinct (dc_on_disk_cache_directories cfg)"
  shows "access_inv lru'"
  using assms evict_keeps_access_inv [OF assms(3,2,4)]
  by (cases ph) (auto split: if_splits prod.splits sum.splits)

fun store_rank :: "store_phase \<Rightarrow> nat" where
  "store_rank Store_Check = 7"
| "store_rank Store_Create = 6"
| "store_rank Store_Write = 5"
| "store_rank Store_Version = 4"
| "store_rank Store_Attrs = 3"
| "store_rank Store_Move = 2"
| "store_rank (Store_Cleanup e) = 1"
| "store_rank (Store_End e) = 0"

lemma store_rank_decreases:
  assumes st: "StoreLocalCacheFile plat cfg dir dest bytes tag env ph fs lru = (ph', fs', lru')" and "0 < store_rank ph"
  shows "store_rank ph' < store_rank ph"
proof -
  have a: "store_rank (fst (after_attr nxt r)) \<le> max 1 (store_rank nxt)" for nxt r
    using after_attr_cases [of nxt r "fst (after_attr nxt r)" "snd (after_attr nxt r)"] by auto
  show ?thesis
  proof (cases ph)
    case Store_Version
    with st a [of Store_Attrs "SetCacheVersion plat (en_attr_ok env CACHE_VERSION_ATTR_KEY) (temp_local_filepath dest) tag fs"]
    show ?thesis by (auto split: if_splits prod.splits)
  next
    case Store_Attrs
    with st a [of Store_Move "SetFileXattrs plat (en_attr_ok env) (temp_local_filepath dest) (file_attrs dest) fs"]
    show ?thesis by (auto split: if_splits prod.splits)
  qed (use assms in \<open>auto split: if_splits prod.splits sum.splits\<close>)
qed

text \<open>
  A store in progress among others, who may do anything to the files but write the temporary file,
  whose name is fresh; they may remove it.
\<close>

inductive store_step ::
  "platform \<Rightarrow> DiskCacheConfig \<Rightarrow> string \<Rightarrow> LocalCacheDestination \<Rightarrow> byte list \<Rightarrow> string \<Rightarrow>
   store_phase \<times> local_fs \<times> access_maps \<Rightarrow> store_phase \<times> local_fs \<times> access_maps \<Rightarrow> bool"
  for plat cfg dir dest bytes tag where
  own: "store_step plat cfg dir dest bytes tag (ph, fs, lru)
    (StoreLocalCacheFile plat cfg dir dest bytes tag env ph fs lru)"
| other: "(\<And>f. map_of fs' (temp_local_filepath dest) = Some f \<Longrightarrow> map_of fs (temp_local_filepath dest) = Some f) \<Longrightarrow>
    store_step plat cfg dir dest bytes tag (ph, fs, lru) (ph, fs', lru')"

lemma store_reachable_temp_ok:
  assumes "(store_step plat cfg dir dest bytes tag)\<^sup>*\<^sup>* s0 s" "dest_ok dest" "temp_ok dest bytes tag (fst s0) (fst (snd s0))"
  shows "temp_ok dest bytes tag (fst s) (fst (snd s))"
  using assms
proof (induction rule: rtranclp_induct)
  case (step y z)
  have y: "temp_ok dest bytes tag (fst y) (fst (snd y))" by (rule step.IH) (use step.prems in simp_all)
  from step.hyps(2) show ?case
  proof (cases rule: store_step.cases)
    case (own ph fs lru env)
    obtain ph' fs' lru' where st: "StoreLocalCacheFile plat cfg dir dest bytes tag env ph fs lru = (ph', fs', lru')"
      by (metis prod.collapse)
    from store_temp_ok [OF step.prems(1) _ st] y own st show ?thesis by simp
  next
    case (other fs' fs ph lru lru')
    with y show ?thesis by (auto simp: temp_ok_def)
  qed
qed simp

text \<open>
  Property C24. The write protocol is atomic. Whatever calls fail and whatever other threads and
  processes do meanwhile, short of writing the uniquely named temporary file, every step of
  storing a cache file changes other paths only by removing files or by publishing, at the
  destination, a complete file: all the bytes, the version tag, all the attributes. And it ends:
  each of its own steps comes closer to the end, seven at most.
\<close>

theorem store_is_atomic:
  assumes "(store_step plat cfg dir dest bytes tag)\<^sup>*\<^sup>* (Store_Check, fs0, lru0) (ph, fs, lru)"
    and "dest_ok dest" "map_of fs0 (temp_local_filepath dest) = None"
    and "StoreLocalCacheFile plat cfg dir dest bytes tag env ph fs lru = (ph', fs', lru')"
  shows "(\<forall>p f. map_of fs' p = Some f \<and> p \<noteq> temp_local_filepath dest \<longrightarrow>
      map_of fs p = Some f \<or> p = dest_local_filepath dest \<and> finished_file dest bytes tag f) \<and>
    store_rank ph \<le> 7 \<and> (store_rank ph' < store_rank ph \<or> (\<exists>err. ph = Store_End err))"
proof -
  have "temp_ok dest bytes tag ph fs"
    using store_reachable_temp_ok [OF assms(1,2)] assms(3) by (simp add: temp_ok_def)
  from store_effect [OF this assms(4)] store_rank_decreases [OF assms(4)] show ?thesis
    by (cases ph) auto
qed

definition example_dest :: LocalCacheDestination where
  "example_dest =
     \<lparr>dest_local_filepath = ''/c/a'', temp_local_filepath = ''/c/a.1.httpfs_local_cache'',
      file_attrs = [(''user.cache_httpfs_remote_path.000'', ''s3://b/f'')]\<rparr>"

definition example_disk_config :: DiskCacheConfig where
  "example_disk_config =
     \<lparr>dc_on_disk_cache_directories = [''/c''], dc_cache_block_size = 4, dc_min_disk_bytes_for_cache = 0,
      dc_on_disk_eviction_policy = ''lru_sp'', dc_enable_disk_reader_mem_cache = False,
      dc_in_mem_cache_storage = [], dc_disk_reader_max_mem_cache_block_count = 0,
      dc_disk_reader_max_mem_cache_timeout_millisec = 0, dc_enable_cache_validation = True\<rparr>"

definition example_env :: disk_env where
  "example_env =
     \<lparr>en_now = 5, en_clock = 0, en_ok = True, en_partial = 0, en_attr_ok = (\<lambda>_. True), en_read_ok = True,
      en_avail = Some 100, en_overall = Some 1000\<rparr>"

lemma example_dest_ok: "dest_ok example_dest"
  by (simp add: dest_ok_def example_dest_def CACHE_VERSION_ATTR_KEY_def)

lemma store_is_atomic_witness:
  "store_rank (fst (StoreLocalCacheFile Linux example_disk_config ''/c'' example_dest [2, 3] ''v1'' example_env
     Store_Check [] no_accesses)) < 7"
proof -
  obtain ph' fs' lru' where st: "StoreLocalCacheFile Linux example_disk_config ''/c'' example_dest [2, 3] ''v1'' example_env
      Store_Check [] no_accesses = (ph', fs', lru')" by (metis prod.collapse)
  from store_is_atomic [OF rtranclp.rtrancl_refl example_dest_ok _ st] show ?thesis by (simp add: st del: StoreLocalCacheFile.simps)
qed

section \<open>Storing and reading back\<close>

text \<open>Nothing fails: there is space, every call succeeds and the attributes fit the limit.\<close>

definition calls_succeed :: "platform \<Rightarrow> DiskCacheConfig \<Rightarrow> LocalCacheDestination \<Rightarrow> string \<Rightarrow> disk_env \<Rightarrow> bool" where
  "calls_succeed plat cfg dest tag env \<longleftrightarrow>
     CanCacheOnDisk (en_avail env) (en_overall env) (dc_cache_block_size cfg) (dc_min_disk_bytes_for_cache cfg) \<and>
     en_ok env \<and> (\<forall>k. en_attr_ok env k) \<and> en_read_ok env \<and>
     (\<forall>(k, v) \<in> set ((CACHE_VERSION_ATTR_KEY, tag) # file_attrs dest).
        length k \<le> GetMaxXattrValueSize plat \<and> length v \<le> GetMaxXattrValueSize plat)"

fun store_run ::
  "platform \<Rightarrow> DiskCacheConfig \<Rightarrow> string \<Rightarrow> LocalCacheDestination \<Rightarrow> byte list \<Rightarrow> string \<Rightarrow> disk_env \<Rightarrow> nat \<Rightarrow>
   store_phase \<times> local_fs \<times> access_maps \<Rightarrow> store_phase \<times> local_fs \<times> access_maps" where
  "store_run plat cfg dir dest bytes tag env 0 st = st"
| "store_run plat cfg dir dest bytes tag env (Suc n) (ph, fs, lru) =
     store_run plat cfg dir dest bytes tag env n (StoreLocalCacheFile plat cfg dir dest bytes tag env ph fs lru)"

fun read_run ::
  "idx_t \<Rightarrow> (nat \<Rightarrow> byte) \<Rightarrow> string \<Rightarrow> idx_t \<Rightarrow> string \<Rightarrow> disk_env \<Rightarrow> nat \<Rightarrow> local_read_phase \<times> local_fs \<Rightarrow>
   local_read_phase \<times> local_fs" where
  "read_run page junk path n tag env 0 st = st"
| "read_run page junk path n tag env (Suc k) (ph, fs) =
     read_run page junk path n tag env k (ReadLocalCacheFile page junk path n tag env ph fs)"

lemma set_single_succeeds:
  assumes "map_of fs p = Some f" "length key \<le> GetMaxXattrValueSize plat" "length v \<le> GetMaxXattrValueSize plat"
  shows "SetSingleFileAttribute plat True p key v fs =
    (Inr True, AList.update p (f\<lparr>lf_xattrs := AList.update key v (lf_xattrs f)\<rparr>) fs)"
  using assms by (simp add: SetSingleFileAttribute_def)

lemma set_xattrs_succeeds:
  assumes "map_of fs p = Some f" "\<forall>k. ok k"
    and "\<forall>(k, v) \<in> set attrs. length k \<le> GetMaxXattrValueSize plat \<and> length v \<le> GetMaxXattrValueSize plat"
  shows "\<exists>fs'. set_xattrs plat ok p True attrs fs = (Inr True, fs')"
  using assms
proof (induction attrs arbitrary: fs f)
  case (Cons kv attrs)
  obtain k v where kv: "kv = (k, v)" by fastforce
  let ?f = "f\<lparr>lf_xattrs := AList.update k v (lf_xattrs f)\<rparr>"
  have "SetSingleFileAttribute plat True p k v fs = (Inr True, AList.update p ?f fs)"
    using Cons.prems kv by (intro set_single_succeeds) auto
  moreover have "\<exists>fs'. set_xattrs plat ok p True attrs (AList.update p ?f fs) = (Inr True, fs')"
    using Cons.prems by (intro Cons.IH [of _ ?f]) auto
  moreover have "ok k" using Cons.prems(2) by simp
  ultimately show ?case using kv by simp
qed simp

lemma store_succeeds:
  assumes ok: "calls_succeed plat cfg dest tag env" and d: "dest_ok dest"
    and new: "map_of fs (temp_local_filepath dest) = None"
  shows "\<exists>fs' f. store_run plat cfg dir dest bytes tag env 7 (Store_Check, fs, lru) = (Store_End None, fs', lru) \<and>
    map_of fs' (dest_local_filepath dest) = Some f \<and> finished_file dest bytes tag f \<and>
    map_of fs' (temp_local_filepath dest) = None \<and>
    (\<forall>p. p \<notin> {temp_local_filepath dest, dest_local_filepath dest} \<longrightarrow> map_of fs' p = map_of fs p)"
proof -
  let ?S = "\<lambda>ph fs. StoreLocalCacheFile plat cfg dir dest bytes tag env ph fs lru"
  let ?t = "temp_local_filepath dest" and ?d = "dest_local_filepath dest"
  have e: "en_ok env" "\<And>k. en_attr_ok env k" "\<And>k v. (k, v) \<in> set (file_attrs dest) \<Longrightarrow>
      length k \<le> GetMaxXattrValueSize plat \<and> length v \<le> GetMaxXattrValueSize plat"
      "length CACHE_VERSION_ATTR_KEY \<le> GetMaxXattrValueSize plat" "length tag \<le> GetMaxXattrValueSize plat"
    using ok by (auto simp: calls_succeed_def)
  have s1: "?S Store_Check fs = (Store_Create, fs, lru)" using ok by (simp add: calls_succeed_def)
  define fs1 where "fs1 = create_file ?t (en_now env) fs"
  have s2: "?S Store_Create fs = (Store_Write, fs1, lru)" using e by (simp add: fs1_def)
  define fs2 where "fs2 = write_file ?t bytes (en_now env) fs1"
  have s3: "?S Store_Write fs1 = (Store_Version, fs2, lru)" using e by (simp add: fs2_def)
  obtain f2 where f2: "map_of fs2 ?t = Some f2" "lf_content f2 = bytes" "lf_xattrs f2 = []"
    and o2: "\<And>p. p \<noteq> ?t \<Longrightarrow> map_of fs2 p = map_of fs p"
    using new by (auto simp: fs2_def fs1_def create_file_def write_file_def)
  define fs3 where "fs3 = (if tag = [] then fs2 else
      AList.update ?t (f2\<lparr>lf_xattrs := AList.update CACHE_VERSION_ATTR_KEY tag (lf_xattrs f2)\<rparr>) fs2)"
  have s4: "?S Store_Version fs2 = (Store_Attrs, fs3, lru)"
    using e set_single_succeeds [OF f2(1) e(4,5)] by (simp add: fs3_def SetCacheVersion_def after_attr_def)
  obtain f3 where f3: "map_of fs3 ?t = Some f3" "lf_content f3 = bytes" "lf_xattrs f3 = version_attrs tag"
    using f2 by (cases "tag = []") (auto simp: fs3_def version_attrs_def)
  have o3: "\<And>p. p \<noteq> ?t \<Longrightarrow> map_of fs3 p = map_of fs p" using o2 by (simp add: fs3_def)
  obtain fs4 where x: "set_xattrs plat (en_attr_ok env) ?t True (file_attrs dest) fs3 = (Inr True, fs4)"
    using set_xattrs_succeeds [OF f3(1), of "en_attr_ok env" "file_attrs dest" plat] e by auto
  have s5: "?S Store_Attrs fs3 = (Store_Move, fs4, lru)" using x by (auto simp: SetFileXattrs_def after_attr_def)
  have o4: "\<And>p. p \<noteq> ?t \<Longrightarrow> map_of fs4 p = map_of fs p"
    using o3 changes_only_set_xattrs [of ?t fs3 plat "en_attr_ok env" True "file_attrs dest"] x
    by (simp add: changes_only_def)
  have "temp_ok dest bytes tag Store_Attrs fs3" using f3 by (simp add: temp_ok_def)
  from store_temp_ok [OF d this s5] have t4: "temp_ok dest bytes tag Store_Move fs4" .
  obtain f4 where f4: "map_of fs4 ?t = Some f4"
  proof (cases "file_attrs dest = []")
    case True
    with x f3 that show ?thesis by simp
  next
    case False
    from set_xattrs_true [OF x False] that show ?thesis by blast
  qed
  let ?fs5 = "AList.update ?d f4 (AList.delete ?t fs4)"
  have s6: "?S Store_Move fs4 = (Store_Cleanup None, ?fs5, lru)" using e f4 by (simp add: MoveFile_def)
  have s7: "?S (Store_Cleanup None) ?fs5 = (Store_End None, AList.delete ?t ?fs5, lru)"
    using e by (simp add: TryRemoveFile_def)
  have "store_run plat cfg dir dest bytes tag env 7 (Store_Check, fs, lru) = (Store_End None, AList.delete ?t ?fs5, lru)"
    by (simp add: numeral_eq_Suc s1 s2 s3 s4 s5 s6 s7 del: StoreLocalCacheFile.simps)
  moreover have "finished_file dest bytes tag f4" using t4 f4 by (simp add: temp_ok_def)
  ultimately show ?thesis using d o4 by (simp add: dest_ok_def)
qed

lemma read_handle_ok:
  assumes "0 < page" "n + 2 * page < U64" "n \<le> length (lf_content f)"
  shows "\<exists>d. read_handle page junk n True f = Inr d \<and> chunk_wf d \<and> pc_length d = n \<and>
    chunk_bytes d = take n (lf_content f)"
proof -
  let ?ch = "AllocatePageAlignedChunk page junk n" and ?bs = "take n (lf_content f)"
  note al = AllocatePageAlignedChunk_ok [OF assms(1,2), of junk]
  have len: "length (pc_data ?ch) = pc_capacity ?ch" using al(4) by (simp add: chunk_wf_def)
  have bs: "length ?bs = n" using assms(3) by simp
  have "take (0 + length ?bs) (overwrite 0 ?bs (pc_data ?ch)) = take 0 (pc_data ?ch) @ ?bs"
    by (rule take_overwrite) simp
  with al(1) len bs assms(3) show ?thesis
    by (simp add: read_handle_def Let_def chunk_wf_def chunk_bytes_def)
qed

text \<open>
  Property C25. What is stored is read back. When the calls succeed, storing a chunk leaves the
  complete file at the destination, no temporary file and every other file as it was; reading the
  chunk back with the same version tag, or with validation off, is a hit with exactly the stored
  bytes; reading it with another version tag is a miss that removes the outdated file.
\<close>

theorem store_then_read:
  assumes "calls_succeed plat cfg dest tag env" "dest_ok dest" "map_of fs (temp_local_filepath dest) = None"
    and "0 < page" "length bytes + 2 * page < U64"
  shows "\<exists>fs'. store_run plat cfg dir dest bytes tag env 7 (Store_Check, fs, lru) = (Store_End None, fs', lru) \<and>
    map_of fs' (temp_local_filepath dest) = None \<and>
    (\<forall>p. p \<notin> {temp_local_filepath dest, dest_local_filepath dest} \<longrightarrow> map_of fs' p = map_of fs p) \<and>
    (\<forall>tag'. tag' = [] \<or> tag' = tag \<longrightarrow>
       (\<exists>d fs''. read_run page junk (dest_local_filepath dest) (length bytes) tag' env 4 (Read_Open, fs') = (Read_Hit d, fs'') \<and>
         chunk_bytes d = bytes)) \<and>
    (\<forall>tag'. tag' \<noteq> [] \<and> tag' \<noteq> tag \<longrightarrow>
       (\<exists>fs''. read_run page junk (dest_local_filepath dest) (length bytes) tag' env 4 (Read_Open, fs') = (Read_Miss, fs'') \<and>
         map_of fs'' (dest_local_filepath dest) = None))"
proof -
  obtain fs' f where st: "store_run plat cfg dir dest bytes tag env 7 (Store_Check, fs, lru) = (Store_End None, fs', lru)"
      "map_of fs' (dest_local_filepath dest) = Some f" "finished_file dest bytes tag f"
      "map_of fs' (temp_local_filepath dest) = None"
      "\<forall>p. p \<notin> {temp_local_filepath dest, dest_local_filepath dest} \<longrightarrow> map_of fs' p = map_of fs p"
    using store_succeeds [OF assms(1,2,3)] by blast
  have e: "en_ok env" "en_read_ok env" using assms(1) by (simp_all add: calls_succeed_def)
  have v: "GetCacheVersion fs' (dest_local_filepath dest) = tag" and fc: "lf_content f = bytes"
    using st(2,3) by (simp_all add: GetCacheVersion_def GetFileXattr_def finished_file_def)
  obtain d where d: "read_handle page junk (length bytes) True f = Inr d" "chunk_bytes d = bytes"
    using read_handle_ok [OF assms(4,5), of f junk] fc by auto
  let ?R = "\<lambda>tag' n. read_run page junk (dest_local_filepath dest) (length bytes) tag' env n (Read_Open, fs')"
  have hit: "\<exists>d fs''. ?R tag' 4 = (Read_Hit d, fs'') \<and> chunk_bytes d = bytes" if "tag' = [] \<or> tag' = tag" for tag'
  proof -
    have "ValidateCacheFile fs' (dest_local_filepath dest) tag'" using that v by (auto simp: ValidateCacheFile_def)
    with st(2) e d show ?thesis by (simp add: numeral_eq_Suc)
  qed
  have miss: "\<exists>fs''. ?R tag' 4 = (Read_Miss, fs'') \<and> map_of fs'' (dest_local_filepath dest) = None"
    if "tag' \<noteq> [] \<and> tag' \<noteq> tag" for tag'
  proof -
    have "\<not> ValidateCacheFile fs' (dest_local_filepath dest) tag'" using that v by (auto simp: ValidateCacheFile_def)
    with st(2) e show ?thesis by (simp add: numeral_eq_Suc TryRemoveFile_def)
  qed
  show ?thesis using st(1,4,5) hit miss by blast
qed

lemma store_then_read_witness:
  "\<exists>fs' d fs''. store_run Linux example_disk_config ''/c'' example_dest [2, 3] ''v1'' example_env 7 (Store_Check, [], no_accesses) =
      (Store_End None, fs', no_accesses) \<and>
    read_run 4 (\<lambda>_. 0) ''/c/a'' 2 ''v1'' example_env 4 (Read_Open, fs') = (Read_Hit d, fs'') \<and> chunk_bytes d = [2, 3]"
proof -
  have c: "calls_succeed Linux example_disk_config example_dest ''v1'' example_env"
    by (simp add: calls_succeed_def CanCacheOnDisk_def example_env_def example_disk_config_def example_dest_def
      DEFAULT_MIN_DISK_BYTES_FOR_CACHE_def CACHE_VERSION_ATTR_KEY_def)
  have h: "map_of [] (temp_local_filepath example_dest) = None" "0 < (4::nat)" "length [2, 3::nat] + 2 * 4 < U64"
    by (simp_all add: U64_def)
  have len: "length [2, 3::nat] = 2" and dp: "dest_local_filepath example_dest = ''/c/a''" by (simp_all add: example_dest_def)
  obtain fs' where st: "store_run Linux example_disk_config ''/c'' example_dest [2, 3] ''v1'' example_env 7 (Store_Check, [], no_accesses) =
      (Store_End None, fs', no_accesses)"
    and rd: "\<forall>tag'. tag' = [] \<or> tag' = ''v1'' \<longrightarrow> (\<exists>d fs''.
      read_run 4 (\<lambda>_. 0) ''/c/a'' 2 tag' example_env 4 (Read_Open, fs') = (Read_Hit d, fs'') \<and> chunk_bytes d = [2, 3])"
    using store_then_read [OF c example_dest_ok h, of "''/c''" no_accesses "\<lambda>_. 0"] unfolding len dp
    by (elim exE conjE) (rule that)
  from rd [rule_format, OF disjI2 [OF refl]] obtain d fs'' where
    "read_run 4 (\<lambda>_. 0) ''/c/a'' 2 ''v1'' example_env 4 (Read_Open, fs') = (Read_Hit d, fs'')" "chunk_bytes d = [2, 3]"
    by (elim exE conjE) (rule that)
  with st show ?thesis by (intro exI conjI)
qed

section \<open>Cleaning up\<close>

lemma set_temp_files_under:
  "p \<in> set (temp_files_under dirs fs) \<longleftrightarrow>
   p \<in> fst ` set fs \<and> (\<exists>dir \<in> set dirs. \<exists>n. p = full_name dir n \<and> CHR ''/'' \<notin> set n \<and> IsTempCacheFile n)"
proof -
  have "p \<in> set (temp_files_under dirs fs) \<longleftrightarrow>
      (\<exists>dir \<in> set dirs. \<exists>n \<in> set (ListFiles dir fs). IsTempCacheFile n \<and> p = full_name dir n)"
    unfolding temp_files_under_def by auto
  then show ?thesis unfolding Bex_def mem_ListFiles by metis
qed

definition dead_temp :: "string list \<Rightarrow> int \<Rightarrow> local_fs \<Rightarrow> string \<Rightarrow> bool" where
  "dead_temp dirs now fs p \<longleftrightarrow>
     (\<exists>dir \<in> set dirs. \<exists>n. p = full_name dir n \<and> CHR ''/'' \<notin> set n \<and> IsTempCacheFile n) \<and>
     (\<exists>f. map_of fs p = Some f \<and> now - lf_mtime f \<ge> DEAD_TEMP_STALENESS_MICROSEC)"

lemma cleanup_fold:
  assumes "fs_wf fs"
  shows "let dead = {p \<in> set ps. \<exists>f. map_of fs p = Some f \<and> now - lf_mtime f \<ge> DEAD_TEMP_STALENESS_MICROSEC}
    in fst (fold (cleanup_task now) ps (n, fs)) = n + card dead \<and>
       map_of (snd (fold (cleanup_task now) ps (n, fs))) = (\<lambda>p. if p \<in> dead then None else map_of fs p)"
  using assms
proof (induction ps arbitrary: n fs)
  case (Cons p ps)
  let ?D = "\<lambda>ps fs. {p \<in> set ps. \<exists>f. map_of fs p = Some f \<and> now - lf_mtime f \<ge> DEAD_TEMP_STALENESS_MICROSEC}"
  show ?case
  proof (cases "\<exists>f. map_of fs p = Some f \<and> now - lf_mtime f \<ge> DEAD_TEMP_STALENESS_MICROSEC")
    case True
    then have t: "cleanup_task now p (n, fs) = (n + 1, AList.delete p fs)"
      by (auto simp: cleanup_task_def TryRemoveFile_def)
    have wf: "fs_wf (AList.delete p fs)" using Cons.prems by (simp add: distinct_delete)
    have D: "?D (p # ps) fs = insert p (?D ps (AList.delete p fs))" "p \<notin> ?D ps (AList.delete p fs)" using True by auto
    then have "card (?D (p # ps) fs) = Suc (card (?D ps (AList.delete p fs)))" by simp
    moreover have "(\<lambda>q. if q \<in> ?D ps (AList.delete p fs) then None else map_of (AList.delete p fs) q) =
        (\<lambda>q. if q \<in> ?D (p # ps) fs then None else map_of fs q)"
      unfolding D(1) by (rule ext) auto
    ultimately show ?thesis using Cons.IH [OF wf, of "n + 1"] by (simp add: t Let_def)
  next
    case False
    then have "cleanup_task now p (n, fs) = (n, fs)" by (auto simp: cleanup_task_def split: option.splits)
    moreover have "?D (p # ps) fs = ?D ps fs" using False by auto
    ultimately show ?thesis using Cons.IH [OF Cons.prems, of n] by (simp add: Let_def)
  qed
qed simp

text \<open>
  Property C28. Cleaning up removes exactly the dead temporary files: those in a cache directory
  whose name has the suffix of temporary files and that have not been modified for ten minutes;
  the number returned is their number, and every other file stays, in particular the temporary
  files of writes in progress.
\<close>

theorem cleanup_removes_dead_temps:
  assumes "fs_wf fs"
  shows "(\<forall>p. map_of (snd (CleanupDeadTempFiles dirs now fs)) p =
      (if dead_temp dirs now fs p then None else map_of fs p)) \<and>
    fst (CleanupDeadTempFiles dirs now fs) = card {p. dead_temp dirs now fs p}"
proof -
  let ?ps = "temp_files_under dirs fs"
  let ?D = "{p \<in> set ?ps. \<exists>f. map_of fs p = Some f \<and> now - lf_mtime f \<ge> DEAD_TEMP_STALENESS_MICROSEC}"
  have "p \<in> ?D \<longleftrightarrow> dead_temp dirs now fs p" for p
    unfolding set_temp_files_under mem_Collect_eq dead_temp_def by (auto simp: keys_map_of)
  then have D: "?D = {p. dead_temp dirs now fs p}" by blast
  have "CleanupDeadTempFiles dirs now fs = fold (cleanup_task now) ?ps (0, fs)"
    by (simp add: CleanupDeadTempFiles_def Let_def)
  then show ?thesis using cleanup_fold [OF assms, of ?ps now 0] unfolding D by (simp add: Let_def)
qed

lemma cleanup_removes_dead_temps_witness:
  "fst (CleanupDeadTempFiles [''/c''] 1000000000
     [(''/c/a.1.httpfs_local_cache'', \<lparr>lf_content = [], lf_xattrs = [], lf_mtime = 0\<rparr>)]) =
   card {p. dead_temp [''/c''] 1000000000
     [(''/c/a.1.httpfs_local_cache'', \<lparr>lf_content = [], lf_xattrs = [], lf_mtime = 0\<rparr>)] p}"
  by (rule cleanup_removes_dead_temps [THEN conjunct2]) simp

end
