(* ===== verification/Disk_Cache_Reader.thy ===== *)
theory Disk_Cache_Reader
  imports Disk_Cache_Files
begin

text \<open>
  The on-disk cache reader (\<open>src/disk_cache_reader.cpp\<close>): a read is split into blocks, each
  processed by a worker that tries the in-memory storage, then the cache file, then the remote
  file, and stores what it fetched. Workers interleave at every system call with each other and
  with other threads and processes using the same directories. The main result is that a finished
  read leaves the bytes of the remote file in the buffer; a second one shows where this ends: a
  cache file is validated by its path after it was opened.
\<close>

section \<open>Context of a read\<close>

text \<open>
  What a read computes before it schedules its workers, with the parameters of the library; \<open>dx_rd\<close>
  is the read of the remote file and \<open>dx_can_access\<close> the permission check of the instance state.
\<close>

record disk_context =
  dx_plat :: platform
  dx_sha :: "string \<Rightarrow> byte list"
  dx_gfn :: "string \<Rightarrow> string"
  dx_cfg :: DiskCacheConfig
  dx_path_info :: RemoteFileCachePathInfo
  dx_path :: string
  dx_tag :: string
  dx_page :: idx_t
  dx_junk :: "nat \<Rightarrow> byte"
  dx_rd :: "idx_t \<Rightarrow> idx_t \<Rightarrow> byte list result"
  dx_can_access :: "string \<Rightarrow> bool"

text \<open>The in-memory storage in front of the disk is built by the first read, once.\<close>

definition disk_init_storage ::
  "(string \<Rightarrow> idx_t \<Rightarrow> SpecEntry list result) \<Rightarrow> 'o option \<Rightarrow> PolicyStorageOptions \<Rightarrow> DiskCacheConfig \<Rightarrow>
   ('o + data_storage) option \<Rightarrow> ('o + data_storage) option result" where
  "disk_init_storage parse object_storage defaults cfg storage =
     (case storage of
        Some s \<Rightarrow> Inr (Some s)
      | None \<Rightarrow>
          if \<not> dc_enable_disk_reader_mem_cache cfg then Inr None
          else case BuildInMemoryDataCacheStorage parse object_storage (dc_in_mem_cache_storage cfg)
                      (dc_disk_reader_max_mem_cache_block_count cfg)
                      (dc_disk_reader_max_mem_cache_timeout_millisec cfg) defaults of
                 Inl e \<Rightarrow> Inl e
               | Inr s \<Rightarrow> Inr (Some s))"

definition disk_plan ::
  "DiskCacheConfig \<Rightarrow> addr \<Rightarrow> idx_t \<Rightarrow> idx_t \<Rightarrow> idx_t \<Rightarrow> (CacheReadChunk list \<times> idx_t) run" where
  "disk_plan cfg buffer start bytes file_size =
     (if bytes = 0 then Some (Inr ([], 0))
      else case split_fixed_blocks buffer start bytes file_size (dc_cache_block_size cfg) of
             Inl e \<Rightarrow> Some (Inl e)
           | Inr plan \<Rightarrow> map_option Inr plan)"

section \<open>Workers\<close>

text \<open>
  Where a worker stands: before the look-up in memory, holding a block from memory, before the
  check of access, reading the cache file, after copying from it, after a miss, holding the fetched
  content before and after the copy, storing, after storing, finished or ended by an exception.
\<close>

datatype disk_phase =
    DTodo
  | DMemHit page_chunk
  | DProbe
  | DRead local_read_phase
  | DDiskCopied page_chunk
  | DDiskPut page_chunk
  | DMissed
  | DLoaded page_chunk
  | DCopied page_chunk
  | DStore page_chunk store_phase
  | DStored page_chunk
  | DPut page_chunk
  | DFinished
  | DFailed cpp_error

record disk_task =
  tk_chunk :: CacheReadChunk
  tk_dest :: LocalCacheDestination
  tk_phase :: disk_phase

record disk_state =
  ds_mem :: memory
  ds_store :: "data_storage option"
  ds_fs :: local_fs
  ds_lru :: access_maps
  ds_tasks :: "disk_task list"
  ds_log :: "(bool \<times> idx_t) list"

definition disk_over :: "disk_phase \<Rightarrow> bool" where
  "disk_over p \<longleftrightarrow> (case p of DFinished \<Rightarrow> True | DFailed _ \<Rightarrow> True | _ \<Rightarrow> False)"

definition to_phase :: "nat \<Rightarrow> disk_phase \<Rightarrow> disk_state \<Rightarrow> disk_state" where
  "to_phase i p st = st\<lparr>ds_tasks := (ds_tasks st)[i := (ds_tasks st ! i)\<lparr>tk_phase := p\<rparr>]\<rparr>"

definition disk_copy :: "nat \<Rightarrow> page_chunk \<Rightarrow> disk_phase \<Rightarrow> disk_state \<Rightarrow> disk_state" where
  "disk_copy i d after st =
     (case CopyBufferToRequestedMemory (tk_chunk (ds_tasks st ! i)) d (ds_mem st) of
        Inl e \<Rightarrow> to_phase i (DFailed e) st
      | Inr m \<Rightarrow> to_phase i after (st\<lparr>ds_mem := m\<rparr>))"

definition disk_log :: "bool \<Rightarrow> nat \<Rightarrow> disk_state \<Rightarrow> disk_state" where
  "disk_log hit i st = st\<lparr>ds_log := ds_log st @ [(hit, cr_bytes_to_copy (tk_chunk (ds_tasks st ! i)))]\<rparr>"

definition resolve_chunk :: "disk_context \<Rightarrow> string \<Rightarrow> string \<Rightarrow> CacheReadChunk \<Rightarrow> LocalCacheDestination result" where
  "resolve_chunk x u v c =
     ResolveLocalCacheDestination (dx_plat x) (dx_sha x) (dx_gfn x) u v (pi_cache_directory (dx_path_info x))
       (cf_cache_filepath (GetLocalCacheFile (dx_path_info x) (cr_aligned_start_offset c) (cr_chunk_size c))) (dx_path x)"

definition lookup_memory :: "disk_context \<Rightarrow> nat \<Rightarrow> disk_env \<Rightarrow> disk_state \<Rightarrow> disk_state" where
  "lookup_memory x i env st =
     (case ds_store st of
        None \<Rightarrow> to_phase i DProbe st
      | Some s \<Rightarrow>
          (case storage_Get (chunk_key (dx_path x) (tk_chunk (ds_tasks st ! i))) (dx_tag x) (en_clock env) s of
             (Some d, s') \<Rightarrow> to_phase i (DMemHit d) (disk_log True i (st\<lparr>ds_store := Some s'\<rparr>))
           | (None, s') \<Rightarrow> to_phase i DProbe (st\<lparr>ds_store := Some s'\<rparr>)))"

definition put_memory :: "disk_context \<Rightarrow> nat \<Rightarrow> disk_env \<Rightarrow> page_chunk \<Rightarrow> disk_state \<Rightarrow> disk_state" where
  "put_memory x i env d st =
     st\<lparr>ds_store := map_option
          (storage_Put (chunk_key (dx_path x) (tk_chunk (ds_tasks st ! i))) d (dx_tag x) (en_clock env)) (ds_store st)\<rparr>"

text \<open>
  \<open>UpsertCacheFileAccessTimestamp\<close> with the timestamps on disk and in memory; \<open>failed\<close> is where an
  exception leads.
\<close>

definition refresh_access :: "disk_context \<Rightarrow> nat \<Rightarrow> disk_env \<Rightarrow> (cpp_error \<Rightarrow> disk_phase) \<Rightarrow> disk_phase \<Rightarrow> disk_state \<Rightarrow> disk_state" where
  "refresh_access x i env failed after st =
     (case UpsertCacheFileAccessTimestamp (dest_local_filepath (tk_dest (ds_tasks st ! i))) (en_now env) (ds_lru st, ds_fs st) of
        (Inl e, fs') \<Rightarrow> to_phase i (failed e) (st\<lparr>ds_fs := fs'\<rparr>)
      | (Inr lru', fs') \<Rightarrow> to_phase i after (st\<lparr>ds_fs := fs', ds_lru := lru'\<rparr>))"

definition lru_policy :: "disk_context \<Rightarrow> bool" where
  "lru_policy x \<longleftrightarrow> dc_on_disk_eviction_policy (dx_cfg x) = ON_DISK_LRU_SINGLE_PROC_EVICTION"

definition disk_read_local :: "disk_context \<Rightarrow> nat \<Rightarrow> disk_env \<Rightarrow> local_read_phase \<Rightarrow> disk_state \<Rightarrow> disk_state" where
  "disk_read_local x i env ph st =
     (case ReadLocalCacheFile (dx_page x) (dx_junk x) (dest_local_filepath (tk_dest (ds_tasks st ! i)))
             (cr_chunk_size (tk_chunk (ds_tasks st ! i))) (dx_tag x) env ph (ds_fs st) of
        (ph', fs') \<Rightarrow> to_phase i (DRead ph') (st\<lparr>ds_fs := fs'\<rparr>))"

definition disk_store_local :: "disk_context \<Rightarrow> nat \<Rightarrow> disk_env \<Rightarrow> page_chunk \<Rightarrow> store_phase \<Rightarrow> disk_state \<Rightarrow> disk_state" where
  "disk_store_local x i env d ph st =
     (case StoreLocalCacheFile (dx_plat x) (dx_cfg x) (pi_cache_directory (dx_path_info x)) (tk_dest (ds_tasks st ! i))
             (chunk_bytes d) (dx_tag x) env ph (ds_fs st) (ds_lru st) of
        (ph', fs', lru') \<Rightarrow> to_phase i (DStore d ph') (st\<lparr>ds_fs := fs', ds_lru := lru'\<rparr>))"

text \<open>
  The next action of worker \<open>i\<close>. An exception while storing or while refreshing the access time
  after it is swallowed; one from the remote read or from the cache file ends the worker.
\<close>

fun disk_action ::
  "disk_context \<Rightarrow> nat \<Rightarrow> disk_env \<Rightarrow> string \<Rightarrow> string \<Rightarrow> disk_phase \<Rightarrow> disk_state \<Rightarrow> disk_state" where
  "disk_action x i env u v DTodo st =
     (case resolve_chunk x u v (tk_chunk (ds_tasks st ! i)) of
        Inl e \<Rightarrow> to_phase i (DFailed e) st
      | Inr d \<Rightarrow> lookup_memory x i env (st\<lparr>ds_tasks := (ds_tasks st)[i := (ds_tasks st ! i)\<lparr>tk_dest := d\<rparr>]\<rparr>))"
| "disk_action x i env u v (DMemHit d) st = disk_copy i d DFinished st"
| "disk_action x i env u v DProbe st =
     (if dx_can_access x (dest_local_filepath (tk_dest (ds_tasks st ! i))) then to_phase i (DRead Read_Open) st
      else to_phase i DMissed st)"
| "disk_action x i env u v (DRead (Read_Hit d)) st = disk_copy i d (DDiskCopied d) (disk_log True i st)"
| "disk_action x i env u v (DRead Read_Miss) st = to_phase i DMissed st"
| "disk_action x i env u v (DRead (Read_Error e)) st = to_phase i (DFailed e) st"
| "disk_action x i env u v (DRead ph) st = disk_read_local x i env ph st"
| "disk_action x i env u v (DDiskCopied d) st =
     (if lru_policy x then refresh_access x i env DFailed (DDiskPut d) st else to_phase i (DDiskPut d) st)"
| "disk_action x i env u v (DDiskPut d) st = to_phase i DFinished (put_memory x i env d st)"
| "disk_action x i env u v DMissed st =
     (case fetch_chunk (dx_rd x) (dx_page x) (dx_junk x) (tk_chunk (ds_tasks st ! i)) of
        Inl e \<Rightarrow> to_phase i (DFailed e) (disk_log False i st)
      | Inr d \<Rightarrow> to_phase i (DLoaded d) (disk_log False i st))"
| "disk_action x i env u v (DLoaded d) st = disk_copy i d (DCopied d) st"
| "disk_action x i env u v (DCopied d) st =
     (if dx_can_access x (dest_local_filepath (tk_dest (ds_tasks st ! i))) then to_phase i (DStore d Store_Check) st
      else to_phase i DFinished st)"
| "disk_action x i env u v (DStore d (Store_End err)) st =
     to_phase i (case err of None \<Rightarrow> DStored d | Some _ \<Rightarrow> DFinished) st"
| "disk_action x i env u v (DStore d ph) st = disk_store_local x i env d ph st"
| "disk_action x i env u v (DStored d) st =
     (if lru_policy x \<and> map_of (ds_fs st) (dest_local_filepath (tk_dest (ds_tasks st ! i))) \<noteq> None
      then refresh_access x i env (\<lambda>_. DFinished) (DPut d) st else to_phase i (DPut d) st)"
| "disk_action x i env u v (DPut d) st = to_phase i DFinished (put_memory x i env d st)"
| "disk_action x i env u v DFinished st = st"
| "disk_action x i env u v (DFailed e) st = st"

definition disk_ProcessCacheReadChunk ::
  "disk_context \<Rightarrow> nat \<Rightarrow> disk_env \<Rightarrow> string \<Rightarrow> string \<Rightarrow> disk_state \<Rightarrow> disk_state" where
  "disk_ProcessCacheReadChunk x i env u v st = disk_action x i env u v (tk_phase (ds_tasks st ! i)) st"

definition no_dest :: LocalCacheDestination where
  "no_dest = \<lparr>dest_local_filepath = [], temp_local_filepath = [], file_attrs = []\<rparr>"

definition disk_start :: "memory \<Rightarrow> data_storage option \<Rightarrow> local_fs \<Rightarrow> access_maps \<Rightarrow> CacheReadChunk list \<Rightarrow> disk_state" where
  "disk_start m s fs lru cs =
     \<lparr>ds_mem = m, ds_store = s, ds_fs = fs, ds_lru = lru,
      ds_tasks = map (\<lambda>c. \<lparr>tk_chunk = c, tk_dest = no_dest, tk_phase = DTodo\<rparr>) cs, ds_log = []\<rparr>"

definition disk_done :: "disk_state \<Rightarrow> bool" where
  "disk_done st \<longleftrightarrow> (\<forall>t \<in> set (ds_tasks st). disk_over (tk_phase t))"

fun disk_first_error :: "disk_task list \<Rightarrow> cpp_error option" where
  "disk_first_error [] = None"
| "disk_first_error (t # ts) = (case tk_phase t of DFailed e \<Rightarrow> Some e | _ \<Rightarrow> disk_first_error ts)"

definition disk_WaitAll :: "disk_state \<Rightarrow> unit result option" where
  "disk_WaitAll st =
     (if disk_done st then Some (case disk_first_error (ds_tasks st) of None \<Rightarrow> Inr () | Some e \<Rightarrow> Inl e) else None)"

section \<open>Which file belongs to which block\<close>

definition block_dest :: "disk_context \<Rightarrow> string \<Rightarrow> idx_t \<Rightarrow> idx_t \<Rightarrow> string \<Rightarrow> bool" where
  "block_dest x r off len p \<longleftrightarrow> off < U64 \<and> len < U64 \<and>
     (\<exists>pinfo u v d.
        BuildRemoteFileCachePathInfo (dx_sha x) (dx_gfn x) (dc_on_disk_cache_directories (dx_cfg x)) r = Inr pinfo \<and>
        ResolveLocalCacheDestination (dx_plat x) (dx_sha x) (dx_gfn x) u v (pi_cache_directory pinfo)
          (cf_cache_filepath (GetLocalCacheFile pinfo off len)) r = Inr d \<and> p = dest_local_filepath d)"

text \<open>
  The hash does not collide on the remote files in use nor on the full names of their cache files.
\<close>

definition cache_names :: "disk_context \<Rightarrow> string set \<Rightarrow> string set" where
  "cache_names x names =
     {cf_cache_filepath (GetLocalCacheFile pinfo off len) | r pinfo off len. r \<in> names \<and> off < U64 \<and> len < U64 \<and>
        BuildRemoteFileCachePathInfo (dx_sha x) (dx_gfn x) (dc_on_disk_cache_directories (dx_cfg x)) r = Inr pinfo}"

definition collision_free :: "disk_context \<Rightarrow> string set \<Rightarrow> bool" where
  "collision_free x names \<longleftrightarrow> inj_on (dx_sha x) names \<and> inj_on (dx_sha x) (cache_names x names)"

definition library_ok :: "disk_context \<Rightarrow> bool" where
  "library_ok x \<longleftrightarrow> digest_ok (dx_sha x) \<and> file_name_ok (dx_gfn x)"

lemma block_dest_unique:
  assumes "library_ok x" "collision_free x names" "r \<in> names" "r' \<in> names"
    and "block_dest x r off len p" "block_dest x r' off' len' p"
  shows "r = r' \<and> off = off' \<and> len = len'"
proof -
  let ?dirs = "dc_on_disk_cache_directories (dx_cfg x)"
  obtain pi u v d where b: "BuildRemoteFileCachePathInfo (dx_sha x) (dx_gfn x) ?dirs r = Inr pi"
      "ResolveLocalCacheDestination (dx_plat x) (dx_sha x) (dx_gfn x) u v (pi_cache_directory pi)
        (cf_cache_filepath (GetLocalCacheFile pi off len)) r = Inr d"
      "p = dest_local_filepath d" "off < U64" "len < U64"
    using assms(5) by (auto simp: block_dest_def)
  obtain pi' u' v' d' where b': "BuildRemoteFileCachePathInfo (dx_sha x) (dx_gfn x) ?dirs r' = Inr pi'"
      "ResolveLocalCacheDestination (dx_plat x) (dx_sha x) (dx_gfn x) u' v' (pi_cache_directory pi')
        (cf_cache_filepath (GetLocalCacheFile pi' off' len')) r' = Inr d'"
      "p = dest_local_filepath d'" "off' < U64" "len' < U64"
    using assms(6) by (auto simp: block_dest_def)
  let ?f = "cf_cache_filepath (GetLocalCacheFile pi off len)" and ?f' = "cf_cache_filepath (GetLocalCacheFile pi' off' len')"
  have "?f \<in> cache_names x names" "?f' \<in> cache_names x names"
    using assms(3,4) b b' unfolding cache_names_def by blast+
  then have "\<not> (?f \<noteq> ?f' \<and> dx_sha x ?f = dx_sha x ?f')"
    using assms(2) by (auto simp: collision_free_def dest: inj_onD)
  with resolved_same [OF _ _ b(1) b'(1) b(2) b'(2)] b(3) b'(3) assms(1)
  have "dx_sha x r = dx_sha x r' \<and> off = off' \<and> len = len'" by (auto simp: library_ok_def)
  with assms(2,3,4) show ?thesis by (auto simp: collision_free_def dest: inj_onD)
qed

text \<open>No destination has the name of a temporary file.\<close>

lemma temp_not_dest:
  assumes ok: "library_ok x" and b: "block_dest x r off len p"
  shows "p \<noteq> GetTempCacheFilePath u q"
proof
  assume eq: "p = GetTempCacheFilePath u q"
  then have last: "rev p ! 0 = CHR ''e''" "rev p ! 1 = CHR ''h''" by (simp_all add: GetTempCacheFilePath_def)
  obtain pi u' v d where pi: "BuildRemoteFileCachePathInfo (dx_sha x) (dx_gfn x) (dc_on_disk_cache_directories (dx_cfg x)) r = Inr pi"
      "ResolveLocalCacheDestination (dx_plat x) (dx_sha x) (dx_gfn x) u' v (pi_cache_directory pi)
        (cf_cache_filepath (GetLocalCacheFile pi off len)) r = Inr d" "p = dest_local_filepath d"
    using b by (auto simp: block_dest_def)
  from resolve_dest(1) [OF pi(2)] pi(3) show False
  proof (elim disjE conjE)
    assume "dest_local_filepath d = cf_cache_filepath (GetLocalCacheFile pi off len)"
    then have "rev p = rev (dec len) @ rev (pi_cache_directory pi @ ''/'' @ pi_remote_file_sha256_hex pi @ ''-'' @
        pi_sanitized_fname pi @ ''-'' @ dec off @ ''-'')"
      using pi(3) by (simp add: GetLocalCacheFile_def)
    moreover have "0 < length (rev (dec len))" by simp
    ultimately have "rev p ! 0 \<in> set (dec len)" by (metis nth_append nth_mem set_rev)
    with last(1) dec_digits [of len] show False by auto
  next
    assume "dest_local_filepath d = pi_cache_directory pi @ CHR ''/'' # GetSha256 (dx_sha x) (cf_cache_filepath (GetLocalCacheFile pi off len))"
    then obtain s where s: "rev p = rev (Sha256ToHexString (dx_sha x s)) @ CHR ''/'' # rev (pi_cache_directory pi)"
      using pi(3) by (auto simp: GetSha256_def)
    have dg: "digest_ok (dx_sha x)" using ok by (simp add: library_ok_def)
    have "length (Sha256ToHexString (dx_sha x s)) = 64" by (rule hex_clean(6) [OF dg])
    then have "rev p ! 1 \<in> set (Sha256ToHexString (dx_sha x s))"
      unfolding s by (metis One_nat_def length_rev nth_append nth_mem one_less_numeral_iff semiring_norm(76) set_rev)
    moreover have "set (Sha256ToHexString (dx_sha x s)) \<subseteq> set hex_chars"
      using dg by (intro hex_chars_clean) (auto simp: digest_ok_def)
    ultimately show False using last(2) by (auto simp: hex_chars_def)
  qed
qed

section \<open>Sound cache files\<close>

definition file_version :: "local_file \<Rightarrow> string" where
  "file_version f = attr_value (lf_xattrs f) CACHE_VERSION_ATTR_KEY"

definition file_sound :: "contents \<Rightarrow> string \<Rightarrow> idx_t \<Rightarrow> idx_t \<Rightarrow> local_file \<Rightarrow> bool" where
  "file_sound content r off len f \<longleftrightarrow>
     off + len \<le> length (content r (file_version f)) \<and> lf_content f = slice off len (content r (file_version f))"

definition disk_sound :: "disk_context \<Rightarrow> string set \<Rightarrow> contents \<Rightarrow> local_fs \<Rightarrow> bool" where
  "disk_sound x names content fs \<longleftrightarrow> fs_wf fs \<and>
     (\<forall>p f r off len. map_of fs p = Some f \<and> r \<in> names \<and> block_dest x r off len p \<longrightarrow> file_sound content r off len f)"

text \<open>Two files that differ in their timestamps only.\<close>

definition same_file :: "local_file \<Rightarrow> local_file \<Rightarrow> bool" where
  "same_file f g \<longleftrightarrow> lf_content f = lf_content g \<and> lf_xattrs f = lf_xattrs g"

lemma same_file_refl [simp]: "same_file f f"
  by (simp add: same_file_def)

lemma same_file_trans: "same_file f g \<Longrightarrow> same_file g h \<Longrightarrow> same_file f h"
  by (simp add: same_file_def)

lemma same_file_sound: "same_file f g \<Longrightarrow> file_sound content r off len g \<Longrightarrow> file_sound content r off len f"
  by (simp add: same_file_def file_sound_def file_version_def)

definition kept :: "local_fs \<Rightarrow> string \<Rightarrow> local_file \<Rightarrow> bool" where
  "kept fs p f \<longleftrightarrow> (\<exists>g. map_of fs p = Some g \<and> same_file f g)"

text \<open>The remote file does not change at all.\<close>

definition unchanging :: "contents \<Rightarrow> string \<Rightarrow> bool" where
  "unchanging content path \<longleftrightarrow> (\<forall>t t'. content path t = content path t')"

lemma tag_reliable_empty: "tag_reliable content path [] \<longleftrightarrow> unchanging content path"
  unfolding tag_reliable_def unchanging_def by metis

text \<open>
  What other threads and processes may do to the files while a read of \<open>dx_path\<close> is in progress:
  remove files, refresh timestamps, write files that are no destinations, publish sound cache
  files; but not touch the temporary files of this read and, if the remote file ever changes, not
  publish a cache file of the very file being read.
\<close>

definition disk_rely :: "disk_context \<Rightarrow> string set \<Rightarrow> contents \<Rightarrow> string set \<Rightarrow> local_fs \<Rightarrow> local_fs \<Rightarrow> bool" where
  "disk_rely x names content temps fs fs' \<longleftrightarrow> fs_wf fs' \<and>
     (\<forall>p f. map_of fs' p = Some f \<longrightarrow>
        kept fs p f \<or>
        p \<notin> temps \<and>
        (\<forall>r off len. r \<in> names \<and> block_dest x r off len p \<longrightarrow>
           file_sound content r off len f \<and> (r = dx_path x \<longrightarrow> unchanging content r)))"

lemma disk_sound_rely:
  assumes "disk_sound x names content fs" "disk_rely x names content temps fs fs'"
  shows "disk_sound x names content fs'"
  unfolding disk_sound_def
proof (intro conjI allI impI)
  show "fs_wf fs'" using assms(2) by (simp add: disk_rely_def)
  fix p f r off len
  assume a: "map_of fs' p = Some f \<and> r \<in> names \<and> block_dest x r off len p"
  then have "kept fs p f \<or> file_sound content r off len f" using assms(2) unfolding disk_rely_def by blast
  then show "file_sound content r off len f"
  proof
    assume "kept fs p f"
    then obtain g where g: "map_of fs p = Some g" "same_file f g" by (auto simp: kept_def)
    then have "file_sound content r off len g" using assms(1) a unfolding disk_sound_def by blast
    then show ?thesis by (rule same_file_sound [OF g(2)])
  qed
qed

section \<open>A read among others\<close>

definition read_temps :: "disk_state \<Rightarrow> string set" where
  "read_temps st = {temp_local_filepath (tk_dest t) | t. t \<in> set (ds_tasks st) \<and> tk_phase t \<noteq> DTodo}"

definition fresh_uuid :: "disk_state \<Rightarrow> string \<Rightarrow> bool" where
  "fresh_uuid st u \<longleftrightarrow>
     (\<forall>p. map_of (ds_fs st) (GetTempCacheFilePath u p) = None \<and> GetTempCacheFilePath u p \<notin> read_temps st)"

inductive disk_step ::
  "disk_context \<Rightarrow> string set \<Rightarrow> contents \<Rightarrow> disk_env set \<Rightarrow> disk_state \<Rightarrow> disk_state \<Rightarrow> bool"
  for x names content envs where
  worker: "i < length (ds_tasks st) \<Longrightarrow> \<not> disk_over (tk_phase (ds_tasks st ! i)) \<Longrightarrow> env \<in> envs \<Longrightarrow>
    fresh_uuid st u \<Longrightarrow> fresh_uuid st v \<Longrightarrow>
    disk_step x names content envs st (disk_ProcessCacheReadChunk x i env u v st)"
| files: "disk_rely x names content (read_temps st) (ds_fs st) fs' \<Longrightarrow>
    disk_step x names content envs st (st\<lparr>ds_fs := fs'\<rparr>)"
| order: "access_inv lru' \<Longrightarrow> disk_step x names content envs st (st\<lparr>ds_lru := lru'\<rparr>)"
| store: "f \<in> storage_ops storage_Put storage_Get storage_Delete storage_Clear storage_Clear_from storage_Take content \<Longrightarrow>
    disk_step x names content envs st (st\<lparr>ds_store := map_option f (ds_store st)\<rparr>)"

section \<open>The invariant\<close>

text \<open>How the phases refine those of a read that only knows memory and the remote file.\<close>

fun abs_phase :: "disk_phase \<Rightarrow> chunk_phase" where
  "abs_phase (DMemHit d) = Hit d"
| "abs_phase (DRead (Read_Touch d)) = Hit d"
| "abs_phase (DRead (Read_Hit d)) = Hit d"
| "abs_phase (DRead (Read_Error e)) = Failed e"
| "abs_phase (DDiskCopied d) = Copied d"
| "abs_phase (DDiskPut d) = Copied d"
| "abs_phase DMissed = Missed"
| "abs_phase (DLoaded d) = Loaded d"
| "abs_phase (DCopied d) = Copied d"
| "abs_phase (DStore d ph) = Copied d"
| "abs_phase (DStored d) = Copied d"
| "abs_phase (DPut d) = Copied d"
| "abs_phase DFinished = Finished"
| "abs_phase (DFailed e) = Failed e"
| "abs_phase p = Todo"

definition abs_task :: "disk_task \<Rightarrow> CacheReadChunk \<times> chunk_phase" where
  "abs_task t = (tk_chunk t, abs_phase (tk_phase t))"

text \<open>How far a worker is with its temporary file, and the bytes it stores.\<close>

fun store_of :: "disk_phase \<Rightarrow> store_phase" where
  "store_of (DStore d ph) = ph"
| "store_of DProbe = Store_Check"
| "store_of (DRead ph) = Store_Check"
| "store_of DMissed = Store_Check"
| "store_of (DLoaded d) = Store_Check"
| "store_of (DCopied d) = Store_Check"
| "store_of p = Store_End None"

fun bytes_of :: "disk_phase \<Rightarrow> byte list" where
  "bytes_of (DStore d ph) = chunk_bytes d"
| "bytes_of p = []"

text \<open>
  An open handle is on a sound file; while its path still names a file, that is the same file unless
  the remote file never changes. Once validated, its content is that of the current version.
\<close>

fun handle_ok :: "disk_context \<Rightarrow> contents \<Rightarrow> local_fs \<Rightarrow> string \<Rightarrow> CacheReadChunk \<Rightarrow> disk_phase \<Rightarrow> bool" where
  "handle_ok x content fs p c (DRead (Read_Validate f)) \<longleftrightarrow>
     file_sound content (dx_path x) (cr_aligned_start_offset c) (cr_chunk_size c) f \<and>
     (\<forall>g. map_of fs p = Some g \<longrightarrow> unchanging content (dx_path x) \<or> same_file g f)"
| "handle_ok x content fs p c (DRead (Read_Content f)) \<longleftrightarrow>
     lf_content f = slice (cr_aligned_start_offset c) (cr_chunk_size c) (content (dx_path x) (dx_tag x))"
| "handle_ok x content fs p c ph \<longleftrightarrow> True"

definition task_ok :: "disk_context \<Rightarrow> contents \<Rightarrow> local_fs \<Rightarrow> disk_task \<Rightarrow> bool" where
  "task_ok x content fs t \<longleftrightarrow> tk_phase t = DTodo \<or>
     (\<exists>u v. resolve_chunk x u v (tk_chunk t) = Inr (tk_dest t)) \<and>
     temp_ok (tk_dest t) (bytes_of (tk_phase t)) (dx_tag x) (store_of (tk_phase t)) fs \<and>
     handle_ok x content fs (dest_local_filepath (tk_dest t)) (tk_chunk t) (tk_phase t)"

definition temps_distinct :: "disk_task list \<Rightarrow> bool" where
  "temps_distinct ts \<longleftrightarrow>
     (\<forall>i < length ts. \<forall>j < length ts. i \<noteq> j \<and> tk_phase (ts ! i) \<noteq> DTodo \<and> tk_phase (ts ! j) \<noteq> DTodo \<longrightarrow>
        temp_local_filepath (tk_dest (ts ! i)) \<noteq> temp_local_filepath (tk_dest (ts ! j)))"

definition disk_setting ::
  "disk_context \<Rightarrow> string set \<Rightarrow> contents \<Rightarrow> addr \<Rightarrow> idx_t \<Rightarrow> idx_t \<Rightarrow> CacheReadChunk list \<Rightarrow> bool" where
  "disk_setting x names content buffer start bytes cs \<longleftrightarrow>
     library_ok x \<and> collision_free x names \<and> dx_path x \<in> names \<and>
     distinct (dc_on_disk_cache_directories (dx_cfg x)) \<and>
     BuildRemoteFileCachePathInfo (dx_sha x) (dx_gfn x) (dc_on_disk_cache_directories (dx_cfg x)) (dx_path x) =
       Inr (dx_path_info x) \<and>
     read_setting content (dx_rd x) (dx_page x) (dx_path x) (dx_tag x) buffer start bytes cs \<and>
     distinct (map cr_aligned_start_offset cs)"

definition disk_inv ::
  "disk_context \<Rightarrow> string set \<Rightarrow> contents \<Rightarrow> addr \<Rightarrow> idx_t \<Rightarrow> memory \<Rightarrow> CacheReadChunk list \<Rightarrow> disk_state \<Rightarrow> bool" where
  "disk_inv x names content buffer start m0 cs st \<longleftrightarrow>
     tasks_ok (content (dx_path x) (dx_tag x)) buffer start m0 cs (map abs_task (ds_tasks st)) (ds_mem st) \<and>
     (\<forall>s. ds_store st = Some s \<longrightarrow> storage_sound content s) \<and>
     disk_sound x names content (ds_fs st) \<and> access_inv (ds_lru st) \<and>
     (\<forall>t \<in> set (ds_tasks st). task_ok x content (ds_fs st) t) \<and> temps_distinct (ds_tasks st)"

lemma task_block_dest:
  assumes set: "disk_setting x names content buffer start bytes cs"
    and t: "resolve_chunk x u v c = Inr d" "c \<in> set cs"
  shows "block_dest x (dx_path x) (cr_aligned_start_offset c) (cr_chunk_size c) (dest_local_filepath d)"
proof -
  let ?fc = "content (dx_path x) (dx_tag x)"
  have "plan_ok (length ?fc) buffer start cs (start + bytes)" "length ?fc < U64"
    using set by (auto simp: disk_setting_def read_setting_def)
  with plan_ok_member(1) [OF _ t(2)] have "chunk_within (length ?fc) c" "length ?fc < U64" by blast+
  then have "cr_aligned_start_offset c < U64" "cr_chunk_size c < U64" by (auto simp: chunk_within_def)
  then show ?thesis
    using set t(1) unfolding block_dest_def resolve_chunk_def disk_setting_def by blast
qed

lemma resolved_temp:
  "resolve_chunk x u v c = Inr d \<Longrightarrow> \<exists>w \<in> {u, v}. temp_local_filepath d = GetTempCacheFilePath w (dest_local_filepath d)"
  unfolding resolve_chunk_def using resolve_dest(3) by blast

lemma version_key_other: "CACHE_VERSION_ATTR_KEY \<noteq> xattr_key CACHE_FILEPATH_ATTR_PREFIX i"
  "CACHE_VERSION_ATTR_KEY \<noteq> xattr_key REMOTE_PATH_ATTR_PREFIX i"
proof -
  have "p = ''user''" if "CACHE_VERSION_ATTR_KEY = xattr_key p i" for p
  proof -
    have "''user'' @ CHR ''.'' # ''cache_version'' = p @ CHR ''.'' # dec3 i"
      using that by (simp add: CACHE_VERSION_ATTR_KEY_def xattr_key_def)
    moreover have "CHR ''.'' \<notin> set ''cache_version''" by simp
    ultimately show ?thesis using cut_last [OF _ dec3_clean] by metis
  qed
  then show "CACHE_VERSION_ATTR_KEY \<noteq> xattr_key CACHE_FILEPATH_ATTR_PREFIX i"
    "CACHE_VERSION_ATTR_KEY \<noteq> xattr_key REMOTE_PATH_ATTR_PREFIX i"
    by (auto simp: CACHE_FILEPATH_ATTR_PREFIX_def REMOTE_PATH_ATTR_PREFIX_def)
qed

lemma distinct_AddChunked: "distinct (map fst attrs) \<Longrightarrow> distinct (map fst (AddChunkedXattrEntries mx p v attrs))"
proof -
  have "distinct (map fst attrs) \<Longrightarrow>
      distinct (map fst (fold (\<lambda>i. AList.update (xattr_key p i) (g i)) ks attrs))" for ks g
    by (induction ks arbitrary: attrs) (simp_all add: distinct_update)
  then show "distinct (map fst attrs) \<Longrightarrow> ?thesis" by (simp add: AddChunked_fold)
qed

lemma resolved_dest_ok: "resolve_chunk x u v c = Inr d \<Longrightarrow> dest_ok d"
proof -
  assume r: "resolve_chunk x u v c = Inr d"
  have "temp_local_filepath d \<noteq> dest_local_filepath d"
    using resolved_temp [OF r] by (auto simp: GetTempCacheFilePath_def)
  moreover have "distinct (map fst (file_attrs d)) \<and> map_of (file_attrs d) CACHE_VERSION_ATTR_KEY = None"
    using r by (auto simp: resolve_chunk_def ResolveLocalCacheDestination_def Let_def distinct_AddChunked
      map_of_AddChunked_other version_key_other split: if_splits)
  ultimately show ?thesis by (simp add: dest_ok_def)
qed

section \<open>Interference\<close>

text \<open>A worker only cares for its temporary file and, between opening and validating, its cache file.\<close>

lemma temp_ok_kept:
  assumes "temp_ok d bytes tag ph fs"
    and "\<And>f. map_of fs' (temp_local_filepath d) = Some f \<Longrightarrow> kept fs (temp_local_filepath d) f"
  shows "temp_ok d bytes tag ph fs'"
proof -
  have "temp_file_ok d bytes tag ph f" if "same_file f g" "temp_file_ok d bytes tag ph g" for f g
    using that by (cases ph) (auto simp: same_file_def finished_file_def)
  then show ?thesis using assms by (force simp: temp_ok_def kept_def)
qed

lemma handle_ok_kept:
  assumes "handle_ok x content fs p c ph"
    and "\<And>f. map_of fs' p = Some f \<Longrightarrow> unchanging content (dx_path x) \<or> kept fs p f"
  shows "handle_ok x content fs' p c ph"
  using assms
proof (induction x content fs p c ph rule: handle_ok.induct)
  case (1 x content fs p c f)
  have "unchanging content (dx_path x) \<or> same_file g f" if "map_of fs' p = Some g" for g
    using "1.prems"(2) [OF that] "1.prems"(1) same_file_trans unfolding kept_def handle_ok.simps by blast
  with "1.prems"(1) show ?case by simp
qed simp_all

lemma task_ok_kept:
  assumes "task_ok x content fs t"
    and "tk_phase t \<noteq> DTodo \<Longrightarrow> (\<And>f. map_of fs' (temp_local_filepath (tk_dest t)) = Some f \<Longrightarrow> kept fs (temp_local_filepath (tk_dest t)) f)"
    and "tk_phase t \<noteq> DTodo \<Longrightarrow> (\<And>f. map_of fs' (dest_local_filepath (tk_dest t)) = Some f \<Longrightarrow>
      unchanging content (dx_path x) \<or> kept fs (dest_local_filepath (tk_dest t)) f)"
  shows "task_ok x content fs' t"
  using assms temp_ok_kept [of "tk_dest t" "bytes_of (tk_phase t)" "dx_tag x" "store_of (tk_phase t)" fs fs']
    handle_ok_kept [of x content fs "dest_local_filepath (tk_dest t)" "tk_chunk t" "tk_phase t" fs']
  unfolding task_ok_def by blast

lemma disk_inv_rely:
  assumes set: "disk_setting x names content buffer start bytes cs"
    and inv: "disk_inv x names content buffer start m0 cs st"
    and rely: "disk_rely x names content (read_temps st) (ds_fs st) fs'"
  shows "disk_inv x names content buffer start m0 cs (st\<lparr>ds_fs := fs'\<rparr>)"
proof -
  have chunks: "tk_chunk t \<in> set cs" if "t \<in> set (ds_tasks st)" for t
  proof -
    have "map fst (map abs_task (ds_tasks st)) = cs" using inv by (simp add: disk_inv_def tasks_ok_def)
    then have "map tk_chunk (ds_tasks st) = cs" by (simp add: abs_task_def comp_def)
    with that show ?thesis by auto
  qed
  have "task_ok x content fs' t" if t: "t \<in> set (ds_tasks st)" for t
  proof (rule task_ok_kept)
    show ok: "task_ok x content (ds_fs st) t" using inv t by (simp add: disk_inv_def)
    fix f assume ph: "tk_phase t \<noteq> DTodo"
    have "temp_local_filepath (tk_dest t) \<in> read_temps st" using t ph by (auto simp: read_temps_def)
    then show "kept (ds_fs st) (temp_local_filepath (tk_dest t)) f"
      if "map_of fs' (temp_local_filepath (tk_dest t)) = Some f"
      using that rely unfolding disk_rely_def by blast
    have "block_dest x (dx_path x) (cr_aligned_start_offset (tk_chunk t)) (cr_chunk_size (tk_chunk t))
        (dest_local_filepath (tk_dest t))"
      using ok ph task_block_dest [OF set _ chunks [OF t]] by (auto simp: task_ok_def)
    moreover have "dx_path x \<in> names" using set by (simp add: disk_setting_def)
    ultimately show "unchanging content (dx_path x) \<or> kept (ds_fs st) (dest_local_filepath (tk_dest t)) f"
      if "map_of fs' (dest_local_filepath (tk_dest t)) = Some f"
      using that rely unfolding disk_rely_def by blast
  qed
  with inv disk_sound_rely rely show ?thesis by (auto simp: disk_inv_def)
qed

section \<open>The steps of a worker\<close>

text \<open>What a worker may do to the files: keep or remove them, write its temporary file, publish its block.\<close>

definition own_files :: "disk_context \<Rightarrow> contents \<Rightarrow> disk_task \<Rightarrow> local_fs \<Rightarrow> local_fs \<Rightarrow> bool" where
  "own_files x content t fs fs' \<longleftrightarrow> fs_wf fs' \<and>
     (\<forall>p f. map_of fs' p = Some f \<longrightarrow>
        kept fs p f \<or> p = temp_local_filepath (tk_dest t) \<or>
        p = dest_local_filepath (tk_dest t) \<and>
        (\<exists>d. data_ok (content (dx_path x) (dx_tag x)) (tk_chunk t) d \<and>
             finished_file (tk_dest t) (chunk_bytes d) (dx_tag x) f))"

lemma own_files_refl: "fs_wf fs \<Longrightarrow> own_files x content t fs fs"
  by (auto simp: own_files_def kept_def)

lemma own_files_sound:
  assumes set: "disk_setting x names content buffer start bytes cs"
    and fs: "disk_sound x names content fs" and own: "own_files x content t fs fs'"
    and t: "resolve_chunk x u v (tk_chunk t) = Inr (tk_dest t)" "tk_chunk t \<in> set cs"
  shows "disk_sound x names content fs'"
  unfolding disk_sound_def
proof (intro conjI allI impI)
  let ?fc = "content (dx_path x) (dx_tag x)"
  have lib: "library_ok x" "collision_free x names" "dx_path x \<in> names" using set by (simp_all add: disk_setting_def)
  show "fs_wf fs'" using own by (simp add: own_files_def)
  fix p f r off len
  assume a: "map_of fs' p = Some f \<and> r \<in> names \<and> block_dest x r off len p"
  then have "kept fs p f \<or> p = temp_local_filepath (tk_dest t) \<or> p = dest_local_filepath (tk_dest t) \<and>
      (\<exists>d. data_ok ?fc (tk_chunk t) d \<and> finished_file (tk_dest t) (chunk_bytes d) (dx_tag x) f)"
    using own unfolding own_files_def by blast
  then show "file_sound content r off len f"
  proof (elim disjE conjE exE)
    assume "kept fs p f"
    then obtain g where g: "map_of fs p = Some g" "same_file f g" by (auto simp: kept_def)
    then have "file_sound content r off len g" using fs a unfolding disk_sound_def by blast
    then show ?thesis by (rule same_file_sound [OF g(2)])
  next
    assume "p = temp_local_filepath (tk_dest t)"
    with resolved_temp [OF t(1)] temp_not_dest [OF lib(1)] a show ?thesis by metis
  next
    fix d assume p: "p = dest_local_filepath (tk_dest t)" and d: "data_ok ?fc (tk_chunk t) d"
      "finished_file (tk_dest t) (chunk_bytes d) (dx_tag x) f"
    have "r = dx_path x \<and> off = cr_aligned_start_offset (tk_chunk t) \<and> len = cr_chunk_size (tk_chunk t)"
      using block_dest_unique [OF lib(1,2) _ lib(3) _ task_block_dest [OF set t]] a p by blast
    with d show ?thesis
      by (simp add: file_sound_def file_version_def finished_file_def data_ok_def chunk_holds_def)
  qed
qed

lemma inv_chunks:
  "disk_inv x names content buffer start m0 cs st \<Longrightarrow> map tk_chunk (ds_tasks st) = cs"
  by (auto simp: disk_inv_def tasks_ok_def abs_task_def comp_def)

lemma inv_chunk_mem:
  "disk_inv x names content buffer start m0 cs st \<Longrightarrow> i < length (ds_tasks st) \<Longrightarrow> tk_chunk (ds_tasks st ! i) \<in> set cs"
  using inv_chunks by fastforce

lemma inv_chunk_inj:
  assumes "disk_setting x names content buffer start bytes cs" "disk_inv x names content buffer start m0 cs st"
    and "i < length (ds_tasks st)" "j < length (ds_tasks st)"
    and "cr_aligned_start_offset (tk_chunk (ds_tasks st ! i)) = cr_aligned_start_offset (tk_chunk (ds_tasks st ! j))"
  shows "i = j"
proof -
  let ?os = "map (\<lambda>t. cr_aligned_start_offset (tk_chunk t)) (ds_tasks st)"
  have "?os = map cr_aligned_start_offset cs" unfolding inv_chunks [OF assms(2), symmetric] by simp
  then have "distinct ?os" using assms(1) by (simp add: disk_setting_def)
  moreover have "?os ! i = ?os ! j" using assms(3,4,5) by simp
  ultimately show ?thesis using assms(3,4) by (simp add: nth_eq_iff_index_eq del: nth_map)
qed

lemma temps_distinct_update:
  assumes ts: "temps_distinct ts"
    and new: "\<And>j. j < length ts \<Longrightarrow> j \<noteq> i \<Longrightarrow> tk_phase (ts ! j) \<noteq> DTodo \<Longrightarrow>
      temp_local_filepath (tk_dest (ts ! j)) \<noteq> temp_local_filepath (tk_dest t)"
  shows "temps_distinct (ts[i := t])"
  unfolding temps_distinct_def
proof (intro allI impI, elim conjE)
  fix a b assume ab: "a < length (ts[i := t])" "b < length (ts[i := t])" "a \<noteq> b"
    "tk_phase (ts[i := t] ! a) \<noteq> DTodo" "tk_phase (ts[i := t] ! b) \<noteq> DTodo"
  consider "a = i" | "b = i" | "a \<noteq> i" "b \<noteq> i" by blast
  then show "temp_local_filepath (tk_dest (ts[i := t] ! a)) \<noteq> temp_local_filepath (tk_dest (ts[i := t] ! b))"
  proof cases
    case 1
    with ab new [of b] show ?thesis by auto
  next
    case 2
    with ab new [of a] show ?thesis by auto
  next
    case 3
    with ab ts show ?thesis by (simp add: temps_distinct_def)
  qed
qed

lemma disk_inv_update:
  assumes set: "disk_setting x names content buffer start bytes cs"
    and inv: "disk_inv x names content buffer start m0 cs st" and i: "i < length (ds_tasks st)"
    and t': "tk_chunk t' = tk_chunk (ds_tasks st ! i)" "tk_phase t' \<noteq> DTodo" "task_ok x content (ds_fs st') t'"
    and tasks: "ds_tasks st' = (ds_tasks st)[i := t']"
    and abs: "tasks_ok (content (dx_path x) (dx_tag x)) buffer start m0 cs (map abs_task (ds_tasks st')) (ds_mem st')"
    and store: "\<And>s. ds_store st' = Some s \<Longrightarrow> storage_sound content s" and lru: "access_inv (ds_lru st')"
    and own: "own_files x content t' (ds_fs st) (ds_fs st')"
    and temps: "\<And>j. j < length (ds_tasks st) \<Longrightarrow> j \<noteq> i \<Longrightarrow> tk_phase (ds_tasks st ! j) \<noteq> DTodo \<Longrightarrow>
      temp_local_filepath (tk_dest (ds_tasks st ! j)) \<noteq> temp_local_filepath (tk_dest t')"
  shows "disk_inv x names content buffer start m0 cs st'"
proof -
  let ?ts = "ds_tasks st"
  have lib: "library_ok x" "collision_free x names" "dx_path x \<in> names" using set by (simp_all add: disk_setting_def)
  obtain u v where r: "resolve_chunk x u v (tk_chunk t') = Inr (tk_dest t')" using t'(2,3) by (auto simp: task_ok_def)
  have c: "tk_chunk t' \<in> set cs" using inv_chunk_mem [OF inv i] t'(1) by simp
  have bd: "block_dest x (dx_path x) (cr_aligned_start_offset (tk_chunk t')) (cr_chunk_size (tk_chunk t')) (dest_local_filepath (tk_dest t'))"
    by (rule task_block_dest [OF set r c])
  have sound: "disk_sound x names content (ds_fs st')"
    using inv own_files_sound [OF set _ own r c] by (simp add: disk_inv_def)
  have "task_ok x content (ds_fs st') (?ts ! j)" if j: "j < length ?ts" "j \<noteq> i" for j
  proof (rule task_ok_kept)
    let ?t = "?ts ! j"
    show ok: "task_ok x content (ds_fs st) ?t" using inv j by (simp add: disk_inv_def)
    fix f assume ph: "tk_phase ?t \<noteq> DTodo"
    obtain u' v' where rj: "resolve_chunk x u' v' (tk_chunk ?t) = Inr (tk_dest ?t)" using ok ph by (auto simp: task_ok_def)
    have bj: "block_dest x (dx_path x) (cr_aligned_start_offset (tk_chunk ?t)) (cr_chunk_size (tk_chunk ?t)) (dest_local_filepath (tk_dest ?t))"
      by (rule task_block_dest [OF set rj inv_chunk_mem [OF inv j(1)]])
    have "temp_local_filepath (tk_dest ?t) \<noteq> dest_local_filepath (tk_dest t')"
      using resolved_temp [OF rj] temp_not_dest [OF lib(1) bd] by metis
    then show "kept (ds_fs st) (temp_local_filepath (tk_dest ?t)) f"
      if "map_of (ds_fs st') (temp_local_filepath (tk_dest ?t)) = Some f"
      using that own temps [OF j ph] unfolding own_files_def by blast
    have "dest_local_filepath (tk_dest ?t) \<noteq> temp_local_filepath (tk_dest t')"
      using resolved_temp [OF r] temp_not_dest [OF lib(1) bj] by metis
    moreover have "dest_local_filepath (tk_dest ?t) \<noteq> dest_local_filepath (tk_dest t')"
    proof
      assume "dest_local_filepath (tk_dest ?t) = dest_local_filepath (tk_dest t')"
      then have "cr_aligned_start_offset (tk_chunk ?t) = cr_aligned_start_offset (tk_chunk t')"
        using block_dest_unique [OF lib(1,2,3,3) bj] bd by metis
      with inv_chunk_inj [OF set inv j(1) i] j(2) t'(1) show False by simp
    qed
    ultimately show "unchanging content (dx_path x) \<or> kept (ds_fs st) (dest_local_filepath (tk_dest ?t)) f"
      if "map_of (ds_fs st') (dest_local_filepath (tk_dest ?t)) = Some f"
      using that own unfolding own_files_def by blast
  qed
  then have "\<forall>j < length (ds_tasks st'). task_ok x content (ds_fs st') (ds_tasks st' ! j)"
    using t'(3) i tasks by (simp add: nth_list_update)
  then have "\<forall>t \<in> set (ds_tasks st'). task_ok x content (ds_fs st') t" by (simp add: all_set_conv_all_nth)
  moreover have "temps_distinct (ds_tasks st')"
    unfolding tasks using inv temps by (intro temps_distinct_update) (simp_all add: disk_inv_def)
  ultimately show ?thesis using abs store lru sound by (simp add: disk_inv_def)
qed

lemma abs_update:
  assumes "i < length ts"
  shows "map abs_task (ts[i := (ts ! i)\<lparr>tk_phase := p\<rparr>]) =
    (map abs_task ts)[i := (fst (map abs_task ts ! i), abs_phase p)]"
  using assms by (simp add: map_update abs_task_def)

lemma disk_inv_to_phase:
  assumes set: "disk_setting x names content buffer start bytes cs"
    and inv: "disk_inv x names content buffer start m0 cs st" and i: "i < length (ds_tasks st)"
    and ph: "tk_phase (ds_tasks st ! i) \<noteq> DTodo" "p \<noteq> DTodo"
    and abs: "tasks_ok (content (dx_path x) (dx_tag x)) buffer start m0 cs
      ((map abs_task (ds_tasks st))[i := (fst (map abs_task (ds_tasks st) ! i), abs_phase p)]) m'"
    and store: "\<And>s. s' = Some s \<Longrightarrow> storage_sound content s" and lru: "access_inv lru'"
    and own: "own_files x content (ds_tasks st ! i) (ds_fs st) fs'"
    and temp: "temp_ok (tk_dest (ds_tasks st ! i)) (bytes_of p) (dx_tag x) (store_of p) fs'"
    and handle: "handle_ok x content fs' (dest_local_filepath (tk_dest (ds_tasks st ! i))) (tk_chunk (ds_tasks st ! i)) p"
  shows "disk_inv x names content buffer start m0 cs
    (to_phase i p (st\<lparr>ds_mem := m', ds_store := s', ds_fs := fs', ds_lru := lru', ds_log := l\<rparr>))"
proof (rule disk_inv_update [OF set inv i, where t' = "(ds_tasks st ! i)\<lparr>tk_phase := p\<rparr>"])
  have "task_ok x content (ds_fs st) (ds_tasks st ! i)" using inv i by (simp add: disk_inv_def)
  with ph obtain u v where "resolve_chunk x u v (tk_chunk (ds_tasks st ! i)) = Inr (tk_dest (ds_tasks st ! i))"
    by (auto simp: task_ok_def)
  with temp handle show "task_ok x content (ds_fs (to_phase i p (st\<lparr>ds_mem := m', ds_store := s', ds_fs := fs', ds_lru := lru', ds_log := l\<rparr>)))
      ((ds_tasks st ! i)\<lparr>tk_phase := p\<rparr>)"
    by (auto simp: task_ok_def to_phase_def)
  show "tasks_ok (content (dx_path x) (dx_tag x)) buffer start m0 cs
      (map abs_task (ds_tasks (to_phase i p (st\<lparr>ds_mem := m', ds_store := s', ds_fs := fs', ds_lru := lru', ds_log := l\<rparr>))))
      (ds_mem (to_phase i p (st\<lparr>ds_mem := m', ds_store := s', ds_fs := fs', ds_lru := lru', ds_log := l\<rparr>)))"
    using abs abs_update [OF i, of p] by (simp add: to_phase_def)
  fix j assume "j < length (ds_tasks st)" "j \<noteq> i" "tk_phase (ds_tasks st ! j) \<noteq> DTodo"
  then show "temp_local_filepath (tk_dest (ds_tasks st ! j)) \<noteq> temp_local_filepath (tk_dest ((ds_tasks st ! i)\<lparr>tk_phase := p\<rparr>))"
    using inv i ph(1) by (auto simp: disk_inv_def temps_distinct_def)
qed (use ph store lru own in \<open>auto simp: to_phase_def own_files_def\<close>)

text \<open>Steps that copy nothing to the buffer.\<close>

lemma disk_inv_quiet:
  assumes set: "disk_setting x names content buffer start bytes cs"
    and inv: "disk_inv x names content buffer start m0 cs st" and i: "i < length (ds_tasks st)"
    and ph: "tk_phase (ds_tasks st ! i) \<noteq> DTodo" "p \<noteq> DTodo"
    and pok: "phase_ok (content (dx_path x) (dx_tag x)) (tk_chunk (ds_tasks st ! i)) (abs_phase p)"
    and wr: "written (abs_phase p) \<Longrightarrow> written (abs_phase (tk_phase (ds_tasks st ! i)))"
    and store: "\<And>s. s' = Some s \<Longrightarrow> storage_sound content s" and lru: "access_inv lru'"
    and own: "own_files x content (ds_tasks st ! i) (ds_fs st) fs'"
    and temp: "temp_ok (tk_dest (ds_tasks st ! i)) (bytes_of p) (dx_tag x) (store_of p) fs'"
    and handle: "handle_ok x content fs' (dest_local_filepath (tk_dest (ds_tasks st ! i))) (tk_chunk (ds_tasks st ! i)) p"
  shows "disk_inv x names content buffer start m0 cs
    (to_phase i p (st\<lparr>ds_mem := ds_mem st, ds_store := s', ds_fs := fs', ds_lru := lru', ds_log := l\<rparr>))"
proof (rule disk_inv_to_phase [OF set inv i ph _ store lru own temp handle])
  show "tasks_ok (content (dx_path x) (dx_tag x)) buffer start m0 cs
      ((map abs_task (ds_tasks st))[i := (fst (map abs_task (ds_tasks st) ! i), abs_phase p)]) (ds_mem st)"
    using inv i pok wr by (intro tasks_ok_phase) (simp_all add: disk_inv_def abs_task_def)
qed

text \<open>The step that copies.\<close>

lemma disk_inv_copy:
  assumes set: "disk_setting x names content buffer start bytes cs"
    and inv: "disk_inv x names content buffer start m0 cs st" and i: "i < length (ds_tasks st)"
    and ph: "tk_phase (ds_tasks st ! i) \<noteq> DTodo" "p \<noteq> DTodo"
    and d: "data_ok (content (dx_path x) (dx_tag x)) (tk_chunk (ds_tasks st ! i)) d"
    and pok: "phase_ok (content (dx_path x) (dx_tag x)) (tk_chunk (ds_tasks st ! i)) (abs_phase p)"
    and temp: "temp_ok (tk_dest (ds_tasks st ! i)) (bytes_of p) (dx_tag x) (store_of p) (ds_fs st)"
    and handle: "handle_ok x content (ds_fs st) (dest_local_filepath (tk_dest (ds_tasks st ! i))) (tk_chunk (ds_tasks st ! i)) p"
  shows "disk_inv x names content buffer start m0 cs (disk_copy i d p (st\<lparr>ds_log := l\<rparr>))"
proof -
  let ?fc = "content (dx_path x) (dx_tag x)"
  have plan: "plan_ok (length ?fc) buffer start cs (start + bytes)" and U: "length ?fc < U64"
    using set by (auto simp: disk_setting_def read_setting_def)
  have ok: "tasks_ok ?fc buffer start m0 cs (map abs_task (ds_tasks st)) (ds_mem st)" and wf: "fs_wf (ds_fs st)"
    using inv by (simp_all add: disk_inv_def disk_sound_def)
  have f: "fst (map abs_task (ds_tasks st) ! i) = tk_chunk (ds_tasks st ! i)" using i by (simp add: abs_task_def)
  obtain m' where m': "CopyBufferToRequestedMemory (tk_chunk (ds_tasks st ! i)) d (ds_mem st) = Inr m'"
      "tasks_ok ?fc buffer start m0 cs ((map abs_task (ds_tasks st))[i := (fst (map abs_task (ds_tasks st) ! i), abs_phase p)]) m'"
    using tasks_ok_copy [OF plan U ok, of i d "abs_phase p"] i d pok unfolding f by auto
  have "disk_inv x names content buffer start m0 cs
      (to_phase i p (st\<lparr>ds_mem := m', ds_store := ds_store st, ds_fs := ds_fs st, ds_lru := ds_lru st, ds_log := l\<rparr>))"
    by (rule disk_inv_to_phase [OF set inv i ph m'(2) _ _ own_files_refl [OF wf] temp handle])
      (use inv in \<open>auto simp: disk_inv_def\<close>)
  then show ?thesis using m'(1) by (cases st) (simp add: disk_copy_def to_phase_def)
qed

text \<open>Steps that keep or remove files.\<close>

definition all_kept :: "local_fs \<Rightarrow> local_fs \<Rightarrow> bool" where
  "all_kept fs fs' \<longleftrightarrow> fs_wf fs' \<and> (\<forall>p f. map_of fs' p = Some f \<longrightarrow> kept fs p f)"

lemma all_kept_own: "all_kept fs fs' \<Longrightarrow> own_files x content t fs fs'"
  by (simp add: all_kept_def own_files_def)

lemma all_kept_refl: "fs_wf fs \<Longrightarrow> all_kept fs fs"
  by (auto simp: all_kept_def kept_def)

lemma all_kept_removes: "only_removes fs fs' \<Longrightarrow> fs_wf fs \<Longrightarrow> all_kept fs fs'"
  unfolding all_kept_def kept_def only_removes_def using map_leD same_file_refl by metis

lemma all_kept_touch: "fs_wf fs \<Longrightarrow> all_kept fs (UpdateFileTimestamps p now fs)"
proof -
  have "map_of (UpdateFileTimestamps p now fs) q = Some f \<Longrightarrow> kept fs q f" for q f
    by (auto simp: kept_def UpdateFileTimestamps_def same_file_def split: option.splits if_splits)
  moreover assume "fs_wf fs"
  then have "fs_wf (UpdateFileTimestamps p now fs)"
    by (auto simp: UpdateFileTimestamps_def distinct_update split: option.splits)
  ultimately show ?thesis by (simp add: all_kept_def)
qed

lemma all_kept_temp: "all_kept fs fs' \<Longrightarrow> temp_ok d bytes tag ph fs \<Longrightarrow> temp_ok d bytes tag ph fs'"
  by (rule temp_ok_kept) (auto simp: all_kept_def)

section \<open>Each action keeps the invariant\<close>

text \<open>The facts about worker \<open>i\<close> that every action starts from.\<close>

lemma inv_task:
  assumes set: "disk_setting x names content buffer start bytes cs"
    and inv: "disk_inv x names content buffer start m0 cs st" and i: "i < length (ds_tasks st)"
    and ph: "tk_phase (ds_tasks st ! i) \<noteq> DTodo"
  shows "fs_wf (ds_fs st)" "access_inv (ds_lru st)" "\<And>s. ds_store st = Some s \<Longrightarrow> storage_sound content s"
    "phase_ok (content (dx_path x) (dx_tag x)) (tk_chunk (ds_tasks st ! i)) (abs_phase (tk_phase (ds_tasks st ! i)))"
    "temp_ok (tk_dest (ds_tasks st ! i)) (bytes_of (tk_phase (ds_tasks st ! i))) (dx_tag x) (store_of (tk_phase (ds_tasks st ! i))) (ds_fs st)"
    "handle_ok x content (ds_fs st) (dest_local_filepath (tk_dest (ds_tasks st ! i))) (tk_chunk (ds_tasks st ! i)) (tk_phase (ds_tasks st ! i))"
    "block_dest x (dx_path x) (cr_aligned_start_offset (tk_chunk (ds_tasks st ! i))) (cr_chunk_size (tk_chunk (ds_tasks st ! i)))
      (dest_local_filepath (tk_dest (ds_tasks st ! i)))"
    "dest_ok (tk_dest (ds_tasks st ! i))"
    "chunk_within (length (content (dx_path x) (dx_tag x))) (tk_chunk (ds_tasks st ! i))"
proof -
  let ?t = "ds_tasks st ! i" and ?fc = "content (dx_path x) (dx_tag x)"
  have ok: "task_ok x content (ds_fs st) ?t" using inv i by (simp add: disk_inv_def)
  then obtain u v where r: "resolve_chunk x u v (tk_chunk ?t) = Inr (tk_dest ?t)" using ph by (auto simp: task_ok_def)
  show "fs_wf (ds_fs st)" "access_inv (ds_lru st)" "\<And>s. ds_store st = Some s \<Longrightarrow> storage_sound content s"
    using inv by (simp_all add: disk_inv_def disk_sound_def)
  have "\<forall>j < length (map abs_task (ds_tasks st)).
      phase_ok ?fc (fst (map abs_task (ds_tasks st) ! j)) (snd (map abs_task (ds_tasks st) ! j))"
    using inv unfolding disk_inv_def tasks_ok_def by blast
  with i show "phase_ok ?fc (tk_chunk ?t) (abs_phase (tk_phase ?t))" by (simp add: abs_task_def)
  show "temp_ok (tk_dest ?t) (bytes_of (tk_phase ?t)) (dx_tag x) (store_of (tk_phase ?t)) (ds_fs st)"
    "handle_ok x content (ds_fs st) (dest_local_filepath (tk_dest ?t)) (tk_chunk ?t) (tk_phase ?t)"
    using ok ph by (simp_all add: task_ok_def)
  show "block_dest x (dx_path x) (cr_aligned_start_offset (tk_chunk ?t)) (cr_chunk_size (tk_chunk ?t)) (dest_local_filepath (tk_dest ?t))"
    by (rule task_block_dest [OF set r inv_chunk_mem [OF inv i]])
  show "dest_ok (tk_dest ?t)" by (rule resolved_dest_ok [OF r])
  have "plan_ok (length ?fc) buffer start cs (start + bytes)" using set by (simp add: disk_setting_def read_setting_def)
  then show "chunk_within (length ?fc) (tk_chunk ?t)" by (rule plan_ok_member(1) [OF _ inv_chunk_mem [OF inv i]])
qed

text \<open>A validated handle holds the current version of the block.\<close>

lemma validated_content:
  assumes "ValidateCacheFile fs p (dx_tag x)" "tag_reliable content (dx_path x) (dx_tag x)"
    and "handle_ok x content fs p c (DRead (Read_Validate f))"
  shows "lf_content f = slice (cr_aligned_start_offset c) (cr_chunk_size c) (content (dx_path x) (dx_tag x))"
proof -
  have fs: "lf_content f = slice (cr_aligned_start_offset c) (cr_chunk_size c) (content (dx_path x) (file_version f))"
    using assms(3) by (simp add: file_sound_def)
  have "content (dx_path x) (file_version f) = content (dx_path x) (dx_tag x)"
  proof (cases "unchanging content (dx_path x)")
    case False
    then have "dx_tag x \<noteq> []" using assms(2) tag_reliable_empty by metis
    then obtain g where g: "map_of fs p = Some g" "file_version g = dx_tag x"
      using assms(1)
      by (auto simp: ValidateCacheFile_def GetCacheVersion_def GetFileXattr_def file_version_def Let_def
        split: option.splits if_splits)
    then have "same_file g f" using assms(3) False by simp
    with g(2) show ?thesis by (simp add: same_file_def file_version_def)
  qed (auto simp: unchanging_def)
  with fs show ?thesis by simp
qed

lemma disk_inv_read_local:
  assumes set: "disk_setting x names content buffer start bytes cs"
    and inv: "disk_inv x names content buffer start m0 cs st" and i: "i < length (ds_tasks st)"
    and ph: "tk_phase (ds_tasks st ! i) = DRead ph" and env: "en_read_ok env"
  shows "disk_inv x names content buffer start m0 cs (disk_read_local x i env ph st)"
proof -
  let ?t = "ds_tasks st ! i" and ?fc = "content (dx_path x) (dx_tag x)"
  let ?p = "dest_local_filepath (tk_dest ?t)" and ?n = "cr_chunk_size (tk_chunk ?t)"
  note t = inv_task [OF set inv i, unfolded ph, simplified]
  have k0: "all_kept (ds_fs st) (ds_fs st)" by (rule all_kept_refl [OF t(1)])
  have quiet: "disk_inv x names content buffer start m0 cs (disk_read_local x i env ph st)"
    if st: "ReadLocalCacheFile (dx_page x) (dx_junk x) ?p ?n (dx_tag x) env ph (ds_fs st) = (ph', fs')"
      and k: "all_kept (ds_fs st) fs'" and pok: "phase_ok ?fc (tk_chunk ?t) (abs_phase (DRead ph'))"
      and h: "handle_ok x content fs' ?p (tk_chunk ?t) (DRead ph')" for ph' fs'
  proof -
    have "\<not> written (abs_phase (DRead ph'))" by (cases ph') simp_all
    then have "disk_inv x names content buffer start m0 cs
        (to_phase i (DRead ph') (st\<lparr>ds_mem := ds_mem st, ds_store := ds_store st, ds_fs := fs', ds_lru := ds_lru st, ds_log := ds_log st\<rparr>))"
      using all_kept_temp [OF k, of "tk_dest ?t" "[]" "dx_tag x" Store_Check] t ph pok h
      by (intro disk_inv_quiet [OF set inv i _ _ _ _ _ _ all_kept_own [OF k]]) simp_all
    then show ?thesis by (simp add: disk_read_local_def st)
  qed
  show ?thesis
  proof (cases ph)
    case Read_Open
    show ?thesis
    proof (cases "map_of (ds_fs st) ?p")
      case None
      with Read_Open t show ?thesis by (intro quiet [of Read_Miss "ds_fs st"]) (simp_all add: k0)
    next
      case (Some f)
      have "file_sound content (dx_path x) (cr_aligned_start_offset (tk_chunk ?t)) ?n f"
        using inv set Some t(7) unfolding disk_inv_def disk_sound_def disk_setting_def by blast
      with Some Read_Open t env show ?thesis by (intro quiet [of "Read_Validate f" "ds_fs st"]) (simp_all add: k0)
    qed
  next
    case (Read_Validate f)
    show ?thesis
    proof (cases "ValidateCacheFile (ds_fs st) ?p (dx_tag x)")
      case True
      have "lf_content f = slice (cr_aligned_start_offset (tk_chunk ?t)) ?n ?fc"
        using set t(6) unfolding Read_Validate
        by (intro validated_content [OF True]) (simp_all add: disk_setting_def read_setting_def)
      with True Read_Validate t show ?thesis by (intro quiet [of "Read_Content f" "ds_fs st"]) (simp_all add: k0)
    next
      case False
      with Read_Validate t show ?thesis by (intro quiet [of Read_Discard "ds_fs st"]) (simp_all add: k0)
    qed
  next
    case Read_Discard
    have "all_kept (ds_fs st) (if en_ok env then snd (TryRemoveFile ?p (ds_fs st)) else ds_fs st)"
      using t(1) by (simp add: k0 all_kept_removes)
    with Read_Discard show ?thesis by (intro quiet [of Read_Miss]) simp_all
  next
    case (Read_Content f)
    then have f: "lf_content f = slice (cr_aligned_start_offset (tk_chunk ?t)) ?n ?fc" using t(6) by simp
    have w: "cr_aligned_start_offset (tk_chunk ?t) + ?n \<le> length ?fc" using t(9) by (simp add: chunk_within_def)
    have "0 < dx_page x" "?n + 2 * dx_page x < U64" using set w by (auto simp: disk_setting_def read_setting_def)
    then obtain d where d: "read_handle (dx_page x) (dx_junk x) ?n True f = Inr d" "chunk_wf d" "pc_length d = ?n"
        "chunk_bytes d = take ?n (lf_content f)"
      using read_handle_ok [of "dx_page x" ?n f "dx_junk x"] f w by auto
    have "data_ok ?fc (tk_chunk ?t) d" using d f w by (simp add: data_ok_def chunk_holds_def)
    with Read_Content d env t show ?thesis by (intro quiet [of "Read_Touch d" "ds_fs st"]) (simp_all add: k0)
  next
    case (Read_Touch d)
    have "all_kept (ds_fs st) (if en_ok env then UpdateFileTimestamps ?p (en_now env) (ds_fs st) else ds_fs st)"
      using t(1) by (simp add: k0 all_kept_touch)
    with Read_Touch t(4) show ?thesis by (intro quiet [of "Read_Hit d"]) simp_all
  next
    case (Read_Hit d)
    with t show ?thesis by (intro quiet [of "Read_Hit d" "ds_fs st"]) (simp_all add: k0)
  next
    case Read_Miss
    with t show ?thesis by (intro quiet [of Read_Miss "ds_fs st"]) (simp_all add: k0)
  next
    case (Read_Error e)
    with t show ?thesis by (intro quiet [of "Read_Error e" "ds_fs st"]) (simp_all add: k0)
  qed
qed

lemma disk_inv_store_local:
  assumes set: "disk_setting x names content buffer start bytes cs"
    and inv: "disk_inv x names content buffer start m0 cs st" and i: "i < length (ds_tasks st)"
    and ph: "tk_phase (ds_tasks st ! i) = DStore d ph"
  shows "disk_inv x names content buffer start m0 cs (disk_store_local x i env d ph st)"
proof -
  let ?t = "ds_tasks st ! i" and ?fc = "content (dx_path x) (dx_tag x)"
  note t = inv_task [OF set inv i, unfolded ph, simplified]
  obtain ph' fs' lru' where st: "StoreLocalCacheFile (dx_plat x) (dx_cfg x) (pi_cache_directory (dx_path_info x)) (tk_dest ?t)
      (chunk_bytes d) (dx_tag x) env ph (ds_fs st) (ds_lru st) = (ph', fs', lru')"
    by (metis prod.collapse)
  have own: "own_files x content ?t (ds_fs st) fs'"
    using store_effect [OF t(5) st] store_wf [OF st t(1)] t(4)
    unfolding own_files_def kept_def by (metis same_file_refl)
  have temp: "temp_ok (tk_dest ?t) (chunk_bytes d) (dx_tag x) ph' fs'" by (rule store_temp_ok [OF t(8) t(5) st])
  have lru: "access_inv lru'" using store_access_inv [OF st t(1,2)] set by (simp add: disk_setting_def)
  have "disk_inv x names content buffer start m0 cs
      (to_phase i (DStore d ph') (st\<lparr>ds_mem := ds_mem st, ds_store := ds_store st, ds_fs := fs', ds_lru := lru', ds_log := ds_log st\<rparr>))"
    using t ph temp by (intro disk_inv_quiet [OF set inv i _ _ _ _ _ lru own]) simp_all
  then show ?thesis by (simp add: disk_store_local_def st)
qed

lemma disk_inv_refresh:
  assumes set: "disk_setting x names content buffer start bytes cs"
    and inv: "disk_inv x names content buffer start m0 cs st" and i: "i < length (ds_tasks st)"
    and ph: "tk_phase (ds_tasks st ! i) \<noteq> DTodo" "p \<noteq> DTodo" "abs_phase p = abs_phase (tk_phase (ds_tasks st ! i))"
      "store_of p = Store_End None"
    and h: "\<And>fs q c. handle_ok x content fs q c p"
  shows "disk_inv x names content buffer start m0 cs (refresh_access x i env failed p st)"
proof -
  let ?t = "ds_tasks st ! i"
  note t = inv_task [OF set inv i ph(1)]
  let ?fs = "UpdateFileTimestamps (dest_local_filepath (tk_dest ?t)) (en_now env) (ds_fs st)"
  obtain lru' where lru: "upsert_access (dest_local_filepath (tk_dest ?t)) (en_now env) (ds_lru st) = Inr lru'" "access_inv lru'"
    using upsert_access_ok [OF t(2)] by blast
  have "temp_ok (tk_dest ?t) (bytes_of p) (dx_tag x) (store_of p) ?fs" using ph(4) by (simp add: temp_ok_def)
  then have "disk_inv x names content buffer start m0 cs
      (to_phase i p (st\<lparr>ds_mem := ds_mem st, ds_store := ds_store st, ds_fs := ?fs, ds_lru := lru', ds_log := ds_log st\<rparr>))"
    using t ph h
    by (intro disk_inv_quiet [OF set inv i _ _ _ _ _ lru(2) all_kept_own [OF all_kept_touch [OF t(1)]]]) simp_all
  then show ?thesis using lru(1) by (simp add: refresh_access_def UpsertCacheFileAccessTimestamp_def)
qed

lemma disk_inv_put:
  assumes set: "disk_setting x names content buffer start bytes cs"
    and inv: "disk_inv x names content buffer start m0 cs st" and i: "i < length (ds_tasks st)"
    and ph: "abs_phase (tk_phase (ds_tasks st ! i)) = Copied d"
  shows "disk_inv x names content buffer start m0 cs (to_phase i DFinished (put_memory x i env d st))"
proof -
  let ?t = "ds_tasks st ! i" and ?fc = "content (dx_path x) (dx_tag x)"
  have todo: "tk_phase ?t \<noteq> DTodo" using ph by auto
  note t = inv_task [OF set inv i todo]
  have "entry_sound content (chunk_key (dx_path x) (tk_chunk ?t)) \<lparr>de_data = d, de_version_tag = dx_tag x\<rparr>"
    using t(4,9) unfolding ph by (auto simp: entry_sound_def chunk_key_def data_ok_def chunk_within_def)
  then have put: "storage_sound content (storage_Put (chunk_key (dx_path x) (tk_chunk ?t)) d (dx_tag x) (en_clock env) s)"
    if "storage_sound content s" for s
    using that storage.sound_store_put by (simp add: storage_sound_iff)
  have "disk_inv x names content buffer start m0 cs (to_phase i DFinished (st\<lparr>ds_mem := ds_mem st,
      ds_store := map_option (storage_Put (chunk_key (dx_path x) (tk_chunk ?t)) d (dx_tag x) (en_clock env)) (ds_store st),
      ds_fs := ds_fs st, ds_lru := ds_lru st, ds_log := ds_log st\<rparr>))"
    using t todo put ph
    by (intro disk_inv_quiet [OF set inv i _ _ _ _ _ _ all_kept_own [OF all_kept_refl [OF t(1)]]]) (auto simp: temp_ok_def)
  then show ?thesis by (simp add: put_memory_def)
qed

lemma disk_inv_todo:
  assumes set: "disk_setting x names content buffer start bytes cs"
    and inv: "disk_inv x names content buffer start m0 cs st" and i: "i < length (ds_tasks st)"
    and ph: "tk_phase (ds_tasks st ! i) = DTodo" and fresh: "fresh_uuid st u" "fresh_uuid st v"
  shows "disk_inv x names content buffer start m0 cs (disk_action x i env u v DTodo st)"
proof -
  let ?t = "ds_tasks st ! i" and ?fc = "content (dx_path x) (dx_tag x)"
  have wf: "fs_wf (ds_fs st)" and ss: "\<And>s. ds_store st = Some s \<Longrightarrow> storage_sound content s"
    using inv by (simp_all add: disk_inv_def disk_sound_def)
  have "\<not> ends_with (pi_cache_directory (dx_path_info x)) ''/''"
    using set Build_ok(3) unfolding disk_setting_def by blast
  then obtain d where d: "resolve_chunk x u v (tk_chunk ?t) = Inr d"
    by (simp add: resolve_chunk_def ResolveLocalCacheDestination_def Let_def)
  have new: "map_of (ds_fs st) (temp_local_filepath d) = None" "temp_local_filepath d \<notin> read_temps st"
    using resolved_temp [OF d] fresh by (auto simp: fresh_uuid_def)
  have update: "disk_inv x names content buffer start m0 cs
      (st\<lparr>ds_store := s', ds_tasks := (ds_tasks st)[i := ?t\<lparr>tk_dest := d, tk_phase := p\<rparr>], ds_log := l\<rparr>)"
    if p: "p \<noteq> DTodo" "phase_ok ?fc (tk_chunk ?t) (abs_phase p)" "\<not> written (abs_phase p)" "\<And>fs q c. handle_ok x content fs q c p"
      and s': "\<And>s. s' = Some s \<Longrightarrow> storage_sound content s" for p s' l
  proof (rule disk_inv_update [OF set inv i, where t' = "?t\<lparr>tk_dest := d, tk_phase := p\<rparr>"])
    have "map abs_task ((ds_tasks st)[i := ?t\<lparr>tk_dest := d, tk_phase := p\<rparr>]) =
        (map abs_task (ds_tasks st))[i := (fst (map abs_task (ds_tasks st) ! i), abs_phase p)]"
      using i by (simp add: map_update abs_task_def)
    moreover have "tasks_ok ?fc buffer start m0 cs ((map abs_task (ds_tasks st))[i := (fst (map abs_task (ds_tasks st) ! i), abs_phase p)]) (ds_mem st)"
      using inv i p by (intro tasks_ok_phase) (simp_all add: disk_inv_def abs_task_def)
    ultimately show "tasks_ok ?fc buffer start m0 cs
        (map abs_task (ds_tasks (st\<lparr>ds_store := s', ds_tasks := (ds_tasks st)[i := ?t\<lparr>tk_dest := d, tk_phase := p\<rparr>], ds_log := l\<rparr>)))
        (ds_mem (st\<lparr>ds_store := s', ds_tasks := (ds_tasks st)[i := ?t\<lparr>tk_dest := d, tk_phase := p\<rparr>], ds_log := l\<rparr>))" by simp
    show "task_ok x content (ds_fs (st\<lparr>ds_store := s', ds_tasks := (ds_tasks st)[i := ?t\<lparr>tk_dest := d, tk_phase := p\<rparr>], ds_log := l\<rparr>))
        (?t\<lparr>tk_dest := d, tk_phase := p\<rparr>)"
      using d new(1) p by (auto simp: task_ok_def temp_ok_def)
    show "temp_local_filepath (tk_dest (ds_tasks st ! j)) \<noteq> temp_local_filepath (tk_dest (?t\<lparr>tk_dest := d, tk_phase := p\<rparr>))"
      if "j < length (ds_tasks st)" "j \<noteq> i" "tk_phase (ds_tasks st ! j) \<noteq> DTodo" for j
      using that new(2) by (auto simp: read_temps_def)
  qed (use p s' inv own_files_refl [OF wf] in \<open>auto simp: disk_inv_def\<close>)
  show ?thesis
  proof (cases "ds_store st")
    case None
    with update [of DProbe "ds_store st" "ds_log st"] d i show ?thesis
      by (cases st) (simp add: lookup_memory_def to_phase_def)
  next
    case (Some s)
    obtain r s' where g: "storage_Get (chunk_key (dx_path x) (tk_chunk ?t)) (dx_tag x) (en_clock env) s = (r, s')" by fastforce
    have sound: "storage.sound_store content s" using ss [OF Some] by (simp add: storage_sound_iff)
    have s': "storage_sound content s'"
      using storage.sound_store_get [OF sound, of "chunk_key (dx_path x) (tk_chunk ?t)" "dx_tag x" "en_clock env"] g
      by (simp add: storage_sound_iff)
    show ?thesis
    proof (cases r)
      case None
      with update [of DProbe "Some s'" "ds_log st"] d i g s' Some show ?thesis
        by (cases st) (simp add: lookup_memory_def to_phase_def)
    next
      case (Some dd)
      have "data_ok ?fc (tk_chunk ?t) dd"
        using storage.get_sound [OF sound, of "dx_path x" "tk_chunk ?t" "dx_tag x" "en_clock env" dd s'] g Some set
        by (simp add: disk_setting_def read_setting_def)
      with update [of "DMemHit dd" "Some s'" "ds_log st @ [(True, cr_bytes_to_copy (tk_chunk ?t))]"] d i g s' Some \<open>ds_store st = Some s\<close>
      show ?thesis by (cases st) (simp add: lookup_memory_def to_phase_def disk_log_def)
    qed
  qed
qed

lemma disk_inv_process:
  assumes set: "disk_setting x names content buffer start bytes cs"
    and inv: "disk_inv x names content buffer start m0 cs st" and i: "i < length (ds_tasks st)"
    and env: "en_read_ok env" and fresh: "fresh_uuid st u" "fresh_uuid st v"
  shows "disk_inv x names content buffer start m0 cs (disk_ProcessCacheReadChunk x i env u v st)"
proof (cases "tk_phase (ds_tasks st ! i) = DTodo")
  case True
  then show ?thesis using disk_inv_todo [OF set inv i True fresh] by (simp add: disk_ProcessCacheReadChunk_def)
next
  case False
  let ?t = "ds_tasks st ! i" and ?fc = "content (dx_path x) (dx_tag x)"
  note t = inv_task [OF set inv i False]
  have quiet: "disk_inv x names content buffer start m0 cs (to_phase i p (st\<lparr>ds_log := l\<rparr>))"
    if "p \<noteq> DTodo" "phase_ok ?fc (tk_chunk ?t) (abs_phase p)" "written (abs_phase p) \<Longrightarrow> written (abs_phase (tk_phase ?t))"
      "temp_ok (tk_dest ?t) (bytes_of p) (dx_tag x) (store_of p) (ds_fs st)" "\<And>fs q c. handle_ok x content fs q c p" for p l
    using disk_inv_quiet [where s' = "ds_store st" and l = l, OF set inv i False that(1,2,3) t(3,2) own_files_refl [OF t(1)] that(4,5)] by simp
  note quiet0 = quiet [where l = "ds_log st", simplified]
  note copy = disk_inv_copy [OF set inv i False]
  show ?thesis
    unfolding disk_ProcessCacheReadChunk_def
  proof (cases "tk_phase ?t")
    case (DMemHit d)
    with copy [of DFinished d "ds_log st"] t(4) show "disk_inv x names content buffer start m0 cs (disk_action x i env u v (tk_phase ?t) st)"
      by (simp add: temp_ok_def)
  next
    case DProbe
    with quiet0 [of "DRead Read_Open"] quiet0 [of DMissed] t(5) show "disk_inv x names content buffer start m0 cs (disk_action x i env u v (tk_phase ?t) st)"
      by simp
  next
    case (DRead ph)
    note rd = disk_inv_read_local [OF set inv i DRead env]
    show "disk_inv x names content buffer start m0 cs (disk_action x i env u v (tk_phase ?t) st)"
    proof (cases ph)
      case (Read_Hit d)
      with copy [of "DDiskCopied d" d] t(4) DRead show ?thesis by (simp add: temp_ok_def disk_log_def)
    next
      case Read_Miss
      with quiet0 [of DMissed] t(5) DRead show ?thesis by simp
    next
      case (Read_Error e)
      with t(4) DRead show ?thesis by simp
    qed (use rd DRead in simp_all)
  next
    case (DDiskCopied d)
    with disk_inv_refresh [OF set inv i False, of "DDiskPut d" env DFailed] quiet0 [of "DDiskPut d"] t(4)
    show "disk_inv x names content buffer start m0 cs (disk_action x i env u v (tk_phase ?t) st)" by (simp add: temp_ok_def)
  next
    case (DDiskPut d)
    with disk_inv_put [OF set inv i, of d env] show "disk_inv x names content buffer start m0 cs (disk_action x i env u v (tk_phase ?t) st)"
      by simp
  next
    case DMissed
    have w: "cr_aligned_start_offset (tk_chunk ?t) + cr_chunk_size (tk_chunk ?t) \<le> length ?fc" using t(9) by (simp add: chunk_within_def)
    moreover from this set have "dx_rd x (cr_aligned_start_offset (tk_chunk ?t)) (cr_chunk_size (tk_chunk ?t)) =
        Inr (slice (cr_aligned_start_offset (tk_chunk ?t)) (cr_chunk_size (tk_chunk ?t)) ?fc)"
      by (simp add: disk_setting_def read_setting_def remote_ok_def)
    ultimately obtain d where d: "fetch_chunk (dx_rd x) (dx_page x) (dx_junk x) (tk_chunk ?t) = Inr d" "data_ok ?fc (tk_chunk ?t) d"
      using fetch_chunk_ok [of "dx_rd x" "tk_chunk ?t" ?fc "dx_page x" "dx_junk x"] set
      by (auto simp: disk_setting_def read_setting_def)
    with quiet [of "DLoaded d"] t(5) DMissed show "disk_inv x names content buffer start m0 cs (disk_action x i env u v (tk_phase ?t) st)"
      by (simp add: disk_log_def)
  next
    case (DLoaded d)
    with copy [of "DCopied d" d "ds_log st"] t(4,5) show "disk_inv x names content buffer start m0 cs (disk_action x i env u v (tk_phase ?t) st)"
      by simp
  next
    case (DCopied d)
    have "temp_ok (tk_dest ?t) (chunk_bytes d) (dx_tag x) Store_Check (ds_fs st)" using t(5) DCopied by (simp add: temp_ok_def)
    with quiet0 [of "DStore d Store_Check"] quiet0 [of DFinished] t(4) DCopied
    show "disk_inv x names content buffer start m0 cs (disk_action x i env u v (tk_phase ?t) st)" by (simp add: temp_ok_def)
  next
    case (DStore d ph)
    note st = disk_inv_store_local [OF set inv i DStore, of env]
    show "disk_inv x names content buffer start m0 cs (disk_action x i env u v (tk_phase ?t) st)"
    proof (cases ph)
      case (Store_End e)
      with quiet0 [of "DStored d"] quiet0 [of DFinished] t(4) DStore show ?thesis
        by (simp add: temp_ok_def split: option.splits)
    qed (use st DStore in simp_all)
  next
    case (DStored d)
    with disk_inv_refresh [OF set inv i False, of "DPut d" env "\<lambda>_. DFinished"] quiet0 [of "DPut d"] t(4)
    show "disk_inv x names content buffer start m0 cs (disk_action x i env u v (tk_phase ?t) st)" by (simp add: temp_ok_def)
  next
    case (DPut d)
    with disk_inv_put [OF set inv i, of d env] show "disk_inv x names content buffer start m0 cs (disk_action x i env u v (tk_phase ?t) st)"
      by simp
  qed (use inv False in simp_all)
qed

lemma disk_inv_step:
  assumes set: "disk_setting x names content buffer start bytes cs" and envs: "\<forall>env \<in> envs. en_read_ok env"
    and step: "disk_step x names content envs st st'" and inv: "disk_inv x names content buffer start m0 cs st"
  shows "disk_inv x names content buffer start m0 cs st'"
  using step
proof (cases rule: disk_step.cases)
  case (worker i env u v)
  with disk_inv_process [OF set inv] envs show ?thesis by blast
next
  case (files fs')
  with disk_inv_rely [OF set inv] show ?thesis by blast
next
  case (order lru')
  with inv show ?thesis by (simp add: disk_inv_def)
next
  case (store f)
  have "storage_sound content (f s)" if "ds_store st = Some s" for s
    using that inv store(2) storage.sound_store_ops [of content s f] by (simp add: disk_inv_def storage_sound_iff)
  with store(1) inv show ?thesis by (auto simp: disk_inv_def)
qed

lemma disk_inv_start:
  assumes "disk_sound x names content fs" "access_inv lru" "\<And>s. store = Some s \<Longrightarrow> storage_sound content s"
  shows "disk_inv x names content buffer start m cs (disk_start m store fs lru cs)"
  using assms
  by (auto simp: disk_inv_def disk_start_def tasks_ok_def abs_task_def comp_def task_ok_def temps_distinct_def)

lemma disk_inv_reachable:
  assumes set: "disk_setting x names content buffer start bytes cs" and envs: "\<forall>env \<in> envs. en_read_ok env"
    and run: "(disk_step x names content envs)\<^sup>*\<^sup>* st0 st" and inv: "disk_inv x names content buffer start m0 cs st0"
  shows "disk_inv x names content buffer start m0 cs st"
  using run inv by (induction rule: rtranclp_induct) (auto intro: disk_inv_step [OF set envs])

section \<open>Every worker finishes\<close>

fun read_rank :: "local_read_phase \<Rightarrow> nat" where
  "read_rank Read_Open = 6"
| "read_rank (Read_Validate f) = 5"
| "read_rank Read_Discard = 4"
| "read_rank (Read_Content f) = 4"
| "read_rank (Read_Touch d) = 3"
| "read_rank (Read_Hit d) = 2"
| "read_rank Read_Miss = 1"
| "read_rank (Read_Error e) = 1"

fun disk_rank :: "disk_phase \<Rightarrow> nat" where
  "disk_rank DTodo = 40"
| "disk_rank DProbe = 39"
| "disk_rank (DRead ph) = 25 + read_rank ph"
| "disk_rank DMissed = 22"
| "disk_rank (DLoaded d) = 21"
| "disk_rank (DCopied d) = 20"
| "disk_rank (DStore d ph) = 10 + store_rank ph"
| "disk_rank (DStored d) = 2"
| "disk_rank (DPut d) = 1"
| "disk_rank (DDiskCopied d) = 2"
| "disk_rank (DDiskPut d) = 1"
| "disk_rank (DMemHit d) = 1"
| "disk_rank DFinished = 0"
| "disk_rank (DFailed e) = 0"

definition disk_remaining :: "disk_state \<Rightarrow> nat" where
  "disk_remaining st = sum_list (map (disk_rank \<circ> tk_phase) (ds_tasks st))"

text \<open>An action changes worker \<open>i\<close> only, to a phase of lower rank.\<close>

definition moves_to_lower :: "nat \<Rightarrow> disk_state \<Rightarrow> disk_state \<Rightarrow> bool" where
  "moves_to_lower i st st' \<longleftrightarrow>
     (\<exists>t'. ds_tasks st' = (ds_tasks st)[i := t'] \<and> disk_rank (tk_phase t') < disk_rank (tk_phase (ds_tasks st ! i)))"

lemma to_phase_lower:
  assumes "disk_rank p < disk_rank (tk_phase (ds_tasks st ! i))" "ds_tasks st1 = ds_tasks st"
  shows "moves_to_lower i st (to_phase i p st1)"
  using assms unfolding moves_to_lower_def
  by (intro exI [of _ "(ds_tasks st ! i)\<lparr>tk_phase := p\<rparr>"]) (simp add: to_phase_def)

lemma copy_lower:
  assumes "disk_rank p < disk_rank (tk_phase (ds_tasks st ! i))" "ds_tasks st1 = ds_tasks st"
  shows "moves_to_lower i st (disk_copy i d p st1)"
  using assms to_phase_lower [of "DFailed _" st i st1] to_phase_lower [of p st i "st1\<lparr>ds_mem := _\<rparr>"]
  by (auto simp: disk_copy_def split: sum.splits)

lemma refresh_lower:
  assumes "disk_rank p < disk_rank (tk_phase (ds_tasks st ! i))" "\<And>e. disk_rank (failed e) < disk_rank (tk_phase (ds_tasks st ! i))"
  shows "moves_to_lower i st (refresh_access x i env failed p st)"
  using assms by (auto simp: refresh_access_def split: prod.splits sum.splits intro!: to_phase_lower)

lemma read_lower:
  assumes ph: "tk_phase (ds_tasks st ! i) = DRead ph" and open_ph: "2 < read_rank ph"
  shows "moves_to_lower i st (disk_read_local x i env ph st)"
proof -
  let ?t = "ds_tasks st ! i"
  obtain ph' fs' where r: "ReadLocalCacheFile (dx_page x) (dx_junk x) (dest_local_filepath (tk_dest ?t))
      (cr_chunk_size (tk_chunk ?t)) (dx_tag x) env ph (ds_fs st) = (ph', fs')" by fastforce
  have "read_rank ph' < read_rank ph" using r open_ph by (cases ph) (auto split: option.splits if_splits sum.splits)
  then show ?thesis using ph by (simp add: disk_read_local_def r to_phase_lower)
qed

lemma store_lower:
  assumes ph: "tk_phase (ds_tasks st ! i) = DStore d ph" and "0 < store_rank ph"
  shows "moves_to_lower i st (disk_store_local x i env d ph st)"
proof -
  obtain ph' fs' lru' where st: "StoreLocalCacheFile (dx_plat x) (dx_cfg x) (pi_cache_directory (dx_path_info x)) (tk_dest (ds_tasks st ! i))
      (chunk_bytes d) (dx_tag x) env ph (ds_fs st) (ds_lru st) = (ph', fs', lru')"
    by (metis prod.collapse)
  from store_rank_decreases [OF st assms(2)] ph show ?thesis by (simp add: disk_store_local_def st to_phase_lower)
qed

lemma todo_lower:
  assumes ph: "tk_phase (ds_tasks st ! i) = DTodo" and i: "i < length (ds_tasks st)"
  shows "moves_to_lower i st (disk_action x i env u v DTodo st)"
proof (cases "resolve_chunk x u v (tk_chunk (ds_tasks st ! i))")
  case (Inl e)
  with ph show ?thesis by (simp add: to_phase_lower)
next
  case (Inr d)
  have "moves_to_lower i st (lookup_memory x i env (st\<lparr>ds_tasks := (ds_tasks st)[i := (ds_tasks st ! i)\<lparr>tk_dest := d\<rparr>]\<rparr>))"
    using ph i unfolding moves_to_lower_def
    by (auto simp: lookup_memory_def to_phase_def disk_log_def split: option.splits prod.splits)
  with Inr show ?thesis by simp
qed

lemma process_lower:
  assumes i: "i < length (ds_tasks st)" and p: "\<not> disk_over (tk_phase (ds_tasks st ! i))"
  shows "moves_to_lower i st (disk_ProcessCacheReadChunk x i env u v st)"
proof (cases "tk_phase (ds_tasks st ! i)")
  case DTodo
  with todo_lower i show ?thesis by (simp add: disk_ProcessCacheReadChunk_def)
next
  case (DRead ph)
  with read_lower [OF DRead] show ?thesis
    by (cases ph) (auto simp: disk_ProcessCacheReadChunk_def disk_log_def intro!: to_phase_lower copy_lower)
next
  case (DStore d ph)
  with store_lower [OF DStore] show ?thesis
    by (cases ph) (auto simp: disk_ProcessCacheReadChunk_def intro!: to_phase_lower split: option.splits)
qed (use p in \<open>auto simp: disk_ProcessCacheReadChunk_def disk_over_def disk_log_def put_memory_def
       intro!: to_phase_lower copy_lower refresh_lower split: sum.splits\<close>)

lemma sum_list_update_less:
  "i < length xs \<Longrightarrow> f y < f (xs ! i) \<Longrightarrow> sum_list (map f (xs[i := y])) < (sum_list (map f xs) :: nat)"
  by (induction xs arbitrary: i) (auto split: nat.splits)

lemma remaining_lower:
  assumes "moves_to_lower i st st'" "i < length (ds_tasks st)"
  shows "disk_remaining st' < disk_remaining st"
proof -
  obtain t' where t': "ds_tasks st' = (ds_tasks st)[i := t']" "disk_rank (tk_phase t') < disk_rank (tk_phase (ds_tasks st ! i))"
    using assms(1) by (auto simp: moves_to_lower_def)
  then show ?thesis
    using sum_list_update_less [of i "ds_tasks st" "disk_rank \<circ> tk_phase" t'] assms(2) by (simp add: disk_remaining_def)
qed

lemma fresh_uuid_exists: "\<exists>u. fresh_uuid st u"
proof -
  let ?ps = "map fst (ds_fs st) @ map (\<lambda>t. temp_local_filepath (tk_dest t)) (ds_tasks st)"
  let ?u = "replicate (Suc (sum_list (map length ?ps))) (CHR ''a'')"
  have long: "GetTempCacheFilePath ?u p \<notin> set ?ps" for p
  proof
    assume "GetTempCacheFilePath ?u p \<in> set ?ps"
    then have "length (GetTempCacheFilePath ?u p) \<in> set (map length ?ps)" unfolding set_map by (rule imageI)
    then have "length (GetTempCacheFilePath ?u p) \<le> sum_list (map length ?ps)" by (rule member_le_sum_list) simp
    then show False by (simp add: GetTempCacheFilePath_def)
  qed
  then have "fresh_uuid st ?u"
    unfolding fresh_uuid_def read_temps_def by (auto simp: map_of_eq_None_iff)
  then show ?thesis by blast
qed

lemma disk_can_finish:
  assumes "env \<in> envs"
  shows "\<exists>st'. (disk_step x names content envs)\<^sup>*\<^sup>* st st' \<and> disk_done st'"
proof (induction "disk_remaining st" arbitrary: st rule: less_induct)
  case less
  show ?case
  proof (cases "disk_done st")
    case False
    then obtain i where i: "i < length (ds_tasks st)" "\<not> disk_over (tk_phase (ds_tasks st ! i))"
      by (auto simp: disk_done_def in_set_conv_nth)
    obtain u where u: "fresh_uuid st u" using fresh_uuid_exists by blast
    let ?st = "disk_ProcessCacheReadChunk x i env u u st"
    have "disk_step x names content envs st ?st" by (rule disk_step.worker [OF i assms u u])
    moreover obtain st' where "(disk_step x names content envs)\<^sup>*\<^sup>* ?st st'" "disk_done st'"
      using less [OF remaining_lower [OF process_lower [OF i] i(1)]] by blast
    ultimately show ?thesis by (meson converse_rtranclp_into_rtranclp)
  qed blast
qed

section \<open>Transparency\<close>

lemma disk_no_error:
  assumes "tasks_ok fc buffer start m0 cs (map abs_task ts) m"
  shows "disk_first_error ts = None"
proof -
  have "\<forall>t \<in> set ts. phase_ok fc (tk_chunk t) (abs_phase (tk_phase t))"
    using assms unfolding tasks_ok_def all_set_conv_all_nth by (simp add: abs_task_def)
  then show ?thesis by (induction ts) (auto split: disk_phase.splits)
qed

lemma abs_over: "disk_over (tk_phase t) \<Longrightarrow> phase_over (snd (abs_task t))"
  by (cases "tk_phase t") (simp_all add: disk_over_def phase_over_def abs_task_def)

lemma disk_plan_ok:
  assumes "0 < bytes" "start + bytes \<le> file_size" "0 < dc_cache_block_size cfg" "file_size + dc_cache_block_size cfg < U64"
  shows "\<exists>cs total. disk_plan cfg buffer start bytes file_size = Some (Inr (cs, total)) \<and>
    plan_ok file_size buffer start cs (start + bytes) \<and> distinct (map cr_aligned_start_offset cs)"
proof -
  let ?bs = "dc_cache_block_size cfg"
  have "request_in_file start bytes file_size ?bs" using assms by (simp add: request_in_file_def)
  from fixed_block_split [OF this, of buffer] obtain cs where
    cs: "split_fixed_blocks buffer start bytes file_size ?bs = Inr (Some (cs, sum_list (map cr_chunk_size cs)))"
      "plan_ok file_size buffer start cs (start + bytes)"
      "map cr_aligned_start_offset cs = map (\<lambda>k. k * ?bs) [start div ?bs ..< Suc ((start + bytes - 1) div ?bs)]" by blast
  have "distinct (map cr_aligned_start_offset cs)" unfolding cs(3) distinct_map using assms(3) by (simp add: inj_on_def)
  with cs(1,2) assms(1) show ?thesis by (simp add: disk_plan_def)
qed

lemma disk_read_outcome:
  assumes set: "disk_setting x names content buffer start bytes cs" and envs: "envs \<noteq> {}" "\<forall>env \<in> envs. en_read_ok env"
    and start: "disk_sound x names content fs" "access_inv lru" "\<forall>s. store = Some s \<longrightarrow> storage_sound content s"
    and run: "(disk_step x names content envs)\<^sup>*\<^sup>* (disk_start m store fs lru cs) st"
  shows "disk_sound x names content (ds_fs st)" "access_inv (ds_lru st)"
    and "\<And>s. ds_store st = Some s \<Longrightarrow> storage_sound content s"
    and "\<exists>st'. (disk_step x names content envs)\<^sup>*\<^sup>* st st' \<and> disk_done st'"
    and "disk_done st \<Longrightarrow> disk_WaitAll st = Some (Inr ()) \<and>
      mem_read buffer bytes (ds_mem st) = slice start bytes (content (dx_path x) (dx_tag x)) \<and>
      (\<forall>a. a < buffer \<or> buffer + bytes \<le> a \<longrightarrow> ds_mem st a = m a)"
proof -
  let ?fc = "content (dx_path x) (dx_tag x)"
  have plan: "plan_ok (length ?fc) buffer start cs (start + bytes)"
    using set by (simp add: disk_setting_def read_setting_def)
  obtain env where env: "env \<in> envs" using envs(1) by blast
  have inv: "disk_inv x names content buffer start m cs st"
    by (rule disk_inv_reachable [OF set envs(2) run disk_inv_start]) (use start in auto)
  then have ok: "tasks_ok ?fc buffer start m cs (map abs_task (ds_tasks st)) (ds_mem st)" by (simp add: disk_inv_def)
  show "disk_sound x names content (ds_fs st)" "access_inv (ds_lru st)"
    "\<And>s. ds_store st = Some s \<Longrightarrow> storage_sound content s"
    using inv by (simp_all add: disk_inv_def)
  show "\<exists>st'. (disk_step x names content envs)\<^sup>*\<^sup>* st st' \<and> disk_done st'" using env by (rule disk_can_finish)
  show "disk_WaitAll st = Some (Inr ()) \<and> mem_read buffer bytes (ds_mem st) = slice start bytes ?fc \<and>
      (\<forall>a. a < buffer \<or> buffer + bytes \<le> a \<longrightarrow> ds_mem st a = m a)" if fin: "disk_done st"
  proof -
    have "\<forall>t \<in> set (map abs_task (ds_tasks st)). phase_over (snd t)" using fin abs_over by (auto simp: disk_done_def)
    with tasks_ok_done [OF plan ok] disk_no_error [OF ok] fin show ?thesis by (simp add: disk_WaitAll_def)
  qed
qed

text \<open>
  Property C2. The on-disk cache is transparent. For every request inside the file, whatever the
  in-memory storage, the cache directories and the eviction policy hold, in every interleaving of
  the workers at the grain of system calls with each other and with other threads and processes
  that remove cache files, publish sound ones, clear or evict, and with any failures of the calls
  that store: the plan is made, no worker ends with an exception, the read can always finish, and
  once it is done the buffer holds exactly the requested bytes of the remote file and no byte
  outside it has changed; and the cache files stay sound. Assumed are: the remote read returns the
  bytes of the file; a version tag identifies the content, or the file does not change; the names
  in use do not collide in SHA-256; existing local files can be opened and read; and no other reader
  publishes cache files of the same remote file meanwhile, unless that file never changes.
\<close>

theorem disk_read_is_transparent:
  assumes "0 < bytes" "start + bytes \<le> length (content (dx_path x) (dx_tag x))"
    and "0 < dx_page x" "0 < dc_cache_block_size (dx_cfg x)"
    and "length (content (dx_path x) (dx_tag x)) + dc_cache_block_size (dx_cfg x) + 2 * dx_page x < U64"
    and "remote_ok (dx_rd x) (content (dx_path x) (dx_tag x))" "tag_reliable content (dx_path x) (dx_tag x)"
    and "library_ok x" "collision_free x names" "dx_path x \<in> names" "distinct (dc_on_disk_cache_directories (dx_cfg x))"
    and "BuildRemoteFileCachePathInfo (dx_sha x) (dx_gfn x) (dc_on_disk_cache_directories (dx_cfg x)) (dx_path x) = Inr (dx_path_info x)"
    and "envs \<noteq> {}" "\<forall>env \<in> envs. en_read_ok env"
    and "disk_sound x names content fs" "access_inv lru" "\<And>s. store = Some s \<Longrightarrow> storage_sound content s"
  shows "\<exists>cs total.
    disk_plan (dx_cfg x) buffer start bytes (length (content (dx_path x) (dx_tag x))) = Some (Inr (cs, total)) \<and>
    (\<forall>m st. (disk_step x names content envs)\<^sup>*\<^sup>* (disk_start m store fs lru cs) st \<longrightarrow>
       disk_sound x names content (ds_fs st) \<and>
       (\<exists>st'. (disk_step x names content envs)\<^sup>*\<^sup>* st st' \<and> disk_done st') \<and>
       (disk_done st \<longrightarrow>
          disk_WaitAll st = Some (Inr ()) \<and>
          mem_read buffer bytes (ds_mem st) = slice start bytes (content (dx_path x) (dx_tag x)) \<and>
          (\<forall>a. a < buffer \<or> buffer + bytes \<le> a \<longrightarrow> ds_mem st a = m a)))"
proof -
  let ?fc = "content (dx_path x) (dx_tag x)"
  obtain cs total where plan: "disk_plan (dx_cfg x) buffer start bytes (length ?fc) = Some (Inr (cs, total))"
      "plan_ok (length ?fc) buffer start cs (start + bytes)" "distinct (map cr_aligned_start_offset cs)"
    using disk_plan_ok [of bytes start "length ?fc" "dx_cfg x" buffer] assms by auto
  have set: "disk_setting x names content buffer start bytes cs"
    using plan assms by (simp add: disk_setting_def read_setting_def)
  have outcome: "disk_sound x names content (ds_fs st) \<and>
      (\<exists>st'. (disk_step x names content envs)\<^sup>*\<^sup>* st st' \<and> disk_done st') \<and>
      (disk_done st \<longrightarrow> disk_WaitAll st = Some (Inr ()) \<and> mem_read buffer bytes (ds_mem st) = slice start bytes ?fc \<and>
        (\<forall>a. a < buffer \<or> buffer + bytes \<le> a \<longrightarrow> ds_mem st a = m a))"
    if "(disk_step x names content envs)\<^sup>*\<^sup>* (disk_start m store fs lru cs) st" for m st
    using disk_read_outcome(1,4,5) [OF set assms(13-16) _ that] assms(17) by blast
  show ?thesis
    by (rule exI [of _ cs], rule exI [of _ total], rule conjI, rule plan(1), intro allI impI, rule outcome)
qed

text \<open>A hash that tells the cache files of one remote file apart by their offsets and sizes.\<close>

fun le_bytes :: "nat \<Rightarrow> nat \<Rightarrow> byte list" where
  "le_bytes 0 n = []"
| "le_bytes (Suc k) n = n mod 256 # le_bytes k (n div 256)"

definition offset_sha :: "string \<Rightarrow> byte list" where
  "offset_sha s = (case rev (tokens s) of b # a # _ \<Rightarrow> le_bytes 16 (undec a) @ le_bytes 16 (undec b) | _ \<Rightarrow> replicate 32 0)"

lemma length_le_bytes [simp]: "length (le_bytes k n) = k"
  by (induction k n rule: le_bytes.induct) simp_all

lemma le_bytes_small: "b \<in> set (le_bytes k n) \<Longrightarrow> b < 256"
  by (induction k n rule: le_bytes.induct) auto

lemma le_bytes_inj: "m < 256 ^ k \<Longrightarrow> n < 256 ^ k \<Longrightarrow> le_bytes k m = le_bytes k n \<Longrightarrow> m = n"
proof (induction k arbitrary: m n)
  case (Suc k)
  have "m div 256 = n div 256" using Suc.prems by (intro Suc.IH) (simp_all add: less_mult_imp_div_less mult.commute)
  with Suc.prems(3) show ?case by (metis div_mult_mod_eq le_bytes.simps(2) list.inject)
qed simp

lemma offset_sha_ok: "digest_ok offset_sha"
  by (auto simp: digest_ok_def offset_sha_def split: list.splits dest: le_bytes_small)

lemma offset_sha_path:
  "offset_sha (cf_cache_filepath (GetLocalCacheFile pinfo off len)) = le_bytes 16 off @ le_bytes 16 len"
proof -
  let ?a = "pi_cache_directory pinfo @ ''/'' @ pi_remote_file_sha256_hex pinfo @ ''-'' @ pi_sanitized_fname pinfo"
  have "cf_cache_filepath (GetLocalCacheFile pinfo off len) = (?a @ CHR ''-'' # dec off) @ CHR ''-'' # dec len"
    by (simp add: GetLocalCacheFile_def)
  then have "tokens (cf_cache_filepath (GetLocalCacheFile pinfo off len)) = tokens ?a @ [dec off, dec len]"
    using tokens_snoc [OF dec_clean(1) [of len], of "?a @ CHR ''-'' # dec off"] tokens_snoc [OF dec_clean(1) [of off], of ?a]
    by simp
  then show ?thesis by (simp add: offset_sha_def undec_dec)
qed

definition example_context :: disk_context where
  "example_context =
     \<lparr>dx_plat = Linux, dx_sha = offset_sha, dx_gfn = last_component, dx_cfg = example_disk_config,
      dx_path_info = \<lparr>pi_cache_directory_idx = 0, pi_cache_directory = ''/c'',
        pi_remote_file_sha256_hex = Sha256ToHexString (offset_sha ''f''), pi_sanitized_fname = ''f''\<rparr>,
      dx_path = ''f'', dx_tag = ''v1'', dx_page = 4, dx_junk = (\<lambda>_. 7),
      dx_rd = (\<lambda>off len. Inr (slice off len (example_content ''f'' ''v1''))), dx_can_access = (\<lambda>_. True)\<rparr>"

lemma example_context_build:
  "BuildRemoteFileCachePathInfo offset_sha last_component [''/c''] ''f'' = Inr (dx_path_info example_context)"
  by (simp add: BuildRemoteFileCachePathInfo_def PopulateRemoteFileCacheKey_def GetCacheDirectoryIdx_def
    ends_with_def example_context_def last_component_def strip_takeWhile Let_def)

lemma example_collision_free: "collision_free example_context {''f''}"
proof -
  have "inj_on offset_sha (cache_names example_context {''f''})"
  proof (rule inj_onI)
    fix a b assume ab: "a \<in> cache_names example_context {''f''}" "b \<in> cache_names example_context {''f''}" "offset_sha a = offset_sha b"
    let ?pi = "dx_path_info example_context"
    have mem: "\<exists>off len. c = cf_cache_filepath (GetLocalCacheFile ?pi off len) \<and> off < U64 \<and> len < U64"
      if "c \<in> cache_names example_context {''f''}" for c
      using that example_context_build by (auto simp: cache_names_def example_context_def example_disk_config_def)
    obtain off len off' len' where "a = cf_cache_filepath (GetLocalCacheFile ?pi off len)" "off < U64" "len < U64"
        "b = cf_cache_filepath (GetLocalCacheFile ?pi off' len')" "off' < U64" "len' < U64"
      using mem [OF ab(1)] mem [OF ab(2)] by blast
    moreover have "U64 \<le> 256 ^ 16" by (simp add: U64_def)
    ultimately show "a = b"
      using ab(3) le_bytes_inj [of off 16 off'] le_bytes_inj [of len 16 len'] by (simp add: offset_sha_path)
  qed
  then show ?thesis by (simp add: collision_free_def example_context_def)
qed

lemma disk_read_is_transparent_witness:
  "\<exists>cs total st.
    disk_plan example_disk_config 100 2 5 8 = Some (Inr (cs, total)) \<and>
    (disk_step example_context {''f''} example_content {example_env})\<^sup>*\<^sup>* (disk_start (\<lambda>_. 0) None [] no_accesses cs) st \<and>
    disk_WaitAll st = Some (Inr ()) \<and> mem_read 100 5 (ds_mem st) = [2, 3, 4, 5, 6] \<and> ds_mem st 99 = 0"
proof -
  let ?x = example_context
  let ?step = "disk_step ?x {''f''} example_content {example_env}"
  have fc: "example_content (dx_path ?x) (dx_tag ?x) = [0, 1, 2, 3, 4, 5, 6, 7]" by (simp add: example_content_def example_context_def)
  have len: "length (example_content (dx_path ?x) (dx_tag ?x)) = 8" by (simp add: fc)
  have rd: "remote_ok (dx_rd ?x) (example_content (dx_path ?x) (dx_tag ?x))" by (simp add: remote_ok_def example_context_def)
  have tag: "tag_reliable example_content (dx_path ?x) (dx_tag ?x)" by (simp add: tag_reliable_def example_context_def)
  have lib: "library_ok ?x" using offset_sha_ok last_component_ok by (simp add: library_ok_def example_context_def)
  have build: "BuildRemoteFileCachePathInfo (dx_sha ?x) (dx_gfn ?x) (dc_on_disk_cache_directories (dx_cfg ?x)) (dx_path ?x) = Inr (dx_path_info ?x)"
    using example_context_build by (simp add: example_context_def example_disk_config_def)
  have sound: "disk_sound ?x {''f''} example_content []" by (simp add: disk_sound_def)
  have "\<exists>cs total. disk_plan (dx_cfg ?x) 100 2 5 (length (example_content (dx_path ?x) (dx_tag ?x))) = Some (Inr (cs, total)) \<and>
    (\<forall>m st. ?step\<^sup>*\<^sup>* (disk_start m None [] no_accesses cs) st \<longrightarrow>
      disk_sound ?x {''f''} example_content (ds_fs st) \<and> (\<exists>st'. ?step\<^sup>*\<^sup>* st st' \<and> disk_done st') \<and>
      (disk_done st \<longrightarrow> disk_WaitAll st = Some (Inr ()) \<and>
        mem_read 100 5 (ds_mem st) = slice 2 5 (example_content (dx_path ?x) (dx_tag ?x)) \<and>
        (\<forall>a. a < 100 \<or> 100 + 5 \<le> a \<longrightarrow> ds_mem st a = m a)))"
    by (rule disk_read_is_transparent [OF _ _ _ _ _ rd tag lib example_collision_free _ _ build _ _ sound access_inv_none])
      (simp_all add: example_content_def example_context_def example_disk_config_def example_env_def U64_def)
  then obtain cs total where plan: "disk_plan (dx_cfg ?x) 100 2 5 8 = Some (Inr (cs, total))"
    and runs: "\<And>m st. ?step\<^sup>*\<^sup>* (disk_start m None [] no_accesses cs) st \<Longrightarrow>
      (\<exists>st'. ?step\<^sup>*\<^sup>* st st' \<and> disk_done st') \<and>
      (disk_done st \<longrightarrow> disk_WaitAll st = Some (Inr ()) \<and> mem_read 100 5 (ds_mem st) = slice 2 5 (example_content (dx_path ?x) (dx_tag ?x)) \<and>
        (\<forall>a. a < 100 \<or> 100 + 5 \<le> a \<longrightarrow> ds_mem st a = m a))"
    unfolding len by blast
  obtain st where "?step\<^sup>*\<^sup>* (disk_start (\<lambda>_. 0) None [] no_accesses cs) st" "disk_done st"
    using runs [OF rtranclp.rtrancl_refl] by blast
  moreover have "dx_cfg ?x = example_disk_config" by (simp add: example_context_def)
  ultimately show ?thesis using plan runs [of "\<lambda>_. 0" st] unfolding fc by (auto simp: slice_def)
qed

section \<open>Validation by path\<close>

text \<open>
  Property C29. Why another reader must not publish the same remote file meanwhile: the cache file
  is validated by its path after it has been opened. If the path is republished with the current
  version between the two calls, the validation succeeds on the new file, the bytes come from the
  old one, and the outdated content is a hit.
\<close>

theorem stale_handle_is_a_hit:
  assumes "map_of fs path = Some old" "n \<le> length (lf_content old)"
    and "map_of fs' path = Some new" "file_version new = tag" "tag \<noteq> []"
    and "0 < page" "n + 2 * page < U64" "en_read_ok env"
  shows "\<exists>d fs''.
    ReadLocalCacheFile page junk path n tag env Read_Open fs = (Read_Validate old, fs) \<and>
    read_run page junk path n tag env 3 (Read_Validate old, fs') = (Read_Hit d, fs'') \<and>
    chunk_bytes d = take n (lf_content old)"
proof -
  have "ValidateCacheFile fs' path tag"
    using assms(3,4,5) by (simp add: ValidateCacheFile_def GetCacheVersion_def GetFileXattr_def file_version_def)
  moreover obtain d where "read_handle page junk n True old = Inr d" "chunk_bytes d = take n (lf_content old)"
    using read_handle_ok [OF assms(6,7,2), of junk] by blast
  ultimately show ?thesis using assms(1,8) by (simp add: numeral_eq_Suc)
qed

lemma stale_handle_is_a_hit_witness:
  "\<exists>d fs''. read_run 4 (\<lambda>_. 0) ''/c/a'' 2 ''v2'' example_env 3
      (Read_Validate \<lparr>lf_content = [9, 9], lf_xattrs = [(CACHE_VERSION_ATTR_KEY, ''v1'')], lf_mtime = 0\<rparr>,
       [(''/c/a'', \<lparr>lf_content = [2, 3], lf_xattrs = [(CACHE_VERSION_ATTR_KEY, ''v2'')], lf_mtime = 0\<rparr>)]) = (Read_Hit d, fs'') \<and>
    chunk_bytes d = [9, 9]"
proof -
  let ?old = "\<lparr>lf_content = [9, 9], lf_xattrs = [(CACHE_VERSION_ATTR_KEY, ''v1'')], lf_mtime = 0\<rparr>"
  let ?new = "\<lparr>lf_content = [2, 3], lf_xattrs = [(CACHE_VERSION_ATTR_KEY, ''v2'')], lf_mtime = 0\<rparr>"
  have "\<exists>d fs''. ReadLocalCacheFile 4 (\<lambda>_. 0) ''/c/a'' 2 ''v2'' example_env Read_Open [(''/c/a'', ?old)] = (Read_Validate ?old, [(''/c/a'', ?old)]) \<and>
      read_run 4 (\<lambda>_. 0) ''/c/a'' 2 ''v2'' example_env 3 (Read_Validate ?old, [(''/c/a'', ?new)]) = (Read_Hit d, fs'') \<and>
      chunk_bytes d = take 2 (lf_content ?old)"
    by (rule stale_handle_is_a_hit [where old = ?old and new = ?new]) (simp_all add: file_version_def attr_value_def example_env_def U64_def)
  then show ?thesis by (simp only: local_file.simps take_Suc_Cons numeral_2_eq_2 take_0) blast
qed

end
