(* ===== verification/Disk_Cache_Ops.thy ===== *)
theory Disk_Cache_Ops
  imports Disk_Cache_Reader
begin

text \<open>
  The operations on the whole on-disk cache: listing its entries, clearing it, clearing one remote
  file, remapping the blocks in front of it (\<open>src/disk_cache_reader.cpp\<close>).
\<close>

section \<open>Listing\<close>

definition mem_entry_info :: "InMemCacheBlock \<Rightarrow> DataCacheEntryInfo" where
  "mem_entry_info k =
     \<lparr>ci_cache_filepath = ''(no disk cache)'', ci_original_remote_path = fname k,
      ci_start_offset = start_off k, ci_end_offset = u64_add (start_off k) (blk_size k),
      ci_cache_type = ''in-mem-disk-cache''\<rparr>"

definition disk_entry_info ::
  "(string \<Rightarrow> string) \<Rightarrow> (string \<Rightarrow> string list) \<Rightarrow> (string \<Rightarrow> idx_t result) \<Rightarrow> local_fs \<Rightarrow> string \<Rightarrow> DataCacheEntryInfo run" where
  "disk_entry_info gfn split to_unsigned fs cache_filepath =
     run_bind (GetRemoteFileInfo gfn split to_unsigned (GetFileXattr fs cache_filepath) cache_filepath)
       (\<lambda>info. case TryGetOriginalRemotePath (GetFileXattr fs cache_filepath) of
          None \<Rightarrow> None
        | Some original_remote_path \<Rightarrow>
            Some (Inr \<lparr>ci_cache_filepath = cache_filepath, ci_original_remote_path = original_remote_path,
                       ci_start_offset = ri_start_offset info, ci_end_offset = ri_end_offset info,
                       ci_cache_type = ''on-disk''\<rparr>))"

fun map_run :: "('a \<Rightarrow> 'b run) \<Rightarrow> 'a list \<Rightarrow> 'b list run" where
  "map_run f [] = Some (Inr [])"
| "map_run f (a # as) = run_bind (f a) (\<lambda>b. run_bind (map_run f as) (\<lambda>bs. Some (Inr (b # bs))))"

definition disk_GetCacheEntriesInfo ::
  "(string \<Rightarrow> string) \<Rightarrow> (string \<Rightarrow> string list) \<Rightarrow> (string \<Rightarrow> idx_t result) \<Rightarrow> string list \<Rightarrow> data_storage option \<Rightarrow> local_fs \<Rightarrow>
   DataCacheEntryInfo list run" where
  "disk_GetCacheEntriesInfo gfn split to_unsigned cache_directories storage fs =
     (let in_mem = (case storage of None \<Rightarrow> [] | Some s \<Rightarrow> map mem_entry_info (storage_Keys s));
          paths = concat (map (\<lambda>dir. map (full_name dir) (filter (\<lambda>n. \<not> IsTempCacheFile n) (ListFiles dir fs))) cache_directories)
      in run_bind (map_run (disk_entry_info gfn split to_unsigned fs) paths) (\<lambda>on_disk. Some (Inr (in_mem @ on_disk))))"

section \<open>Clearing\<close>

definition disk_ClearCache ::
  "string list \<Rightarrow> data_storage option \<times> local_fs \<times> access_maps \<Rightarrow> data_storage option \<times> local_fs \<times> access_maps" where
  "disk_ClearCache cache_directories st =
     (case st of (storage, fs, lru) \<Rightarrow>
        (map_option storage_Clear storage, fold RemoveDirectory cache_directories fs, no_accesses))"

definition starts_with :: "string \<Rightarrow> string \<Rightarrow> bool" where
  "starts_with s pre \<longleftrightarrow> take (length pre) s = pre"

definition cache_files_to_remove :: "(string \<Rightarrow> byte list) \<Rightarrow> (string \<Rightarrow> string) \<Rightarrow> string \<Rightarrow> string list \<Rightarrow> local_fs \<Rightarrow> string list" where
  "cache_files_to_remove sha gfn f cache_directories fs =
     (let cache_file_prefix = GetLocalCacheFilePrefix sha gfn f
      in concat (map (\<lambda>dir. map (full_name dir) (filter (\<lambda>n. starts_with n cache_file_prefix) (ListFiles dir fs))) cache_directories))"

fun remove_accesses :: "string list \<Rightarrow> access_maps \<Rightarrow> access_maps result" where
  "remove_accesses [] m = Inr m"
| "remove_accesses (p # ps) m =
     (case RemoveCacheFileAccessTimestamp p m of Inl e \<Rightarrow> Inl e | Inr m' \<Rightarrow> remove_accesses ps m')"

text \<open>The removals run in parallel on different paths.\<close>

definition disk_ClearCache_file ::
  "(string \<Rightarrow> byte list) \<Rightarrow> (string \<Rightarrow> string) \<Rightarrow> string list \<Rightarrow> string \<Rightarrow>
   data_storage option \<times> local_fs \<times> access_maps \<Rightarrow> (data_storage option \<times> local_fs \<times> access_maps) result" where
  "disk_ClearCache_file sha gfn cache_directories f st =
     (case st of (storage, fs, lru) \<Rightarrow>
        let files = cache_files_to_remove sha gfn f cache_directories fs
        in case remove_accesses files lru of
             Inl e \<Rightarrow> Inl e
           | Inr lru1 \<Rightarrow>
               (case check_sizes lru1 of
                  Inl e \<Rightarrow> Inl e
                | Inr lru2 \<Rightarrow>
                    Inr (map_option (storage_Clear_from (InMemCacheBlock f 0 0) (\<lambda>block. fname block = f)) storage,
                         fold (\<lambda>p fs. snd (TryRemoveFile p fs)) files fs, lru2)))"

section \<open>Remapping\<close>

text \<open>The blocks in memory are remapped the way the in-memory reader does it; the files stay.\<close>

definition disk_RemapInMemoryDataBlocksForNewBlockSize ::
  "idx_t \<Rightarrow> (nat \<Rightarrow> byte) \<Rightarrow> (nat \<Rightarrow> nat) \<Rightarrow> nat \<Rightarrow> idx_t \<Rightarrow> data_storage option \<Rightarrow> data_storage option run" where
  "disk_RemapInMemoryDataBlocksForNewBlockSize page junk clk now new_block_size in_mem_storage =
     (case in_mem_storage of
        None \<Rightarrow> Some (Inr None)
      | Some s \<Rightarrow>
          (case storage_Take clk s of (taken, s1) \<Rightarrow>
             run_bind (RemapInMemCacheEntries page junk taken new_block_size [])
               (\<lambda>rebuilt. Some (Inr (Some
                  (fold (\<lambda>(k, e). storage_Put k (de_data e) (de_version_tag e) now) rebuilt s1))))))"

section \<open>What clearing does\<close>

lemma map_of_fold_remove:
  "map_of (fold (\<lambda>p fs. snd (TryRemoveFile p fs)) ps fs) = (\<lambda>p. if p \<in> set ps then None else map_of fs p)"
  by (induction ps arbitrary: fs) (auto simp: TryRemoveFile_def)

lemma remove_accesses_ok:
  assumes "access_inv m"
  shows "\<exists>m'. remove_accesses ps m = Inr m' \<and> access_inv m' \<and>
    last_access m' = (\<lambda>p. if p \<in> set ps then None else last_access m p)"
  using assms
proof (induction ps arbitrary: m)
  case (Cons p ps)
  obtain m1 where m1: "RemoveCacheFileAccessTimestamp p m = Inr m1" "access_inv m1" "last_access m1 = (last_access m)(p := None)"
    using remove_access [OF Cons.prems] by blast
  from Cons.IH [OF m1(2)] m1 show ?case by (auto simp: fun_eq_iff)
qed simp

lemma mem_files_to_remove:
  "p \<in> set (cache_files_to_remove sha gfn f dirs fs) \<longleftrightarrow>
   p \<in> fst ` set fs \<and> (\<exists>dir \<in> set dirs. \<exists>n. p = full_name dir n \<and> CHR ''/'' \<notin> set n \<and> starts_with n (GetLocalCacheFilePrefix sha gfn f))"
proof -
  have "p \<in> set (cache_files_to_remove sha gfn f dirs fs) \<longleftrightarrow>
      (\<exists>dir \<in> set dirs. \<exists>n \<in> set (ListFiles dir fs). starts_with n (GetLocalCacheFilePrefix sha gfn f) \<and> p = full_name dir n)"
    unfolding cache_files_to_remove_def Let_def by auto
  then show ?thesis unfolding Bex_def mem_ListFiles by metis
qed

lemma prefix_of_filename:
  assumes "BuildRemoteFileCachePathInfo sha gfn dirs f = Inr p"
  shows "starts_with (cache_filename p off len) (GetLocalCacheFilePrefix sha gfn f)"
proof -
  have "cache_filename p off len = GetLocalCacheFilePrefix sha gfn f @ CHR ''-'' # dec off @ CHR ''-'' # dec len"
    using Build_ok(1,2) [OF assms]
    by (simp add: cache_filename_def GetLocalCacheFilePrefix_def PopulateRemoteFileCacheKey_def Let_def)
  then show ?thesis by (simp add: starts_with_def)
qed

lemma hashed_name_no_prefix:
  assumes "digest_ok sha" shows "\<not> starts_with (GetSha256 sha s) (GetLocalCacheFilePrefix sha gfn f)"
proof
  let ?pre = "GetLocalCacheFilePrefix sha gfn f"
  assume "starts_with (GetSha256 sha s) ?pre"
  then have "set ?pre \<subseteq> set (GetSha256 sha s)" by (metis set_take_subset starts_with_def)
  moreover have "CHR ''-'' \<in> set ?pre" by (simp add: GetLocalCacheFilePrefix_def PopulateRemoteFileCacheKey_def Let_def)
  ultimately show False using hex_clean(1) [OF assms, of s] by (auto simp: GetSha256_def)
qed



end
