(* ===== verification/Handle_Pool.thy ===== *)
theory Handle_Pool
  imports Exclusive_Multi_Lru
begin

text \<open>
  What the cache file system relies on of its file handle cache: a pool that holds values
  under keys, gives a value out once, and hands back every value it lets go of. The interface
  is a locale; \<open>ExclusiveMultiLruCache\<close> implements it.
\<close>

section \<open>The interface of a pool\<close>

locale exclusive_pool =
  fixes inv :: "'s \<Rightarrow> bool"
    and held :: "'k::linorder \<Rightarrow> 's \<Rightarrow> 'v multiset"
    and held_all :: "'s \<Rightarrow> 'v multiset"
    and put :: "'k \<Rightarrow> 'v \<Rightarrow> nat \<Rightarrow> 's \<Rightarrow> ('v option \<times> 's) result"
    and pop :: "'k \<Rightarrow> nat \<Rightarrow> 's \<Rightarrow> ('v pop_result \<times> 's) result"
    and clear :: "'s \<Rightarrow> 'v list \<times> 's"
    and clear_from :: "'k \<Rightarrow> ('k \<Rightarrow> bool) \<Rightarrow> 's \<Rightarrow> ('v list \<times> 's) result"
  assumes put_law: "inv c \<Longrightarrow> \<exists>e c'. put k v now c = Inr (e, c') \<and> inv c' \<and>
      held_all c' + mset (case e of None \<Rightarrow> [] | Some x \<Rightarrow> [x]) = add_mset v (held_all c) \<and>
      (\<forall>j. held j c' \<subseteq># (if j = k then add_mset v (held j c) else held j c))"
    and pop_law: "inv c \<Longrightarrow> \<exists>r c'. pop k now c = Inr (r, c') \<and> inv c' \<and>
      held_all c = mset (evicted_items r @ (case target_item r of None \<Rightarrow> [] | Some v \<Rightarrow> [v])) + held_all c' \<and>
      held k c = mset (evicted_items r @ (case target_item r of None \<Rightarrow> [] | Some v \<Rightarrow> [v])) + held k c' \<and>
      (\<forall>j. j \<noteq> k \<longrightarrow> held j c' = held j c)"
    and clear_law: "inv c \<Longrightarrow> inv (snd (clear c)) \<and> mset (fst (clear c)) = held_all c \<and>
      held_all (snd (clear c)) = {#} \<and> held j (snd (clear c)) = {#}"
    and clear_from_law: "inv c \<Longrightarrow> (\<And>x y. s \<le> x \<Longrightarrow> \<not> P x \<Longrightarrow> x < y \<Longrightarrow> \<not> P y) \<Longrightarrow>
      \<exists>vs c'. clear_from s P c = Inr (vs, c') \<and> inv c' \<and> held_all c = mset vs + held_all c' \<and>
        (\<forall>j. held j c' = (if s \<le> j \<and> P j then {#} else held j c))"
    and held_in_all: "inv c \<Longrightarrow> v \<in># held_all c \<longleftrightarrow> (\<exists>k. v \<in># held k c)"
begin

text \<open>
  A pool is \<^emph>\<open>filed\<close> when every value lies under its own key. A client that files every value
  under its key finds under a key only values of that key.
\<close>

definition filed :: "('v \<Rightarrow> 'k) \<Rightarrow> 's \<Rightarrow> bool" where
  "filed key_of c \<longleftrightarrow> (\<forall>k v. v \<in># held k c \<longrightarrow> key_of v = k)"

lemma put_filed:
  assumes "inv c" "filed key_of c" "key_of v = k"
  obtains e c' where "put k v now c = Inr (e, c')" "inv c'" "filed key_of c'"
    "held_all c' + mset (case e of None \<Rightarrow> [] | Some x \<Rightarrow> [x]) = add_mset v (held_all c)"
proof -
  obtain e c' where p: "put k v now c = Inr (e, c')" "inv c'"
    "held_all c' + mset (case e of None \<Rightarrow> [] | Some x \<Rightarrow> [x]) = add_mset v (held_all c)"
    and sub: "\<forall>j. held j c' \<subseteq># (if j = k then add_mset v (held j c) else held j c)"
    using put_law [OF assms(1)] by blast
  have "key_of u = j" if "u \<in># held j c'" for u j
    using mset_subset_eqD [OF spec [OF sub, of j] that] assms(2,3)
    by (auto simp: filed_def split: if_splits)
  then have "filed key_of c'" by (simp add: filed_def)
  with p show ?thesis using that [of e c'] by simp
qed

lemma pop_filed:
  assumes "inv c" "filed key_of c"
  obtains r c' where "pop k now c = Inr (r, c')" "inv c'" "filed key_of c'"
    "held_all c = mset (evicted_items r @ (case target_item r of None \<Rightarrow> [] | Some v \<Rightarrow> [v])) + held_all c'"
    "\<And>v. target_item r = Some v \<Longrightarrow> key_of v = k"
proof -
  obtain r c' where p: "pop k now c = Inr (r, c')" "inv c'"
    "held_all c = mset (evicted_items r @ (case target_item r of None \<Rightarrow> [] | Some v \<Rightarrow> [v])) + held_all c'"
    and h: "held k c = mset (evicted_items r @ (case target_item r of None \<Rightarrow> [] | Some v \<Rightarrow> [v])) + held k c'"
    and o: "\<forall>j. j \<noteq> k \<longrightarrow> held j c' = held j c"
    using pop_law [OF assms(1)] by blast
  have "u \<in># held j c" if "u \<in># held j c'" for u j
    using that h o by (cases "j = k") auto
  then have "filed key_of c'" using assms(2) by (auto simp: filed_def)
  moreover have "key_of v = k" if "target_item r = Some v" for v
    using that h assms(2) by (auto simp: filed_def)
  ultimately show ?thesis using p by (intro that [of r c']) auto
qed

lemma clear_from_filed:
  assumes "inv c" "filed key_of c" "\<And>x y. s \<le> x \<Longrightarrow> \<not> P x \<Longrightarrow> x < y \<Longrightarrow> \<not> P y"
  obtains vs c' where "clear_from s P c = Inr (vs, c')" "inv c'" "filed key_of c'"
    "held_all c = mset vs + held_all c'"
    "\<And>v. v \<in># held_all c' \<longleftrightarrow> v \<in># held_all c \<and> \<not> (s \<le> key_of v \<and> P (key_of v))"
proof -
  obtain vs c' where p: "clear_from s P c = Inr (vs, c')" "inv c'" "held_all c = mset vs + held_all c'"
    and h: "\<forall>j. held j c' = (if s \<le> j \<and> P j then {#} else held j c)"
    using clear_from_law [where s = s and P = P, OF assms(1)] assms(3) by blast
  have f: "filed key_of c'" using h assms(2) by (auto simp: filed_def)
  have "v \<in># held_all c' \<longleftrightarrow> v \<in># held_all c \<and> \<not> (s \<le> key_of v \<and> P (key_of v))" for v
    unfolding held_in_all [OF p(2)] held_in_all [OF assms(1)] using h assms(2)
    by (auto simp: filed_def split: if_splits)
  with p f show ?thesis by (intro that) auto
qed

lemma clear_filed:
  assumes "inv c"
  shows "filed key_of (snd (clear c))"
  using clear_law [OF assms] by (simp add: filed_def)

end

section \<open>The multi-value LRU cache is such a pool\<close>

definition multi_held :: "'k \<Rightarrow> ('k, 'v) multi_state \<Rightarrow> 'v multiset" where
  "multi_held k c = mset (map le_value (multi_entries k c))"

abbreviation multi_held_all :: "('k, 'v) multi_state \<Rightarrow> 'v multiset" where
  "multi_held_all c \<equiv> mset (multi_all_values c)"

lemma DeleteFirstEntry_entries:
  assumes "multi_DeleteFirstEntry k c = Inr (v, c')"
  shows "multi_entries j c' = (if j = k then tl (multi_entries k c) else multi_entries j c)"
proof -
  obtain e es where es: "map_of (mc_entry_map c) k = Some (e # es)"
    using assms by (auto simp: multi_DeleteFirstEntry_def split: option.splits list.splits)
  then have c': "c' = multi_drop_first k e es c"
    using assms by (simp add: multi_DeleteFirstEntry_def multi_drop_first_def)
  show ?thesis using es by (simp add: c' entries_drop_first) (simp add: multi_entries_def)
qed

lemma Put_held:
  assumes "multi_Put k v now c = Inr (e, c')"
  shows "multi_held j c' \<subseteq># (if j = k then add_mset v (multi_held j c) else multi_held j c)"
proof -
  let ?p = "multi_push k v now c"
  have push: "multi_held j ?p = (if j = k then add_mset v (multi_held j c) else multi_held j c)"
    by (simp add: multi_held_def entries_push)
  consider "c' = ?p" | i u where "multi_DeleteFirstEntry i ?p = Inr (u, c')"
    using assms by (auto simp: multi_Put_def Let_def split: if_splits option.splits sum.splits)
  then show ?thesis
  proof cases
    case 2
    have "multi_held j c' \<subseteq># multi_held j ?p"
      by (cases "multi_entries j ?p") (auto simp: multi_held_def DeleteFirstEntry_entries [OF 2])
    then show ?thesis by (simp only: push)
  qed (simp add: push)
qed

lemma multi_all_in_held:
  assumes "multi_inv c"
  shows "v \<in># multi_held_all c \<longleftrightarrow> (\<exists>k. v \<in># multi_held k c)"
proof -
  have d: "distinct (map fst (mc_entry_map c))"
    using assms by (simp add: multi_inv_def multi_rep_def om_sorted_distinct)
  show ?thesis
  proof
    assume "v \<in># multi_held_all c"
    then obtain k es where "(k, es) \<in> set (mc_entry_map c)" "v \<in> le_value ` set es"
      by (auto simp: multi_all_values_def)
    then have "v \<in># multi_held k c" using d by (simp add: multi_held_def multi_entries_def)
    then show "\<exists>k. v \<in># multi_held k c" ..
  next
    assume "\<exists>k. v \<in># multi_held k c"
    then obtain k where "v \<in># multi_held k c" ..
    then have "v \<in> le_value ` set (multi_entries k c)" by (simp add: multi_held_def)
    then obtain es where "map_of (mc_entry_map c) k = Some es" "v \<in> le_value ` set es"
      by (cases "map_of (mc_entry_map c) k") (simp_all add: multi_entries_def)
    then show "v \<in># multi_held_all c"
      by (force simp: multi_all_values_def dest: map_of_SomeD)
  qed
qed

lemma GetAndPop_held:
  assumes "multi_inv c"
  shows "\<exists>r c'. multi_GetAndPop k now c = Inr (r, c') \<and> multi_inv c' \<and>
    multi_held_all c = mset (evicted_items r @ (case target_item r of None \<Rightarrow> [] | Some v \<Rightarrow> [v])) + multi_held_all c' \<and>
    multi_held k c = mset (evicted_items r @ (case target_item r of None \<Rightarrow> [] | Some v \<Rightarrow> [v])) + multi_held k c' \<and>
    (\<forall>j. j \<noteq> k \<longrightarrow> multi_held j c' = multi_held j c)"
proof -
  let ?es = "multi_entries k c" and ?st = "multi_stale c now"
  let ?r = "\<lparr>evicted_items = map le_value (takeWhile ?st ?es),
             target_item = map_option le_value (find (\<lambda>e. \<not> ?st e) ?es)\<rparr>"
  obtain gone rest c' where pop: "multi_GetAndPop k now c = Inr (?r, c')"
    and rm: "multi_removed c k gone rest c'" and es: "?es = gone @ rest"
    and g: "map le_value gone = map le_value (takeWhile ?st ?es) @
      (case map_option le_value (find (\<lambda>e. \<not> ?st e) ?es) of None \<Rightarrow> [] | Some v \<Rightarrow> [v])"
    by (rule multi_GetAndPop_gone [OF assms, of k now])
  have gone: "map le_value gone = evicted_items ?r @ (case target_item ?r of None \<Rightarrow> [] | Some v \<Rightarrow> [v])"
    unfolding g by simp
  have "multi_inv c'" using multi_removed_inv [OF rm assms] .
  moreover have "multi_held_all c = mset (map le_value gone) + multi_held_all c'"
    "multi_held k c = mset (map le_value gone) + multi_held k c'"
    "\<forall>j. j \<noteq> k \<longrightarrow> multi_held j c' = multi_held j c"
    using rm es by (simp_all add: multi_removed_def multi_held_def)
  ultimately show ?thesis using pop unfolding gone by blast
qed

interpretation handle_pool: exclusive_pool multi_inv multi_held multi_held_all multi_Put multi_GetAndPop
  multi_ClearAndGetValues multi_ClearAndGetValues_from
proof
  fix c :: "('a, 'b) multi_state" and k v now
  assume inv: "multi_inv c"
  obtain e c' where p: "multi_Put k v now c = Inr (e, c')" "multi_inv c'"
    "mset (multi_all_values c') + mset (case e of None \<Rightarrow> [] | Some x \<Rightarrow> [x]) = add_mset v (mset (multi_all_values c))"
    using multi_Put_correct [OF inv] by metis
  then show "\<exists>e c'. multi_Put k v now c = Inr (e, c') \<and> multi_inv c' \<and>
      multi_held_all c' + mset (case e of None \<Rightarrow> [] | Some x \<Rightarrow> [x]) = add_mset v (multi_held_all c) \<and>
      (\<forall>j. multi_held j c' \<subseteq># (if j = k then add_mset v (multi_held j c) else multi_held j c))"
    using Put_held [OF p(1)] by blast
next
  fix c :: "('a, 'b) multi_state" and s :: 'a and P :: "'a \<Rightarrow> bool"
  assume "multi_inv c" "\<And>x y. s \<le> x \<Longrightarrow> \<not> P x \<Longrightarrow> x < y \<Longrightarrow> \<not> P y"
  then obtain vs c' where "multi_ClearAndGetValues_from s P c = Inr (vs, c')" "multi_inv c'"
    "\<forall>j. multi_entries j c' = (if s \<le> j \<and> P j then [] else multi_entries j c)"
    "mset (multi_all_values c) = mset vs + mset (multi_all_values c')"
    using multi_clear_range_correct [of c s P] by blast
  then show "\<exists>vs c'. multi_ClearAndGetValues_from s P c = Inr (vs, c') \<and> multi_inv c' \<and>
      multi_held_all c = mset vs + multi_held_all c' \<and>
      (\<forall>j. multi_held j c' = (if s \<le> j \<and> P j then {#} else multi_held j c))"
    by (intro exI [of _ vs] exI [of _ c']) (simp add: multi_held_def)
next
  fix c :: "('a, 'b) multi_state" and j
  assume "multi_inv c"
  then show "multi_inv (snd (multi_ClearAndGetValues c)) \<and>
      mset (fst (multi_ClearAndGetValues c)) = multi_held_all c \<and>
      multi_held_all (snd (multi_ClearAndGetValues c)) = {#} \<and>
      multi_held j (snd (multi_ClearAndGetValues c)) = {#}"
    by (simp add: multi_ClearAndGetValues_inv)
      (simp add: multi_ClearAndGetValues_def multi_all_values_def multi_held_def multi_entries_def)
qed (rule GetAndPop_held multi_all_in_held, assumption)+

end
