(* ===== verification/File_Handles.thy ===== *)
theory File_Handles
  imports Handle_Pool Counter
begin

unbundle bit_operations_syntax

text \<open>
  File handles of the cache file system (\<open>src/cache_filesystem.cpp\<close>): opening a file for
  reading takes an internal handle from the pool or opens one, destroying a cache file handle
  puts its internal handle back, and every handle the pool lets go of is closed. The pool and
  the in-use counter are shared objects: a cache file handle keeps the ones it was created with
  alive, also after the file system dropped them. The wrapped file system is not part of this
  code; what its \<open>OpenFile\<close> returned is an argument of the operation that calls it.
\<close>

section \<open>Keys of the handle pool\<close>

datatype FileHandleCacheKey = FileHandleCacheKey (hk_path: string) (hk_flags: idx_t)

definition handle_key_tie :: "FileHandleCacheKey \<Rightarrow> string \<times> idx_t" where
  "handle_key_tie k = (hk_path k, hk_flags k)"

lemma handle_key_tie_inj: "handle_key_tie a = handle_key_tie b \<longleftrightarrow> a = b"
  by (cases a; cases b) (simp add: handle_key_tie_def)

instantiation FileHandleCacheKey :: linorder
begin

definition less_FileHandleCacheKey :: "FileHandleCacheKey \<Rightarrow> FileHandleCacheKey \<Rightarrow> bool" where
  "less_FileHandleCacheKey a b \<longleftrightarrow> handle_key_tie a < handle_key_tie b"

definition less_eq_FileHandleCacheKey :: "FileHandleCacheKey \<Rightarrow> FileHandleCacheKey \<Rightarrow> bool" where
  "less_eq_FileHandleCacheKey a b \<longleftrightarrow> handle_key_tie a \<le> handle_key_tie b"

instance
proof
  fix a b c :: FileHandleCacheKey
  show "a < b \<longleftrightarrow> a \<le> b \<and> \<not> b \<le> a"
    unfolding less_FileHandleCacheKey_def less_eq_FileHandleCacheKey_def by (rule less_le_not_le)
  show "a \<le> a" "a \<le> b \<or> b \<le> a"
    unfolding less_eq_FileHandleCacheKey_def by (rule order_refl, rule linear)
  show "a \<le> c" if "a \<le> b" "b \<le> c"
    using that unfolding less_eq_FileHandleCacheKey_def by (rule order_trans)
  show "a = b" if "a \<le> b" "b \<le> a"
    using that order_antisym [of "handle_key_tie a" "handle_key_tie b"]
    by (simp add: less_eq_FileHandleCacheKey_def handle_key_tie_inj)
qed

end

text \<open>
  Open flags are DuckDB's bit set \<open>FileOpenFlags\<close>; the two bits the code asks for are
  parameters, the read bit and the parallel access bit, which every key has set.
\<close>

record open_flag_bits =
  FILE_FLAGS_READ :: idx_t
  FILE_FLAGS_PARALLEL_ACCESS :: idx_t

definition OpenForReading :: "open_flag_bits \<Rightarrow> idx_t \<Rightarrow> bool" where
  "OpenForReading bits flags \<longleftrightarrow> flags AND FILE_FLAGS_READ bits \<noteq> 0"

definition handle_key :: "open_flag_bits \<Rightarrow> string \<Rightarrow> idx_t \<Rightarrow> FileHandleCacheKey" where
  "handle_key bits path flags = FileHandleCacheKey path (flags OR FILE_FLAGS_PARALLEL_ACCESS bits)"

section \<open>State\<close>

text \<open>
  An internal handle of the wrapped file system: an identity, what \<open>GetPath\<close> and \<open>GetFlags\<close>
  return, the file position, and whether \<open>Close\<close> was called on it.
\<close>

record internal_handle =
  ih_id :: nat
  ih_path :: string
  ih_flags :: idx_t
  ih_position :: idx_t
  ih_closed :: bool

type_synonym handle_cache = "(FileHandleCacheKey, internal_handle) multi_state"

text \<open>
  The destructor callback of a cache file handle: a read handle captures its key, the pool and
  the counter (as references, \<open>None\<close> for a null pointer); a write handle has one that does nothing.
\<close>

datatype dtor_callback =
    To_Pool (cb_key: FileHandleCacheKey) (cb_pool: "nat option") (cb_counter: "nat option")
  | Do_Nothing

record CacheFileSystemHandle =
  internal_file_handle :: internal_handle
  ch_callback :: dtor_callback

datatype handle_access = Handle_Hit | Handle_Miss | Handle_InUse

record handle_config =
  enable_file_handle_cache :: bool
  max_file_handle_cache_entry :: nat
  file_handle_cache_entry_timeout_millisec :: nat
  clear_cache_on_write :: bool

text \<open>
  \<open>hf_pools\<close> and \<open>hf_counters\<close> are all pools and counters ever made, by identity; the file
  system points at the current ones. \<open>hf_closed\<close> collects the internal handles closed and
  destroyed by the file system, \<open>hf_dropped\<close> those destroyed without \<open>Close\<close>, \<open>hf_next\<close> is the
  number of internal handles opened so far.
\<close>

record handle_fs =
  file_handle_cache :: "nat option"
  in_use_file_handle_counter :: "nat option"
  hf_pools :: "handle_cache list"
  hf_counters :: "FileHandleCacheKey counter list"
  hf_handles :: "(nat \<times> CacheFileSystemHandle) list"
  hf_next_handle :: nat
  hf_next :: nat
  hf_closed :: "internal_handle list"
  hf_dropped :: "internal_handle list"
  hf_log :: "handle_access list"

definition handle_fs_new :: handle_fs where
  "handle_fs_new =
     \<lparr>file_handle_cache = None, in_use_file_handle_counter = None, hf_pools = [], hf_counters = [],
      hf_handles = [], hf_next_handle = 0, hf_next = 0, hf_closed = [], hf_dropped = [], hf_log = []\<rparr>"

definition close_all :: "internal_handle list \<Rightarrow> handle_fs \<Rightarrow> handle_fs" where
  "close_all hs st = st\<lparr>hf_closed := hf_closed st @ map (\<lambda>h. h\<lparr>ih_closed := True\<rparr>) hs\<rparr>"

definition log_access :: "handle_access \<Rightarrow> handle_fs \<Rightarrow> handle_fs" where
  "log_access a st = st\<lparr>hf_log := hf_log st @ [a]\<rparr>"

section \<open>The handle cache as a whole\<close>

definition ClearFileHandleCache :: "handle_fs \<Rightarrow> handle_fs" where
  "ClearFileHandleCache st =
     (case file_handle_cache st of
        None \<Rightarrow> st
      | Some p \<Rightarrow>
          (case multi_ClearAndGetValues (hf_pools st ! p) of
             (file_handles, c) \<Rightarrow>
               (close_all file_handles (st\<lparr>hf_pools := (hf_pools st)[p := c]\<rparr>))
                 \<lparr>file_handle_cache := None, in_use_file_handle_counter := None\<rparr>))"

definition ClearFileHandleCache_path ::
  "open_flag_bits \<Rightarrow> string \<Rightarrow> handle_fs \<Rightarrow> cpp_error option \<times> handle_fs" where
  "ClearFileHandleCache_path bits filepath st =
     (case file_handle_cache st of
        None \<Rightarrow> (None, st)
      | Some p \<Rightarrow>
          (case multi_ClearAndGetValues_from (handle_key bits filepath 0) (\<lambda>k. hk_path k = filepath)
                  (hf_pools st ! p) of
             Inl e \<Rightarrow> (Some e, st)
           | Inr (file_handles, c) \<Rightarrow>
               (None, close_all file_handles (st\<lparr>hf_pools := (hf_pools st)[p := c]\<rparr>))))"

definition SetFileHandleCache :: "handle_config \<Rightarrow> handle_fs \<Rightarrow> handle_fs" where
  "SetFileHandleCache cfg st =
     (if \<not> enable_file_handle_cache cfg then ClearFileHandleCache st
      else (let st1 = (if file_handle_cache st = None
                       then st\<lparr>file_handle_cache := Some (length (hf_pools st)),
                               hf_pools := hf_pools st @
                                 [multi_new (max_file_handle_cache_entry cfg)
                                    (file_handle_cache_entry_timeout_millisec cfg)]\<rparr>
                       else st)
            in if in_use_file_handle_counter st1 = None
               then st1\<lparr>in_use_file_handle_counter := Some (length (hf_counters st1)),
                        hf_counters := hf_counters st1 @ [[]]\<rparr>
               else st1))"

section \<open>Opening and destroying handles\<close>

definition add_handle :: "CacheFileSystemHandle \<Rightarrow> handle_fs \<Rightarrow> handle_fs" where
  "add_handle ch st =
     st\<lparr>hf_handles := (hf_next_handle st, ch) # hf_handles st, hf_next_handle := Suc (hf_next_handle st)\<rparr>"

text \<open>A handle the wrapped file system opened.\<close>

definition opened_handle :: "string \<times> idx_t \<Rightarrow> handle_fs \<Rightarrow> internal_handle \<times> handle_fs" where
  "opened_handle pf st =
     (\<lparr>ih_id = hf_next st, ih_path = fst pf, ih_flags = snd pf, ih_position = 0, ih_closed = False\<rparr>,
      st\<lparr>hf_next := Suc (hf_next st)\<rparr>)"

text \<open>
  \<open>CreateCacheFileHandleForRead\<close> of a handle that is there; a null pointer is returned as it is.
\<close>

definition CreateCacheFileHandleForRead ::
  "open_flag_bits \<Rightarrow> internal_handle \<Rightarrow> handle_fs \<Rightarrow> cpp_error option \<times> handle_fs" where
  "CreateCacheFileHandleForRead bits h st =
     (if \<not> OpenForReading bits (ih_flags h)
      then (Some (AssertionFailure ''flags.OpenForReading()''), st\<lparr>hf_dropped := hf_dropped st @ [h]\<rparr>)
      else (let cache_key = handle_key bits (ih_path h) (ih_flags h);
                st1 = (case in_use_file_handle_counter st of
                         None \<Rightarrow> st
                       | Some n \<Rightarrow>
                           st\<lparr>hf_counters := (hf_counters st)
                                [n := snd (counter_Increment cache_key (hf_counters st ! n))]\<rparr>)
            in (None, add_handle
                  \<lparr>internal_file_handle = h,
                   ch_callback = To_Pool cache_key (file_handle_cache st) (in_use_file_handle_counter st)\<rparr> st1)))"

definition open_internal ::
  "open_flag_bits \<Rightarrow> (string \<times> idx_t) option result \<Rightarrow> handle_fs \<Rightarrow> cpp_error option \<times> handle_fs" where
  "open_internal bits opened st =
     (case opened of
        Inl e \<Rightarrow> (Some e, st)
      | Inr None \<Rightarrow> (None, st)
      | Inr (Some pf) \<Rightarrow> (case opened_handle pf st of (h, st1) \<Rightarrow> CreateCacheFileHandleForRead bits h st1))"

definition GetOrCreateFileHandleForRead ::
  "open_flag_bits \<Rightarrow> string \<Rightarrow> idx_t \<Rightarrow> nat \<Rightarrow> (string \<times> idx_t) option result \<Rightarrow> handle_fs \<Rightarrow>
   cpp_error option \<times> handle_fs" where
  "GetOrCreateFileHandleForRead bits path flags now opened st =
     (if \<not> OpenForReading bits flags then (Some (AssertionFailure ''flags.OpenForReading()''), st)
      else case file_handle_cache st of
        None \<Rightarrow> open_internal bits opened st
      | Some p \<Rightarrow>
          (let key = handle_key bits path flags
           in case multi_GetAndPop key now (hf_pools st ! p) of
                Inl e \<Rightarrow> (Some e, st)
              | Inr (r, c) \<Rightarrow>
                  (let st1 = close_all (evicted_items r) (st\<lparr>hf_pools := (hf_pools st)[p := c]\<rparr>)
                   in case target_item r of
                        Some h \<Rightarrow> CreateCacheFileHandleForRead bits h (log_access Handle_Hit st1)
                      | None \<Rightarrow>
                          (case in_use_file_handle_counter st1 of
                             None \<Rightarrow> (Some (InternalException ''null in_use_file_handle_counter''), log_access Handle_Miss st1)
                           | Some n \<Rightarrow>
                               open_internal bits opened
                                 (if 0 < counter_GetCount key (hf_counters st1 ! n)
                                  then log_access Handle_InUse (log_access Handle_Miss st1)
                                  else log_access Handle_Miss st1)))))"

definition OpenFileExtended ::
  "open_flag_bits \<Rightarrow> handle_config \<Rightarrow> string \<Rightarrow> idx_t \<Rightarrow> nat \<Rightarrow> (string \<times> idx_t) option result \<Rightarrow>
   handle_fs \<Rightarrow> cpp_error option \<times> handle_fs" where
  "OpenFileExtended bits cfg path flags now opened st =
     (let st1 = SetFileHandleCache cfg st
      in case (if clear_cache_on_write cfg then ClearFileHandleCache_path bits path st1 else (None, st1)) of
           (Some e, st2) \<Rightarrow> (Some e, st2)
         | (None, st2) \<Rightarrow>
             if OpenForReading bits flags then GetOrCreateFileHandleForRead bits path flags now opened st2
             else (case opened of
                     Inl e \<Rightarrow> (Some e, st2)
                   | Inr None \<Rightarrow> (Some (InternalException ''null file handle''), st2)
                   | Inr (Some pf) \<Rightarrow>
                       (case opened_handle pf st2 of
                          (h, st3) \<Rightarrow>
                            (None, add_handle \<lparr>internal_file_handle = h, ch_callback = Do_Nothing\<rparr> st3))))"

text \<open>The destructor of the cache file handle \<open>w\<close>.\<close>

definition drop_handle :: "internal_handle \<Rightarrow> handle_fs \<Rightarrow> handle_fs" where
  "drop_handle h st = st\<lparr>hf_dropped := hf_dropped st @ [h]\<rparr>"

definition return_handle ::
  "internal_handle \<Rightarrow> FileHandleCacheKey \<Rightarrow> nat option \<Rightarrow> nat option \<Rightarrow> nat \<Rightarrow> handle_fs \<Rightarrow>
   cpp_error option \<times> handle_fs" where
  "return_handle h0 cache_key pool counter now st =
     (let h = h0\<lparr>ih_position := 0\<rparr>
      in case pool of
           None \<Rightarrow>
             (if counter \<noteq> None then Some (AssertionFailure ''in_use_file_handle_counter == nullptr'') else None,
              drop_handle h st)
         | Some p \<Rightarrow>
             (case multi_Put cache_key h now (hf_pools st ! p) of
                Inl e \<Rightarrow> (Some e, drop_handle h st)
              | Inr (evicted, c) \<Rightarrow>
                  (let st1 = close_all (case evicted of None \<Rightarrow> [] | Some e \<Rightarrow> [e])
                               (st\<lparr>hf_pools := (hf_pools st)[p := c]\<rparr>)
                   in case counter of
                        None \<Rightarrow> (Some (InternalException ''null in_use_file_handle_counter''), st1)
                      | Some n \<Rightarrow>
                          (case counter_Decrement cache_key (hf_counters st1 ! n) of
                             Inl e \<Rightarrow> (Some e, st1)
                           | Inr (_, c) \<Rightarrow> (None, st1\<lparr>hf_counters := (hf_counters st1)[n := c]\<rparr>)))))"

definition destroy_handle :: "nat \<Rightarrow> nat \<Rightarrow> handle_fs \<Rightarrow> cpp_error option \<times> handle_fs" where
  "destroy_handle w now st =
     (case map_of (hf_handles st) w of
        None \<Rightarrow> (None, st)
      | Some ch \<Rightarrow>
          (let st1 = st\<lparr>hf_handles := AList.delete w (hf_handles st)\<rparr>
           in case ch_callback ch of
                Do_Nothing \<Rightarrow> (None, drop_handle (internal_file_handle ch) st1)
              | To_Pool k p n \<Rightarrow> return_handle (internal_file_handle ch) k p n now st1))"

definition on_internal :: "nat \<Rightarrow> (internal_handle \<Rightarrow> internal_handle) \<Rightarrow> handle_fs \<Rightarrow> handle_fs" where
  "on_internal w f st =
     st\<lparr>hf_handles := map (\<lambda>(i, ch). (i, if i = w then ch\<lparr>internal_file_handle := f (internal_file_handle ch)\<rparr> else ch))
                         (hf_handles st)\<rparr>"

text \<open>\<open>Close\<close> of a cache file handle, which does nothing for a handle opened for reading.\<close>

definition close_handle :: "open_flag_bits \<Rightarrow> nat \<Rightarrow> handle_fs \<Rightarrow> handle_fs" where
  "close_handle bits w st =
     on_internal w (\<lambda>h. if OpenForReading bits (ih_flags h) then h else h\<lparr>ih_closed := True\<rparr>) st"

definition seek_handle :: "nat \<Rightarrow> idx_t \<Rightarrow> handle_fs \<Rightarrow> handle_fs" where
  "seek_handle w location st = on_internal w (\<lambda>h. h\<lparr>ih_position := location\<rparr>) st"

section \<open>Sequences of operations\<close>

datatype handle_op =
    Open handle_config string idx_t nat "(string \<times> idx_t) option result"
  | Destroy nat nat
  | Close nat
  | Seek nat idx_t
  | Configure handle_config
  | Clear_All
  | Clear_Path string

fun handle_do :: "open_flag_bits \<Rightarrow> handle_op \<Rightarrow> handle_fs \<Rightarrow> cpp_error option \<times> handle_fs" where
  "handle_do bits (Open cfg path flags now opened) st = OpenFileExtended bits cfg path flags now opened st"
| "handle_do bits (Destroy w now) st = destroy_handle w now st"
| "handle_do bits (Close w) st = (None, close_handle bits w st)"
| "handle_do bits (Seek w location) st = (None, seek_handle w location st)"
| "handle_do bits (Configure cfg) st = (None, SetFileHandleCache cfg st)"
| "handle_do bits Clear_All st = (None, ClearFileHandleCache st)"
| "handle_do bits (Clear_Path path) st = ClearFileHandleCache_path bits path st"

fun handle_run :: "open_flag_bits \<Rightarrow> handle_op list \<Rightarrow> handle_fs \<Rightarrow> cpp_error option list \<times> handle_fs" where
  "handle_run bits [] st = ([], st)"
| "handle_run bits (op # ops) st =
     (case handle_do bits op st of
        (e, st1) \<Rightarrow> (case handle_run bits ops st1 of (es, st2) \<Rightarrow> (e # es, st2)))"


section \<open>Invariant\<close>

text \<open>
  Every internal handle ever opened is in exactly one place: wrapped by a live cache file
  handle, in a pool, closed, or destroyed without \<open>Close\<close>; inside an operation some, \<open>hs\<close>,
  are in its hands. A pool holds only open, rewound read handles, each under its own key, and
  the counter of a key counts the live read handles that were made with it, plus those, \<open>ks\<close>,
  whose count the running operation has yet to release.
\<close>

definition key_of :: "open_flag_bits \<Rightarrow> internal_handle \<Rightarrow> FileHandleCacheKey" where
  "key_of bits h = handle_key bits (ih_path h) (ih_flags h)"

definition usable :: "open_flag_bits \<Rightarrow> internal_handle \<Rightarrow> bool" where
  "usable bits h \<longleftrightarrow> \<not> ih_closed h \<and> OpenForReading bits (ih_flags h)"

definition pool_ok :: "open_flag_bits \<Rightarrow> handle_cache \<Rightarrow> bool" where
  "pool_ok bits c \<longleftrightarrow> multi_inv c \<and> handle_pool.filed (key_of bits) c \<and>
     (\<forall>h. h \<in># multi_held_all c \<longrightarrow> usable bits h \<and> ih_position h = 0)"

definition pointers_ok :: "handle_fs \<Rightarrow> bool" where
  "pointers_ok st \<longleftrightarrow> (file_handle_cache st = None \<longleftrightarrow> in_use_file_handle_counter st = None) \<and>
     (\<forall>p. file_handle_cache st = Some p \<longrightarrow> p < length (hf_pools st)) \<and>
     (\<forall>n. in_use_file_handle_counter st = Some n \<longrightarrow> n < length (hf_counters st))"

definition handle_ok :: "open_flag_bits \<Rightarrow> nat \<Rightarrow> nat \<Rightarrow> CacheFileSystemHandle \<Rightarrow> bool" where
  "handle_ok bits np nc ch \<longleftrightarrow>
     (case ch_callback ch of
        Do_Nothing \<Rightarrow> True
      | To_Pool k p n \<Rightarrow>
          k = key_of bits (internal_file_handle ch) \<and> usable bits (internal_file_handle ch) \<and>
          (p = None \<longleftrightarrow> n = None) \<and> (\<forall>i. p = Some i \<longrightarrow> i < np) \<and> (\<forall>i. n = Some i \<longrightarrow> i < nc))"

definition handles_ok :: "open_flag_bits \<Rightarrow> handle_fs \<Rightarrow> bool" where
  "handles_ok bits st \<longleftrightarrow> distinct (map fst (hf_handles st)) \<and>
     (\<forall>(w, ch) \<in> set (hf_handles st).
        w < hf_next_handle st \<and> handle_ok bits (length (hf_pools st)) (length (hf_counters st)) ch)"

fun counted_in :: "nat \<Rightarrow> FileHandleCacheKey \<Rightarrow> dtor_callback \<Rightarrow> bool" where
  "counted_in n k Do_Nothing = False"
| "counted_in n k (To_Pool key pool counter) = (key = k \<and> counter = Some n)"

definition uses :: "nat \<Rightarrow> FileHandleCacheKey \<Rightarrow> (nat \<times> CacheFileSystemHandle) list \<Rightarrow> nat" where
  "uses n k hs = length (filter (\<lambda>x. counted_in n k (ch_callback (snd x))) hs)"

definition counts_ok :: "(FileHandleCacheKey \<times> nat) list \<Rightarrow> handle_fs \<Rightarrow> bool" where
  "counts_ok ks st \<longleftrightarrow>
     (\<forall>n < length (hf_counters st). counter_inv (hf_counters st ! n) \<and>
        (\<forall>k. counter_GetCount k (hf_counters st ! n) = uses n k (hf_handles st) + count_list ks (k, n)))"

definition wrapped :: "handle_fs \<Rightarrow> internal_handle list" where
  "wrapped st = map (\<lambda>x. internal_file_handle (snd x)) (hf_handles st)"

definition pooled :: "handle_fs \<Rightarrow> internal_handle list" where
  "pooled st = concat (map multi_all_values (hf_pools st))"

definition ledger :: "internal_handle list \<Rightarrow> handle_fs \<Rightarrow> bool" where
  "ledger hs st \<longleftrightarrow>
     mset (map ih_id (hs @ wrapped st @ pooled st @ hf_closed st @ hf_dropped st)) = mset [0..<hf_next st]"

definition fs_ok ::
  "open_flag_bits \<Rightarrow> internal_handle list \<Rightarrow> (FileHandleCacheKey \<times> nat) list \<Rightarrow> handle_fs \<Rightarrow> bool" where
  "fs_ok bits hs ks st \<longleftrightarrow> pointers_ok st \<and> list_all (pool_ok bits) (hf_pools st) \<and>
     handles_ok bits st \<and> counts_ok ks st \<and> ledger hs st"

lemma fs_okI:
  "pointers_ok st \<Longrightarrow> list_all (pool_ok bits) (hf_pools st) \<Longrightarrow> handles_ok bits st \<Longrightarrow> counts_ok ks st \<Longrightarrow>
   ledger hs st \<Longrightarrow> fs_ok bits hs ks st"
  by (simp add: fs_ok_def)

lemma fs_okD:
  assumes "fs_ok bits hs ks st"
  shows "pointers_ok st" "list_all (pool_ok bits) (hf_pools st)" "handles_ok bits st" "counts_ok ks st" "ledger hs st"
  using assms by (simp_all add: fs_ok_def)

lemma fs_ok_new: "fs_ok bits [] [] handle_fs_new"
  by (simp add: fs_ok_def handle_fs_new_def pointers_ok_def handles_ok_def counts_ok_def ledger_def
      wrapped_def pooled_def)

lemma pool_ok_new: "pool_ok bits (multi_new m t)"
  by (simp add: pool_ok_def handle_pool.filed_def multi_held_def multi_entries_def multi_all_values_def)
    (simp add: multi_new_def)

section \<open>The steps an operation is made of\<close>

lemma multiset_exchange:
  fixes a b c p x y :: "'a multiset"
  assumes "a + p = b + c" "y + p = x + c"
  shows "a + x = b + y"
proof -
  have "(a + x) + (p + c) = (a + p) + (x + c)" by (simp only: ac_simps)
  also have "\<dots> = (b + y) + (p + c)" unfolding assms(1) assms(2) [symmetric] by (simp only: ac_simps)
  finally show ?thesis by simp
qed

lemma fs_ok_pool:
  assumes "fs_ok bits hs ks st" "p < length (hf_pools st)" "pool_ok bits c"
    and "mset hs + multi_held_all (hf_pools st ! p) = mset hs' + multi_held_all c"
  shows "fs_ok bits hs' ks (st\<lparr>hf_pools := (hf_pools st)[p := c]\<rparr>)"
proof (rule fs_okI)
  note ok = fs_okD [OF assms(1)]
  let ?st = "st\<lparr>hf_pools := (hf_pools st)[p := c]\<rparr>"
  show "pointers_ok ?st" "handles_ok bits ?st" "counts_ok ks ?st"
    using ok by (simp_all add: pointers_ok_def handles_ok_def counts_ok_def)
  show "list_all (pool_ok bits) (hf_pools ?st)"
    using ok(2) assms(3) set_update_subset_insert [of "hf_pools st" p c] by (auto simp: list_all_iff)
  have split: "mset (concat (map multi_all_values (cs[p := d]))) + multi_held_all (cs ! p) =
      mset (concat (map multi_all_values cs)) + multi_held_all d"
    if "p < length cs" for cs and d :: handle_cache
    using that by (induction cs arbitrary: p) (auto split: nat.splits)
  have "mset hs + mset (pooled st) = mset hs' + mset (pooled ?st)"
    using multiset_exchange [OF assms(4)] split [OF assms(2), of c] by (simp add: pooled_def)
  then have "image_mset ih_id (mset hs + mset (pooled st)) = image_mset ih_id (mset hs' + mset (pooled ?st))"
    by (rule arg_cong)
  then have ids: "mset (map ih_id hs) + mset (map ih_id (pooled st)) =
      mset (map ih_id hs') + mset (map ih_id (pooled ?st))" by simp
  have regroup: "mset (map ih_id (xs @ wrapped s @ ys @ hf_closed s @ hf_dropped s)) =
      (mset (map ih_id xs) + mset (map ih_id ys)) + mset (map ih_id (wrapped s @ hf_closed s @ hf_dropped s))"
    for xs ys and s :: handle_fs
    by (simp add: ac_simps)
  show "ledger hs' ?st"
    using ok(5) unfolding ledger_def regroup ids by (simp add: wrapped_def)
qed

lemma fs_ok_close: "fs_ok bits (vs @ hs) ks st \<Longrightarrow> fs_ok bits hs ks (close_all vs st)"
  by (simp add: fs_ok_def close_all_def pointers_ok_def handles_ok_def counts_ok_def ledger_def wrapped_def
      pooled_def image_mset.compositionality comp_def ac_simps)

lemma fs_ok_drop: "fs_ok bits (h # hs) ks st \<Longrightarrow> ih_id h' = ih_id h \<Longrightarrow> fs_ok bits hs ks (drop_handle h' st)"
  by (simp add: fs_ok_def drop_handle_def pointers_ok_def handles_ok_def counts_ok_def ledger_def wrapped_def
      pooled_def)

lemma fs_ok_log [simp]: "fs_ok bits hs ks (log_access a st) = fs_ok bits hs ks st"
  by (simp add: fs_ok_def log_access_def pointers_ok_def handles_ok_def counts_ok_def ledger_def wrapped_def
      pooled_def)

lemma fs_ok_unset:
  "fs_ok bits hs ks st \<Longrightarrow>
   fs_ok bits hs ks (st\<lparr>file_handle_cache := None, in_use_file_handle_counter := None\<rparr>)"
  by (simp add: fs_ok_def pointers_ok_def handles_ok_def counts_ok_def ledger_def wrapped_def pooled_def)

lemma fs_ok_opened:
  assumes "fs_ok bits hs ks st" "opened_handle pf st = (h, st')"
  shows "fs_ok bits (h # hs) ks st'" "\<not> ih_closed h" "ih_flags h = snd pf" "ih_position h = 0"
  using assms
  by (auto simp: fs_ok_def opened_handle_def pointers_ok_def handles_ok_def counts_ok_def ledger_def
      wrapped_def pooled_def atLeast0_lessThan_Suc)


lemma ledger_bound:
  assumes "ledger hs st"
  shows "length hs + length (hf_handles st) \<le> hf_next st"
proof -
  have "size (mset (map ih_id (hs @ wrapped st @ pooled st @ hf_closed st @ hf_dropped st))) = hf_next st"
    using assms by (simp add: ledger_def)
  then show ?thesis by (simp add: wrapped_def)
qed

lemma ledger_distinct:
  assumes "ledger hs st"
  shows "distinct (map ih_id (hs @ wrapped st @ pooled st @ hf_closed st @ hf_dropped st))"
  using mset_eq_imp_distinct_iff [OF assms [unfolded ledger_def]] by (simp del: map_append)

lemma uses_le: "uses n k hs \<le> length hs"
  by (simp add: uses_def)

lemma fs_ok_create:
  assumes ok: "fs_ok bits (h # hs) ks st" and h: "usable bits h" and bound: "hf_next st < U32" and ks: "ks = []"
  obtains st' where "CreateCacheFileHandleForRead bits h st = (None, st')" "fs_ok bits hs ks st'"
    "hf_next st' = hf_next st"
proof -
  note okD = fs_okD [OF ok]
  let ?k = "key_of bits h" and ?p = "file_handle_cache st" and ?n = "in_use_file_handle_counter st"
  let ?ch = "\<lparr>internal_file_handle = h, ch_callback = To_Pool ?k ?p ?n\<rparr>"
  let ?st1 = "case ?n of None \<Rightarrow> st
    | Some n \<Rightarrow> st\<lparr>hf_counters := (hf_counters st)[n := snd (counter_Increment ?k (hf_counters st ! n))]\<rparr>"
  let ?st = "add_handle ?ch ?st1"
  have same: "hf_pools ?st1 = hf_pools st" "hf_handles ?st1 = hf_handles st" "hf_next_handle ?st1 = hf_next_handle st"
      "length (hf_counters ?st1) = length (hf_counters st)" "file_handle_cache ?st1 = ?p"
      "in_use_file_handle_counter ?st1 = ?n" "hf_closed ?st1 = hf_closed st" "hf_dropped ?st1 = hf_dropped st"
      "hf_next ?st1 = hf_next st"
    by (simp_all split: option.splits)
  have run: "CreateCacheFileHandleForRead bits h st = (None, ?st)"
    using h unfolding key_of_def by (simp add: CreateCacheFileHandleForRead_def Let_def usable_def)
  have next': "hf_next ?st = hf_next st" using same by (simp add: add_handle_def)
  have "pointers_ok ?st" "list_all (pool_ok bits) (hf_pools ?st)"
    using okD(1,2) same by (simp_all add: add_handle_def pointers_ok_def)
  moreover have "handles_ok bits ?st"
    using okD(1,3) h same
    by (auto simp: handles_ok_def add_handle_def handle_ok_def pointers_ok_def)
  moreover have "ledger hs ?st"
    using okD(5) same by (simp add: ledger_def add_handle_def wrapped_def pooled_def)
  moreover have "counts_ok ks ?st"
  proof (cases ?n)
    case None
    then show ?thesis using okD(4) by (simp add: counts_ok_def add_handle_def uses_def)
  next
    case (Some n)
    then have n: "n < length (hf_counters st)" using okD(1) by (simp add: pointers_ok_def)
    let ?c = "hf_counters st ! n"
    have c: "counter_inv ?c" "\<And>j. counter_GetCount j ?c = uses n j (hf_handles st)"
      using okD(4) n ks by (simp_all add: counts_ok_def)
    have "counter_GetCount ?k ?c + 1 < U32"
      using c(2) [of ?k] uses_le [of n ?k "hf_handles st"] ledger_bound [OF okD(5)] bound by simp
    note inc = counter_Increment_correct [OF c(1) this]
    show ?thesis
      using okD(4) Some n inc(1) inc(3) c(2) ks
      by (auto simp: counts_ok_def add_handle_def uses_def nth_list_update)
  qed
  ultimately have "fs_ok bits hs ks ?st" by (intro fs_okI)
  then show ?thesis using run next' that by blast
qed

lemma mset_wrapped_delete:
  assumes "distinct (map fst xs)" "map_of xs w = Some ch"
  shows "mset (map g xs) = add_mset (g (w, ch)) (mset (map g (AList.delete w xs)))"
  using assms
proof (induction xs)
  case (Cons x xs)
  show ?case
  proof (cases "fst x = w")
    case True
    then have "AList.delete w xs = xs" using Cons.prems by (intro delete_id) auto
    then show ?thesis using True Cons.prems by (cases x) simp
  next
    case False
    then show ?thesis using Cons by (cases x) auto
  qed
qed simp

lemma uses_delete:
  assumes "distinct (map fst xs)" "map_of xs w = Some ch"
  shows "uses n k xs = uses n k (AList.delete w xs) + (if counted_in n k (ch_callback ch) then 1 else 0)"
proof -
  have "uses n k ys = size (filter_mset id (mset (map (\<lambda>x. counted_in n k (ch_callback (snd x))) ys)))" for ys
    by (induction ys) (auto simp: uses_def)
  note eq = this [of xs] this [of "AList.delete w xs"]
  show ?thesis
    unfolding eq mset_wrapped_delete [OF assms, of "\<lambda>x. counted_in n k (ch_callback (snd x))"] by simp
qed

lemma fs_ok_remove:
  assumes ok: "fs_ok bits hs [] st" and w: "map_of (hf_handles st) w = Some ch"
  shows "fs_ok bits (internal_file_handle ch # hs)
    (case ch_callback ch of To_Pool k p (Some n) \<Rightarrow> [(k, n)] | _ \<Rightarrow> [])
    (st\<lparr>hf_handles := AList.delete w (hf_handles st)\<rparr>)" (is "fs_ok bits _ ?ks ?st")
proof (rule fs_okI)
  note okD = fs_okD [OF ok]
  have d: "distinct (map fst (hf_handles st))" using okD(3) by (simp add: handles_ok_def)
  show "pointers_ok ?st" "list_all (pool_ok bits) (hf_pools ?st)"
    using okD(1,2) by (simp_all add: pointers_ok_def)
  show "handles_ok bits ?st"
    using okD(3) distinct_delete [OF d] by (auto simp: handles_ok_def AList.delete_eq)
  have "mset (wrapped st) = add_mset (internal_file_handle ch) (mset (wrapped ?st))"
    unfolding wrapped_def using mset_wrapped_delete [OF d w, of "\<lambda>x. internal_file_handle (snd x)"] by simp
  then have "mset (map ih_id (wrapped st)) = add_mset (ih_id (internal_file_handle ch)) (mset (map ih_id (wrapped ?st)))"
    by simp
  then show "ledger (internal_file_handle ch # hs) ?st"
    using okD(5) by (simp add: ledger_def pooled_def)
  have "count_list ?ks (k, n) = (if counted_in n k (ch_callback ch) then 1 else 0)" for k n
    by (cases "ch_callback ch") (auto split: option.splits)
  then show "counts_ok ?ks ?st"
    using okD(4) uses_delete [OF d w] by (simp add: counts_ok_def)
qed

lemma fs_ok_release:
  assumes ok: "fs_ok bits hs [(k, n)] st" and n: "n < length (hf_counters st)"
  obtains m c where "counter_Decrement k (hf_counters st ! n) = Inr (m, c)"
    "fs_ok bits hs [] (st\<lparr>hf_counters := (hf_counters st)[n := c]\<rparr>)"
proof -
  note okD = fs_okD [OF ok]
  have c: "counter_inv (hf_counters st ! n)"
      "\<And>j. counter_GetCount j (hf_counters st ! n) = uses n j (hf_handles st) + count_list [(k, n)] (j, n)"
    using okD(4) n unfolding counts_ok_def by blast+
  have pos: "0 < counter_GetCount k (hf_counters st ! n)" by (simp add: c(2))
  obtain c' where
    dec: "counter_Decrement k (hf_counters st ! n) = Inr (counter_GetCount k (hf_counters st ! n) - 1, c')"
    and c': "counter_inv c'" "\<And>j. counter_GetCount j c' =
      counter_GetCount j (hf_counters st ! n) - (if j = k then 1 else 0)"
    using counter_Decrement_correct [OF c(1) pos] by blast
  let ?st = "st\<lparr>hf_counters := (hf_counters st)[n := c']\<rparr>"
  have "counts_ok [] ?st"
    unfolding counts_ok_def
  proof (intro allI impI conjI)
    fix i j
    assume i: "i < length (hf_counters ?st)"
    show "counter_inv (hf_counters ?st ! i)"
      using okD(4) c'(1) i by (cases "i = n") (simp_all add: counts_ok_def)
    show "counter_GetCount j (hf_counters ?st ! i) = uses i j (hf_handles ?st) + count_list [] (j, i)"
      using okD(4) c(2) [of j] c'(2) [of j] i by (cases "i = n") (simp_all add: counts_ok_def)
  qed
  moreover have "pointers_ok ?st" "list_all (pool_ok bits) (hf_pools ?st)" "handles_ok bits ?st" "ledger hs ?st"
    using okD by (simp_all add: pointers_ok_def handles_ok_def ledger_def wrapped_def pooled_def)
  ultimately have "fs_ok bits hs [] ?st" by (intro fs_okI)
  with dec show ?thesis by (rule that)
qed


lemma fs_ok_on_internal:
  assumes ok: "fs_ok bits hs ks st"
    and f: "\<And>h. ih_id (f h) = ih_id h \<and> key_of bits (f h) = key_of bits h \<and> (usable bits h \<longrightarrow> usable bits (f h))"
  shows "fs_ok bits hs ks (on_internal w f st)"
proof (rule fs_okI)
  note okD = fs_okD [OF ok]
  let ?g = "\<lambda>(i, ch). (i, if i = w then ch\<lparr>internal_file_handle := f (internal_file_handle ch)\<rparr> else ch)"
  show "pointers_ok (on_internal w f st)" "list_all (pool_ok bits) (hf_pools (on_internal w f st))"
    using okD(1,2) by (simp_all add: on_internal_def pointers_ok_def)
  have flds: "hf_handles (on_internal w f st) = map ?g (hf_handles st)"
      "hf_next_handle (on_internal w f st) = hf_next_handle st" "hf_pools (on_internal w f st) = hf_pools st"
      "hf_counters (on_internal w f st) = hf_counters st"
    by (simp_all only: on_internal_def) simp_all
  have fst: "map fst (map ?g xs) = map fst xs" for xs by (induction xs) auto
  have hok: "handle_ok bits np nc (ch\<lparr>internal_file_handle := f (internal_file_handle ch)\<rparr>)"
    if "handle_ok bits np nc ch" for np nc ch
    using that f by (auto simp: handle_ok_def split: dtor_callback.splits)
  have distinct': "distinct (map fst (map ?g (hf_handles st)))"
    using okD(3) unfolding fst by (simp add: handles_ok_def)
  have "\<forall>(i, ch) \<in> set (map ?g (hf_handles st)).
      i < hf_next_handle st \<and> handle_ok bits (length (hf_pools st)) (length (hf_counters st)) ch"
    using okD(3) hok by (auto simp: handles_ok_def)
  with distinct' show "handles_ok bits (on_internal w f st)"
    unfolding handles_ok_def flds by blast
  have uses': "uses n k (map ?g xs) = uses n k xs" for n k xs
    by (induction xs) (auto simp: uses_def split: if_splits)
  show "counts_ok ks (on_internal w f st)"
    using okD(4) unfolding counts_ok_def flds uses' .
  have "map (\<lambda>x. ih_id (internal_file_handle (snd x))) (map ?g xs) = map (\<lambda>x. ih_id (internal_file_handle (snd x))) xs" for xs
    using f by (induction xs) auto
  then have "map ih_id (wrapped (on_internal w f st)) = map ih_id (wrapped st)"
    unfolding wrapped_def flds by (simp only: map_map comp_def)
  with okD(5) show "ledger hs (on_internal w f st)"
    unfolding ledger_def map_append by (simp add: on_internal_def pooled_def)
qed

lemma fs_ok_ClearFileHandleCache:
  assumes "fs_ok bits [] [] st"
  shows "fs_ok bits [] [] (ClearFileHandleCache st)"
proof (cases "file_handle_cache st")
  case (Some p)
  have p: "p < length (hf_pools st)" using fs_okD(1) [OF assms] Some by (simp add: pointers_ok_def)
  let ?c = "hf_pools st ! p"
  obtain vs c where vs: "multi_ClearAndGetValues ?c = (vs, c)" by fastforce
  have inv: "multi_inv ?c" using fs_okD(2) [OF assms] p by (simp add: list_all_length pool_ok_def)
  note law = handle_pool.clear_law [OF inv] handle_pool.clear_filed [OF inv]
  have "pool_ok bits c" using law vs by (simp add: pool_ok_def)
  moreover have "mset [] + multi_held_all ?c = mset (vs @ []) + multi_held_all c" using law(1) vs by simp
  ultimately have "fs_ok bits [] [] (close_all vs (st\<lparr>hf_pools := (hf_pools st)[p := c]\<rparr>))"
    by (intro fs_ok_close fs_ok_pool [OF assms p])
  then show ?thesis using Some vs by (simp add: ClearFileHandleCache_def fs_ok_unset)
qed (simp add: ClearFileHandleCache_def assms)

lemma fs_ok_SetFileHandleCache:
  assumes "fs_ok bits [] [] st"
  shows "fs_ok bits [] [] (SetFileHandleCache cfg st)"
proof (cases "enable_file_handle_cache cfg \<and> file_handle_cache st = None")
  case False
  have "file_handle_cache st \<noteq> None \<Longrightarrow> in_use_file_handle_counter st \<noteq> None"
    using fs_okD(1) [OF assms] by (auto simp: pointers_ok_def)
  with False assms fs_ok_ClearFileHandleCache [OF assms] show ?thesis
    by (auto simp: SetFileHandleCache_def)
next
  case True
  note okD = fs_okD [OF assms]
  let ?st = "SetFileHandleCache cfg st"
  let ?c = "multi_new (max_file_handle_cache_entry cfg) (file_handle_cache_entry_timeout_millisec cfg) :: handle_cache"
  have st: "?st = st\<lparr>file_handle_cache := Some (length (hf_pools st)), hf_pools := hf_pools st @ [?c],
      in_use_file_handle_counter := Some (length (hf_counters st)), hf_counters := hf_counters st @ [[]]\<rparr>"
    using True okD(1) by (simp add: SetFileHandleCache_def pointers_ok_def)
  have new: "uses (length (hf_counters st)) k (hf_handles st) = 0" for k
  proof -
    have "\<not> counted_in (length (hf_counters st)) k (ch_callback ch)" if "(w, ch) \<in> set (hf_handles st)" for w ch
      using okD(3) that by (cases "ch_callback ch") (force simp: handles_ok_def handle_ok_def)+
    then show ?thesis by (auto simp: uses_def filter_empty_conv)
  qed
  have "handle_ok bits (Suc np) (Suc nc) ch" if "handle_ok bits np nc ch" for np nc ch
    using that by (auto simp: handle_ok_def less_Suc_eq split: dtor_callback.splits)
  then have "handles_ok bits ?st" using okD(3) unfolding st by (auto simp: handles_ok_def)
  moreover have "counts_ok [] ?st"
    using okD(4) new unfolding st by (auto simp: counts_ok_def nth_append less_Suc_eq counter_GetCount_def)
  moreover have "multi_all_values ?c = []" by (simp add: multi_all_values_def multi_new_def)
  then have "ledger [] ?st" using okD(5) unfolding st by (simp add: ledger_def wrapped_def pooled_def)
  moreover have "pointers_ok ?st" "list_all (pool_ok bits) (hf_pools ?st)"
    using okD(2) unfolding st by (simp_all add: pointers_ok_def pool_ok_new)
  ultimately show ?thesis by (intro fs_okI)
qed

text \<open>The keys of one path are one block of the order, and the start key is its first.\<close>

lemma handle_key_block:
  assumes "handle_key bits path 0 \<le> x" "hk_path x \<noteq> path" "x < y"
  shows "hk_path y \<noteq> path"
  using assms
  by (auto simp: less_eq_FileHandleCacheKey_def less_FileHandleCacheKey_def handle_key_tie_def handle_key_def)

lemma handle_key_first: "handle_key bits path 0 \<le> handle_key bits path flags"
proof -
  have "m \<le> flags OR m" for m :: nat
    using or_greater_eq [of "int flags" "int m"] by (simp add: or.commute of_nat_or_eq flip: of_nat_le_iff [where 'a = int])
  then show ?thesis
    by (simp add: handle_key_def less_eq_FileHandleCacheKey_def handle_key_tie_def)
qed

lemma fs_ok_ClearFileHandleCache_path:
  assumes "fs_ok bits [] [] st"
  obtains st' where "ClearFileHandleCache_path bits path st = (None, st')" "fs_ok bits [] [] st'"
    "hf_next st' = hf_next st"
proof (cases "file_handle_cache st")
  case None
  then show ?thesis using that [of st] assms by (simp add: ClearFileHandleCache_path_def)
next
  case (Some p)
  have p: "p < length (hf_pools st)" using fs_okD(1) [OF assms] Some by (simp add: pointers_ok_def)
  let ?c = "hf_pools st ! p" and ?P = "\<lambda>k. hk_path k = path"
  have pk: "multi_inv ?c" "handle_pool.filed (key_of bits) ?c"
      "\<And>h. h \<in># multi_held_all ?c \<Longrightarrow> usable bits h \<and> ih_position h = 0"
    using fs_okD(2) [OF assms] p by (simp_all add: list_all_length pool_ok_def)
  obtain vs c where c: "multi_ClearAndGetValues_from (handle_key bits path 0) ?P ?c = Inr (vs, c)" "multi_inv c"
    "handle_pool.filed (key_of bits) c" "multi_held_all ?c = mset vs + multi_held_all c"
  proof (rule handle_pool.clear_from_filed [where s = "handle_key bits path 0" and P = ?P, OF pk(1,2)])
    show "hk_path y \<noteq> path" if "handle_key bits path 0 \<le> x" "hk_path x \<noteq> path" "x < y" for x y
      using that by (rule handle_key_block)
  qed
  have "pool_ok bits c" using c pk(3) by (auto simp: pool_ok_def)
  then have "fs_ok bits [] [] (close_all vs (st\<lparr>hf_pools := (hf_pools st)[p := c]\<rparr>))"
    using c(4) by (intro fs_ok_close fs_ok_pool [OF assms p]) simp_all
  then show ?thesis
    using that Some c(1) by (simp add: ClearFileHandleCache_path_def close_all_def)
qed


section \<open>Whole operations\<close>

text \<open>
  What \<open>OpenFile\<close> of the wrapped file system is relied on for: a handle asked for with the
  read bit reports it, and an open for writing does not answer with a null pointer.
\<close>

definition open_ok :: "open_flag_bits \<Rightarrow> idx_t \<Rightarrow> (string \<times> idx_t) option result \<Rightarrow> bool" where
  "open_ok bits flags opened \<longleftrightarrow>
     (case opened of
        Inl e \<Rightarrow> True
      | Inr None \<Rightarrow> OpenForReading bits flags
      | Inr (Some pf) \<Rightarrow> OpenForReading bits flags \<longrightarrow> OpenForReading bits (snd pf))"

definition open_error :: "(string \<times> idx_t) option result \<Rightarrow> cpp_error option" where
  "open_error opened = (case opened of Inl e \<Rightarrow> Some e | Inr _ \<Rightarrow> None)"

lemma open_internal_ok:
  assumes ok: "fs_ok bits [] [] st" and o: "open_ok bits flags opened" "OpenForReading bits flags"
    and bound: "Suc (hf_next st) < U32"
  obtains st' where "open_internal bits opened st = (open_error opened, st')" "fs_ok bits [] [] st'"
    "hf_next st' \<le> Suc (hf_next st)"
proof -
  consider e where "opened = Inl e" | "opened = Inr None" | pf where "opened = Inr (Some pf)"
    by (metis sum.exhaust option.exhaust)
  then show ?thesis
  proof cases
    case 3
    obtain h st1 where h: "opened_handle pf st = (h, st1)" by fastforce
    note op = fs_ok_opened [OF ok h]
    have "usable bits h" using op o 3 by (simp add: usable_def open_ok_def)
    moreover have n: "hf_next st1 = Suc (hf_next st)" using h by (auto simp: opened_handle_def)
    ultimately obtain st' where "CreateCacheFileHandleForRead bits h st1 = (None, st')" "fs_ok bits [] [] st'"
      "hf_next st' = hf_next st1"
      using fs_ok_create [OF op(1)] bound by auto
    then show ?thesis using that 3 h n by (simp add: open_internal_def open_error_def)
  qed (use that ok in \<open>auto simp: open_internal_def open_error_def\<close>)
qed

lemma GetOrCreate_ok:
  assumes ok: "fs_ok bits [] [] st" and o: "open_ok bits flags opened" "OpenForReading bits flags"
    and bound: "Suc (hf_next st) < U32"
  obtains e st' where "GetOrCreateFileHandleForRead bits path flags now opened st = (e, st')"
    "fs_ok bits [] [] st'" "e = None \<or> e = open_error opened" "hf_next st' \<le> Suc (hf_next st)"
proof (cases "file_handle_cache st")
  case None
  then show ?thesis
    using open_internal_ok [OF ok o bound] o(2) that by (auto simp: GetOrCreateFileHandleForRead_def)
next
  case (Some p)
  note okD = fs_okD [OF ok]
  have p: "p < length (hf_pools st)" using okD(1) Some by (simp add: pointers_ok_def)
  obtain n where n: "in_use_file_handle_counter st = Some n"
    using okD(1) Some by (auto simp: pointers_ok_def)
  let ?c = "hf_pools st ! p" and ?k = "handle_key bits path flags"
  have pk: "multi_inv ?c" "handle_pool.filed (key_of bits) ?c"
      "\<And>h. h \<in># multi_held_all ?c \<Longrightarrow> usable bits h \<and> ih_position h = 0"
    using okD(2) p by (simp_all add: list_all_length pool_ok_def)
  obtain r c where c: "multi_GetAndPop ?k now ?c = Inr (r, c)" "multi_inv c" "handle_pool.filed (key_of bits) c"
    and vals: "multi_held_all ?c =
      mset (evicted_items r @ (case target_item r of None \<Rightarrow> [] | Some v \<Rightarrow> [v])) + multi_held_all c"
    using handle_pool.pop_filed [OF pk(1,2), of ?k now] by metis
  have "pool_ok bits c" using c pk(3) vals by (auto simp: pool_ok_def)
  then have st1: "fs_ok bits (case target_item r of None \<Rightarrow> [] | Some v \<Rightarrow> [v]) []
      (close_all (evicted_items r) (st\<lparr>hf_pools := (hf_pools st)[p := c]\<rparr>))" (is "fs_ok bits ?hs [] ?st1")
    using vals by (intro fs_ok_close fs_ok_pool [OF ok p]) simp_all
  have same: "hf_next ?st1 = hf_next st" "in_use_file_handle_counter ?st1 = Some n"
    by (simp_all add: close_all_def n)
  have log: "hf_next (log_access a s) = hf_next s"
      "in_use_file_handle_counter (log_access a s) = in_use_file_handle_counter s" for a and s :: handle_fs
    by (simp_all add: log_access_def)
  show ?thesis
  proof (cases "target_item r")
    case None
    let ?st2 = "if 0 < counter_GetCount ?k (hf_counters ?st1 ! n)
      then log_access Handle_InUse (log_access Handle_Miss ?st1) else log_access Handle_Miss ?st1"
    have "fs_ok bits [] [] ?st2" using st1 None by simp
    moreover have "hf_next ?st2 = hf_next st" by (simp add: log same)
    ultimately obtain st' where "open_internal bits opened ?st2 = (open_error opened, st')"
      "fs_ok bits [] [] st'" "hf_next st' \<le> Suc (hf_next st)"
      using open_internal_ok [of bits ?st2 flags opened] o bound by metis
    moreover have "GetOrCreateFileHandleForRead bits path flags now opened st = open_internal bits opened ?st2"
      using o(2) Some c(1) None same by (simp add: GetOrCreateFileHandleForRead_def Let_def)
    ultimately show ?thesis using that by simp
  next
    case (Some h)
    let ?st2 = "log_access Handle_Hit ?st1"
    have "usable bits h" using pk(3) [of h] vals Some by simp
    moreover have "fs_ok bits [h] [] ?st2" using st1 Some by simp
    ultimately obtain st' where "CreateCacheFileHandleForRead bits h ?st2 = (None, st')"
      "fs_ok bits [] [] st'" "hf_next st' = hf_next st"
      using fs_ok_create [of bits h "[]" "[]" ?st2] bound by (auto simp: log same)
    moreover have "GetOrCreateFileHandleForRead bits path flags now opened st =
        CreateCacheFileHandleForRead bits h ?st2"
      using o(2) \<open>file_handle_cache st = Some p\<close> c(1) Some by (simp add: GetOrCreateFileHandleForRead_def Let_def)
    ultimately show ?thesis using that by simp
  qed
qed

lemma hf_next_config [simp]:
  "hf_next (ClearFileHandleCache st) = hf_next st" "hf_next (SetFileHandleCache cfg st) = hf_next st"
  by (simp_all add: SetFileHandleCache_def ClearFileHandleCache_def close_all_def Let_def
      split: option.splits prod.splits)

lemma OpenFileExtended_ok:
  assumes ok: "fs_ok bits [] [] st" and o: "open_ok bits flags opened" and bound: "Suc (hf_next st) < U32"
  obtains e st' where "OpenFileExtended bits cfg path flags now opened st = (e, st')"
    "fs_ok bits [] [] st'" "e = None \<or> e = open_error opened" "hf_next st' \<le> Suc (hf_next st)"
proof -
  let ?st1 = "SetFileHandleCache cfg st"
  let ?clear = "if clear_cache_on_write cfg then ClearFileHandleCache_path bits path ?st1 else (None, ?st1)"
  have ok1: "fs_ok bits [] [] ?st1" using ok by (rule fs_ok_SetFileHandleCache)
  obtain sc where "ClearFileHandleCache_path bits path ?st1 = (None, sc)" "fs_ok bits [] [] sc"
    "hf_next sc = hf_next ?st1"
    by (rule fs_ok_ClearFileHandleCache_path [OF ok1, of path])
  then have "\<exists>st2. ?clear = (None, st2) \<and> fs_ok bits [] [] st2 \<and> hf_next st2 = hf_next st"
    using ok1 by simp
  then obtain st2 where st2: "?clear = (None, st2)" "fs_ok bits [] [] st2" "hf_next st2 = hf_next st" by blast
  show ?thesis
  proof (cases "OpenForReading bits flags")
    case True
    then have "OpenFileExtended bits cfg path flags now opened st =
        GetOrCreateFileHandleForRead bits path flags now opened st2"
      using st2(1) by (simp add: OpenFileExtended_def Let_def)
    then show ?thesis
      using that GetOrCreate_ok [OF st2(2) o True, of path now] bound st2(3) by metis
  next
    case False
    consider e where "opened = Inl e" | pf where "opened = Inr (Some pf)"
      using o False by (auto simp: open_ok_def split: sum.splits option.splits)
    then show ?thesis
    proof cases
      case 1
      then show ?thesis using that False st2 by (simp add: OpenFileExtended_def Let_def open_error_def)
    next
      case 2
      obtain h st3 where h: "opened_handle pf st2 = (h, st3)" by fastforce
      let ?ch = "\<lparr>internal_file_handle = h, ch_callback = Do_Nothing\<rparr>"
      have "fs_ok bits [h] [] st3" "hf_next st3 = Suc (hf_next st)"
        using fs_ok_opened(1) [OF st2(2) h] h st2(3) by (auto simp: opened_handle_def)
      then have "fs_ok bits [] [] (add_handle ?ch st3)" "hf_next (add_handle ?ch st3) = Suc (hf_next st)"
        by (auto simp: fs_ok_def add_handle_def pointers_ok_def handles_ok_def handle_ok_def counts_ok_def
            uses_def ledger_def wrapped_def pooled_def)
      moreover have "OpenFileExtended bits cfg path flags now opened st = (None, add_handle ?ch st3)"
        using 2 False st2(1) h by (simp add: OpenFileExtended_def Let_def)
      ultimately show ?thesis using that by simp
    qed
  qed
qed


lemma return_handle_ok:
  assumes ok: "fs_ok bits [h] (case n of Some i \<Rightarrow> [(key_of bits h, i)] | None \<Rightarrow> []) st"
    and h: "usable bits h" and pn: "p = None \<longleftrightarrow> n = None"
    and p: "\<And>i. p = Some i \<Longrightarrow> i < length (hf_pools st)"
    and n: "\<And>i. n = Some i \<Longrightarrow> i < length (hf_counters st)"
  obtains st' where "return_handle h (key_of bits h) p n now st = (None, st')" "fs_ok bits [] [] st'"
    "hf_next st' = hf_next st"
proof (cases p)
  case None
  then have "n = None" using pn by simp
  then show ?thesis
    using that None fs_ok_drop [of bits h "[]" "[]" st "h\<lparr>ih_position := 0\<rparr>"] ok
    by (simp add: return_handle_def drop_handle_def)
next
  case (Some i)
  then obtain j where j: "n = Some j" using pn by (cases n) auto
  let ?h = "h\<lparr>ih_position := 0\<rparr>" and ?c = "hf_pools st ! i" and ?k = "key_of bits h"
  have i: "i < length (hf_pools st)" and j': "j < length (hf_counters st)" using p n Some j by auto
  have pk: "multi_inv ?c" "handle_pool.filed (key_of bits) ?c"
      "\<And>u. u \<in># multi_held_all ?c \<Longrightarrow> usable bits u \<and> ih_position u = 0"
    using fs_okD(2) [OF ok] i by (simp_all add: list_all_length pool_ok_def)
  have k: "key_of bits ?h = ?k" by (simp add: key_of_def)
  obtain e c where put: "multi_Put ?k ?h now ?c = Inr (e, c)" and c: "multi_inv c" "handle_pool.filed (key_of bits) c"
    and vals: "multi_held_all c + mset (case e of None \<Rightarrow> [] | Some x \<Rightarrow> [x]) = add_mset ?h (multi_held_all ?c)"
    by (rule handle_pool.put_filed [OF pk(1,2) k, of now])
  let ?ev = "case e of None \<Rightarrow> [] | Some x \<Rightarrow> [x]"
  let ?st1 = "close_all ?ev (st\<lparr>hf_pools := (hf_pools st)[i := c]\<rparr>)"
  have "usable bits u \<and> ih_position u = 0" if "u \<in># multi_held_all c" for u
  proof -
    have "u \<in># add_mset ?h (multi_held_all ?c)" using that vals by (metis union_iff)
    then consider "u = ?h" | "u \<in># multi_held_all ?c" by auto
    then show ?thesis using pk(3) h by cases (simp_all add: usable_def)
  qed
  then have "pool_ok bits c" using c by (simp add: pool_ok_def)
  have ok': "fs_ok bits [?h] [(?k, j)] st"
    using ok j by (simp add: fs_ok_def ledger_def)
  have "fs_ok bits [] [(?k, j)] ?st1"
    using vals \<open>pool_ok bits c\<close> by (intro fs_ok_close fs_ok_pool [OF ok' i]) (simp_all add: add.commute)
  then obtain m c' where dec: "counter_Decrement ?k (hf_counters ?st1 ! j) = Inr (m, c')"
    "fs_ok bits [] [] (?st1\<lparr>hf_counters := (hf_counters ?st1)[j := c']\<rparr>)"
    by (rule fs_ok_release) (simp add: close_all_def j')
  then show ?thesis
    using that Some j put by (simp add: return_handle_def Let_def) (simp add: close_all_def)
qed

lemma destroy_handle_ok:
  assumes ok: "fs_ok bits [] [] st"
  obtains st' where "destroy_handle w now st = (None, st')" "fs_ok bits [] [] st'" "hf_next st' = hf_next st"
proof (cases "map_of (hf_handles st) w")
  case None
  then show ?thesis using that ok by (simp add: destroy_handle_def)
next
  case (Some ch)
  let ?st1 = "st\<lparr>hf_handles := AList.delete w (hf_handles st)\<rparr>" and ?h = "internal_file_handle ch"
  note rm = fs_ok_remove [OF ok Some]
  show ?thesis
  proof (cases "ch_callback ch")
    case Do_Nothing
    then show ?thesis
      using that Some rm fs_ok_drop [of bits ?h "[]" "[]" ?st1 ?h]
      by (simp add: destroy_handle_def drop_handle_def)
  next
    case (To_Pool k p n)
    have "handle_ok bits (length (hf_pools st)) (length (hf_counters st)) ch"
      using fs_okD(3) [OF ok] map_of_SomeD [OF Some] by (auto simp: handles_ok_def)
    then have c: "k = key_of bits ?h" "usable bits ?h" "p = None \<longleftrightarrow> n = None"
        "\<And>i. p = Some i \<Longrightarrow> i < length (hf_pools ?st1)" "\<And>i. n = Some i \<Longrightarrow> i < length (hf_counters ?st1)"
      using To_Pool by (simp_all add: handle_ok_def)
    have "(case ch_callback ch of To_Pool k p (Some n) \<Rightarrow> [(k, n)] | _ \<Rightarrow> []) =
        (case n of Some i \<Rightarrow> [(key_of bits ?h, i)] | None \<Rightarrow> [])"
      using To_Pool c(1) by (simp split: option.splits)
    with rm have "fs_ok bits [?h] (case n of Some i \<Rightarrow> [(key_of bits ?h, i)] | None \<Rightarrow> []) ?st1" by simp
    then obtain st' where "return_handle ?h (key_of bits ?h) p n now ?st1 = (None, st')" "fs_ok bits [] [] st'"
      "hf_next st' = hf_next ?st1"
      by (rule return_handle_ok [where now = now]) (use c in blast)+
    then show ?thesis using that Some To_Pool c(1) by (simp add: destroy_handle_def)
  qed
qed

fun op_ok :: "open_flag_bits \<Rightarrow> handle_op \<Rightarrow> bool" where
  "op_ok bits (Open cfg path flags now opened) = open_ok bits flags opened"
| "op_ok bits _ = True"

fun op_error :: "handle_op \<Rightarrow> cpp_error option" where
  "op_error (Open cfg path flags now opened) = open_error opened"
| "op_error _ = None"

fun opens :: "handle_op \<Rightarrow> nat" where
  "opens (Open cfg path flags now opened) = 1"
| "opens _ = 0"

lemma handle_do_ok:
  assumes ok: "fs_ok bits [] [] st" and op: "op_ok bits op" and bound: "hf_next st + opens op < U32"
  obtains e st' where "handle_do bits op st = (e, st')" "fs_ok bits [] [] st'" "e = None \<or> e = op_error op"
    "hf_next st' \<le> hf_next st + opens op"
proof (cases op)
  case (Open cfg path flags now opened)
  then show ?thesis
    using that OpenFileExtended_ok [OF ok, of flags opened cfg path now] op bound by auto
next
  case (Destroy w now)
  obtain st' where "destroy_handle w now st = (None, st')" "fs_ok bits [] [] st'" "hf_next st' = hf_next st"
    by (rule destroy_handle_ok [OF ok])
  then show ?thesis using that [of None st'] Destroy by simp
next
  case (Clear_Path path)
  obtain st' where "ClearFileHandleCache_path bits path st = (None, st')" "fs_ok bits [] [] st'"
    "hf_next st' = hf_next st"
    by (rule fs_ok_ClearFileHandleCache_path [OF ok])
  then show ?thesis using that [of None st'] Clear_Path by simp
next
  case (Close w)
  have "fs_ok bits [] [] (close_handle bits w st)"
    unfolding close_handle_def
    by (rule fs_ok_on_internal [OF ok]) (auto simp: key_of_def usable_def)
  then show ?thesis using that Close by (simp add: close_handle_def on_internal_def)
next
  case (Seek w location)
  have "fs_ok bits [] [] (seek_handle w location st)"
    unfolding seek_handle_def
    by (rule fs_ok_on_internal [OF ok]) (auto simp: key_of_def usable_def)
  then show ?thesis using that Seek by (simp add: seek_handle_def on_internal_def)
next
  case (Configure cfg)
  then show ?thesis using that fs_ok_SetFileHandleCache [OF ok] by simp
next
  case Clear_All
  then show ?thesis using that fs_ok_ClearFileHandleCache [OF ok] by simp
qed

lemma handle_run_ok:
  assumes "fs_ok bits [] [] st" "\<forall>op \<in> set ops. op_ok bits op" "hf_next st + sum_list (map opens ops) < U32"
    and "handle_run bits ops st = (es, st')"
  shows "fs_ok bits [] [] st' \<and> list_all2 (\<lambda>op e. e = None \<or> e = op_error op) ops es \<and>
    hf_next st' \<le> hf_next st + sum_list (map opens ops)"
  using assms
proof (induction ops arbitrary: st es)
  case (Cons op ops)
  have "op_ok bits op" "hf_next st + opens op < U32" using Cons.prems(2,3) by auto
  then obtain e st1 where do: "handle_do bits op st = (e, st1)" "fs_ok bits [] [] st1"
    "e = None \<or> e = op_error op" "hf_next st1 \<le> hf_next st + opens op"
    by (rule handle_do_ok [OF Cons.prems(1)])
  obtain es1 where run: "handle_run bits ops st1 = (es1, st')" and es: "es = e # es1"
    using Cons.prems(4) do(1) by (auto split: prod.splits)
  have "hf_next st1 + sum_list (map opens ops) < U32" using Cons.prems(3) do(4) by simp
  then have
    "fs_ok bits [] [] st' \<and> list_all2 (\<lambda>op e. e = None \<or> e = op_error op) ops es1 \<and>
     hf_next st' \<le> hf_next st1 + sum_list (map opens ops)"
    using Cons.prems(2) by (intro Cons.IH [OF do(2) _ _ run]) simp_all
  then show ?case using do(3,4) es by auto
qed simp


section \<open>Pools nothing refers to any more\<close>

text \<open>
  A pool the file system has dropped lives as long as a cache file handle still refers to it.
  Once none does, no operation reaches it, and what it holds is neither reused nor closed.
\<close>

definition isolated :: "nat \<Rightarrow> handle_fs \<Rightarrow> bool" where
  "isolated p st \<longleftrightarrow> p < length (hf_pools st) \<and> file_handle_cache st \<noteq> Some p \<and>
     (\<forall>x \<in> set (hf_handles st). \<forall>k n. ch_callback (snd x) \<noteq> To_Pool k (Some p) n)"

definition untouched :: "nat \<Rightarrow> handle_fs \<Rightarrow> handle_fs \<Rightarrow> bool" where
  "untouched p st st' \<longleftrightarrow> isolated p st' \<and> hf_pools st' ! p = hf_pools st ! p"

lemma untouched_trans: "untouched p st st1 \<Longrightarrow> untouched p st1 st2 \<Longrightarrow> untouched p st st2"
  by (simp add: untouched_def)

lemma untouched_steps:
  assumes "isolated p st"
  shows "untouched p st st"
    and "untouched p st (close_all hs st)"
    and "untouched p st (log_access a st)"
    and "untouched p st (drop_handle h st)"
    and "untouched p st (snd (opened_handle pf st))"
    and "untouched p st (st\<lparr>file_handle_cache := None, in_use_file_handle_counter := None\<rparr>)"
    and "untouched p st (st\<lparr>hf_counters := cs\<rparr>)"
    and "untouched p st (st\<lparr>hf_handles := AList.delete w (hf_handles st)\<rparr>)"
  using assms
  by (auto simp: untouched_def isolated_def close_all_def log_access_def drop_handle_def opened_handle_def
      AList.delete_eq)

lemma untouched_on_internal:
  assumes "isolated p st"
  shows "untouched p st (on_internal w f st)"
proof -
  have "ch_callback (snd x) \<noteq> To_Pool k (Some p) n" if x: "x \<in> set (hf_handles (on_internal w f st))" for x k n
  proof -
    obtain y where "y \<in> set (hf_handles st)" "ch_callback (snd x) = ch_callback (snd y)"
      using x by (auto simp: on_internal_def split: if_splits)
    then show ?thesis using assms by (simp add: isolated_def)
  qed
  then show ?thesis using assms by (simp add: untouched_def isolated_def) (simp add: on_internal_def)
qed

lemma untouched_pool:
  assumes "isolated p st" "q \<noteq> p"
  shows "untouched p st (st\<lparr>hf_pools := (hf_pools st)[q := c]\<rparr>)"
  using assms by (simp add: untouched_def isolated_def)

lemma isolated_current: "isolated p st \<Longrightarrow> file_handle_cache st = Some q \<Longrightarrow> q \<noteq> p"
  by (auto simp: isolated_def)

lemma untouched_add:
  assumes "isolated p st" "\<And>k n. ch_callback ch \<noteq> To_Pool k (Some p) n"
  shows "untouched p st (add_handle ch st)"
  using assms by (auto simp: untouched_def isolated_def add_handle_def)

lemma untouched_pool_close:
  assumes "isolated p st" "q \<noteq> p"
  shows "untouched p st (close_all hs (st\<lparr>hf_pools := (hf_pools st)[q := c]\<rparr>))"
  using untouched_pool [OF assms] untouched_steps(2) untouched_trans unfolding untouched_def by blast

lemma untouched_ClearFileHandleCache:
  assumes "isolated p st"
  shows "untouched p st (ClearFileHandleCache st)"
proof (cases "file_handle_cache st")
  case (Some q)
  obtain vs c where vs: "multi_ClearAndGetValues (hf_pools st ! q) = (vs, c)" by fastforce
  have "untouched p st (close_all vs (st\<lparr>hf_pools := (hf_pools st)[q := c]\<rparr>))" (is "untouched p st ?st")
    using isolated_current [OF assms Some] by (rule untouched_pool_close [OF assms])
  moreover from this have "isolated p ?st" by (simp add: untouched_def)
  ultimately show ?thesis
    using Some vs untouched_trans untouched_steps(6) by (simp add: ClearFileHandleCache_def)
qed (use untouched_steps(1) [OF assms] in \<open>simp add: ClearFileHandleCache_def\<close>)

lemma untouched_SetFileHandleCache:
  assumes "isolated p st"
  shows "untouched p st (SetFileHandleCache cfg st)"
  using assms untouched_ClearFileHandleCache [OF assms] untouched_steps(1) [OF assms]
  by (simp add: SetFileHandleCache_def untouched_def isolated_def nth_append Let_def)

lemma untouched_ClearFileHandleCache_path:
  assumes "isolated p st"
  shows "untouched p st (snd (ClearFileHandleCache_path bits path st))"
  using untouched_steps(1) [OF assms] untouched_pool_close [OF assms] isolated_current [OF assms]
  by (auto simp: ClearFileHandleCache_path_def split: option.splits sum.splits)

lemma untouched_create:
  assumes "isolated p st"
  shows "untouched p st (snd (CreateCacheFileHandleForRead bits h st))"
proof -
  let ?k = "handle_key bits (ih_path h) (ih_flags h)"
  let ?ch = "\<lparr>internal_file_handle = h,
    ch_callback = To_Pool ?k (file_handle_cache st) (in_use_file_handle_counter st)\<rparr>"
  have cb: "ch_callback ?ch \<noteq> To_Pool k (Some p) n" for k n
    using isolated_current [OF assms, of p] by auto
  have "untouched p st (add_handle ?ch (st\<lparr>hf_counters := cs\<rparr>))" for cs
    using untouched_trans [OF untouched_steps(7) [OF assms] untouched_add] untouched_steps(7) [OF assms] cb
    unfolding untouched_def by blast
  moreover have "untouched p st (add_handle ?ch st)" using cb by (rule untouched_add [OF assms])
  moreover have "untouched p st (st\<lparr>hf_dropped := hf_dropped st @ [h]\<rparr>)"
    using untouched_steps(4) [OF assms, of h] by (simp add: drop_handle_def)
  ultimately show ?thesis
    by (cases "in_use_file_handle_counter st") (simp_all add: CreateCacheFileHandleForRead_def Let_def)
qed

lemma untouched_open_internal:
  assumes "isolated p st"
  shows "untouched p st (snd (open_internal bits opened st))"
proof -
  have "untouched p st (snd (CreateCacheFileHandleForRead bits h (snd (opened_handle pf st))))" for h pf
    using untouched_steps(5) [OF assms, of pf] untouched_create untouched_trans unfolding untouched_def by blast
  then show ?thesis
    using untouched_steps(1) [OF assms]
    by (auto simp: open_internal_def opened_handle_def split: sum.splits option.splits)
qed

lemma untouched_GetOrCreate:
  assumes "isolated p st"
  shows "untouched p st (snd (GetOrCreateFileHandleForRead bits path flags now opened st))"
proof (cases "OpenForReading bits flags \<and> file_handle_cache st \<noteq> None")
  case False
  then show ?thesis
    using untouched_steps(1) [OF assms] untouched_open_internal [OF assms]
    by (auto simp: GetOrCreateFileHandleForRead_def)
next
  case True
  then obtain q where q: "file_handle_cache st = Some q" by blast
  let ?r = "multi_GetAndPop (handle_key bits path flags) now (hf_pools st ! q)"
  show ?thesis
  proof (cases ?r)
    case (Inl e)
    then show ?thesis using True q untouched_steps(1) [OF assms] by (simp add: GetOrCreateFileHandleForRead_def)
  next
    case (Inr rc)
    let ?st1 = "close_all (evicted_items (fst rc)) (st\<lparr>hf_pools := (hf_pools st)[q := snd rc]\<rparr>)"
    have u1: "untouched p st ?st1"
      using isolated_current [OF assms q] by (rule untouched_pool_close [OF assms])
    have ulog: "untouched p st (log_access a s)" if "untouched p st s" for a s
      using that untouched_steps(3) untouched_trans unfolding untouched_def by blast
    have uc: "untouched p st (snd (CreateCacheFileHandleForRead bits h s))" if "untouched p st s" for h s
      using that untouched_create untouched_trans unfolding untouched_def by blast
    have uo: "untouched p st (snd (open_internal bits opened s))" if "untouched p st s" for s
      using that untouched_open_internal untouched_trans unfolding untouched_def by blast
    show ?thesis
      using True q Inr u1 ulog uc uo
      by (cases rc) (simp add: GetOrCreateFileHandleForRead_def Let_def split: option.splits)
  qed
qed

lemma untouched_OpenFileExtended:
  assumes "isolated p st"
  shows "untouched p st (snd (OpenFileExtended bits cfg path flags now opened st))"
proof -
  let ?st1 = "SetFileHandleCache cfg st"
  let ?r = "if clear_cache_on_write cfg then ClearFileHandleCache_path bits path ?st1 else (None, ?st1)"
  have u1: "untouched p st ?st1" using assms by (rule untouched_SetFileHandleCache)
  then have "untouched p st (snd (ClearFileHandleCache_path bits path ?st1))"
    using untouched_ClearFileHandleCache_path untouched_trans unfolding untouched_def by blast
  with u1 have u2: "untouched p st (snd ?r)" by simp
  obtain e st2 where r: "?r = (e, st2)" by fastforce
  have u2: "untouched p st st2" using u2 unfolding r by simp
  then have i2: "isolated p st2" by (simp add: untouched_def)
  have ug: "untouched p st (snd (GetOrCreateFileHandleForRead bits path flags now opened st2))"
    using u2 untouched_GetOrCreate [OF i2] untouched_trans by blast
  have uw: "untouched p st (add_handle \<lparr>internal_file_handle = h, ch_callback = Do_Nothing\<rparr> (snd (opened_handle pf st2)))" for h pf
  proof -
    have u3: "untouched p st2 (snd (opened_handle pf st2))" using i2 by (rule untouched_steps(5))
    then have "isolated p (snd (opened_handle pf st2))" by (simp add: untouched_def)
    then have "untouched p (snd (opened_handle pf st2))
        (add_handle \<lparr>internal_file_handle = h, ch_callback = Do_Nothing\<rparr> (snd (opened_handle pf st2)))"
      by (rule untouched_add) simp
    then show ?thesis using untouched_trans [OF u2 untouched_trans [OF u3]] by simp
  qed
  show ?thesis
    using u2 ug uw r
    by (cases e) (auto simp: OpenFileExtended_def Let_def opened_handle_def split: sum.splits option.splits)
qed


lemma untouched_return:
  assumes "isolated p st" "pool \<noteq> Some p"
  shows "untouched p st (snd (return_handle h k pool n now st))"
proof (cases pool)
  case None
  then show ?thesis using untouched_steps(4) [OF assms(1)] by (simp add: return_handle_def)
next
  case (Some q)
  have u: "untouched p st (close_all vs (st\<lparr>hf_pools := (hf_pools st)[q := c]\<rparr>))" for vs c
    using assms Some by (intro untouched_pool_close) auto
  have v: "untouched p st ((close_all vs (st\<lparr>hf_pools := (hf_pools st)[q := c]\<rparr>))\<lparr>hf_counters := cs\<rparr>)" for vs c cs
    using u [of vs c] untouched_steps(7) untouched_trans unfolding untouched_def by blast
  show ?thesis
    using Some u v untouched_steps(4) [OF assms(1)]
    by (simp add: return_handle_def Let_def split: sum.splits option.splits prod.splits)
qed

lemma untouched_destroy:
  assumes "isolated p st"
  shows "untouched p st (snd (destroy_handle w now st))"
proof (cases "map_of (hf_handles st) w")
  case (Some ch)
  let ?st1 = "st\<lparr>hf_handles := AList.delete w (hf_handles st)\<rparr>"
  have u1: "untouched p st ?st1" using assms by (rule untouched_steps(8))
  then have i1: "isolated p ?st1" by (simp add: untouched_def)
  have "ch_callback ch \<noteq> To_Pool k (Some p) n" for k n
    using assms map_of_SomeD [OF Some] by (force simp: isolated_def)
  then have "untouched p ?st1 (snd (return_handle h k q n now ?st1))" if "ch_callback ch = To_Pool k q n" for h k q n
    using that by (intro untouched_return [OF i1]) auto
  then show ?thesis
    using Some untouched_trans [OF u1] untouched_steps(4) [OF i1]
    by (simp add: destroy_handle_def Let_def split: dtor_callback.splits)
qed (use untouched_steps(1) [OF assms] in \<open>simp add: destroy_handle_def\<close>)

lemma untouched_do:
  assumes "isolated p st"
  shows "untouched p st (snd (handle_do bits op st))"
  using assms untouched_OpenFileExtended untouched_destroy untouched_on_internal untouched_SetFileHandleCache
    untouched_ClearFileHandleCache untouched_ClearFileHandleCache_path
  by (cases op) (simp_all add: close_handle_def seek_handle_def)

lemma untouched_run:
  assumes "isolated p st" "handle_run bits ops st = (es, st')"
  shows "untouched p st st'"
  using assms
proof (induction ops arbitrary: st es)
  case Nil
  then show ?case using untouched_steps(1) by simp
next
  case (Cons op ops)
  have u: "untouched p st (snd (handle_do bits op st))" using Cons.prems(1) by (rule untouched_do)
  have "\<exists>es1. handle_run bits ops (snd (handle_do bits op st)) = (es1, st')"
    using Cons.prems(2) by (auto split: prod.splits)
  then show ?case using Cons.IH u untouched_trans unfolding untouched_def by blast
qed

text \<open>A pool that admits a value evicts an older one, not the new one.\<close>

lemma abs_in_values:
  assumes "multi_rep c" "x \<in> set (multi_abs c)"
  shows "fst (snd x) \<in># multi_held_all c"
proof -
  obtain i k where ik: "(i, k) \<in> set (sl_nodes (mc_lru_list c))" "x = node_multi c (i, k)"
    using assms(2) by (auto simp: multi_abs_def)
  obtain e where e: "find (\<lambda>e. le_iterator e = i) (multi_entries k c) = Some e"
    using node_has_entry [OF assms(1) ik(1)]
    by (cases "find (\<lambda>e. le_iterator e = i) (multi_entries k c)") (auto simp: find_None_iff)
  then have "e \<in> set (multi_entries k c)" by (auto simp: find_Some_iff)
  then obtain es where "map_of (mc_entry_map c) k = Some es" "e \<in> set es"
    by (cases "map_of (mc_entry_map c) k") (simp_all add: multi_entries_def)
  then have "le_value e \<in># multi_held_all c" by (force simp: multi_all_values_def dest: map_of_SomeD)
  then show ?thesis using ik(2) e by (simp add: node_multi_def)
qed

lemma put_admits:
  assumes "multi_inv c" "multi_Put k v now c = Inr (e, c')" "v \<notin># multi_held_all c"
  shows "v \<in># multi_held_all c'"
proof -
  obtain e1 c1 where "multi_Put k v now c = Inr (e1, c1)" and
    e1: "e1 = (if 0 < mc_max_entries c \<and> mc_max_entries c \<le> mc_total_entries_num c
      then Some (fst (snd (last ((k, v, now) # multi_abs c)))) else None)"
    and vals: "mset (multi_all_values c1) + mset (case e1 of None \<Rightarrow> [] | Some x \<Rightarrow> [x]) =
      add_mset v (mset (multi_all_values c))"
    using multi_Put_correct [OF assms(1)] by metis
  then have eq: "e1 = e" "c1 = c'" using assms(2) by simp_all
  have rep: "multi_rep c" using assms(1) by (simp add: multi_inv_def)
  have "e \<noteq> Some v"
  proof
    assume "e = Some v"
    then have *: "multi_abs c \<noteq> []" "v = fst (snd (last ((k, v, now) # multi_abs c)))"
      using e1 length_multi_abs [OF rep] by (auto simp: eq split: if_splits)
    then have "v \<in># multi_held_all c" using abs_in_values [OF rep, of "last (multi_abs c)"] by simp
    then show False using assms(3) by contradiction
  qed
  moreover have "v \<in># multi_held_all c' + mset (case e of None \<Rightarrow> [] | Some x \<Rightarrow> [x])"
    using vals by (simp add: eq)
  ultimately show ?thesis by (auto split: option.splits)
qed

lemma last_holder_returns:
  assumes ok: "fs_ok bits [] [] st"
    and w: "map_of (hf_handles st) w = Some ch" "ch_callback ch = To_Pool k (Some p) n"
    and cur: "file_handle_cache st \<noteq> Some p"
    and last: "\<forall>x \<in> set (hf_handles st). fst x \<noteq> w \<longrightarrow> (\<forall>k n. ch_callback (snd x) \<noteq> To_Pool k (Some p) n)"
  shows "(internal_file_handle ch)\<lparr>ih_position := 0\<rparr> \<in># multi_held_all (hf_pools (snd (destroy_handle w now st)) ! p) \<and>
    isolated p (snd (destroy_handle w now st))"
proof -
  let ?h = "internal_file_handle ch" and ?st1 = "st\<lparr>hf_handles := AList.delete w (hf_handles st)\<rparr>"
  let ?rewound = "?h\<lparr>ih_position := 0\<rparr>" and ?c = "hf_pools st ! p"
  note okD = fs_okD [OF ok]
  have "handle_ok bits (length (hf_pools st)) (length (hf_counters st)) ch"
    using okD(3) map_of_SomeD [OF w(1)] by (auto simp: handles_ok_def)
  then have p: "p < length (hf_pools st)" and n: "n \<noteq> None" using w(2) by (auto simp: handle_ok_def)
  have inv: "multi_inv ?c" using okD(2) p by (simp add: list_all_length pool_ok_def)
  have "(w, ch) \<in> set (hf_handles st)" using w(1) by (rule map_of_SomeD)
  then have in_wrapped: "ih_id ?h \<in> set (map ih_id (wrapped st))" by (force simp: wrapped_def)
  have "distinct (map ih_id (wrapped st) @ map ih_id (pooled st @ hf_closed st @ hf_dropped st))"
    using ledger_distinct [OF okD(5)] by simp
  with in_wrapped have "ih_id ?h \<notin> ih_id ` set (pooled st)" by (auto simp: image_iff)
  moreover have "set (multi_all_values ?c) \<subseteq> set (pooled st)"
    using nth_mem [OF p] by (auto simp: pooled_def)
  ultimately have fresh: "?rewound \<notin># multi_held_all ?c"
    using imageI [of ?rewound "set (multi_all_values ?c)" ih_id] by auto
  obtain e c where put: "multi_Put k ?rewound now ?c = Inr (e, c)"
    using handle_pool.put_law [OF inv] by blast
  have held: "?rewound \<in># multi_held_all c" using put_admits [OF inv put fresh] .
  let ?st2 = "snd (destroy_handle w now st)"
  have d: "?st2 = snd (return_handle ?h k (Some p) n now ?st1)" using w by (simp add: destroy_handle_def)
  have flds: "hf_pools ?st2 = (hf_pools st)[p := c]" "file_handle_cache ?st2 = file_handle_cache st"
      "hf_handles ?st2 = AList.delete w (hf_handles st)"
    using put unfolding d
    by (simp_all add: return_handle_def close_all_def Let_def split: option.splits sum.splits prod.splits)
  have "isolated p ?st2"
    unfolding isolated_def flds using p cur last by (auto simp: AList.delete_eq)
  then show ?thesis using held p unfolding flds by simp
qed

section \<open>Properties\<close>

text \<open>
  Property C4. Whatever sequence of opens, closes, seeks, destructions, reconfigurations and
  clears a file system goes through, no assertion fails and every error is one that \<open>OpenFile\<close> of
  the wrapped file system raised; every internal handle ever opened is in exactly one place,
  wrapped, pooled, closed, or destroyed; a pooled or wrapped read handle has never been closed, a
  pooled one is rewound; and the in-use counter of every key is the number of live cache file
  handles made with it. Assumes fewer than \<open>2 ^ 32\<close> opens, the width of a counter.
\<close>

theorem handles_accounted:
  assumes "\<forall>op \<in> set ops. op_ok bits op" "sum_list (map opens ops) < U32"
    and "handle_run bits ops handle_fs_new = (es, st)"
  shows "list_all2 (\<lambda>op e. e = None \<or> e = op_error op) ops es \<and>
    mset (map ih_id (wrapped st @ pooled st @ hf_closed st @ hf_dropped st)) = mset [0..<hf_next st] \<and>
    (\<forall>h \<in> set (pooled st). \<not> ih_closed h \<and> OpenForReading bits (ih_flags h) \<and> ih_position h = 0) \<and>
    (\<forall>x \<in> set (hf_handles st). ch_callback (snd x) \<noteq> Do_Nothing \<longrightarrow> \<not> ih_closed (internal_file_handle (snd x))) \<and>
    (\<forall>n k. in_use_file_handle_counter st = Some n \<longrightarrow>
       counter_GetCount k (hf_counters st ! n) = uses n k (hf_handles st))"
proof -
  have run: "fs_ok bits [] [] st" "list_all2 (\<lambda>op e. e = None \<or> e = op_error op) ops es"
    using handle_run_ok [OF fs_ok_new assms(1) _ assms(3)] assms(2) by (simp_all add: handle_fs_new_def)
  note okD = fs_okD [OF run(1)]
  have "\<not> ih_closed h \<and> OpenForReading bits (ih_flags h) \<and> ih_position h = 0" if "h \<in> set (pooled st)" for h
    using that okD(2) by (auto simp: pooled_def list_all_iff pool_ok_def usable_def)
  moreover have "\<not> ih_closed (internal_file_handle (snd x))"
    if "x \<in> set (hf_handles st)" "ch_callback (snd x) \<noteq> Do_Nothing" for x
    using that okD(3)
    by (cases "ch_callback (snd x)") (force simp: handles_ok_def handle_ok_def usable_def)+
  moreover have "counter_GetCount k (hf_counters st ! n) = uses n k (hf_handles st)"
    if "in_use_file_handle_counter st = Some n" for n k
    using that okD(1,4) by (simp add: pointers_ok_def counts_ok_def)
  ultimately show ?thesis using run(2) okD(5) by (simp add: ledger_def)
qed


definition example_bits :: open_flag_bits where
  "example_bits = \<lparr>FILE_FLAGS_READ = 1, FILE_FLAGS_PARALLEL_ACCESS = 4\<rparr>"

definition example_pool_config :: "bool \<Rightarrow> handle_config" where
  "example_pool_config enabled =
     \<lparr>enable_file_handle_cache = enabled, max_file_handle_cache_entry = 2,
      file_handle_cache_entry_timeout_millisec = 0, clear_cache_on_write = False\<rparr>"

definition example_open :: handle_op where
  "example_open = Open (example_pool_config True) ''f'' 1 7 (Inr (Some (''f'', 1)))"

lemmas handle_eval =
  example_open_def example_bits_def example_pool_config_def handle_fs_new_def OpenFileExtended_def
  SetFileHandleCache_def ClearFileHandleCache_def GetOrCreateFileHandleForRead_def OpenForReading_def
  open_internal_def opened_handle_def CreateCacheFileHandleForRead_def handle_key_def add_handle_def
  destroy_handle_def return_handle_def close_all_def log_access_def counter_Increment_def
  counter_Decrement_def counter_GetCount_def U32_def multi_new_def multi_GetAndPop_def multi_pop_front_def
  multi_DeleteFirstEntry_def multi_entries_def multi_Put_def multi_push_def multi_ClearAndGetValues_def
  multi_all_values_def Let_def

lemma example_open_ok: "op_ok example_bits example_open"
  by (simp add: example_open_def example_bits_def open_ok_def OpenForReading_def)

lemma handles_accounted_witness:
  "fst (handle_run example_bits [example_open, example_open, Destroy 0 8, example_open] handle_fs_new) =
     [None, None, None, None] \<and>
   mset (map ih_id (let st = snd (handle_run example_bits [example_open, example_open, Destroy 0 8, example_open]
     handle_fs_new) in wrapped st @ pooled st @ hf_closed st @ hf_dropped st)) = {#0, 1#}"
proof -
  let ?ops = "[example_open, example_open, Destroy 0 8, example_open]"
  obtain es st where run: "handle_run example_bits ?ops handle_fs_new = (es, st)" by fastforce
  have "hf_next (snd (handle_run example_bits ?ops handle_fs_new)) = 2"
      "fst (handle_run example_bits ?ops handle_fs_new) = [None, None, None, None]" by (simp_all add: handle_eval)
  then have n: "hf_next st = 2" "es = [None, None, None, None]" using run by simp_all
  have "\<forall>op \<in> set ?ops. op_ok example_bits op" by (simp add: example_open_ok)
  moreover have "sum_list (map opens ?ops) < U32" by (simp add: example_open_def U32_def)
  ultimately have "mset (map ih_id (wrapped st @ pooled st @ hf_closed st @ hf_dropped st)) = mset [0..<hf_next st]"
    using handles_accounted [OF _ _ run] by blast
  also have "\<dots> = {#0, 1#}" unfolding n(1) by (simp add: numeral_2_eq_2 atLeast0_lessThan_Suc)
  finally show ?thesis using run n(2) by (simp add: Let_def)
qed




end
