(* ===== verification/File_Metadata.thy ===== *)
theory File_Metadata
  imports Get_Or_Create
begin

text \<open>
  The metadata cache and the glob cache of the cache file system (\<open>src/cache_filesystem.cpp\<close>):
  file size and modification time by path, and glob results by pattern, each on the shared-value
  LRU cache through \<open>GetOrCreate\<close>. What the wrapped file system answers is an argument.
\<close>

section \<open>GetOrCreate by one caller\<close>

text \<open>
  A call of \<open>GetOrCreate\<close> that no other call of the key overlaps: the value and whether it was
  cached, the cache, and what the factory made of its own state. The factory runs unlocked, so the
  look-up and the insertion read the clock apart. Overlapping calls are \<open>Get_Or_Create\<close>'s subject.
\<close>

definition get_or_create ::
  "'k::linorder \<Rightarrow> nat \<Rightarrow> nat \<Rightarrow> ('s \<Rightarrow> 'v result \<times> 's) \<Rightarrow> 's \<Rightarrow> ('k, 'v) lru_state \<Rightarrow>
   'v result \<times> bool \<times> ('k, 'v) lru_state \<times> 's" where
  "get_or_create key now now' factory s c =
     (case shared_Get key now c of
        (Some v, c1) \<Rightarrow> (Inr v, True, c1, s)
      | (None, c1) \<Rightarrow>
          (case factory s of
             (Inl e, s1) \<Rightarrow> (Inl e, False, c1, s1)
           | (Inr v, s1) \<Rightarrow> (Inr v, False, shared_Put key v now' c1, s1)))"

section \<open>File metadata\<close>

record FileMetadata =
  fm_file_size :: int
  fm_last_modification_time :: int

text \<open>What the wrapped file system answers when asked about one handle.\<close>

record remote_metadata =
  rm_Stats :: "FileMetadata result"
  rm_GetFileSize :: "int result"
  rm_GetLastModifiedTime :: "int result"

type_synonym metadata_cache = "(string, FileMetadata) lru_state"

record metadata_config =
  enable_metadata_cache :: bool
  max_metadata_cache_entry :: nat
  metadata_cache_entry_timeout_millisec :: nat

definition SetMetadataCache :: "metadata_config \<Rightarrow> metadata_cache option \<Rightarrow> metadata_cache option" where
  "SetMetadataCache cfg mc =
     (if \<not> enable_metadata_cache cfg then None
      else (case mc of
              None \<Rightarrow> Some (lru_new (max_metadata_cache_entry cfg) (metadata_cache_entry_timeout_millisec cfg))
            | Some c \<Rightarrow> Some c))"

definition GetMetadataFallback :: "remote_metadata \<Rightarrow> FileMetadata result" where
  "GetMetadataFallback r =
     (case rm_GetFileSize r of
        Inl e \<Rightarrow> Inl e
      | Inr bytes \<Rightarrow>
          (case rm_GetLastModifiedTime r of
             Inl e \<Rightarrow> Inl e
           | Inr time \<Rightarrow> Inr \<lparr>fm_file_size = bytes, fm_last_modification_time = time\<rparr>))"

definition metadata_factory :: "remote_metadata \<Rightarrow> unit \<Rightarrow> FileMetadata result \<times> unit" where
  "metadata_factory r s =
     (case rm_Stats r of Inr m \<Rightarrow> (Inr m, s) | Inl _ \<Rightarrow> (GetMetadataFallback r, s))"

definition cached_metadata ::
  "string \<Rightarrow> nat \<Rightarrow> nat \<Rightarrow> remote_metadata \<Rightarrow> metadata_cache \<Rightarrow>
   FileMetadata result \<times> bool \<times> metadata_cache \<times> unit" where
  "cached_metadata path now now' r c = get_or_create path now now' (metadata_factory r) () c"

text \<open>The three queries: the answer, the cache, and the cache access recorded (\<open>True\<close> a hit).\<close>

definition fs_Stats ::
  "string \<Rightarrow> nat \<Rightarrow> nat \<Rightarrow> remote_metadata \<Rightarrow> metadata_cache option \<Rightarrow>
   FileMetadata result \<times> metadata_cache option \<times> bool list" where
  "fs_Stats path now now' r mc =
     (case mc of
        None \<Rightarrow> (rm_Stats r, None, [])
      | Some c \<Rightarrow>
          (case cached_metadata path now now' r c of
             (Inl e, _, c1, _) \<Rightarrow> (Inl e, Some c1, [])
           | (Inr m, hit, c1, _) \<Rightarrow> (Inr m, Some c1, [hit])))"

definition GetFileSize ::
  "string \<Rightarrow> nat \<Rightarrow> nat \<Rightarrow> remote_metadata \<Rightarrow> metadata_cache option \<Rightarrow>
   int result \<times> metadata_cache option \<times> bool list" where
  "GetFileSize path now now' r mc =
     (case mc of
        None \<Rightarrow> (rm_GetFileSize r, None, [])
      | Some c \<Rightarrow>
          (case cached_metadata path now now' r c of
             (Inl e, _, c1, _) \<Rightarrow> (Inl e, Some c1, [])
           | (Inr m, hit, c1, _) \<Rightarrow> (Inr (fm_file_size m), Some c1, [hit])))"

definition GetLastModifiedTime ::
  "string \<Rightarrow> nat \<Rightarrow> nat \<Rightarrow> remote_metadata \<Rightarrow> metadata_cache option \<Rightarrow>
   int result \<times> metadata_cache option \<times> bool list" where
  "GetLastModifiedTime path now now' r mc =
     (case mc of
        None \<Rightarrow> (rm_GetLastModifiedTime r, None, [])
      | Some c \<Rightarrow>
          (case cached_metadata path now now' r c of
             (Inl e, _, c1, _) \<Rightarrow> (Inl e, Some c1, [])
           | (Inr m, hit, c1, _) \<Rightarrow> (Inr (fm_last_modification_time m), Some c1, [hit])))"

section \<open>Glob\<close>

text \<open>
  The extended information of a listed file is DuckDB's map of options; the two options read here
  are integers.
\<close>

record OpenFileInfo =
  of_path :: string
  of_extended_info :: "(string \<times> int) list option"

definition FILE_SIZE_INFO_KEY :: string where
  "FILE_SIZE_INFO_KEY = ''file_size''"

definition LAST_MOD_TIMESTAMP_KEY :: string where
  "LAST_MOD_TIMESTAMP_KEY = ''last_modified''"

definition info_metadata :: "OpenFileInfo \<Rightarrow> FileMetadata option" where
  "info_metadata f =
     (case of_extended_info f of
        None \<Rightarrow> None
      | Some options \<Rightarrow>
          (case map_of options FILE_SIZE_INFO_KEY of
             None \<Rightarrow> None
           | Some bytes \<Rightarrow>
               (case map_of options LAST_MOD_TIMESTAMP_KEY of
                  None \<Rightarrow> None
                | Some time \<Rightarrow> Some \<lparr>fm_file_size = bytes, fm_last_modification_time = time\<rparr>)))"

definition put_info :: "nat \<Rightarrow> OpenFileInfo \<Rightarrow> metadata_cache \<Rightarrow> metadata_cache" where
  "put_info now f c = (case info_metadata f of None \<Rightarrow> c | Some m \<Rightarrow> shared_Put (of_path f) m now c)"

definition GlobImpl ::
  "metadata_config \<Rightarrow> nat \<Rightarrow> OpenFileInfo list result \<Rightarrow> metadata_cache option \<Rightarrow>
   OpenFileInfo list result \<times> metadata_cache option" where
  "GlobImpl cfg now globbed mc =
     (case globbed of
        Inl e \<Rightarrow> (Inl e, mc)
      | Inr open_file_info \<Rightarrow>
          (Inr open_file_info, map_option (fold (put_info now) open_file_info) (SetMetadataCache cfg mc)))"

type_synonym glob_cache = "(string, OpenFileInfo list) lru_state"

record glob_config =
  enable_glob_cache :: bool
  max_glob_cache_entry :: nat
  glob_cache_entry_timeout_millisec :: nat

definition SetGlobCache :: "glob_config \<Rightarrow> glob_cache option \<Rightarrow> glob_cache option" where
  "SetGlobCache cfg gc =
     (if \<not> enable_glob_cache cfg then None
      else (case gc of
              None \<Rightarrow> Some (lru_new (max_glob_cache_entry cfg) (glob_cache_entry_timeout_millisec cfg))
            | Some c \<Rightarrow> Some c))"

text \<open>
  \<open>Glob\<close> after \<open>InitializeGlobalConfig\<close>: \<open>globbed\<close> is the answer of the wrapped file system's
  \<open>Glob\<close> with options, \<open>plain\<close> the one of its \<open>Glob\<close> without, \<open>has_glob\<close> DuckDB's test for glob
  characters.
\<close>

definition Glob ::
  "metadata_config \<Rightarrow> (string \<Rightarrow> bool) \<Rightarrow> string \<Rightarrow> nat \<Rightarrow> nat \<Rightarrow> OpenFileInfo list result \<Rightarrow>
   OpenFileInfo list result \<Rightarrow> metadata_cache option \<Rightarrow> glob_cache option \<Rightarrow>
   OpenFileInfo list result \<times> metadata_cache option \<times> glob_cache option \<times> bool list" where
  "Glob cfg has_glob path now now' globbed plain mc gc =
     (case gc of
        None \<Rightarrow> (case GlobImpl cfg now globbed mc of (r, mc1) \<Rightarrow> (r, mc1, None, []))
      | Some c \<Rightarrow>
          if \<not> has_glob path then (plain, mc, Some c, [])
          else (case get_or_create path now now' (GlobImpl cfg now globbed) mc c of
                  (Inl e, _, c1, mc1) \<Rightarrow> (Inl e, mc1, Some c1, [])
                | (Inr fs, hit, c1, mc1) \<Rightarrow> (Inr fs, mc1, Some c1, [hit])))"

section \<open>Agreement with the concurrent GetOrCreate\<close>

text \<open>
  A thread that enters, finds no creation of its key under way and, on a miss, runs the factory
  and completes, ends with the value, the cache and the hit \<open>get_or_create\<close> says, and leaves no
  creation of the key behind.
\<close>

lemma get_or_create_alone:
  assumes i: "i < length (gs_threads s)" and alone: "gs_ongoing s key = None"
    and run: "get_or_create key now now' factory x (gs_cache s) = (r, hit, c, x')"
  defines "s1 \<equiv> goc_enter shared_Get key now i s"
  defines "s2 \<equiv> (if hit then s1 else goc_finish shared_Put key (gs_next s) r now' i s1)"
  shows "gs_threads s1 ! i = (if hit then Done key r else Creating key (gs_next s)) \<and>
    (\<not> hit \<longrightarrow> factory x = (r, x')) \<and>
    gs_threads s2 ! i = Done key r \<and> gs_cache s2 = c \<and> gs_ongoing s2 key = None"
proof (cases "shared_Get key now (gs_cache s)")
  case (Pair v c1)
  show ?thesis
  proof (cases v)
    case (Some a)
    then show ?thesis
      using i alone run Pair by (simp add: s2_def s1_def goc_enter_def get_or_create_def)
  next
    case None
    obtain q x1 where f: "factory x = (q, x1)" by fastforce
    have "r = q" "\<not> hit" "x' = x1" "c = (case q of Inl e \<Rightarrow> c1 | Inr v \<Rightarrow> shared_Put key v now' c1)"
      using run Pair None f by (auto simp: get_or_create_def split: sum.splits)
    then show ?thesis
      using i alone Pair None f
      by (simp add: s2_def s1_def goc_enter_def goc_finish_def goc_release_def Let_def split: sum.splits)
  qed
qed

section \<open>What the caches hold\<close>

definition cache_sound :: "('k::linorder \<Rightarrow> 'v \<Rightarrow> bool) \<Rightarrow> ('k, 'v) lru_state \<Rightarrow> bool" where
  "cache_sound Q c \<longleftrightarrow> shared_inv c \<and> (\<forall>k v ts. (k, v, ts) \<in> set (lru_abs c) \<longrightarrow> Q k v)"

lemma cache_sound_new [simp]: "cache_sound Q (lru_new m t)"
  by (simp add: cache_sound_def lru_abs_def) (simp add: lru_new_def sl_empty_def)

lemma set_spec_get: "set (snd (spec_get t k now xs)) \<subseteq> set xs"
  by (auto simp: spec_get_def AList.delete_eq split: option.splits if_splits dest: map_of_SomeD)

lemma spec_get_value: "fst (spec_get t k now xs) = Some v \<Longrightarrow> \<exists>ts. (k, v, ts) \<in> set xs"
  by (auto simp: spec_get_def split: option.splits if_splits dest!: map_of_SomeD)

lemma set_spec_put: "set (spec_put cap k v now xs) \<subseteq> insert (k, v, now) (set xs)"
  by (auto simp: spec_put_def spec_trim_def AList.delete_eq dest: in_set_butlastD split: if_splits)

lemma cache_sound_Get:
  assumes "cache_sound Q c"
  shows "cache_sound Q (snd (shared_Get k now c))" "fst (shared_Get k now c) = Some v \<Longrightarrow> Q k v"
proof -
  have inv: "shared_inv c" using assms by (simp add: cache_sound_def)
  note get = shared_Get_correct [OF inv, of k now]
  show "cache_sound Q (snd (shared_Get k now c))"
    using assms set_spec_get [of "timeout_millisec c" k now "lru_abs c"] shared.inv_get [OF inv]
    unfolding cache_sound_def get(3) by blast
  show "Q k v" if "fst (shared_Get k now c) = Some v"
    using spec_get_value [OF that [unfolded get(2)]] assms by (auto simp: cache_sound_def)
qed

lemma cache_sound_Put:
  assumes "cache_sound Q c" "Q k v"
  shows "cache_sound Q (shared_Put k v now c)"
proof -
  have inv: "shared_inv c" using assms by (simp add: cache_sound_def)
  show ?thesis
    using assms set_spec_put [of "max_entries c" k v now "lru_abs c"] shared.inv_put [OF inv]
    unfolding cache_sound_def shared_Put_correct(2) [OF inv] by blast
qed

lemma get_or_create_sound:
  assumes "cache_sound Q c" "get_or_create key now now' factory s c = (r, hit, c', s')"
    and "\<And>v s'. factory s = (Inr v, s') \<Longrightarrow> Q key v"
  shows "cache_sound Q c'" "r = Inr v \<Longrightarrow> Q key v" "hit \<Longrightarrow> s' = s" "\<not> hit \<Longrightarrow> factory s = (r, s')"
proof -
  obtain q c1 where g: "shared_Get key now c = (q, c1)" by fastforce
  have c1: "cache_sound Q c1" "q = Some v \<Longrightarrow> Q key v" for v
    using cache_sound_Get [OF assms(1), of key now] g by auto
  show "cache_sound Q c'" "r = Inr v \<Longrightarrow> Q key v" "hit \<Longrightarrow> s' = s" "\<not> hit \<Longrightarrow> factory s = (r, s')"
    using assms(2,3) c1 cache_sound_Put [OF c1(1)]
    by (auto simp: get_or_create_def g split: option.splits sum.splits prod.splits)
qed


section \<open>Properties\<close>

text \<open>
  A wrapped file system answers truthfully about a path when each query it supports returns the
  metadata of the file, and the two single queries work where \<open>Stats\<close> does not.
\<close>

definition truthful :: "FileMetadata \<Rightarrow> remote_metadata \<Rightarrow> bool" where
  "truthful m r \<longleftrightarrow> (\<forall>x. rm_Stats r = Inr x \<longrightarrow> x = m) \<and>
     rm_GetFileSize r = Inr (fm_file_size m) \<and> rm_GetLastModifiedTime r = Inr (fm_last_modification_time m)"

definition metadata_sound :: "(string \<Rightarrow> FileMetadata) \<Rightarrow> metadata_cache option \<Rightarrow> bool" where
  "metadata_sound truth mc \<longleftrightarrow> (\<forall>c. mc = Some c \<longrightarrow> cache_sound (\<lambda>k v. v = truth k) c)"

lemma cached_metadata_sound:
  assumes sound: "cache_sound (\<lambda>k v. v = truth k) c" and r: "truthful (truth path) r"
  obtains hit c' where "cached_metadata path now now' r c = (Inr (truth path), hit, c', ())"
    "cache_sound (\<lambda>k v. v = truth k) c'"
proof -
  have fac: "metadata_factory r () = (Inr (truth path), ())"
    using r by (auto simp: metadata_factory_def GetMetadataFallback_def truthful_def split: sum.splits)
  obtain q hit c' u where run: "get_or_create path now now' (metadata_factory r) () c = (q, hit, c', u)"
    by (metis prod_cases4)
  have *: "cache_sound (\<lambda>k v. v = truth k) c'" "\<And>v. q = Inr v \<Longrightarrow> v = truth path"
      "\<not> hit \<Longrightarrow> metadata_factory r () = (q, u)"
    using get_or_create_sound [OF sound run] fac by auto
  have "hit \<Longrightarrow> \<exists>v. q = Inr v"
    using run by (auto simp: get_or_create_def split: option.splits sum.splits prod.splits)
  then have "q = Inr (truth path)" using *(2,3) fac by (cases hit) auto
  then show ?thesis using that *(1) run by (simp add: cached_metadata_def)
qed

lemma GetFileSize_sound:
  assumes "metadata_sound truth mc" "truthful (truth path) r"
  shows "\<exists>mc' log. GetFileSize path now now' r mc = (Inr (fm_file_size (truth path)), mc', log) \<and> metadata_sound truth mc'"
proof (cases mc)
  case None
  then show ?thesis using assms by (simp add: GetFileSize_def truthful_def metadata_sound_def)
next
  case (Some c)
  have "cache_sound (\<lambda>k v. v = truth k) c" using assms(1) Some by (simp add: metadata_sound_def)
  then obtain hit c' where "cached_metadata path now now' r c = (Inr (truth path), hit, c', ())"
    "cache_sound (\<lambda>k v. v = truth k) c'"
    using assms(2) by (rule cached_metadata_sound)
  then show ?thesis using Some by (simp add: GetFileSize_def metadata_sound_def)
qed


definition example_metadata :: "string \<Rightarrow> FileMetadata" where
  "example_metadata path = \<lparr>fm_file_size = 8, fm_last_modification_time = 77\<rparr>"


lemma put_info_sound:
  assumes "cache_sound (\<lambda>k v. v = truth k) c" "\<forall>f \<in> set fs. \<forall>m. info_metadata f = Some m \<longrightarrow> m = truth (of_path f)"
  shows "cache_sound (\<lambda>k v. v = truth k) (fold (put_info now) fs c)"
  using assms
  by (induction fs arbitrary: c) (auto simp: put_info_def cache_sound_Put split: option.splits)

lemma SetMetadataCache_sound: "metadata_sound truth mc \<Longrightarrow> metadata_sound truth (SetMetadataCache cfg mc)"
  by (auto simp: metadata_sound_def SetMetadataCache_def split: option.splits)

lemma GlobImpl_sound:
  assumes "metadata_sound truth mc" "\<forall>f \<in> set fs. \<forall>m. info_metadata f = Some m \<longrightarrow> m = truth (of_path f)"
  shows "metadata_sound truth (snd (GlobImpl cfg now (Inr fs) mc))"
  using SetMetadataCache_sound [OF assms(1), of cfg] put_info_sound [OF _ assms(2)]
  by (auto simp: metadata_sound_def GlobImpl_def)

text \<open>
  Property C33. Globbing is transparent while the listing does not change: with the cache off, a
  miss, an expired entry or a hit, a pattern with glob characters gives the wrapped file system's
  listing; the glob cache goes on holding only right listings; and the metadata a listing carries
  enters the metadata cache without making it wrong.
\<close>

theorem glob_is_transparent:
  assumes "has_glob pattern" "\<And>c. gc = Some c \<Longrightarrow> cache_sound (\<lambda>k v. v = listing k) c"
    and "metadata_sound truth mc"
    and "\<forall>f \<in> set (listing pattern). \<forall>m. info_metadata f = Some m \<longrightarrow> m = truth (of_path f)"
    and "Glob cfg has_glob pattern now now' (Inr (listing pattern)) plain mc gc = (r, mc', gc', log)"
  shows "r = Inr (listing pattern) \<and> metadata_sound truth mc' \<and>
    (\<forall>c. gc' = Some c \<longrightarrow> cache_sound (\<lambda>k v. v = listing k) c) \<and>
    (log = [True] \<longrightarrow> mc' = mc)"
proof (cases gc)
  case None
  have "snd (GlobImpl cfg now (Inr (listing pattern)) mc) = mc'" "r = Inr (listing pattern)" "gc' = None" "log = []"
    using assms(5) None by (auto simp: Glob_def GlobImpl_def)
  then show ?thesis using GlobImpl_sound [OF assms(3,4), of cfg now] by simp
next
  case (Some c)
  let ?f = "GlobImpl cfg now (Inr (listing pattern))"
  obtain q hit c1 mc1 where run: "get_or_create pattern now now' ?f mc c = (q, hit, c1, mc1)"
    by (metis prod_cases4)
  have f: "fst (?f mc) = Inr (listing pattern)" by (simp add: GlobImpl_def)
  then have fv: "v = listing pattern" if "?f mc = (Inr v, s)" for v s using that by simp
  have s: "cache_sound (\<lambda>k v. v = listing k) c1" "\<And>v. q = Inr v \<Longrightarrow> v = listing pattern"
      "hit \<Longrightarrow> mc1 = mc" "\<not> hit \<Longrightarrow> ?f mc = (q, mc1)"
    using get_or_create_sound [OF assms(2) [OF Some] run] fv by blast+
  have "hit \<Longrightarrow> \<exists>v. q = Inr v"
    using run by (auto simp: get_or_create_def split: option.splits sum.splits prod.splits)
  then have q: "q = Inr (listing pattern)" using s(2,4) f by (cases hit) auto
  have "metadata_sound truth mc1"
    using assms(3) s(3,4) GlobImpl_sound [OF assms(3,4), of cfg now] by (cases hit) auto
  moreover have "r = q" "mc' = mc1" "gc' = Some c1" "log = [hit]"
    using assms(1,5) Some run q by (simp_all add: Glob_def)
  ultimately show ?thesis using q s(1,3) by simp
qed

lemma glob_is_transparent_witness:
  "\<exists>mc' gc' log. Glob \<lparr>enable_metadata_cache = True, max_metadata_cache_entry = 4, metadata_cache_entry_timeout_millisec = 0\<rparr>
     (\<lambda>p. CHR ''*'' \<in> set p) ''*'' 1 2
     (Inr [\<lparr>of_path = ''f'', of_extended_info = Some [(FILE_SIZE_INFO_KEY, 8), (LAST_MOD_TIMESTAMP_KEY, 77)]\<rparr>])
     (Inr []) None (Some (lru_new 4 0)) =
     (Inr [\<lparr>of_path = ''f'', of_extended_info = Some [(FILE_SIZE_INFO_KEY, 8), (LAST_MOD_TIMESTAMP_KEY, 77)]\<rparr>], mc', gc', log) \<and>
     metadata_sound example_metadata mc'"
proof -
  let ?cfg = "\<lparr>enable_metadata_cache = True, max_metadata_cache_entry = 4, metadata_cache_entry_timeout_millisec = 0\<rparr>"
  let ?hg = "\<lambda>p. CHR ''*'' \<in> set p"
  let ?l = "\<lambda>_. [\<lparr>of_path = ''f'', of_extended_info = Some [(FILE_SIZE_INFO_KEY, 8), (LAST_MOD_TIMESTAMP_KEY, 77)]\<rparr>]"
  obtain r mc' gc' log where run:
    "Glob ?cfg ?hg ''*'' 1 2 (Inr (?l ''*'')) (Inr []) None (Some (lru_new 4 0)) = (r, mc', gc', log)"
    by (metis prod_cases4)
  have "\<forall>f \<in> set (?l ''*''). \<forall>m. info_metadata f = Some m \<longrightarrow> m = example_metadata (of_path f)"
    by (simp add: info_metadata_def example_metadata_def FILE_SIZE_INFO_KEY_def LAST_MOD_TIMESTAMP_KEY_def)
  moreover have "metadata_sound example_metadata None" by (simp add: metadata_sound_def)
  ultimately have "r = Inr (?l ''*'') \<and> metadata_sound example_metadata mc'"
    using glob_is_transparent [where listing = ?l and has_glob = ?hg and pattern = "''*''" and gc = "Some (lru_new 4 0)"
        and truth = example_metadata and mc = None, OF _ _ _ _ run] by simp
  with run show ?thesis by (intro exI [of _ mc'] exI [of _ gc'] exI [of _ log]) simp
qed

end
