(* ===== verification/Cached_Read.thy ===== *)
theory Cached_Read
  imports Disk_Cache_Reader File_Metadata
begin

text \<open>
  Reading through the cache file system: \<open>Read\<close> and \<open>sized_read\<close> (\<open>src/cache_filesystem.cpp\<close>) on top
  of a cache reader. What the file system relies on of a reader is the locale \<open>cache_reader\<close>; the
  pass-through reader (\<open>src/noop_cache_reader.cpp\<close>), the in-memory reader and the on-disk reader
  implement it. A \<open>ReadAndCache\<close> may return in several ways, one per interleaving, so it is a
  relation between the memory and state before and the result, memory and state after.
\<close>

section \<open>Integer conversions\<close>

text \<open>Between \<open>int64_t\<close> and \<open>idx_t\<close>, as C++ converts them.\<close>

definition to_idx :: "int \<Rightarrow> idx_t" where
  "to_idx i = nat (i mod 2 ^ 64)"

definition from_idx :: "idx_t \<Rightarrow> int" where
  "from_idx n = (if n < 2 ^ 63 then int n else int n - 2 ^ 64)"

lemma to_idx_nonneg: "0 \<le> i \<Longrightarrow> i < 2 ^ 64 \<Longrightarrow> to_idx i = nat i"
  by (simp add: to_idx_def)

lemma from_idx_small: "n < 2 ^ 63 \<Longrightarrow> from_idx n = int n"
  by (simp add: from_idx_def)

section \<open>Paths excluded from caching\<close>

text \<open>
  \<open>std::regex\<close> is a parameter: which strings compile, and \<open>regex_search\<close>. Adding compiles first, so
  a string that does not compile changes nothing.
\<close>

record exclusion_manager =
  exclusion_regexes :: "string list"
  exclusion_patterns :: "string list"

definition AddExclusionRegex :: "(string \<Rightarrow> bool) \<Rightarrow> string \<Rightarrow> exclusion_manager \<Rightarrow> exclusion_manager result" where
  "AddExclusionRegex compiles regex xm =
     (if compiles regex
      then Inr (xm\<lparr>exclusion_regexes := exclusion_regexes xm @ [regex],
                   exclusion_patterns := exclusion_patterns xm @ [regex]\<rparr>)
      else Inl (InvalidInputException ''regex_error''))"

definition ResetExclusionRegex :: "exclusion_manager \<Rightarrow> exclusion_manager" where
  "ResetExclusionRegex xm = xm\<lparr>exclusion_regexes := [], exclusion_patterns := []\<rparr>"

definition MatchAnyExclusion :: "(string \<Rightarrow> string \<Rightarrow> bool) \<Rightarrow> string \<Rightarrow> exclusion_manager \<Rightarrow> bool" where
  "MatchAnyExclusion regex_search filepath xm = list_ex (regex_search filepath) (exclusion_regexes xm)"

definition GetExclusionRegex :: "exclusion_manager \<Rightarrow> string list" where
  "GetExclusionRegex xm = exclusion_patterns xm"

section \<open>ReadImpl and Read\<close>

datatype read_action =
    End_Of_File
  | Read_Directly int
  | Read_And_Cache int

definition read_action_of :: "bool \<Rightarrow> int \<Rightarrow> idx_t \<Rightarrow> int \<Rightarrow> read_action" where
  "read_action_of excluded nr_bytes location file_size =
     (if to_idx file_size \<le> location then End_Of_File
      else (let bytes_to_read = min nr_bytes (from_idx (u64_sub (to_idx file_size) location))
            in if excluded then Read_Directly bytes_to_read else Read_And_Cache bytes_to_read))"

type_synonym 's reader = "addr \<Rightarrow> idx_t \<Rightarrow> idx_t \<Rightarrow> idx_t \<Rightarrow> memory \<Rightarrow> 's \<Rightarrow> unit result \<Rightarrow> memory \<Rightarrow> 's \<Rightarrow> bool"

text \<open>
  \<open>ReadImpl\<close> once the file size is known: \<open>rd\<close> is the read of the wrapped file system and \<open>read\<close>
  the \<open>ReadAndCache\<close> of the current reader.
\<close>

inductive sized_read ::
  "'s reader \<Rightarrow> (idx_t \<Rightarrow> idx_t \<Rightarrow> byte list result) \<Rightarrow> bool \<Rightarrow> addr \<Rightarrow> int \<Rightarrow> idx_t \<Rightarrow> int \<Rightarrow> memory \<Rightarrow> 's \<Rightarrow>
   int result \<Rightarrow> memory \<Rightarrow> 's \<Rightarrow> bool"
  for read rd excluded buffer nr_bytes location file_size m s where
  at_end: "read_action_of excluded nr_bytes location file_size = End_Of_File \<Longrightarrow>
    sized_read read rd excluded buffer nr_bytes location file_size m s (Inr 0) m s"
| direct: "read_action_of excluded nr_bytes location file_size = Read_Directly n \<Longrightarrow>
    rd location (to_idx n) = Inr bytes \<Longrightarrow>
    sized_read read rd excluded buffer nr_bytes location file_size m s (Inr n) (mem_write buffer bytes m) s"
| direct_error: "read_action_of excluded nr_bytes location file_size = Read_Directly n \<Longrightarrow>
    rd location (to_idx n) = Inl e \<Longrightarrow>
    sized_read read rd excluded buffer nr_bytes location file_size m s (Inl e) m s"
| cached: "read_action_of excluded nr_bytes location file_size = Read_And_Cache n \<Longrightarrow>
    read buffer location (to_idx n) (to_idx file_size) m s (Inr ()) m' s' \<Longrightarrow>
    sized_read read rd excluded buffer nr_bytes location file_size m s (Inr n) m' s'"
| cached_error: "read_action_of excluded nr_bytes location file_size = Read_And_Cache n \<Longrightarrow>
    read buffer location (to_idx n) (to_idx file_size) m s (Inl e) m' s' \<Longrightarrow>
    sized_read read rd excluded buffer nr_bytes location file_size m s (Inl e) m' s'"

inductive_cases sized_readE: "sized_read read rd excluded buffer nr_bytes location file_size m s r m' s'"

text \<open>
  The whole of \<open>ReadImpl\<close>: the file size comes from the metadata cache \<open>mc\<close> or from the wrapped file
  system's \<open>answers\<close> about \<open>path\<close>. \<open>excluded\<close> says whether an exclusion matches the path.
\<close>

definition ReadImpl ::
  "'s reader \<Rightarrow> (idx_t \<Rightarrow> idx_t \<Rightarrow> byte list result) \<Rightarrow> bool \<Rightarrow> string \<Rightarrow> nat \<Rightarrow> nat \<Rightarrow> remote_metadata \<Rightarrow> addr \<Rightarrow> int \<Rightarrow> idx_t \<Rightarrow>
   memory \<Rightarrow> metadata_cache option \<Rightarrow> 's \<Rightarrow> int result \<Rightarrow> memory \<Rightarrow> metadata_cache option \<Rightarrow> 's \<Rightarrow> bool" where
  "ReadImpl read rd excluded path now now' answers buffer nr_bytes location m mc s r m' mc' s' \<longleftrightarrow>
     (case GetFileSize path now now' answers mc of
        (Inl e, mc1, _) \<Rightarrow> r = Inl e \<and> m' = m \<and> mc' = mc1 \<and> s' = s
      | (Inr file_size, mc1, _) \<Rightarrow> mc' = mc1 \<and> sized_read read rd excluded buffer nr_bytes location file_size m s r m' s')"

text \<open>\<open>Read\<close> without a location reads at the file position and advances it by the bytes read.\<close>

definition position_after :: "idx_t \<Rightarrow> int result \<Rightarrow> idx_t" where
  "position_after offset r = (case r of Inl e \<Rightarrow> offset | Inr bytes_read \<Rightarrow> u64_add offset (to_idx bytes_read))"

definition fs_Read ::
  "'s reader \<Rightarrow> (idx_t \<Rightarrow> idx_t \<Rightarrow> byte list result) \<Rightarrow> bool \<Rightarrow> string \<Rightarrow> nat \<Rightarrow> nat \<Rightarrow> remote_metadata \<Rightarrow> addr \<Rightarrow> int \<Rightarrow>
   memory \<Rightarrow> metadata_cache option \<Rightarrow> 's \<Rightarrow> idx_t \<Rightarrow> int result \<Rightarrow> memory \<Rightarrow> metadata_cache option \<Rightarrow> 's \<Rightarrow> idx_t \<Rightarrow> bool" where
  "fs_Read read rd excluded path now now' answers buffer nr_bytes m mc s offset r m' mc' s' offset' \<longleftrightarrow>
     ReadImpl read rd excluded path now now' answers buffer nr_bytes offset m mc s r m' mc' s' \<and>
     offset' = position_after offset r"

section \<open>The interface of a cache reader\<close>

text \<open>
  For a file with content \<open>fc\<close>, in a state that is \<open>sound\<close>: a request inside the file can return,
  and however it does, it has succeeded, the buffer holds the requested bytes, nothing else has
  changed, and the state is sound again.
\<close>

locale cache_reader =
  fixes read :: "'s reader" and sound :: "'s \<Rightarrow> bool" and fc :: "byte list"
  assumes read_returns: "sound s \<Longrightarrow> start + bytes \<le> length fc \<Longrightarrow>
      \<exists>r m' s'. read buffer start bytes (length fc) m s r m' s'"
    and read_correct: "sound s \<Longrightarrow> start + bytes \<le> length fc \<Longrightarrow> read buffer start bytes (length fc) m s r m' s' \<Longrightarrow>
      r = Inr () \<and> mem_read buffer bytes m' = slice start bytes fc \<and>
      (\<forall>a. a < buffer \<or> buffer + bytes \<le> a \<longrightarrow> m' a = m a) \<and> sound s'"
begin

lemma read_amount:
  assumes "0 \<le> nr_bytes" "length fc < 2 ^ 63" "location < length fc"
  defines "n \<equiv> min (nat nr_bytes) (length fc - location)"
  shows "read_action_of excluded nr_bytes location (int (length fc)) =
      (if excluded then Read_Directly (int n) else Read_And_Cache (int n))"
    and "to_idx (int n) = n" "to_idx (int (length fc)) = length fc" "location + n \<le> length fc"
proof -
  have fsz: "to_idx (int (length fc)) = length fc" using assms(2) by (subst to_idx_nonneg) simp_all
  have "u64_sub (length fc) location = length fc - location"
    using assms(2,3) by (simp add: u64_sub_exact U64_def)
  then have "from_idx (u64_sub (length fc) location) = int (length fc - location)"
    using assms(2) by (simp add: from_idx_small)
  moreover have "min nr_bytes (int (length fc - location)) = int n"
    using assms(1) by (simp add: n_def min_def nat_le_iff)
  ultimately show "read_action_of excluded nr_bytes location (int (length fc)) =
      (if excluded then Read_Directly (int n) else Read_And_Cache (int n))"
    using assms(3) by (simp add: read_action_of_def fsz)
  have "n < 2 ^ 63" using assms(2) by (simp add: n_def)
  then show "to_idx (int n) = n" by (subst to_idx_nonneg) simp_all
  show "to_idx (int (length fc)) = length fc" by (rule fsz)
  show "location + n \<le> length fc" using assms(3) by (simp add: n_def)
qed

lemma sized_read_correct:
  assumes s: "sound s" and rd: "remote_ok rd fc" and req: "0 \<le> nr_bytes" "length fc < 2 ^ 63"
    and run: "sized_read read rd excluded buffer nr_bytes location (int (length fc)) m s r m' s'"
  defines "n \<equiv> (if location < length fc then min (nat nr_bytes) (length fc - location) else 0)"
  shows "r = Inr (int n) \<and> mem_read buffer n m' = slice location n fc \<and>
    (\<forall>a. a < buffer \<or> buffer + n \<le> a \<longrightarrow> m' a = m a) \<and> sound s'"
proof (cases "location < length fc")
  case False
  have "to_idx (int (length fc)) = length fc" using req(2) by (subst to_idx_nonneg) simp_all
  then have "read_action_of excluded nr_bytes location (int (length fc)) = End_Of_File"
    using False by (simp add: read_action_of_def)
  then have "r = Inr 0" "m' = m" "s' = s" using run by (auto elim: sized_readE)
  then show ?thesis using False s by (simp add: n_def mem_read_def slice_def)
next
  case True
  note amount = read_amount [OF req True]
  have n: "n = min (nat nr_bytes) (length fc - location)" using True by (simp add: n_def)
  note act = amount(1) [of excluded, folded n] and idx = amount(2,3,4) [folded n]
  show ?thesis
  proof (cases excluded)
    case True
    have bytes: "rd location n = Inr (slice location n fc)" using rd idx(3) by (simp add: remote_ok_def)
    have len: "length (slice location n fc) = n" using idx(3) by (simp add: slice_def)
    have "r = Inr (int n)" "m' = mem_write buffer (slice location n fc) m" "s' = s"
      using run act idx(1) True bytes by (auto elim: sized_readE)
    moreover have "mem_read buffer n (mem_write buffer (slice location n fc) m) = slice location n fc"
      by (rule mem_read_eqI) (auto simp: len mem_write_def)
    ultimately show ?thesis using s len by (simp add: mem_write_out)
  next
    case False
    then obtain q where q: "read buffer location n (length fc) m s q m' s'"
        "r = (case q of Inl e \<Rightarrow> Inl e | Inr _ \<Rightarrow> Inr (int n))"
      using run act idx(1,2) by (auto elim!: sized_readE)
    show ?thesis using read_correct [OF s idx(3) q(1)] q(2) by simp
  qed
qed

lemma sized_read_returns:
  assumes s: "sound s" and rd: "remote_ok rd fc" and req: "0 \<le> nr_bytes" "length fc < 2 ^ 63"
  shows "\<exists>r m' s'. sized_read read rd excluded buffer nr_bytes location (int (length fc)) m s r m' s'"
proof (cases "location < length fc")
  case False
  have "to_idx (int (length fc)) = length fc" using req(2) by (subst to_idx_nonneg) simp_all
  then have "read_action_of excluded nr_bytes location (int (length fc)) = End_Of_File"
    using False by (simp add: read_action_of_def)
  then show ?thesis by (blast intro: sized_read.at_end)
next
  case True
  define n where "n = min (nat nr_bytes) (length fc - location)"
  note amount = read_amount [OF req True, folded n_def]
  show ?thesis
  proof (cases excluded)
    case True
    have "rd location (to_idx (int n)) = Inr (slice location n fc)"
      using rd amount(2,4) by (simp add: remote_ok_def)
    then show ?thesis using amount(1) [of excluded] True sized_read.direct by fastforce
  next
    case False
    obtain q m' s' where "read buffer location (to_idx (int n)) (to_idx (int (length fc))) m s q m' s'"
      using read_returns [OF s amount(4)] amount(2,3) by metis
    then show ?thesis
      using amount(1) [of excluded] False
      by (cases q) (fastforce intro: sized_read.cached sized_read.cached_error)+
  qed
qed

end

section \<open>The three readers\<close>

text \<open>
  Everything a read of one file depends on; the on-disk reader's context has the path, the version
  tag, the page size and the remote read.
\<close>

record read_env =
  re_disk :: disk_context
  re_config :: InMemoryCacheReaderConfig
  re_layouts :: layouts
  re_content :: contents
  re_names :: "string set"
  re_envs :: "disk_env set"

abbreviation re_file :: "read_env \<Rightarrow> byte list" where
  "re_file e \<equiv> re_content e (dx_path (re_disk e)) (dx_tag (re_disk e))"

record reader_state =
  rx_storage :: data_storage
  rx_disk_storage :: "data_storage option"
  rx_fs :: local_fs
  rx_accesses :: access_maps

datatype reader_kind = Noop_Reader | Memory_Reader | Disk_Reader

text \<open>\<open>NoopCacheReader::ReadAndCache\<close> passes the request on.\<close>

definition noop_ReadAndCache :: "read_env \<Rightarrow> reader_state reader" where
  "noop_ReadAndCache e buffer start bytes file_size m s r m' s' \<longleftrightarrow> s' = s \<and>
     (case dx_rd (re_disk e) start bytes of
        Inl err \<Rightarrow> r = Inl err \<and> m' = m
      | Inr bs \<Rightarrow> r = Inr () \<and> m' = mem_write buffer bs m)"

definition memory_ReadAndCache :: "read_env \<Rightarrow> reader_state reader" where
  "memory_ReadAndCache e buffer start bytes file_size m s r m' s' \<longleftrightarrow>
     (case reader_plan (re_config e) (re_layouts e) (dx_path (re_disk e)) buffer start bytes file_size of
        None \<Rightarrow> False
      | Some (Inl err) \<Rightarrow> r = Inl err \<and> m' = m \<and> s' = s
      | Some (Inr (cs, total_bytes)) \<Rightarrow>
          (\<exists>st. (memory_read_step (re_content e) (dx_rd (re_disk e)) (dx_page (re_disk e)) (dx_junk (re_disk e))
                   (dx_path (re_disk e)) (dx_tag (re_disk e)))\<^sup>*\<^sup>* (read_start m (rx_storage s) cs) st \<and>
             WaitAll st = Some r \<and> m' = rs_mem st \<and> s' = s\<lparr>rx_storage := rs_store st\<rparr>))"

definition disk_ReadAndCache :: "read_env \<Rightarrow> reader_state reader" where
  "disk_ReadAndCache e buffer start bytes file_size m s r m' s' \<longleftrightarrow>
     (case disk_plan (dx_cfg (re_disk e)) buffer start bytes file_size of
        None \<Rightarrow> False
      | Some (Inl err) \<Rightarrow> r = Inl err \<and> m' = m \<and> s' = s
      | Some (Inr (cs, total_bytes)) \<Rightarrow>
          (\<exists>st. (disk_step (re_disk e) (re_names e) (re_content e) (re_envs e))\<^sup>*\<^sup>*
                  (disk_start m (rx_disk_storage s) (rx_fs s) (rx_accesses s) cs) st \<and>
             disk_WaitAll st = Some r \<and> m' = ds_mem st \<and>
             s' = s\<lparr>rx_disk_storage := ds_store st, rx_fs := ds_fs st, rx_accesses := ds_lru st\<rparr>))"

definition ReadAndCache :: "reader_kind \<Rightarrow> read_env \<Rightarrow> reader_state reader" where
  "ReadAndCache kind e =
     (case kind of
        Noop_Reader \<Rightarrow> noop_ReadAndCache e
      | Memory_Reader \<Rightarrow> memory_ReadAndCache e
      | Disk_Reader \<Rightarrow> disk_ReadAndCache e)"

text \<open>What a read relies on, and what the readers' states have to hold.\<close>

definition read_env_ok :: "read_env \<Rightarrow> bool" where
  "read_env_ok e \<longleftrightarrow> (let x = re_disk e; fc = re_file e in
     0 < dx_page x \<and> 0 < ic_cache_block_size (re_config e) \<and> 0 < dc_cache_block_size (dx_cfg x) \<and>
     length fc + ic_cache_block_size (re_config e) + 2 * dx_page x < U64 \<and>
     length fc + dc_cache_block_size (dx_cfg x) + 2 * dx_page x < U64 \<and>
     (\<forall>es. map_of (re_layouts e) (dx_path x) = Some es \<longrightarrow> extents_ok es) \<and>
     remote_ok (dx_rd x) fc \<and> tag_reliable (re_content e) (dx_path x) (dx_tag x) \<and>
     library_ok x \<and> collision_free x (re_names e) \<and> dx_path x \<in> re_names e \<and>
     distinct (dc_on_disk_cache_directories (dx_cfg x)) \<and>
     BuildRemoteFileCachePathInfo (dx_sha x) (dx_gfn x) (dc_on_disk_cache_directories (dx_cfg x)) (dx_path x) =
       Inr (dx_path_info x) \<and>
     re_envs e \<noteq> {} \<and> (\<forall>env \<in> re_envs e. en_read_ok env))"

definition readers_sound :: "read_env \<Rightarrow> reader_state \<Rightarrow> bool" where
  "readers_sound e s \<longleftrightarrow> read_env_ok e \<and> storage_sound (re_content e) (rx_storage s) \<and>
     (\<forall>d. rx_disk_storage s = Some d \<longrightarrow> storage_sound (re_content e) d) \<and>
     disk_sound (re_disk e) (re_names e) (re_content e) (rx_fs s) \<and> access_inv (rx_accesses s)"

lemma memory_plan:
  assumes ok: "read_env_ok e" and req: "start + bytes \<le> length (re_file e)"
  obtains cs total where "reader_plan (re_config e) (re_layouts e) (dx_path (re_disk e)) buffer start bytes (length (re_file e)) = Some (Inr (cs, total))"
    "read_setting (re_content e) (dx_rd (re_disk e)) (dx_page (re_disk e)) (dx_path (re_disk e)) (dx_tag (re_disk e)) buffer start bytes cs"
proof (cases "bytes = 0")
  case True
  then show ?thesis
    using that [of "[]" 0] ok by (simp add: reader_plan_def read_setting_def read_env_ok_def Let_def)
next
  case False
  then obtain cs total where plan: "reader_plan (re_config e) (re_layouts e) (dx_path (re_disk e)) buffer start bytes (length (re_file e)) = Some (Inr (cs, total))"
      "plan_ok (length (re_file e)) buffer start cs (start + bytes)"
    using reader_plan_ok [of bytes start "length (re_file e)" "re_config e" "re_layouts e" "dx_path (re_disk e)" buffer] ok req
    by (auto simp: read_env_ok_def Let_def)
  then show ?thesis using that ok by (simp add: read_setting_def read_env_ok_def Let_def)
qed

lemma disk_request_plan:
  assumes ok: "read_env_ok e" and req: "start + bytes \<le> length (re_file e)"
  obtains cs total where "disk_plan (dx_cfg (re_disk e)) buffer start bytes (length (re_file e)) = Some (Inr (cs, total))"
    "disk_setting (re_disk e) (re_names e) (re_content e) buffer start bytes cs"
proof (cases "bytes = 0")
  case True
  then show ?thesis
    using that [of "[]" 0] ok by (simp add: disk_plan_def disk_setting_def read_setting_def read_env_ok_def Let_def)
next
  case False
  then obtain cs total where plan: "disk_plan (dx_cfg (re_disk e)) buffer start bytes (length (re_file e)) = Some (Inr (cs, total))"
      "plan_ok (length (re_file e)) buffer start cs (start + bytes)" "distinct (map cr_aligned_start_offset cs)"
    using disk_plan_ok [of bytes start "length (re_file e)" "dx_cfg (re_disk e)" buffer] ok req
    by (auto simp: read_env_ok_def Let_def)
  then show ?thesis using that ok by (simp add: disk_setting_def read_setting_def read_env_ok_def Let_def)
qed


lemma noop_reader_correct:
  assumes ok: "readers_sound e s" and req: "start + bytes \<le> length (re_file e)"
  shows "\<exists>r m' s'. noop_ReadAndCache e buffer start bytes (length (re_file e)) m s r m' s'"
    and "noop_ReadAndCache e buffer start bytes (length (re_file e)) m s r m' s' \<Longrightarrow>
      r = Inr () \<and> mem_read buffer bytes m' = slice start bytes (re_file e) \<and>
      (\<forall>a. a < buffer \<or> buffer + bytes \<le> a \<longrightarrow> m' a = m a) \<and> readers_sound e s'"
proof -
  let ?bs = "slice start bytes (re_file e)"
  have rd: "dx_rd (re_disk e) start bytes = Inr ?bs"
    using ok req by (simp add: readers_sound_def read_env_ok_def remote_ok_def Let_def)
  have len: "length ?bs = bytes" using req by (simp add: slice_def)
  have "mem_read buffer bytes (mem_write buffer ?bs m) = ?bs"
    by (rule mem_read_eqI) (auto simp: len mem_write_def)
  then show "noop_ReadAndCache e buffer start bytes (length (re_file e)) m s r m' s' \<Longrightarrow>
      r = Inr () \<and> mem_read buffer bytes m' = ?bs \<and>
      (\<forall>a. a < buffer \<or> buffer + bytes \<le> a \<longrightarrow> m' a = m a) \<and> readers_sound e s'"
    using rd len ok by (simp add: noop_ReadAndCache_def mem_write_out)
  show "\<exists>r m' s'. noop_ReadAndCache e buffer start bytes (length (re_file e)) m s r m' s'"
    using rd by (simp add: noop_ReadAndCache_def)
qed

lemma memory_reader_correct:
  assumes ok: "readers_sound e s" and req: "start + bytes \<le> length (re_file e)"
  shows "\<exists>r m' s'. memory_ReadAndCache e buffer start bytes (length (re_file e)) m s r m' s'"
    and "memory_ReadAndCache e buffer start bytes (length (re_file e)) m s r m' s' \<Longrightarrow>
      r = Inr () \<and> mem_read buffer bytes m' = slice start bytes (re_file e) \<and>
      (\<forall>a. a < buffer \<or> buffer + bytes \<le> a \<longrightarrow> m' a = m a) \<and> readers_sound e s'"
proof -
  let ?x = "re_disk e"
  have env: "read_env_ok e" and st: "storage_sound (re_content e) (rx_storage s)"
    using ok by (simp_all add: readers_sound_def)
  obtain cs total where plan: "reader_plan (re_config e) (re_layouts e) (dx_path ?x) buffer start bytes (length (re_file e)) = Some (Inr (cs, total))"
    and set: "read_setting (re_content e) (dx_rd ?x) (dx_page ?x) (dx_path ?x) (dx_tag ?x) buffer start bytes cs"
    by (rule memory_plan [OF env req])
  note outcome = memory_read_outcome [OF set st]
  obtain st where st: "(memory_read_step (re_content e) (dx_rd ?x) (dx_page ?x) (dx_junk ?x) (dx_path ?x) (dx_tag ?x))\<^sup>*\<^sup>*
      (read_start m (rx_storage s) cs) st" "read_done st"
    using outcome(2) [OF rtranclp.rtrancl_refl] by blast
  then show "\<exists>r m' s'. memory_ReadAndCache e buffer start bytes (length (re_file e)) m s r m' s'"
    using outcome(3) [OF st] by (auto simp: memory_ReadAndCache_def plan)
  show "r = Inr () \<and> mem_read buffer bytes m' = slice start bytes (re_file e) \<and>
      (\<forall>a. a < buffer \<or> buffer + bytes \<le> a \<longrightarrow> m' a = m a) \<and> readers_sound e s'"
    if "memory_ReadAndCache e buffer start bytes (length (re_file e)) m s r m' s'"
  proof -
    from that obtain st where run: "(memory_read_step (re_content e) (dx_rd ?x) (dx_page ?x) (dx_junk ?x) (dx_path ?x) (dx_tag ?x))\<^sup>*\<^sup>*
        (read_start m (rx_storage s) cs) st" and w: "WaitAll st = Some r"
      and fin: "m' = rs_mem st" "s' = s\<lparr>rx_storage := rs_store st\<rparr>"
      by (auto simp: memory_ReadAndCache_def plan)
    have "read_done st" using w by (simp add: WaitAll_def split: if_splits)
    then show ?thesis
      using outcome(3) [OF run] outcome(1) [OF run] w fin ok by (simp add: readers_sound_def)
  qed
qed

lemma disk_reader_correct:
  assumes ok: "readers_sound e s" and req: "start + bytes \<le> length (re_file e)"
  shows "\<exists>r m' s'. disk_ReadAndCache e buffer start bytes (length (re_file e)) m s r m' s'"
    and "disk_ReadAndCache e buffer start bytes (length (re_file e)) m s r m' s' \<Longrightarrow>
      r = Inr () \<and> mem_read buffer bytes m' = slice start bytes (re_file e) \<and>
      (\<forall>a. a < buffer \<or> buffer + bytes \<le> a \<longrightarrow> m' a = m a) \<and> readers_sound e s'"
proof -
  let ?x = "re_disk e"
  let ?step = "disk_step ?x (re_names e) (re_content e) (re_envs e)"
  let ?start = "disk_start m (rx_disk_storage s) (rx_fs s) (rx_accesses s)"
  have env: "read_env_ok e" using ok by (simp add: readers_sound_def)
  obtain cs total where plan: "disk_plan (dx_cfg ?x) buffer start bytes (length (re_file e)) = Some (Inr (cs, total))"
    and set: "disk_setting ?x (re_names e) (re_content e) buffer start bytes cs"
    by (rule disk_request_plan [OF env req])
  have envs: "re_envs e \<noteq> {}" "\<forall>env \<in> re_envs e. en_read_ok env" using env by (simp_all add: read_env_ok_def Let_def)
  have st: "disk_sound ?x (re_names e) (re_content e) (rx_fs s)" "access_inv (rx_accesses s)"
      "\<forall>d. rx_disk_storage s = Some d \<longrightarrow> storage_sound (re_content e) d"
    using ok by (simp_all add: readers_sound_def)
  note outcome = disk_read_outcome [OF set envs st]
  obtain st where st: "?step\<^sup>*\<^sup>* (?start cs) st" "disk_done st"
    using outcome(4) [OF rtranclp.rtrancl_refl] by blast
  then show "\<exists>r m' s'. disk_ReadAndCache e buffer start bytes (length (re_file e)) m s r m' s'"
    using outcome(5) [OF st] by (auto simp: disk_ReadAndCache_def plan)
  show "r = Inr () \<and> mem_read buffer bytes m' = slice start bytes (re_file e) \<and>
      (\<forall>a. a < buffer \<or> buffer + bytes \<le> a \<longrightarrow> m' a = m a) \<and> readers_sound e s'"
    if "disk_ReadAndCache e buffer start bytes (length (re_file e)) m s r m' s'"
  proof -
    from that obtain st where run: "?step\<^sup>*\<^sup>* (?start cs) st" and w: "disk_WaitAll st = Some r"
      and fin: "m' = ds_mem st" "s' = s\<lparr>rx_disk_storage := ds_store st, rx_fs := ds_fs st, rx_accesses := ds_lru st\<rparr>"
      by (auto simp: disk_ReadAndCache_def plan)
    have "disk_done st" using w by (simp add: disk_WaitAll_def split: if_splits)
    then show ?thesis
      using outcome(5) [OF run] outcome(1-3) [OF run] w fin ok by (simp add: readers_sound_def)
  qed
qed

interpretation reader: cache_reader "ReadAndCache kind e" "readers_sound e" "re_file e" for kind e
proof
  fix s start bytes buffer m r m' s'
  assume a: "readers_sound e s" "start + bytes \<le> length (re_file e)"
  show "\<exists>r m' s'. ReadAndCache kind e buffer start bytes (length (re_file e)) m s r m' s'"
    using noop_reader_correct(1) [OF a] memory_reader_correct(1) [OF a] disk_reader_correct(1) [OF a]
    by (cases kind) (simp_all add: ReadAndCache_def)
  show "r = Inr () \<and> mem_read buffer bytes m' = slice start bytes (re_file e) \<and>
      (\<forall>a. a < buffer \<or> buffer + bytes \<le> a \<longrightarrow> m' a = m a) \<and> readers_sound e s'"
    if "ReadAndCache kind e buffer start bytes (length (re_file e)) m s r m' s'"
    using that noop_reader_correct(2) [OF a] memory_reader_correct(2) [OF a] disk_reader_correct(2) [OF a]
    by (cases kind) (simp_all add: ReadAndCache_def)
qed


section \<open>Property\<close>

text \<open>
  Property C3. Reading through the cache file system is reading the file. Whichever reader is
  configured, whether the path is excluded from caching or not, with or without a metadata cache:
  \<open>Read\<close> can return, and however it does it returns the number of bytes
  asked for or left in the file, zero at or past its end; the buffer holds exactly these bytes of
  the file, nothing outside it has changed, the file position is behind them, and all caches are
  sound again. Assumed are the wrapped file system's answers about the file and its reads, and, for
  the on-disk reader, what its transparency rests on.
\<close>

theorem read_through_cache:
  fixes regex_search :: "string \<Rightarrow> string \<Rightarrow> bool" and xm :: exclusion_manager
  assumes "readers_sound e s" "length (re_file e) < 2 ^ 63" "0 \<le> nr_bytes" "offset < U64"
    and "metadata_sound truth mc" "truthful (truth (dx_path (re_disk e))) answers"
    and "fm_file_size (truth (dx_path (re_disk e))) = int (length (re_file e))"
  defines "n \<equiv> (if offset < length (re_file e) then min (nat nr_bytes) (length (re_file e) - offset) else 0)"
    and "excluded \<equiv> MatchAnyExclusion regex_search (dx_path (re_disk e)) xm"
  shows "(\<exists>r m' mc' s' offset'.
       fs_Read (ReadAndCache kind e) (dx_rd (re_disk e)) excluded (dx_path (re_disk e)) now now' answers buffer nr_bytes
         m mc s offset r m' mc' s' offset') \<and>
    (\<forall>r m' mc' s' offset'.
       fs_Read (ReadAndCache kind e) (dx_rd (re_disk e)) excluded (dx_path (re_disk e)) now now' answers buffer nr_bytes
         m mc s offset r m' mc' s' offset' \<longrightarrow>
       r = Inr (int n) \<and> mem_read buffer n m' = slice offset n (re_file e) \<and>
       (\<forall>a. a < buffer \<or> buffer + n \<le> a \<longrightarrow> m' a = m a) \<and> offset' = offset + n \<and>
       readers_sound e s' \<and> metadata_sound truth mc')"
proof -
  let ?rd = "dx_rd (re_disk e)" and ?len = "length (re_file e)"
  have rd: "remote_ok ?rd (re_file e)" using assms(1) by (simp add: readers_sound_def read_env_ok_def Let_def)
  obtain mc1 log where "GetFileSize (dx_path (re_disk e)) now now' answers mc = (Inr (int ?len), mc1, log)"
    and sound: "metadata_sound truth mc1"
    using GetFileSize_sound [OF assms(5,6), of now now'] assms(7) by metis
  then have impl: "ReadImpl (ReadAndCache kind e) ?rd excluded (dx_path (re_disk e)) now now' answers buffer nr_bytes
        offset m mc s r m' mc' s' \<longleftrightarrow> mc' = mc1 \<and>
      sized_read (ReadAndCache kind e) ?rd excluded buffer nr_bytes offset (int ?len) m s r m' s'" for r m' mc' s'
    by (simp add: ReadImpl_def)
  have n: "to_idx (int n) = n" "offset + n < U64"
    using assms(2,4) by (auto simp: n_def U64_def intro!: to_idx_nonneg [THEN trans])
  have right: "r = Inr (int n) \<and> mem_read buffer n m' = slice offset n (re_file e) \<and>
      (\<forall>a. a < buffer \<or> buffer + n \<le> a \<longrightarrow> m' a = m a) \<and> position_after offset r = offset + n \<and> readers_sound e s'"
    if "sized_read (ReadAndCache kind e) ?rd excluded buffer nr_bytes offset (int ?len) m s r m' s'" for r m' s'
    using reader.sized_read_correct [OF assms(1) rd assms(3,2) that, folded n_def] n
    by (simp add: position_after_def u64_add_def)
  obtain r m' s' where "sized_read (ReadAndCache kind e) ?rd excluded buffer nr_bytes offset (int ?len) m s r m' s'"
    using reader.sized_read_returns [OF assms(1) rd assms(3,2)] by blast
  then have "\<exists>r m' mc' s' offset'. (mc' = mc1 \<and>
      sized_read (ReadAndCache kind e) ?rd excluded buffer nr_bytes offset (int ?len) m s r m' s') \<and>
      offset' = position_after offset r" by blast
  then show ?thesis
    unfolding fs_Read_def impl
  proof (rule conjI, intro allI impI, elim conjE)
    fix r m' mc' s' offset'
    assume "mc' = mc1" "offset' = position_after offset r"
      and "sized_read (ReadAndCache kind e) ?rd excluded buffer nr_bytes offset (int ?len) m s r m' s'"
    then show "r = Inr (int n) \<and> mem_read buffer n m' = slice offset n (re_file e) \<and>
        (\<forall>a. a < buffer \<or> buffer + n \<le> a \<longrightarrow> m' a = m a) \<and> offset' = offset + n \<and> readers_sound e s' \<and>
        metadata_sound truth mc'"
      using right sound by simp
  qed
qed

definition example_read_env :: read_env where
  "example_read_env =
     \<lparr>re_disk = example_context, re_config = example_config, re_layouts = [], re_content = example_content,
      re_names = {''f''}, re_envs = {example_env}\<rparr>"

definition example_reader_state :: reader_state where
  "example_reader_state =
     \<lparr>rx_storage = ExtensionBounded (ext_new 2 0), rx_disk_storage = None, rx_fs = [], rx_accesses = no_accesses\<rparr>"

lemma example_readers_sound: "readers_sound example_read_env example_reader_state"
proof -
  have "library_ok example_context"
    using offset_sha_ok last_component_ok by (simp add: library_ok_def example_context_def)
  moreover have "BuildRemoteFileCachePathInfo (dx_sha example_context) (dx_gfn example_context)
      (dc_on_disk_cache_directories (dx_cfg example_context)) (dx_path example_context) = Inr (dx_path_info example_context)"
    using example_context_build by (simp add: example_context_def example_disk_config_def)
  moreover have "remote_ok (dx_rd example_context) (example_content (dx_path example_context) (dx_tag example_context))"
      "tag_reliable example_content (dx_path example_context) (dx_tag example_context)"
    by (simp_all add: remote_ok_def tag_reliable_def example_context_def)
  ultimately have "read_env_ok example_read_env"
    using example_collision_free
    by (simp add: read_env_ok_def example_read_env_def Let_def)
      (simp add: example_context_def example_config_def example_disk_config_def example_content_def example_env_def U64_def)
  then show ?thesis
    using example_storage_sound [of example_content] access_inv_none
    by (simp add: readers_sound_def example_reader_state_def) (simp add: example_read_env_def disk_sound_def)
qed

lemma read_through_cache_witness:
  "\<exists>m' mc' s'. fs_Read (ReadAndCache Disk_Reader example_read_env) (dx_rd example_context) False ''f'' 1 2
      \<lparr>rm_Stats = Inr (example_metadata ''f''), rm_GetFileSize = Inr 8, rm_GetLastModifiedTime = Inr 77\<rparr>
      100 5 (\<lambda>_. 0) (Some (lru_new 4 0)) example_reader_state 2 (Inr 5) m' mc' s' 7 \<and>
    mem_read 100 5 m' = [2, 3, 4, 5, 6]"
proof -
  let ?e = example_read_env and ?s = example_reader_state
  let ?xm = "\<lparr>exclusion_regexes = [], exclusion_patterns = []\<rparr>"
  let ?ans = "\<lparr>rm_Stats = Inr (example_metadata ''f''), rm_GetFileSize = Inr 8, rm_GetLastModifiedTime = Inr 77\<rparr>"
  have flds: "re_disk ?e = example_context" "dx_path example_context = ''f''" "dx_tag example_context = ''v1''"
    "re_content ?e = example_content"
    by (simp_all add: example_read_env_def example_context_def)
  have fc: "example_content ''f'' ''v1'' = [0, 1, 2, 3, 4, 5, 6, 7]" by (simp add: example_content_def)
  have hyps: "length (re_file ?e) < 2 ^ 63" "0 \<le> (5::int)" "(2::nat) < U64"
      "metadata_sound example_metadata (Some (lru_new 4 0))"
      "truthful (example_metadata (dx_path (re_disk ?e))) ?ans"
      "fm_file_size (example_metadata (dx_path (re_disk ?e))) = int (length (re_file ?e))"
    by (simp_all add: flds fc U64_def metadata_sound_def truthful_def example_metadata_def)
  note main = read_through_cache [OF example_readers_sound hyps, where regex_search = "\<lambda>_ _. False" and xm = ?xm
      and kind = Disk_Reader and now = 1 and now' = 2 and buffer = 100 and m = "\<lambda>_. 0"]
  have ex: "MatchAnyExclusion (\<lambda>_ _. False) p ?xm = False" for p by (simp add: MatchAnyExclusion_def)
  show ?thesis
    using main unfolding ex flds
  proof (elim conjE exE, goal_cases)
    case (1 r m' mc' s' offset')
    from 1(1) [rule_format, OF 1(2)] have "r = Inr 5" "mem_read 100 5 m' = [2, 3, 4, 5, 6]" "offset' = 7"
      by (simp_all add: fc slice_def eval_nat_numeral)
    with 1(2) show ?case by blast
  qed
qed

end
