(* ===== verification/Profile_Collector.thy ===== *)
theory Profile_Collector
  imports Complex_Main Prelude
begin

text \<open>
  What the extension measures: latency histograms (\<open>src/histogram.cpp\<close>), the two profile collectors
  (\<open>src/temp_profile_collector.cpp\<close>, \<open>src/noop_profile_collector.cpp\<close>), the latency guard
  (\<open>src/base_profile_collector.cpp\<close>) and the collectors of the connections of one database instance
  (\<open>InstanceProfileCollectorManager\<close>, \<open>src/cache_httpfs_instance_state.cpp\<close>).

  A \<open>double\<close> is a rational number here. The values added are whole milliseconds, which \<open>double\<close> holds
  exactly below \<open>2\<^sup>5\<^sup>3\<close>, as it holds their sums; not-a-number does not arise.
\<close>

section \<open>Histogram\<close>

record Histogram =
  boundaries :: "rat list"
  min_encountered :: rat
  max_encountered :: rat
  total_counts :: nat
  hist_sum :: rat
  hist :: "nat list"
  distribution_name :: string
  distribution_unit :: string

definition DBL_MAX :: rat where
  "DBL_MAX = of_int (2 ^ 1024 - 2 ^ 971)"

definition Histogram_Reset :: "Histogram \<Rightarrow> Histogram" where
  "Histogram_Reset h =
     h\<lparr>min_encountered := DBL_MAX, max_encountered := - DBL_MAX, total_counts := 0, hist_sum := 0,
       hist := replicate (length (boundaries h) + 1) 0\<rparr>"

definition Histogram_new :: "rat list \<Rightarrow> Histogram result" where
  "Histogram_new bs =
     (if bs = [] then Inl (InvalidInputException ''Histogram boundaries must not be empty'')
      else if \<not> sorted bs then Inl (InvalidInputException ''Histogram boundaries must be sorted in ascending order'')
      else Inr (Histogram_Reset
             \<lparr>boundaries = bs, min_encountered = 0, max_encountered = 0, total_counts = 0, hist_sum = 0, hist = [],
              distribution_name = [], distribution_unit = []\<rparr>))"

definition SetStatsDistribution :: "string \<Rightarrow> string \<Rightarrow> Histogram \<Rightarrow> Histogram" where
  "SetStatsDistribution nm un h = h\<lparr>distribution_name := nm, distribution_unit := un\<rparr>"

text \<open>\<open>std::upper_bound\<close> on the sorted boundaries: the number of them that are not above the value.\<close>

definition Histogram_Bucket :: "rat \<Rightarrow> Histogram \<Rightarrow> nat" where
  "Histogram_Bucket val h = length (takeWhile (\<lambda>b. b \<le> val) (boundaries h))"

definition Histogram_Add :: "rat \<Rightarrow> Histogram \<Rightarrow> Histogram" where
  "Histogram_Add val h =
     (let i = Histogram_Bucket val h
      in h\<lparr>hist := (hist h)[i := u64_add (hist h ! i) 1],
           min_encountered := min (min_encountered h) val,
           max_encountered := max (max_encountered h) val,
           total_counts := u64_add (total_counts h) 1,
           hist_sum := hist_sum h + val\<rparr>)"

definition Histogram_mean :: "Histogram \<Rightarrow> rat" where
  "Histogram_mean h = (if total_counts h = 0 then 0 else hist_sum h / of_nat (total_counts h))"

section \<open>Collectors\<close>

datatype CacheEntity = kMetadata | kData | kFileHandle | kGlob | kUnknownEntity

datatype CacheAccess = kCacheHit | kCacheMiss | kCacheEntryInUse | kUnknownAccess

datatype IoOperation = kOpen | kRead | kWrite | kFileSync | kFileRemove | kGlobbing | kDiskCacheRead
  | kFilePathCacheClear | kUnknownOperation

fun entity_index :: "CacheEntity \<Rightarrow> nat" where
  "entity_index kMetadata = 0" | "entity_index kData = 1" | "entity_index kFileHandle = 2"
| "entity_index kGlob = 3" | "entity_index kUnknownEntity = 4"

fun access_index :: "CacheAccess \<Rightarrow> nat" where
  "access_index kCacheHit = 0" | "access_index kCacheMiss = 1" | "access_index kCacheEntryInUse = 2"
| "access_index kUnknownAccess = 3"

fun operation_index :: "IoOperation \<Rightarrow> nat" where
  "operation_index kOpen = 0" | "operation_index kRead = 1" | "operation_index kWrite = 2"
| "operation_index kFileSync = 3" | "operation_index kFileRemove = 4" | "operation_index kGlobbing = 5"
| "operation_index kDiskCacheRead = 6" | "operation_index kFilePathCacheClear = 7"
| "operation_index kUnknownOperation = 8"

definition kCacheEntityCount :: nat where
  "kCacheEntityCount = entity_index kUnknownEntity"

definition kCacheAccessCount :: nat where
  "kCacheAccessCount = access_index kUnknownAccess"

definition kIoOperationCount :: nat where
  "kIoOperationCount = operation_index kUnknownOperation"

definition CACHE_ENTITY_NAMES :: "string list" where
  "CACHE_ENTITY_NAMES = [''metadata'', ''data'', ''file handle'', ''glob'']"

definition kDefaultLatencyBucketsMs :: "rat list" where
  "kDefaultLatencyBucketsMs = [1, 10, 50, 100, 250, 500, 1000, 2500, 5000, 10000]"

definition kDiskCacheReadLatencyBucketsMs :: "rat list" where
  "kDiskCacheReadLatencyBucketsMs = [1 / 2, 1, 2, 5, 10, 25, 50, 100, 250, 500]"

definition kPathClearLatencyBucketsMs :: "rat list" where
  "kPathClearLatencyBucketsMs = [1 / 10, 1 / 2, 1, 2, 5, 10, 25, 50, 100, 250]"

definition kLatencyBuckets :: "rat list list" where
  "kLatencyBuckets =
     [kDefaultLatencyBucketsMs, kDefaultLatencyBucketsMs, kDefaultLatencyBucketsMs, kDefaultLatencyBucketsMs,
      kDefaultLatencyBucketsMs, kDefaultLatencyBucketsMs, kDiskCacheReadLatencyBucketsMs, kPathClearLatencyBucketsMs]"

record TempProfileCollector =
  histograms :: "Histogram list"
  cache_access_count :: "nat list"
  latest_timestamp :: nat
  total_bytes_to_read :: nat
  total_bytes_to_cache :: nat
  bytes_read_from_hits :: nat
  bytes_read_from_misses :: nat
  total_bytes_written :: nat

text \<open>The constructor builds a histogram per operation; that none of them throws is shown below.\<close>

fun latency_histograms :: "rat list list \<Rightarrow> Histogram list result" where
  "latency_histograms [] = Inr []"
| "latency_histograms (bs # bss) =
     (case Histogram_new bs of
        Inl e \<Rightarrow> Inl e
      | Inr h \<Rightarrow>
          (case latency_histograms bss of
             Inl e \<Rightarrow> Inl e
           | Inr hs \<Rightarrow> Inr (SetStatsDistribution ''latency'' ''millisec'' h # hs)))"

definition TempProfileCollector_new :: "TempProfileCollector result" where
  "TempProfileCollector_new =
     (case latency_histograms kLatencyBuckets of
        Inl e \<Rightarrow> Inl e
      | Inr hs \<Rightarrow>
          Inr \<lparr>histograms = hs, cache_access_count = replicate (kCacheEntityCount * kCacheAccessCount) 0,
               latest_timestamp = 0, total_bytes_to_read = 0, total_bytes_to_cache = 0, bytes_read_from_hits = 0,
               bytes_read_from_misses = 0, total_bytes_written = 0\<rparr>)"

definition temp_RecordOperationEnd :: "nat \<Rightarrow> IoOperation \<Rightarrow> int \<Rightarrow> TempProfileCollector \<Rightarrow> TempProfileCollector" where
  "temp_RecordOperationEnd now io_oper latency_millisec t =
     t\<lparr>histograms := (histograms t)[operation_index io_oper :=
         Histogram_Add (of_int latency_millisec) (histograms t ! operation_index io_oper)],
       latest_timestamp := now\<rparr>"

definition temp_RecordCacheAccess :: "CacheEntity \<Rightarrow> CacheAccess \<Rightarrow> idx_t \<Rightarrow> TempProfileCollector \<Rightarrow> TempProfileCollector" where
  "temp_RecordCacheAccess entity access byte_count t =
     (let arr_idx = entity_index entity * kCacheAccessCount + access_index access;
          t1 = t\<lparr>cache_access_count := (cache_access_count t)[arr_idx := u64_add (cache_access_count t ! arr_idx) 1]\<rparr>
      in if entity = kData
         then if access = kCacheHit then t1\<lparr>bytes_read_from_hits := u64_add (bytes_read_from_hits t1) byte_count\<rparr>
              else if access = kCacheMiss then t1\<lparr>bytes_read_from_misses := u64_add (bytes_read_from_misses t1) byte_count\<rparr>
              else t1
         else t1)"

definition temp_RecordActualCacheRead :: "idx_t \<Rightarrow> idx_t \<Rightarrow> TempProfileCollector \<Rightarrow> TempProfileCollector" where
  "temp_RecordActualCacheRead cache_bytes actual_bytes t =
     t\<lparr>total_bytes_to_read := u64_add (total_bytes_to_read t) actual_bytes,
       total_bytes_to_cache := u64_add (total_bytes_to_cache t) cache_bytes\<rparr>"

definition temp_RecordBytesWritten :: "idx_t \<Rightarrow> TempProfileCollector \<Rightarrow> TempProfileCollector" where
  "temp_RecordBytesWritten bytes t = t\<lparr>total_bytes_written := u64_add (total_bytes_written t) bytes\<rparr>"

definition temp_Reset :: "TempProfileCollector \<Rightarrow> TempProfileCollector" where
  "temp_Reset t =
     t\<lparr>histograms := map Histogram_Reset (histograms t),
       cache_access_count := map (\<lambda>_. 0) (cache_access_count t),
       total_bytes_to_cache := 0, total_bytes_to_read := 0, bytes_read_from_hits := 0, bytes_read_from_misses := 0,
       total_bytes_written := 0, latest_timestamp := 0\<rparr>"

text \<open>The byte counts are DuckDB values, absent (\<open>None\<close>) for entities other than data.\<close>

record CacheAccessInfo =
  ca_cache_type :: string
  ca_cache_hit_count :: nat
  ca_cache_miss_count :: nat
  ca_cache_miss_by_in_use :: nat
  ca_total_bytes_to_read :: "nat option"
  ca_total_bytes_to_cache :: "nat option"
  ca_bytes_read_from_hits :: "nat option"
  ca_bytes_read_from_misses :: "nat option"

definition temp_GetCacheAccessInfo :: "TempProfileCollector \<Rightarrow> CacheAccessInfo list" where
  "temp_GetCacheAccessInfo t =
     map (\<lambda>idx.
        let only_data = (\<lambda>n. if idx = operation_index kRead then Some n else None)
        in \<lparr>ca_cache_type = CACHE_ENTITY_NAMES ! idx,
            ca_cache_hit_count = cache_access_count t ! (idx * kCacheAccessCount),
            ca_cache_miss_count = cache_access_count t ! (idx * kCacheAccessCount + 1),
            ca_cache_miss_by_in_use = cache_access_count t ! (idx * kCacheAccessCount + 2),
            ca_total_bytes_to_read = only_data (total_bytes_to_read t),
            ca_total_bytes_to_cache = only_data (total_bytes_to_cache t),
            ca_bytes_read_from_hits = only_data (bytes_read_from_hits t),
            ca_bytes_read_from_misses = only_data (bytes_read_from_misses t)\<rparr>)
       [0..<kCacheEntityCount]"

definition noop_GetCacheAccessInfo :: "CacheAccessInfo list" where
  "noop_GetCacheAccessInfo =
     map (\<lambda>idx. \<lparr>ca_cache_type = CACHE_ENTITY_NAMES ! idx, ca_cache_hit_count = 0, ca_cache_miss_count = 0,
        ca_cache_miss_by_in_use = 0, ca_total_bytes_to_read = Some 0, ca_total_bytes_to_cache = Some 0,
        ca_bytes_read_from_hits = Some 0, ca_bytes_read_from_misses = Some 0\<rparr>) [0..<kCacheEntityCount]"

text \<open>A collector behind the base class; the no-op one keeps the time of the last operation it started.\<close>

datatype profile_collector = NoopProfileCollector nat | TempCollector TempProfileCollector

definition NOOP_PROFILE_TYPE :: string where
  "NOOP_PROFILE_TYPE = ''noop''"

definition TEMP_PROFILE_TYPE :: string where
  "TEMP_PROFILE_TYPE = ''temp''"

fun GetProfilerType :: "profile_collector \<Rightarrow> string" where
  "GetProfilerType (NoopProfileCollector _) = NOOP_PROFILE_TYPE"
| "GetProfilerType (TempCollector _) = TEMP_PROFILE_TYPE"

fun collector_Reset :: "profile_collector \<Rightarrow> profile_collector" where
  "collector_Reset (NoopProfileCollector _) = NoopProfileCollector 0"
| "collector_Reset (TempCollector t) = TempCollector (temp_Reset t)"

fun RecordCacheAccess :: "CacheEntity \<Rightarrow> CacheAccess \<Rightarrow> idx_t \<Rightarrow> profile_collector \<Rightarrow> profile_collector" where
  "RecordCacheAccess entity access byte_count (NoopProfileCollector ts) = NoopProfileCollector ts"
| "RecordCacheAccess entity access byte_count (TempCollector t) =
     TempCollector (temp_RecordCacheAccess entity access byte_count t)"

fun RecordActualCacheRead :: "idx_t \<Rightarrow> idx_t \<Rightarrow> profile_collector \<Rightarrow> profile_collector" where
  "RecordActualCacheRead cache_bytes actual_bytes (NoopProfileCollector ts) = NoopProfileCollector ts"
| "RecordActualCacheRead cache_bytes actual_bytes (TempCollector t) =
     TempCollector (temp_RecordActualCacheRead cache_bytes actual_bytes t)"

fun RecordBytesWritten :: "idx_t \<Rightarrow> profile_collector \<Rightarrow> profile_collector" where
  "RecordBytesWritten bytes (NoopProfileCollector ts) = NoopProfileCollector ts"
| "RecordBytesWritten bytes (TempCollector t) = TempCollector (temp_RecordBytesWritten bytes t)"

fun RecordOperationEnd :: "nat \<Rightarrow> IoOperation \<Rightarrow> int \<Rightarrow> profile_collector \<Rightarrow> profile_collector" where
  "RecordOperationEnd now io_oper latency (NoopProfileCollector ts) = NoopProfileCollector ts"
| "RecordOperationEnd now io_oper latency (TempCollector t) = TempCollector (temp_RecordOperationEnd now io_oper latency t)"

fun GetCacheAccessInfo :: "profile_collector \<Rightarrow> CacheAccessInfo list" where
  "GetCacheAccessInfo (NoopProfileCollector _) = noop_GetCacheAccessInfo"
| "GetCacheAccessInfo (TempCollector t) = temp_GetCacheAccessInfo t"

text \<open>The guard that measures one operation: moved from, it is disarmed.\<close>

record LatencyGuard =
  io_operation :: IoOperation
  start_timestamp :: int

fun RecordOperationStart :: "nat \<Rightarrow> IoOperation \<Rightarrow> profile_collector \<Rightarrow> LatencyGuard \<times> profile_collector" where
  "RecordOperationStart now io_oper (NoopProfileCollector ts) =
     (\<lparr>io_operation = io_oper, start_timestamp = int now\<rparr>, NoopProfileCollector now)"
| "RecordOperationStart now io_oper (TempCollector t) =
     (\<lparr>io_operation = io_oper, start_timestamp = int now\<rparr>, TempCollector t)"

definition move_guard :: "LatencyGuard \<Rightarrow> LatencyGuard \<times> LatencyGuard" where
  "move_guard g = (g, \<lparr>io_operation = kUnknownOperation, start_timestamp = 0\<rparr>)"

definition destroy_guard :: "nat \<Rightarrow> LatencyGuard \<Rightarrow> profile_collector \<Rightarrow> profile_collector" where
  "destroy_guard now g c =
     (if io_operation g = kUnknownOperation then c
      else RecordOperationEnd now (io_operation g) (int now - start_timestamp g) c)"

section \<open>The collectors of the connections\<close>

type_synonym connection_t = nat

record profile_manager =
  profile_collectors :: "(connection_t \<times> profile_collector) list"
  default_noop_collector :: "profile_collector option"

definition profile_manager_new :: profile_manager where
  "profile_manager_new = \<lparr>profile_collectors = [], default_noop_collector = None\<rparr>"

definition SetProfileCollector :: "connection_t \<Rightarrow> string \<Rightarrow> profile_manager \<Rightarrow> cpp_error option \<times> profile_manager" where
  "SetProfileCollector conn profile_type pm =
     (if (case map_of (profile_collectors pm) conn of None \<Rightarrow> False | Some c \<Rightarrow> GetProfilerType c = profile_type)
      then (None, pm)
      else if profile_type = NOOP_PROFILE_TYPE
      then (None, pm\<lparr>profile_collectors := AList.update conn (NoopProfileCollector 0) (profile_collectors pm)\<rparr>)
      else if profile_type = TEMP_PROFILE_TYPE
      then (case TempProfileCollector_new of
              Inl e \<Rightarrow> (Some e, pm)
            | Inr t \<Rightarrow> (None, pm\<lparr>profile_collectors := AList.update conn (TempCollector t) (profile_collectors pm)\<rparr>))
      else (Some (InvalidInputException ''Invalid cache_httpfs_profile_type''), pm))"

text \<open>The collector found and the manager, which may have made its default collector.\<close>

definition GetProfileCollectorOrDefault :: "connection_t \<Rightarrow> profile_manager \<Rightarrow> profile_collector \<times> profile_manager" where
  "GetProfileCollectorOrDefault conn pm =
     (case map_of (profile_collectors pm) conn of
        Some c \<Rightarrow> (c, pm)
      | None \<Rightarrow>
          (case default_noop_collector pm of
             Some c \<Rightarrow> (c, pm)
           | None \<Rightarrow> (NoopProfileCollector 0, pm\<lparr>default_noop_collector := Some (NoopProfileCollector 0)\<rparr>)))"

definition GetProfileCollectorOrThrow :: "connection_t \<Rightarrow> profile_manager \<Rightarrow> profile_collector result" where
  "GetProfileCollectorOrThrow conn pm =
     (case map_of (profile_collectors pm) conn of
        Some c \<Rightarrow> Inr c
      | None \<Rightarrow> Inl (InternalException ''No profile collector found''))"

definition HasExplicitProfileCollector :: "connection_t \<Rightarrow> profile_manager \<Rightarrow> bool" where
  "HasExplicitProfileCollector conn pm \<longleftrightarrow> map_of (profile_collectors pm) conn \<noteq> None"

definition ResetProfileCollector :: "connection_t \<Rightarrow> profile_manager \<Rightarrow> profile_manager" where
  "ResetProfileCollector conn pm =
     (case map_of (profile_collectors pm) conn of
        None \<Rightarrow> pm
      | Some c \<Rightarrow> pm\<lparr>profile_collectors := AList.update conn (collector_Reset c) (profile_collectors pm)\<rparr>)"

definition RemoveProfileCollector :: "connection_t \<Rightarrow> profile_manager \<Rightarrow> profile_manager" where
  "RemoveProfileCollector conn pm = pm\<lparr>profile_collectors := AList.delete conn (profile_collectors pm)\<rparr>"

definition GetProfileCollectorCount :: "profile_manager \<Rightarrow> nat" where
  "GetProfileCollectorCount pm = length (profile_collectors pm)"

section \<open>Histograms count exactly\<close>

definition in_bucket :: "rat list \<Rightarrow> nat \<Rightarrow> rat \<Rightarrow> bool" where
  "in_bucket bs i v \<longleftrightarrow> (0 < i \<longrightarrow> bs ! (i - 1) \<le> v) \<and> (i < length bs \<longrightarrow> v < bs ! i)"

lemma bucket_iff:
  assumes "sorted bs" "i \<le> length bs"
  shows "length (takeWhile (\<lambda>b. b \<le> v) bs) = i \<longleftrightarrow> in_bucket bs i v"
proof -
  let ?n = "length (takeWhile (\<lambda>b. b \<le> v) bs)"
  have n: "?n \<le> length bs" by (rule length_takeWhile_le)
  have below: "bs ! j \<le> v" if "j < ?n" for j
    using that set_takeWhileD [OF nth_mem [OF that]] by (simp add: takeWhile_nth)
  have above: "\<not> bs ! ?n \<le> v" if "?n < length bs" using nth_length_takeWhile [OF that] .
  show ?thesis
  proof
    assume "?n = i"
    then show "in_bucket bs i v" using below [of "i - 1"] above by (auto simp: in_bucket_def)
  next
    assume b: "in_bucket bs i v"
    have "\<not> ?n < i"
    proof
      assume "?n < i"
      then have "bs ! ?n \<le> bs ! (i - 1)" using assms by (intro sorted_nth_mono) auto
      then show False using b above \<open>?n < i\<close> assms(2) by (simp add: in_bucket_def)
    qed
    moreover have "\<not> i < ?n" using b below [of i] n by (auto simp: in_bucket_def)
    ultimately show "?n = i" by simp
  qed
qed

lemma sum_list_inc: "i < length xs \<Longrightarrow> sum_list (xs[i := Suc (xs ! i)]) = Suc (sum_list (xs :: nat list))"
  by (induction xs arbitrary: i) (auto split: nat.splits)

lemma nth_le_sum_list: "i < length xs \<Longrightarrow> xs ! i \<le> sum_list (xs :: nat list)"
  by (rule member_le_sum_list) simp_all

definition histogram_of :: "rat list \<Rightarrow> rat list \<Rightarrow> Histogram \<Rightarrow> bool" where
  "histogram_of bs vs h \<longleftrightarrow>
     boundaries h = bs \<and> length (hist h) = length bs + 1 \<and>
     (\<forall>i \<le> length bs. hist h ! i = length (filter (in_bucket bs i) vs)) \<and>
     sum_list (hist h) = length vs \<and> total_counts h = length vs \<and> hist_sum h = sum_list vs \<and>
     min_encountered h = Min (insert DBL_MAX (set vs)) \<and> max_encountered h = Max (insert (- DBL_MAX) (set vs))"

lemma histogram_of_Reset: "boundaries h = bs \<Longrightarrow> histogram_of bs [] (Histogram_Reset h)"
  by (simp add: histogram_of_def Histogram_Reset_def sum_list_replicate del: replicate_Suc)

lemma histogram_of_Add:
  assumes h: "histogram_of bs vs h" and bs: "sorted bs" and fit: "Suc (length vs) < U64"
  shows "histogram_of bs (vs @ [v]) (Histogram_Add v h)"
proof -
  let ?i = "Histogram_Bucket v h"
  have b: "boundaries h = bs" "length (hist h) = length bs + 1" "sum_list (hist h) = length vs"
      "total_counts h = length vs"
    and cnt: "\<And>i. i \<le> length bs \<Longrightarrow> hist h ! i = length (filter (in_bucket bs i) vs)"
    using h by (simp_all add: histogram_of_def)
  have i: "?i \<le> length bs" using b(1) length_takeWhile_le by (simp add: Histogram_Bucket_def)
  have iff: "in_bucket bs j v \<longleftrightarrow> ?i = j" if "j \<le> length bs" for j
    using bucket_iff [OF bs that, of v] b(1) by (simp add: Histogram_Bucket_def)
  have "hist h ! ?i \<le> length vs" using nth_le_sum_list [of ?i "hist h"] i b by simp
  then have add: "u64_add (hist h ! ?i) 1 = Suc (hist h ! ?i)" "u64_add (length vs) 1 = Suc (length vs)"
    using fit by (simp_all add: u64_add_exact)
  have hist': "hist (Histogram_Add v h) = (hist h)[?i := Suc (hist h ! ?i)]"
    by (simp add: Histogram_Add_def Let_def add [simplified])
  have "hist (Histogram_Add v h) ! j = length (filter (in_bucket bs j) (vs @ [v]))" if "j \<le> length bs" for j
    using that i b(2) cnt iff [OF that] unfolding hist' by (auto simp: nth_list_update)
  moreover have "sum_list (hist (Histogram_Add v h)) = length (vs @ [v])"
    unfolding hist' using sum_list_inc [of ?i "hist h"] i b by simp
  moreover have "min_encountered (Histogram_Add v h) = Min (insert DBL_MAX (set (vs @ [v])))"
      "max_encountered (Histogram_Add v h) = Max (insert (- DBL_MAX) (set (vs @ [v])))"
    using h by (simp_all add: Histogram_Add_def Let_def histogram_of_def insert_commute [of _ v] min.commute max.commute)
  ultimately show ?thesis
    using h add [simplified] b by (simp add: histogram_of_def hist') (simp add: Histogram_Add_def Let_def)
qed

lemma histogram_of_Adds:
  assumes "histogram_of bs us h" "sorted bs" "length us + length vs < U64"
  shows "histogram_of bs (us @ vs) (fold Histogram_Add vs h)"
  using assms
proof (induction vs arbitrary: us h)
  case (Cons v vs)
  have "histogram_of bs (us @ [v]) (Histogram_Add v h)" using Cons.prems by (intro histogram_of_Add) simp_all
  from Cons.IH [OF this Cons.prems(2)] Cons.prems(3) show ?case by simp
qed simp

text \<open>
  A histogram made with non-empty ascending boundaries counts exactly: after adding
  any values, fewer than \<open>2\<^sup>6\<^sup>4\<close>, bucket \<open>i\<close> holds the number of values from boundary \<open>i - 1\<close> to below
  boundary \<open>i\<close>, the first bucket all values below the first boundary and the last one all values
  from the last boundary on, so none is an outlier; the buckets add up to the total count, the sum,
  the mean, the least and the greatest value are those of the values added.
\<close>

theorem histogram_exact:
  assumes "Histogram_new bs = Inr h0" "length vs < U64"
  defines "h \<equiv> fold Histogram_Add vs h0"
  shows "(\<forall>i \<le> length bs. hist h ! i = length (filter (in_bucket bs i) vs)) \<and>
    sum_list (hist h) = total_counts h \<and> total_counts h = length vs \<and> hist_sum h = sum_list vs \<and>
    Histogram_mean h * of_nat (length vs) = sum_list vs \<and>
    (vs \<noteq> [] \<and> (\<forall>v \<in> set vs. \<bar>v\<bar> \<le> DBL_MAX) \<longrightarrow>
       min_encountered h = Min (set vs) \<and> max_encountered h = Max (set vs))"
proof -
  have bs: "sorted bs" "histogram_of bs [] h0"
    using assms(1) by (auto simp: Histogram_new_def intro!: histogram_of_Reset split: if_splits)
  have h: "histogram_of bs vs h" using histogram_of_Adds [OF bs(2,1), of vs] assms(2) by (simp add: h_def)
  have "min_encountered h = Min (set vs) \<and> max_encountered h = Max (set vs)"
    if "vs \<noteq> []" "\<forall>v \<in> set vs. \<bar>v\<bar> \<le> DBL_MAX"
  proof -
    have "Min (set vs) \<in> set vs" "Max (set vs) \<in> set vs" using that(1) by simp_all
    then have "Min (set vs) \<le> DBL_MAX" "- DBL_MAX \<le> Max (set vs)" using that(2) by fastforce+
    then show ?thesis using h that(1) by (simp add: histogram_of_def)
  qed
  then show ?thesis using h by (auto simp: histogram_of_def Histogram_mean_def)
qed

lemma histogram_exact_witness:
  "\<exists>h0. Histogram_new [1, 10] = Inr h0 \<and> total_counts (fold Histogram_Add [0, 5, 10, 7] h0) = 4 \<and>
     hist (fold Histogram_Add [0, 5, 10, 7] h0) ! 1 = 2"
proof -
  obtain h0 where h0: "Histogram_new [1, 10] = Inr h0" by (simp add: Histogram_new_def)
  have "length [0, 5, 10, 7 :: rat] < U64" by (simp add: U64_def)
  from histogram_exact [OF h0 this] h0 show ?thesis by (auto simp: in_bucket_def)
qed

section \<open>The collector reports what happened since the last reset\<close>

datatype profile_event =
    Cache_Access CacheEntity CacheAccess idx_t
  | Actual_Read idx_t idx_t
  | Bytes_Written idx_t
  | Operation_End nat IoOperation int

fun profile_step :: "profile_event \<Rightarrow> TempProfileCollector \<Rightarrow> TempProfileCollector" where
  "profile_step (Cache_Access en ac n) t = temp_RecordCacheAccess en ac n t"
| "profile_step (Actual_Read c a) t = temp_RecordActualCacheRead c a t"
| "profile_step (Bytes_Written n) t = temp_RecordBytesWritten n t"
| "profile_step (Operation_End now op l) t = temp_RecordOperationEnd now op l t"

fun event_known :: "profile_event \<Rightarrow> bool" where
  "event_known (Cache_Access en ac n) \<longleftrightarrow> en \<noteq> kUnknownEntity \<and> ac \<noteq> kUnknownAccess"
| "event_known (Operation_End now op l) \<longleftrightarrow> op \<noteq> kUnknownOperation"
| "event_known _ \<longleftrightarrow> True"

fun is_access :: "CacheEntity \<Rightarrow> CacheAccess \<Rightarrow> profile_event \<Rightarrow> bool" where
  "is_access en ac (Cache_Access en' ac' n) \<longleftrightarrow> en' = en \<and> ac' = ac"
| "is_access en ac _ \<longleftrightarrow> False"

fun access_bytes :: "CacheAccess \<Rightarrow> profile_event \<Rightarrow> nat" where
  "access_bytes ac (Cache_Access en' ac' n) = (if en' = kData \<and> ac' = ac then n else 0)"
| "access_bytes ac _ = 0"

fun event_latency :: "IoOperation \<Rightarrow> profile_event \<Rightarrow> rat list" where
  "event_latency op (Operation_End now op' l) = (if op' = op then [of_int l] else [])"
| "event_latency op _ = []"

definition latencies :: "IoOperation \<Rightarrow> profile_event list \<Rightarrow> rat list" where
  "latencies op es = concat (map (event_latency op) es)"

abbreviation access_slot :: "CacheEntity \<Rightarrow> CacheAccess \<Rightarrow> nat" where
  "access_slot en ac \<equiv> entity_index en * kCacheAccessCount + access_index ac"

lemma entity_index_inj [simp]: "entity_index a = entity_index b \<longleftrightarrow> a = b"
  by (cases a; cases b) simp_all

lemma access_index_inj [simp]: "access_index a = access_index b \<longleftrightarrow> a = b"
  by (cases a; cases b) simp_all

lemma operation_index_inj [simp]: "operation_index a = operation_index b \<longleftrightarrow> a = b"
  by (cases a; cases b) simp_all

lemma entity_known: "en \<noteq> kUnknownEntity \<Longrightarrow> entity_index en < 4"
  by (cases en) simp_all

lemma access_known: "ac \<noteq> kUnknownAccess \<Longrightarrow> access_index ac < 3"
  by (cases ac) simp_all

lemma operation_known: "op \<noteq> kUnknownOperation \<Longrightarrow> operation_index op < 8"
  by (cases op) simp_all

lemma access_slot_inj:
  assumes "ac \<noteq> kUnknownAccess" "ac' \<noteq> kUnknownAccess"
  shows "access_slot en ac = access_slot en' ac' \<longleftrightarrow> en = en' \<and> ac = ac'"
proof -
  have split: "a * 3 + b = c * 3 + d \<longleftrightarrow> a = c \<and> b = d" if "b < 3" "d < 3" for a b c d :: nat
    using that by presburger
  show ?thesis
    using split [OF access_known [OF assms(1)] access_known [OF assms(2)], of "entity_index en" "entity_index en'"]
    by (simp add: kCacheAccessCount_def)
qed

lemma access_slot_less:
  assumes "en \<noteq> kUnknownEntity" "ac \<noteq> kUnknownAccess"
  shows "access_slot en ac < 12"
  using entity_known [OF assms(1)] access_known [OF assms(2)] by (simp add: kCacheAccessCount_def)

definition collector_of :: "profile_event list \<Rightarrow> TempProfileCollector \<Rightarrow> bool" where
  "collector_of es t \<longleftrightarrow>
     length (cache_access_count t) = 12 \<and>
     (\<forall>en ac. en \<noteq> kUnknownEntity \<longrightarrow> ac \<noteq> kUnknownAccess \<longrightarrow>
        cache_access_count t ! access_slot en ac = length (filter (is_access en ac) es)) \<and>
     bytes_read_from_hits t = sum_list (map (access_bytes kCacheHit) es) mod U64 \<and>
     bytes_read_from_misses t = sum_list (map (access_bytes kCacheMiss) es) mod U64 \<and>
     length (histograms t) = 8 \<and>
     (\<forall>op. op \<noteq> kUnknownOperation \<longrightarrow>
        histogram_of (kLatencyBuckets ! operation_index op) (latencies op es) (histograms t ! operation_index op))"

lemma buckets_sorted: "op \<noteq> kUnknownOperation \<Longrightarrow> sorted (kLatencyBuckets ! operation_index op)"
  by (cases op) (simp_all add: kLatencyBuckets_def kDefaultLatencyBucketsMs_def kDiskCacheReadLatencyBucketsMs_def
      kPathClearLatencyBucketsMs_def)

lemma latencies_snoc: "latencies op (es @ [e]) = latencies op es @ event_latency op e"
  by (simp add: latencies_def)

lemma length_latencies: "length (latencies op es) \<le> length es"
proof (induction es)
  case (Cons e es)
  have "length (event_latency op e) \<le> 1" by (cases e) simp_all
  with Cons show ?case by (simp add: latencies_def)
qed (simp add: latencies_def)

lemma collector_of_access:
  assumes t: "collector_of es t" and e: "event_known (Cache_Access en ac n)" and fit: "Suc (length es) < U64"
  shows "collector_of (es @ [Cache_Access en ac n]) (temp_RecordCacheAccess en ac n t)"
proof -
  let ?i = "access_slot en ac" and ?t = "temp_RecordCacheAccess en ac n t"
  have k: "en \<noteq> kUnknownEntity" "ac \<noteq> kUnknownAccess" using e by simp_all
  have c: "cache_access_count t ! ?i = length (filter (is_access en ac) es)" "length (cache_access_count t) = 12"
    using t k by (simp_all add: collector_of_def)
  then have "cache_access_count t ! ?i \<le> length es" by simp
  then have add: "u64_add (cache_access_count t ! ?i) (Suc 0) = Suc (cache_access_count t ! ?i)"
    using fit by (simp add: u64_add_def)
  have cnt: "cache_access_count ?t = (cache_access_count t)[?i := Suc (cache_access_count t ! ?i)]"
    using add by (auto simp: temp_RecordCacheAccess_def Let_def)
  have "cache_access_count ?t ! access_slot en' ac' = length (filter (is_access en' ac') (es @ [Cache_Access en ac n]))"
    if "en' \<noteq> kUnknownEntity" "ac' \<noteq> kUnknownAccess" for en' ac'
    using t that k c access_slot_less [OF k] access_slot_inj [OF k(2) that(2), of en en']
    unfolding cnt by (auto simp: collector_of_def nth_list_update)
  moreover have "bytes_read_from_hits ?t = sum_list (map (access_bytes kCacheHit) (es @ [Cache_Access en ac n])) mod U64"
      "bytes_read_from_misses ?t = sum_list (map (access_bytes kCacheMiss) (es @ [Cache_Access en ac n])) mod U64"
    using t by (auto simp: collector_of_def temp_RecordCacheAccess_def Let_def u64_add_def mod_add_left_eq)
  moreover have "histograms ?t = histograms t" by (simp add: temp_RecordCacheAccess_def Let_def)
  ultimately show ?thesis using t cnt by (simp add: collector_of_def latencies_snoc)
qed

lemma collector_of_operation:
  assumes t: "collector_of es t" and e: "op \<noteq> kUnknownOperation" and fit: "Suc (length es) < U64"
  shows "collector_of (es @ [Operation_End now op l]) (temp_RecordOperationEnd now op l t)"
proof -
  let ?i = "operation_index op" and ?t = "temp_RecordOperationEnd now op l t"
  have i: "?i < length (histograms t)" using t operation_known [OF e] by (simp add: collector_of_def)
  have "Suc (length (latencies op es)) < U64" using length_latencies [of op es] fit by simp
  then have "histogram_of (kLatencyBuckets ! ?i) (latencies op es @ [of_int l]) (Histogram_Add (of_int l) (histograms t ! ?i))"
    using t e buckets_sorted [OF e] by (intro histogram_of_Add) (simp_all add: collector_of_def)
  then have "histogram_of (kLatencyBuckets ! operation_index op') (latencies op' (es @ [Operation_End now op l]))
      (histograms ?t ! operation_index op')" if "op' \<noteq> kUnknownOperation" for op'
    using t that i by (auto simp: collector_of_def latencies_snoc temp_RecordOperationEnd_def nth_list_update)
  then show ?thesis using t by (simp add: collector_of_def temp_RecordOperationEnd_def)
qed

lemma collector_of_step:
  assumes "collector_of es t" "event_known e" "Suc (length es) < U64"
  shows "collector_of (es @ [e]) (profile_step e t)"
proof (cases e)
  case (Cache_Access en ac n)
  then show ?thesis using collector_of_access [OF assms(1)] assms(2,3) by simp
next
  case (Operation_End now op l)
  then show ?thesis using collector_of_operation [OF assms(1)] assms(2,3) by simp
qed (use assms in \<open>simp_all add: collector_of_def latencies_snoc temp_RecordActualCacheRead_def temp_RecordBytesWritten_def\<close>)

lemma collector_of_run:
  assumes "collector_of us t" "list_all event_known es" "length us + length es < U64"
  shows "collector_of (us @ es) (fold profile_step es t)"
  using assms
proof (induction es arbitrary: us t)
  case (Cons e es)
  have "collector_of (us @ [e]) (profile_step e t)" using Cons.prems by (intro collector_of_step) simp_all
  from Cons.IH [OF this] Cons.prems(2,3) show ?case by simp
qed simp

lemma latency_histograms_ok:
  "list_all (\<lambda>bs. bs \<noteq> [] \<and> sorted bs) bss \<Longrightarrow>
   \<exists>hs. latency_histograms bss = Inr hs \<and> length hs = length bss \<and> map Histogram_Reset hs = hs \<and>
     (\<forall>i < length bss. histogram_of (bss ! i) [] (hs ! i))"
proof (induction bss)
  case (Cons bs bss)
  then obtain hs where hs: "latency_histograms bss = Inr hs" "length hs = length bss" "map Histogram_Reset hs = hs"
      "\<forall>i < length bss. histogram_of (bss ! i) [] (hs ! i)" by auto
  obtain h where h: "Histogram_new bs = Inr h" "Histogram_Reset h = h" "histogram_of bs [] h"
    using Cons.prems by (auto simp: Histogram_new_def histogram_of_Reset) (simp add: Histogram_Reset_def)
  let ?h = "SetStatsDistribution ''latency'' ''millisec'' h"
  have "Histogram_Reset ?h = SetStatsDistribution ''latency'' ''millisec'' (Histogram_Reset h)"
    by (simp add: SetStatsDistribution_def Histogram_Reset_def)
  then have "Histogram_Reset ?h = ?h" using h(2) by simp
  moreover have "histogram_of bs [] ?h" using h(3) by (simp add: SetStatsDistribution_def histogram_of_def)
  ultimately show ?case using hs h(1) by (auto simp: nth_Cons split: nat.splits)
qed simp

lemma TempProfileCollector_new_ok:
  "\<exists>t. TempProfileCollector_new = Inr t \<and> collector_of [] t \<and> map Histogram_Reset (histograms t) = histograms t"
proof -
  have "list_all (\<lambda>bs. bs \<noteq> [] \<and> sorted bs) kLatencyBuckets"
    by (simp add: kLatencyBuckets_def kDefaultLatencyBucketsMs_def kDiskCacheReadLatencyBucketsMs_def
        kPathClearLatencyBucketsMs_def)
  from latency_histograms_ok [OF this] obtain hs where hs: "latency_histograms kLatencyBuckets = Inr hs"
    "length hs = length kLatencyBuckets" "map Histogram_Reset hs = hs"
    "\<forall>i < length kLatencyBuckets. histogram_of (kLatencyBuckets ! i) [] (hs ! i)" by blast
  have n: "length kLatencyBuckets = 8" by (simp add: kLatencyBuckets_def)
  have "replicate 12 (0::nat) ! access_slot en ac = 0" if "en \<noteq> kUnknownEntity" "ac \<noteq> kUnknownAccess" for en ac
    using access_slot_less [OF that] by (simp only: nth_replicate)
  then show ?thesis
    using hs n operation_known
    by (simp add: TempProfileCollector_new_def collector_of_def latencies_def kCacheEntityCount_def kCacheAccessCount_def)
qed

lemma Histogram_Reset_Add: "Histogram_Reset (Histogram_Add v h) = Histogram_Reset h"
  by (simp add: Histogram_Reset_def Histogram_Add_def Let_def)

lemma temp_Reset_step: "temp_Reset (profile_step e t) = temp_Reset t"
proof (cases e)
  case (Operation_End now op l)
  have "map Histogram_Reset ((histograms t)[i := Histogram_Add v (histograms t ! i)]) = map Histogram_Reset (histograms t)"
    for i v by (cases "i < length (histograms t)") (auto simp: map_update Histogram_Reset_Add list_update_same_conv list_update_beyond)
  then show ?thesis using Operation_End by (simp add: temp_Reset_def temp_RecordOperationEnd_def)
next
  case (Cache_Access en ac n)
  have "map (\<lambda>_. 0::nat) (xs[i := x]) = map (\<lambda>_. 0) xs" for xs :: "nat list" and i x
    by (cases "i < length xs") (auto simp: map_update list_update_same_conv list_update_beyond)
  then show ?thesis using Cache_Access by (simp add: temp_Reset_def temp_RecordCacheAccess_def Let_def)
qed (simp_all add: temp_Reset_def temp_RecordActualCacheRead_def temp_RecordBytesWritten_def)

lemma temp_Reset_run: "temp_Reset (fold profile_step es t) = temp_Reset t"
  by (induction es arbitrary: t) (simp_all add: temp_Reset_step)

text \<open>
  Property C35. The profile collector can always be made and reports exactly what it was told since
  it was made or last reset: per cache and kind of access the number of accesses, the bytes of data
  hits and misses (as \<open>uint64_t\<close>), and per operation a histogram of the latencies reported for it;
  byte counts appear in the listing for the data cache and for no other; and a reset gives a
  collector that is as new.
\<close>

theorem profile_reports_events:
  assumes "list_all event_known es" "length es < U64"
  shows "\<exists>t0. TempProfileCollector_new = Inr t0 \<and> temp_Reset (fold profile_step es t0) = t0 \<and>
    (let t = fold profile_step es t0; info = temp_GetCacheAccessInfo t in
     (\<forall>op. op \<noteq> kUnknownOperation \<longrightarrow>
        histogram_of (kLatencyBuckets ! operation_index op) (latencies op es) (histograms t ! operation_index op)) \<and>
     (\<forall>en. en \<noteq> kUnknownEntity \<longrightarrow>
        ca_cache_hit_count (info ! entity_index en) = length (filter (is_access en kCacheHit) es) \<and>
        ca_cache_miss_count (info ! entity_index en) = length (filter (is_access en kCacheMiss) es) \<and>
        ca_cache_miss_by_in_use (info ! entity_index en) = length (filter (is_access en kCacheEntryInUse) es) \<and>
        ca_bytes_read_from_hits (info ! entity_index en) =
          (if en = kData then Some (sum_list (map (access_bytes kCacheHit) es) mod U64) else None) \<and>
        ca_bytes_read_from_misses (info ! entity_index en) =
          (if en = kData then Some (sum_list (map (access_bytes kCacheMiss) es) mod U64) else None)))"
proof -
  obtain t0 where t0: "TempProfileCollector_new = Inr t0" "collector_of [] t0" "map Histogram_Reset (histograms t0) = histograms t0"
    using TempProfileCollector_new_ok by blast
  let ?t = "fold profile_step es t0"
  have c: "collector_of es ?t" using collector_of_run [OF t0(2) assms(1)] assms(2) by simp
  have "temp_Reset t0 = t0"
    using t0(1,3) by (auto simp: temp_Reset_def TempProfileCollector_new_def split: sum.splits)
  then have reset: "temp_Reset ?t = t0" by (simp add: temp_Reset_run)
  have slot: "cache_access_count ?t ! (entity_index en * kCacheAccessCount + access_index ac) =
      length (filter (is_access en ac) es)" if "en \<noteq> kUnknownEntity" "ac \<noteq> kUnknownAccess" for en ac
    using c that by (simp add: collector_of_def)
  have idx: "entity_index en < kCacheEntityCount" "(entity_index en = operation_index kRead) = (en = kData)"
    if "en \<noteq> kUnknownEntity" for en
    using that by (cases en; simp add: kCacheEntityCount_def)+
  have hists: "\<forall>op. op \<noteq> kUnknownOperation \<longrightarrow>
      histogram_of (kLatencyBuckets ! operation_index op) (latencies op es) (histograms ?t ! operation_index op)"
    using c by (simp add: collector_of_def)
  show ?thesis
  proof (intro exI [of _ t0] conjI t0(1) reset, unfold Let_def, intro conjI hists allI impI)
    fix en assume en: "en \<noteq> kUnknownEntity"
    note unf = temp_GetCacheAccessInfo_def nth_map nth_upt Let_def
    show "ca_cache_hit_count (temp_GetCacheAccessInfo ?t ! entity_index en) = length (filter (is_access en kCacheHit) es)"
      using slot [OF en, of kCacheHit] idx [OF en] by (simp add: unf)
    show "ca_cache_miss_count (temp_GetCacheAccessInfo ?t ! entity_index en) = length (filter (is_access en kCacheMiss) es)"
      using slot [OF en, of kCacheMiss] idx [OF en] by (simp add: unf)
    show "ca_cache_miss_by_in_use (temp_GetCacheAccessInfo ?t ! entity_index en) =
        length (filter (is_access en kCacheEntryInUse) es)"
      using slot [OF en, of kCacheEntryInUse] idx [OF en] by (simp add: unf)
    show "ca_bytes_read_from_hits (temp_GetCacheAccessInfo ?t ! entity_index en) =
        (if en = kData then Some (sum_list (map (access_bytes kCacheHit) es) mod U64) else None)"
      using c idx [OF en] by (simp add: unf collector_of_def)
    show "ca_bytes_read_from_misses (temp_GetCacheAccessInfo ?t ! entity_index en) =
        (if en = kData then Some (sum_list (map (access_bytes kCacheMiss) es) mod U64) else None)"
      using c idx [OF en] by (simp add: unf collector_of_def)
  qed
qed

lemma profile_reports_events_witness:
  "\<exists>t0. TempProfileCollector_new = Inr t0 \<and>
     ca_bytes_read_from_hits (temp_GetCacheAccessInfo
       (fold profile_step [Cache_Access kData kCacheHit 5, Operation_End 9 kRead 3, Cache_Access kData kCacheHit 2] t0) ! 1) = Some 7"
proof -
  let ?es = "[Cache_Access kData kCacheHit 5, Operation_End 9 kRead 3, Cache_Access kData kCacheHit 2]"
  have "list_all event_known ?es" "length ?es < U64" by (simp_all add: U64_def)
  from profile_reports_events [OF this] show ?thesis
    unfolding Let_def by (elim exE conjE allE [of _ kData] impE) (auto simp: U64_def)
qed

end
