(* ===== verification/Instance_Config.thy ===== *)
theory Instance_Config
  imports Complex_Main In_Memory_Reader File_Metadata File_Handles Disk_Cache_Files Profile_Collector
begin

text \<open>
  The configuration of one database instance (\<open>InstanceConfig\<close>,
  \<open>src/include/cache_httpfs_instance_state.hpp\<close>), its defaults (\<open>src/cache_filesystem_config.cpp\<close>), and
  the callbacks of the extension options that check a value and store it
  (\<open>src/cache_httpfs_extension.cpp\<close>). DuckDB has converted a value to the option's type before it
  calls one of them. Callbacks with further effects are in \<open>Extension_Settings\<close>.
\<close>

section \<open>Names\<close>

definition NOOP_CACHE_TYPE :: string where
  "NOOP_CACHE_TYPE = ''noop''"

definition ON_DISK_CACHE_TYPE :: string where
  "ON_DISK_CACHE_TYPE = ''on_disk''"

definition IN_MEM_CACHE_TYPE :: string where
  "IN_MEM_CACHE_TYPE = ''in_mem''"

definition ALL_CACHE_TYPES :: "string list" where
  "ALL_CACHE_TYPES = [''noop'', ''on_disk'', ''in_mem'']"

definition EXT_BOUNDED_STORAGE :: string where
  "EXT_BOUNDED_STORAGE = ''extension''"

definition ALL_IN_MEM_CACHE_STORAGES :: "string list" where
  "ALL_IN_MEM_CACHE_STORAGES = [''extension'', ''object_cache'', ''policy'']"

definition FIXED_CHUNKING :: string where
  "FIXED_CHUNKING = ''fixed''"

definition ALL_CHUNKINGS :: "string list" where
  "ALL_CHUNKINGS = [''fixed'', ''column_chunk'']"

definition GLOBAL_POLICY_SCOPE :: string where
  "GLOBAL_POLICY_SCOPE = ''global''"

definition ALL_POLICY_SCOPES :: "string list" where
  "ALL_POLICY_SCOPES = [''global'', ''per_file'']"

definition INTERNAL_THREAD_POOL_EXECUTOR :: string where
  "INTERNAL_THREAD_POOL_EXECUTOR = ''internal_thread_pool''"

definition DUCKDB_TASK_SCHEDULER_EXECUTOR :: string where
  "DUCKDB_TASK_SCHEDULER_EXECUTOR = ''duckdb_task_scheduler''"

datatype ParallelExecutorMode = INTERNAL_THREAD_POOL | DUCKDB_TASK_SCHEDULER

definition ParseParallelExecutorMode :: "string \<Rightarrow> ParallelExecutorMode result" where
  "ParseParallelExecutorMode mode =
     (if mode = INTERNAL_THREAD_POOL_EXECUTOR then Inr INTERNAL_THREAD_POOL
      else if mode = DUCKDB_TASK_SCHEDULER_EXECUTOR then Inr DUCKDB_TASK_SCHEDULER
      else Inl (InvalidInputException ''Invalid cache_httpfs_parallel_read_mode''))"

section \<open>The configuration\<close>

text \<open>
  The options of the metadata, handle and glob caches are the records of those components;
  \<open>clear_cache_on_write\<close> is in the one of the handle cache. A \<open>double\<close> is a rational number.
\<close>

record InstanceConfig =
  cfg_cache_block_size :: idx_t
  cfg_cache_type :: string
  cfg_profile_type :: string
  cfg_max_subrequest_count :: nat
  cfg_ignore_sigpipe :: bool
  cfg_on_disk_cache_directories :: "string list"
  cfg_min_disk_bytes_for_cache :: idx_t
  cfg_on_disk_eviction_policy :: string
  cfg_enable_disk_reader_mem_cache :: bool
  cfg_disk_reader_max_mem_cache_block_count :: idx_t
  cfg_disk_reader_max_mem_cache_timeout_millisec :: idx_t
  cfg_max_in_mem_cache_block_count :: idx_t
  cfg_in_mem_cache_block_timeout_millisec :: idx_t
  cfg_in_mem_cache_storage :: string
  cfg_chunking :: string
  cfg_in_mem_cache_bytes :: idx_t
  cfg_eviction_policy :: string
  cfg_policy_scope :: string
  cfg_file_policies :: string
  cfg_sim_latency_us :: idx_t
  cfg_sim_bandwidth_gbps :: rat
  cfg_metadata :: metadata_config
  cfg_handles :: handle_config
  cfg_glob :: glob_config
  cfg_enable_cache_validation :: bool
  cfg_parallel_read_mode :: ParallelExecutorMode

text \<open>The default directory depends on the machine's temporary directory.\<close>

definition default_config :: "string \<Rightarrow> InstanceConfig" where
  "default_config default_directory =
     \<lparr>cfg_cache_block_size = 512 * 1024,
      cfg_cache_type = ON_DISK_CACHE_TYPE,
      cfg_profile_type = NOOP_PROFILE_TYPE,
      cfg_max_subrequest_count = 0,
      cfg_ignore_sigpipe = False,
      cfg_on_disk_cache_directories = [default_directory],
      cfg_min_disk_bytes_for_cache = 0,
      cfg_on_disk_eviction_policy = ON_DISK_CREATION_TIMESTAMP_EVICTION,
      cfg_enable_disk_reader_mem_cache = True,
      cfg_disk_reader_max_mem_cache_block_count = 256,
      cfg_disk_reader_max_mem_cache_timeout_millisec = 1800 * 1000,
      cfg_max_in_mem_cache_block_count = 256,
      cfg_in_mem_cache_block_timeout_millisec = 3600 * 1000,
      cfg_in_mem_cache_storage = EXT_BOUNDED_STORAGE,
      cfg_chunking = FIXED_CHUNKING,
      cfg_in_mem_cache_bytes = 0,
      cfg_eviction_policy = ''lru'',
      cfg_policy_scope = GLOBAL_POLICY_SCOPE,
      cfg_file_policies = '''',
      cfg_sim_latency_us = 0,
      cfg_sim_bandwidth_gbps = 0,
      cfg_metadata = \<lparr>enable_metadata_cache = True, max_metadata_cache_entry = 250,
        metadata_cache_entry_timeout_millisec = 3600 * 1000\<rparr>,
      cfg_handles = \<lparr>enable_file_handle_cache = True, max_file_handle_cache_entry = 250,
        file_handle_cache_entry_timeout_millisec = 3600 * 1000, clear_cache_on_write = False\<rparr>,
      cfg_glob = \<lparr>enable_glob_cache = True, max_glob_cache_entry = 64,
        glob_cache_entry_timeout_millisec = 1800 * 1000\<rparr>,
      cfg_enable_cache_validation = False,
      cfg_parallel_read_mode = INTERNAL_THREAD_POOL\<rparr>"

section \<open>Callbacks that check and store\<close>

definition UpdateMaxFanoutSubrequest :: "nat \<Rightarrow> InstanceConfig \<Rightarrow> InstanceConfig result" where
  "UpdateMaxFanoutSubrequest n cfg = Inr (cfg\<lparr>cfg_max_subrequest_count := n\<rparr>)"

definition UpdateEnableCacheValidation :: "bool \<Rightarrow> InstanceConfig \<Rightarrow> InstanceConfig result" where
  "UpdateEnableCacheValidation b cfg = Inr (cfg\<lparr>cfg_enable_cache_validation := b\<rparr>)"

definition UpdateClearCacheOnWrite :: "bool \<Rightarrow> InstanceConfig \<Rightarrow> InstanceConfig result" where
  "UpdateClearCacheOnWrite b cfg = Inr (cfg\<lparr>cfg_handles := (cfg_handles cfg)\<lparr>clear_cache_on_write := b\<rparr>\<rparr>)"

definition UpdateMinDiskBytesForCache :: "nat \<Rightarrow> InstanceConfig \<Rightarrow> InstanceConfig result" where
  "UpdateMinDiskBytesForCache n cfg =
     (if n = 0 then Inl (InvalidInputException ''cache_httpfs_min_disk_bytes_for_cache must be greater than 0'')
      else Inr (cfg\<lparr>cfg_min_disk_bytes_for_cache := n\<rparr>))"

definition UpdateEvictPolicy :: "string \<Rightarrow> InstanceConfig \<Rightarrow> InstanceConfig result" where
  "UpdateEvictPolicy policy cfg =
     (if policy = ON_DISK_CREATION_TIMESTAMP_EVICTION
      then Inr (cfg\<lparr>cfg_on_disk_eviction_policy := ON_DISK_CREATION_TIMESTAMP_EVICTION\<rparr>)
      else if policy = ON_DISK_LRU_SINGLE_PROC_EVICTION
      then Inr (cfg\<lparr>cfg_on_disk_eviction_policy := ON_DISK_LRU_SINGLE_PROC_EVICTION\<rparr>)
      else Inl (InvalidInputException ''Invalid cache_httpfs_evict_policy''))"

definition UpdateDiskCacheReaderEnableMemoryCache :: "bool \<Rightarrow> InstanceConfig \<Rightarrow> InstanceConfig result" where
  "UpdateDiskCacheReaderEnableMemoryCache b cfg = Inr (cfg\<lparr>cfg_enable_disk_reader_mem_cache := b\<rparr>)"

definition UpdateDiskCacheReaderMemCacheBlockCount :: "nat \<Rightarrow> InstanceConfig \<Rightarrow> InstanceConfig result" where
  "UpdateDiskCacheReaderMemCacheBlockCount n cfg =
     (if n = 0 then Inl (InvalidInputException ''cache_httpfs_disk_cache_reader_mem_cache_block_count must be greater than 0'')
      else Inr (cfg\<lparr>cfg_disk_reader_max_mem_cache_block_count := n\<rparr>))"

definition UpdateDiskCacheReaderMemCacheTimeout :: "nat \<Rightarrow> InstanceConfig \<Rightarrow> InstanceConfig result" where
  "UpdateDiskCacheReaderMemCacheTimeout n cfg =
     (if n = 0 then Inl (InvalidInputException ''cache_httpfs_disk_cache_reader_mem_cache_timeout_millisec must be greater than 0'')
      else Inr (cfg\<lparr>cfg_disk_reader_max_mem_cache_timeout_millisec := n\<rparr>))"

definition UpdateMaxInMemCacheBlockCount :: "nat \<Rightarrow> InstanceConfig \<Rightarrow> InstanceConfig result" where
  "UpdateMaxInMemCacheBlockCount n cfg =
     (if n = 0 then Inl (InvalidInputException ''cache_httpfs_max_in_mem_cache_block_count must be greater than 0'')
      else Inr (cfg\<lparr>cfg_max_in_mem_cache_block_count := n\<rparr>))"

definition UpdateInMemCacheBlockTimeout :: "nat \<Rightarrow> InstanceConfig \<Rightarrow> InstanceConfig result" where
  "UpdateInMemCacheBlockTimeout n cfg =
     (if n = 0 then Inl (InvalidInputException ''cache_httpfs_in_mem_cache_block_timeout_millisec must be greater than 0'')
      else Inr (cfg\<lparr>cfg_in_mem_cache_block_timeout_millisec := n\<rparr>))"

definition UpdateInMemCacheStorage :: "string \<Rightarrow> InstanceConfig \<Rightarrow> InstanceConfig result" where
  "UpdateInMemCacheStorage s cfg =
     (if s \<notin> set ALL_IN_MEM_CACHE_STORAGES then Inl (InvalidInputException ''Invalid cache_httpfs_in_mem_cache_storage'')
      else Inr (cfg\<lparr>cfg_in_mem_cache_storage := s\<rparr>))"

definition UpdateChunking :: "string \<Rightarrow> InstanceConfig \<Rightarrow> InstanceConfig result" where
  "UpdateChunking s cfg =
     (if s \<notin> set ALL_CHUNKINGS then Inl (InvalidInputException ''Invalid cache_httpfs_chunking'')
      else Inr (cfg\<lparr>cfg_chunking := s\<rparr>))"

definition UpdateInMemCacheBytes :: "nat \<Rightarrow> InstanceConfig \<Rightarrow> InstanceConfig result" where
  "UpdateInMemCacheBytes n cfg = Inr (cfg\<lparr>cfg_in_mem_cache_bytes := n\<rparr>)"

definition UpdateEvictionPolicy :: "string \<Rightarrow> InstanceConfig \<Rightarrow> InstanceConfig result" where
  "UpdateEvictionPolicy s cfg =
     (if \<not> IsValidEvictionPolicy s then Inl (InvalidInputException ''Invalid cache_httpfs_eviction_policy'')
      else Inr (cfg\<lparr>cfg_eviction_policy := s\<rparr>))"

definition UpdatePolicyScope :: "string \<Rightarrow> InstanceConfig \<Rightarrow> InstanceConfig result" where
  "UpdatePolicyScope s cfg =
     (if s \<notin> set ALL_POLICY_SCOPES then Inl (InvalidInputException ''Invalid cache_httpfs_policy_scope'')
      else Inr (cfg\<lparr>cfg_policy_scope := s\<rparr>))"

definition UpdateFilePolicies :: "string \<Rightarrow> InstanceConfig \<Rightarrow> InstanceConfig result" where
  "UpdateFilePolicies s cfg = Inr (cfg\<lparr>cfg_file_policies := s\<rparr>)"

definition UpdateSimLatencyUs :: "nat \<Rightarrow> InstanceConfig \<Rightarrow> InstanceConfig result" where
  "UpdateSimLatencyUs n cfg = Inr (cfg\<lparr>cfg_sim_latency_us := n\<rparr>)"

definition UpdateSimBandwidthGbps :: "rat \<Rightarrow> InstanceConfig \<Rightarrow> InstanceConfig result" where
  "UpdateSimBandwidthGbps x cfg =
     (if x < 0 then Inl (InvalidInputException ''cache_httpfs_sim_bandwidth_gbps must not be negative'')
      else Inr (cfg\<lparr>cfg_sim_bandwidth_gbps := x\<rparr>))"

definition UpdateParallelReadMode :: "string \<Rightarrow> InstanceConfig \<Rightarrow> InstanceConfig result" where
  "UpdateParallelReadMode s cfg =
     (case ParseParallelExecutorMode s of
        Inl e \<Rightarrow> Inl e
      | Inr mode \<Rightarrow> Inr (cfg\<lparr>cfg_parallel_read_mode := mode\<rparr>))"

definition UpdateEnableMetadataCache :: "bool \<Rightarrow> InstanceConfig \<Rightarrow> InstanceConfig result" where
  "UpdateEnableMetadataCache b cfg = Inr (cfg\<lparr>cfg_metadata := (cfg_metadata cfg)\<lparr>enable_metadata_cache := b\<rparr>\<rparr>)"

definition UpdateMetadataCacheEntrySize :: "nat \<Rightarrow> InstanceConfig \<Rightarrow> InstanceConfig result" where
  "UpdateMetadataCacheEntrySize n cfg =
     (if n = 0 then Inl (InvalidInputException ''cache_httpfs_metadata_cache_entry_size must be greater than 0'')
      else Inr (cfg\<lparr>cfg_metadata := (cfg_metadata cfg)\<lparr>max_metadata_cache_entry := n\<rparr>\<rparr>))"

definition UpdateMetadataCacheEntryTimeout :: "nat \<Rightarrow> InstanceConfig \<Rightarrow> InstanceConfig result" where
  "UpdateMetadataCacheEntryTimeout n cfg =
     (if n = 0 then Inl (InvalidInputException ''cache_httpfs_metadata_cache_entry_timeout_millisec must be greater than 0'')
      else Inr (cfg\<lparr>cfg_metadata := (cfg_metadata cfg)\<lparr>metadata_cache_entry_timeout_millisec := n\<rparr>\<rparr>))"

definition UpdateEnableFileHandleCache :: "bool \<Rightarrow> InstanceConfig \<Rightarrow> InstanceConfig result" where
  "UpdateEnableFileHandleCache b cfg = Inr (cfg\<lparr>cfg_handles := (cfg_handles cfg)\<lparr>enable_file_handle_cache := b\<rparr>\<rparr>)"

definition UpdateFileHandleCacheEntrySize :: "nat \<Rightarrow> InstanceConfig \<Rightarrow> InstanceConfig result" where
  "UpdateFileHandleCacheEntrySize n cfg =
     (if n = 0 then Inl (InvalidInputException ''cache_httpfs_file_handle_cache_entry_size must be greater than 0'')
      else Inr (cfg\<lparr>cfg_handles := (cfg_handles cfg)\<lparr>max_file_handle_cache_entry := n\<rparr>\<rparr>))"

definition UpdateFileHandleCacheEntryTimeout :: "nat \<Rightarrow> InstanceConfig \<Rightarrow> InstanceConfig result" where
  "UpdateFileHandleCacheEntryTimeout n cfg =
     (if n = 0 then Inl (InvalidInputException ''cache_httpfs_file_handle_cache_entry_timeout_millisec must be greater than 0'')
      else Inr (cfg\<lparr>cfg_handles := (cfg_handles cfg)\<lparr>file_handle_cache_entry_timeout_millisec := n\<rparr>\<rparr>))"

definition UpdateEnableGlobCache :: "bool \<Rightarrow> InstanceConfig \<Rightarrow> InstanceConfig result" where
  "UpdateEnableGlobCache b cfg = Inr (cfg\<lparr>cfg_glob := (cfg_glob cfg)\<lparr>enable_glob_cache := b\<rparr>\<rparr>)"

definition UpdateGlobCacheEntrySize :: "nat \<Rightarrow> InstanceConfig \<Rightarrow> InstanceConfig result" where
  "UpdateGlobCacheEntrySize n cfg =
     (if n = 0 then Inl (InvalidInputException ''cache_httpfs_glob_cache_entry_size must be greater than 0'')
      else Inr (cfg\<lparr>cfg_glob := (cfg_glob cfg)\<lparr>max_glob_cache_entry := n\<rparr>\<rparr>))"

definition UpdateGlobCacheEntryTimeout :: "nat \<Rightarrow> InstanceConfig \<Rightarrow> InstanceConfig result" where
  "UpdateGlobCacheEntryTimeout n cfg =
     (if n = 0 then Inl (InvalidInputException ''cache_httpfs_glob_cache_entry_timeout_millisec must be greater than 0'')
      else Inr (cfg\<lparr>cfg_glob := (cfg_glob cfg)\<lparr>glob_cache_entry_timeout_millisec := n\<rparr>\<rparr>))"

section \<open>Well-formed configurations\<close>

definition power_of_two :: "nat \<Rightarrow> bool" where
  "power_of_two n \<longleftrightarrow> n \<in> set (map (\<lambda>k. 2 ^ k) [0..<64])"

text \<open>
  What every other component relies on. The profile type is left out: it is stored before it is
  checked.
\<close>

definition config_valid :: "InstanceConfig \<Rightarrow> bool" where
  "config_valid cfg \<longleftrightarrow>
     power_of_two (cfg_cache_block_size cfg) \<and>
     cfg_cache_type cfg \<in> set ALL_CACHE_TYPES \<and>
     cfg_on_disk_cache_directories cfg \<noteq> [] \<and> sorted (cfg_on_disk_cache_directories cfg) \<and>
     cfg_on_disk_eviction_policy cfg \<in> {ON_DISK_CREATION_TIMESTAMP_EVICTION, ON_DISK_LRU_SINGLE_PROC_EVICTION} \<and>
     0 < cfg_disk_reader_max_mem_cache_block_count cfg \<and> 0 < cfg_disk_reader_max_mem_cache_timeout_millisec cfg \<and>
     0 < cfg_max_in_mem_cache_block_count cfg \<and> 0 < cfg_in_mem_cache_block_timeout_millisec cfg \<and>
     cfg_in_mem_cache_storage cfg \<in> set ALL_IN_MEM_CACHE_STORAGES \<and>
     cfg_chunking cfg \<in> set ALL_CHUNKINGS \<and>
     IsValidEvictionPolicy (cfg_eviction_policy cfg) \<and>
     cfg_policy_scope cfg \<in> set ALL_POLICY_SCOPES \<and>
     0 \<le> cfg_sim_bandwidth_gbps cfg \<and>
     0 < max_metadata_cache_entry (cfg_metadata cfg) \<and> 0 < metadata_cache_entry_timeout_millisec (cfg_metadata cfg) \<and>
     0 < max_file_handle_cache_entry (cfg_handles cfg) \<and> 0 < file_handle_cache_entry_timeout_millisec (cfg_handles cfg) \<and>
     0 < max_glob_cache_entry (cfg_glob cfg) \<and> 0 < glob_cache_entry_timeout_millisec (cfg_glob cfg)"

lemma default_config_valid: "config_valid (default_config d)"
proof -
  have "512 * 1024 = (2::nat) ^ 19" by simp
  moreover have "(2::nat) ^ 19 \<in> set (map (\<lambda>k. 2 ^ k) [0..<64])" unfolding set_map by (rule imageI) simp
  ultimately have "power_of_two (512 * 1024)" unfolding power_of_two_def by (simp only:)
  then show ?thesis
    unfolding config_valid_def default_config_def
    by (simp add: ON_DISK_CACHE_TYPE_def ALL_CACHE_TYPES_def EXT_BOUNDED_STORAGE_def ALL_IN_MEM_CACHE_STORAGES_def
        FIXED_CHUNKING_def ALL_CHUNKINGS_def IsValidEvictionPolicy_def GLOBAL_POLICY_SCOPE_def ALL_POLICY_SCOPES_def)
qed

end
