(* ===== verification/Cache_File_System.thy ===== *)
theory Cache_File_System
  imports Cached_Read Disk_Cache_Ops Instance_Config
begin

text \<open>
  The cache file system as a whole: which reader serves it (\<open>InstanceCacheReaderManager\<close>,
  \<open>src/cache_httpfs_instance_state.cpp\<close>), its caches set up by \<open>InitializeGlobalConfig\<close>, and what
  clearing them and removing files does across all of them (\<open>src/cache_filesystem.cpp\<close>).
\<close>

section \<open>The reader manager\<close>

text \<open>
  A reader that has been created, with what it holds: the storage of the in-memory reader, and the
  storage and access maps of the on-disk reader (storages are built by the first read).
\<close>

record reader_manager =
  noop_cache_reader :: bool
  in_mem_cache_reader :: "data_storage option option"
  on_disk_cache_reader :: "(data_storage option \<times> access_maps) option"
  internal_cache_reader :: "reader_kind option"

definition reader_manager_new :: reader_manager where
  "reader_manager_new =
     \<lparr>noop_cache_reader = False, in_mem_cache_reader = None, on_disk_cache_reader = None,
      internal_cache_reader = None\<rparr>"

definition InitializeDiskCacheReader :: "reader_manager \<Rightarrow> reader_manager" where
  "InitializeDiskCacheReader mgr =
     (if on_disk_cache_reader mgr = None then mgr\<lparr>on_disk_cache_reader := Some (None, no_accesses)\<rparr> else mgr)"

definition SetCacheReader :: "string \<Rightarrow> reader_manager \<Rightarrow> reader_manager" where
  "SetCacheReader cache_type mgr =
     (if cache_type = ON_DISK_CACHE_TYPE
      then (InitializeDiskCacheReader mgr)\<lparr>internal_cache_reader := Some Disk_Reader\<rparr>
      else if cache_type = IN_MEM_CACHE_TYPE
      then (if in_mem_cache_reader mgr = None then mgr\<lparr>in_mem_cache_reader := Some None\<rparr> else mgr)
             \<lparr>internal_cache_reader := Some Memory_Reader\<rparr>
      else mgr\<lparr>noop_cache_reader := True, internal_cache_reader := Some Noop_Reader\<rparr>)"

definition GetCacheReader :: "reader_manager \<Rightarrow> reader_kind option" where
  "GetCacheReader mgr = internal_cache_reader mgr"

definition GetCacheReaders :: "reader_manager \<Rightarrow> reader_kind list" where
  "GetCacheReaders mgr =
     (if in_mem_cache_reader mgr \<noteq> None then [Memory_Reader] else []) @
     (if on_disk_cache_reader mgr \<noteq> None then [Disk_Reader] else [])"

text \<open>The local file system \<open>fs\<close> is not the reader's own: clearing the on-disk reader changes it.\<close>

definition mgr_ClearCache :: "string list \<Rightarrow> reader_manager \<Rightarrow> local_fs \<Rightarrow> reader_manager \<times> local_fs" where
  "mgr_ClearCache dirs mgr fs =
     (let mgr1 = mgr\<lparr>in_mem_cache_reader := map_option ClearCache (in_mem_cache_reader mgr)\<rparr>
      in case on_disk_cache_reader mgr1 of
           None \<Rightarrow> (mgr1, fs)
         | Some (storage, lru) \<Rightarrow>
             (case disk_ClearCache dirs (storage, fs, lru) of
                (storage', fs', lru') \<Rightarrow> (mgr1\<lparr>on_disk_cache_reader := Some (storage', lru')\<rparr>, fs')))"

definition mgr_ClearCache_file ::
  "(string \<Rightarrow> byte list) \<Rightarrow> (string \<Rightarrow> string) \<Rightarrow> string list \<Rightarrow> string \<Rightarrow> reader_manager \<Rightarrow> local_fs \<Rightarrow>
   cpp_error option \<times> reader_manager \<times> local_fs" where
  "mgr_ClearCache_file sha gfn dirs f mgr fs =
     (let mgr1 = mgr\<lparr>in_mem_cache_reader := map_option (ClearCache_file f) (in_mem_cache_reader mgr)\<rparr>
      in case on_disk_cache_reader mgr1 of
           None \<Rightarrow> (None, mgr1, fs)
         | Some (storage, lru) \<Rightarrow>
             (case disk_ClearCache_file sha gfn dirs f (storage, fs, lru) of
                Inl e \<Rightarrow> (Some e, mgr1, fs)
              | Inr (storage', fs', lru') \<Rightarrow> (None, mgr1\<lparr>on_disk_cache_reader := Some (storage', lru')\<rparr>, fs')))"

text \<open>
  Remapping the storage of one reader: an exception leaves the storage drained. \<open>None\<close> as a whole is
  a remap that does not return.
\<close>

definition remap_reader ::
  "(data_storage option \<Rightarrow> data_storage option run) \<Rightarrow> (nat \<Rightarrow> nat) \<Rightarrow> data_storage option \<Rightarrow>
   (cpp_error option \<times> data_storage option) option" where
  "remap_reader remap clk storage =
     (case remap storage of
        None \<Rightarrow> None
      | Some (Inl e) \<Rightarrow> Some (Some e, map_option (\<lambda>s. snd (storage_Take clk s)) storage)
      | Some (Inr storage') \<Rightarrow> Some (None, storage'))"

definition RemapInMemoryDataCachesAfterBlockSizeChange ::
  "idx_t \<Rightarrow> (nat \<Rightarrow> byte) \<Rightarrow> (nat \<Rightarrow> nat) \<Rightarrow> nat \<Rightarrow> idx_t \<Rightarrow> reader_manager \<Rightarrow>
   (cpp_error option \<times> reader_manager) option" where
  "RemapInMemoryDataCachesAfterBlockSizeChange page junk clk now new_block_size mgr =
     (case (case in_mem_cache_reader mgr of
              None \<Rightarrow> Some (None, mgr)
            | Some storage \<Rightarrow>
                map_option (\<lambda>(err, storage'). (err, mgr\<lparr>in_mem_cache_reader := Some storage'\<rparr>))
                  (remap_reader (RemapInMemoryDataBlocksForNewBlockSize page junk clk now new_block_size) clk storage)) of
        None \<Rightarrow> None
      | Some (Some e, mgr1) \<Rightarrow> Some (Some e, mgr1)
      | Some (None, mgr1) \<Rightarrow>
          (case on_disk_cache_reader mgr1 of
             None \<Rightarrow> Some (None, mgr1)
           | Some (storage, lru) \<Rightarrow>
               map_option (\<lambda>(err, storage'). (err, mgr1\<lparr>on_disk_cache_reader := Some (storage', lru)\<rparr>))
                 (remap_reader (disk_RemapInMemoryDataBlocksForNewBlockSize page junk clk now new_block_size) clk storage)))"

definition mgr_Reset :: "reader_manager \<Rightarrow> reader_manager" where
  "mgr_Reset mgr = reader_manager_new"

section \<open>The file system and its caches\<close>

record cache_fs =
  cf_handles :: handle_fs
  cf_metadata :: "metadata_cache option"
  cf_glob :: "glob_cache option"

text \<open>What the file systems of one database instance share, and the local disk under it.\<close>

record instance_state =
  is_config :: InstanceConfig
  is_readers :: reader_manager
  is_profiles :: profile_manager
  is_disk :: local_fs

text \<open>\<open>InitializeGlobalConfig\<close> for connection \<open>conn\<close>; an unknown profile type ends it at once.\<close>

definition InitializeGlobalConfig ::
  "connection_t \<Rightarrow> cache_fs \<times> instance_state \<Rightarrow> cpp_error option \<times> cache_fs \<times> instance_state" where
  "InitializeGlobalConfig conn st =
     (case st of (c, i) \<Rightarrow>
        let cfg = is_config i
        in case SetProfileCollector conn (cfg_profile_type cfg) (is_profiles i) of
             (Some e, pm) \<Rightarrow> (Some e, c, i\<lparr>is_profiles := pm\<rparr>)
           | (None, pm) \<Rightarrow>
               (None,
                c\<lparr>cf_metadata := SetMetadataCache (cfg_metadata cfg) (cf_metadata c),
                  cf_handles := SetFileHandleCache (cfg_handles cfg) (cf_handles c),
                  cf_glob := SetGlobCache (cfg_glob cfg) (cf_glob c)\<rparr>,
                i\<lparr>is_profiles := pm, is_readers := SetCacheReader (cfg_cache_type cfg) (is_readers i)\<rparr>))"

definition fs_ClearInMemoryCache :: "cache_fs \<Rightarrow> cache_fs" where
  "fs_ClearInMemoryCache c =
     c\<lparr>cf_handles := ClearFileHandleCache (cf_handles c),
       cf_metadata := map_option shared_Clear (cf_metadata c),
       cf_glob := map_option shared_Clear (cf_glob c)\<rparr>"

definition fs_ClearCache :: "cache_fs \<times> instance_state \<Rightarrow> cache_fs \<times> instance_state" where
  "fs_ClearCache st =
     (case st of (c, i) \<Rightarrow>
        (case mgr_ClearCache (cfg_on_disk_cache_directories (is_config i)) (is_readers i) (is_disk i) of
           (mgr, fs) \<Rightarrow>
             (c\<lparr>cf_metadata := map_option shared_Clear (cf_metadata c),
                cf_glob := map_option shared_Clear (cf_glob c),
                cf_handles := ClearFileHandleCache (cf_handles c)\<rparr>,
              i\<lparr>is_readers := mgr, is_disk := fs\<rparr>)))"

definition clear_path_entry :: "string \<Rightarrow> (string, 'v) lru_state \<Rightarrow> (string, 'v) lru_state" where
  "clear_path_entry filepath c = shared_Clear_from filepath (\<lambda>key. key = filepath) c"

definition fs_ClearCache_path ::
  "open_flag_bits \<Rightarrow> (string \<Rightarrow> byte list) \<Rightarrow> (string \<Rightarrow> string) \<Rightarrow> string \<Rightarrow>
   cache_fs \<times> instance_state \<Rightarrow> cpp_error option \<times> cache_fs \<times> instance_state" where
  "fs_ClearCache_path bits sha gfn filepath st =
     (case st of (c, i) \<Rightarrow>
        let c1 = c\<lparr>cf_metadata := map_option (clear_path_entry filepath) (cf_metadata c),
                   cf_glob := map_option (clear_path_entry filepath) (cf_glob c)\<rparr>
        in case ClearFileHandleCache_path bits filepath (cf_handles c1) of
             (Some e, hs) \<Rightarrow> (Some e, c1\<lparr>cf_handles := hs\<rparr>, i)
           | (None, hs) \<Rightarrow>
               (case mgr_ClearCache_file sha gfn (cfg_on_disk_cache_directories (is_config i)) filepath
                       (is_readers i) (is_disk i) of
                  (err, mgr, fs) \<Rightarrow> (err, c1\<lparr>cf_handles := hs\<rparr>, i\<lparr>is_readers := mgr, is_disk := fs\<rparr>)))"

text \<open>Removing files: the caches are cleared first, then the wrapped file system answers.\<close>

definition fs_RemoveFile ::
  "open_flag_bits \<Rightarrow> (string \<Rightarrow> byte list) \<Rightarrow> (string \<Rightarrow> string) \<Rightarrow> string \<Rightarrow> 'a result \<Rightarrow>
   cache_fs \<times> instance_state \<Rightarrow> 'a result \<times> cache_fs \<times> instance_state" where
  "fs_RemoveFile bits sha gfn filename removed st =
     (case fs_ClearCache_path bits sha gfn filename st of
        (Some e, st1) \<Rightarrow> (Inl e, st1)
      | (None, st1) \<Rightarrow> (removed, st1))"

fun fs_RemoveFiles ::
  "open_flag_bits \<Rightarrow> (string \<Rightarrow> byte list) \<Rightarrow> (string \<Rightarrow> string) \<Rightarrow> string list \<Rightarrow> 'a result \<Rightarrow>
   cache_fs \<times> instance_state \<Rightarrow> 'a result \<times> cache_fs \<times> instance_state" where
  "fs_RemoveFiles bits sha gfn [] removed st = (removed, st)"
| "fs_RemoveFiles bits sha gfn (filename # filenames) removed st =
     (case fs_ClearCache_path bits sha gfn filename st of
        (Some e, st1) \<Rightarrow> (Inl e, st1)
      | (None, st1) \<Rightarrow> fs_RemoveFiles bits sha gfn filenames removed st1)"

text \<open>
  Which paths a cache file system takes, given what the wrapped one says; the local file system says
  no to everything and is the fallback of the virtual file system.
\<close>

definition LOCAL_FILE_SYSTEM :: string where
  "LOCAL_FILE_SYSTEM = ''LocalFileSystem''"

definition CanHandleFile :: "bool \<Rightarrow> string \<Rightarrow> bool" where
  "CanHandleFile internal_can internal_name = (if internal_can then True else if internal_name = LOCAL_FILE_SYSTEM then True else False)"

definition IsManuallySet :: "string \<Rightarrow> bool" where
  "IsManuallySet internal_name = (if internal_name = LOCAL_FILE_SYSTEM then False else True)"

definition fs_GetName :: "string \<Rightarrow> string" where
  "fs_GetName internal_name = ''cache_httpfs_'' @ internal_name"


section \<open>Clearing one path\<close>

lemma clear_path_entry_abs:
  assumes "shared_inv c"
  shows "shared_inv (clear_path_entry f c)"
    and "lru_abs (clear_path_entry f c) = filter (\<lambda>e. fst e \<noteq> f) (lru_abs c)"
proof -
  let ?ks = "shared_keys_to_delete f (\<lambda>key. key = f) c"
  have ks: "set ?ks = {k \<in> fst ` set (lru_abs c). f \<le> k \<and> k = f}"
    by (rule shared_keys_to_delete_set [OF assms]) auto
  show "shared_inv (clear_path_entry f c)"
    using shared_delete_keys(1) [OF assms] by (simp add: clear_path_entry_def shared_Clear_from_def)
  have "lru_abs (clear_path_entry f c) = filter (\<lambda>e. fst e \<notin> set ?ks) (lru_abs c)"
    using shared_delete_keys(2) [OF assms] by (simp add: clear_path_entry_def shared_Clear_from_def)
  also have "\<dots> = filter (\<lambda>e. fst e \<noteq> f) (lru_abs c)"
    by (rule filter_cong) (auto simp: ks)
  finally show "lru_abs (clear_path_entry f c) = filter (\<lambda>e. fst e \<noteq> f) (lru_abs c)" .
qed

lemma ClearFileHandleCache_path_pool:
  assumes ok: "fs_ok bits [] [] st" and p: "file_handle_cache st = Some p"
  shows "\<exists>st'. ClearFileHandleCache_path bits f st = (None, st') \<and> file_handle_cache st' = Some p \<and>
    hf_handles st' = hf_handles st \<and>
    (\<forall>h. h \<in> set (multi_all_values (hf_pools st' ! p)) \<longleftrightarrow>
       h \<in> set (multi_all_values (hf_pools st ! p)) \<and> ih_path h \<noteq> f)"
proof -
  have pl: "p < length (hf_pools st)" using fs_okD(1) [OF ok] p by (simp add: pointers_ok_def)
  let ?c = "hf_pools st ! p" and ?P = "\<lambda>k. hk_path k = f"
  have pk: "multi_inv ?c" "handle_pool.filed (key_of bits) ?c"
    using fs_okD(2) [OF ok] pl by (simp_all add: list_all_length pool_ok_def)
  obtain vs c where c: "multi_ClearAndGetValues_from (handle_key bits f 0) ?P ?c = Inr (vs, c)"
    and "multi_inv c" and "handle_pool.filed (key_of bits) c" and "multi_held_all ?c = mset vs + multi_held_all c"
    and held: "\<And>h. h \<in># multi_held_all c \<longleftrightarrow> h \<in># multi_held_all ?c \<and>
       \<not> (handle_key bits f 0 \<le> key_of bits h \<and> ?P (key_of bits h))"
  proof (rule handle_pool.clear_from_filed [where s = "handle_key bits f 0" and P = ?P, OF pk])
    show "hk_path y \<noteq> f" if "handle_key bits f 0 \<le> x" "hk_path x \<noteq> f" "x < y" for x y
      using that by (rule handle_key_block)
  qed (rule that, simp_all)
  have key: "handle_key bits f 0 \<le> key_of bits h \<and> ?P (key_of bits h) \<longleftrightarrow> ih_path h = f" for h
    using handle_key_first [of bits f "ih_flags h"] by (auto simp: key_of_def handle_key_def)
  show ?thesis
    using c p pl held unfolding key by (simp add: ClearFileHandleCache_path_def close_all_def)
qed

lemma mgr_ClearCache_file_ok:
  assumes mem: "\<forall>s. in_mem_cache_reader mgr = Some (Some s) \<longrightarrow> storage_inv s"
    and disk: "\<forall>storage lru. on_disk_cache_reader mgr = Some (storage, lru) \<longrightarrow>
      access_inv lru \<and> (\<forall>s. storage = Some s \<longrightarrow> storage_inv s)"
  shows "\<exists>mgr' fs'. mgr_ClearCache_file sha gfn dirs f mgr fs = (None, mgr', fs') \<and>
    (\<forall>s. in_mem_cache_reader mgr = Some (Some s) \<longrightarrow> (\<exists>s'. in_mem_cache_reader mgr' = Some (Some s') \<and>
       storage_entries s' = (\<lambda>k. if fname k = f then None else storage_entries s k))) \<and>
    (\<forall>s lru. on_disk_cache_reader mgr = Some (Some s, lru) \<longrightarrow> (\<exists>s' lru'. on_disk_cache_reader mgr' = Some (Some s', lru') \<and>
       storage_entries s' = (\<lambda>k. if fname k = f then None else storage_entries s k))) \<and>
    (\<forall>p. map_of fs' p = (if on_disk_cache_reader mgr \<noteq> None \<and> p \<in> set (cache_files_to_remove sha gfn f dirs fs)
       then None else map_of fs p))"
proof -
  let ?mem = "map_option (ClearCache_file f) (in_mem_cache_reader mgr)"
  have e: "storage_entries (storage_Clear_from (InMemCacheBlock f 0 0) (\<lambda>b. fname b = f) s) =
      (\<lambda>k. if fname k = f then None else storage_entries s k)" if "storage_inv s" for s
    using storage.clear_file [OF that] by blast
  have m: "\<exists>s'. ?mem = Some (Some s') \<and> storage_entries s' = (\<lambda>k. if fname k = f then None else storage_entries s k)"
    if "in_mem_cache_reader mgr = Some (Some s)" for s
    using that e mem by (simp add: ClearCache_file_def)
  show ?thesis
  proof (cases "on_disk_cache_reader mgr")
    case None
    show ?thesis
      by (rule exI [of _ "mgr\<lparr>in_mem_cache_reader := ?mem\<rparr>"], rule exI [of _ fs])
        (use None m in \<open>simp_all add: mgr_ClearCache_file_def\<close>)
  next
    case (Some sl)
    obtain storage lru where sl: "sl = (storage, lru)" by (cases sl)
    have inv: "access_inv lru" "\<And>s. storage = Some s \<Longrightarrow> storage_inv s" using disk Some sl by auto
    let ?ps = "cache_files_to_remove sha gfn f dirs fs"
    let ?fs' = "fold (\<lambda>p fs. snd (TryRemoveFile p fs)) ?ps fs"
    let ?st = "map_option (storage_Clear_from (InMemCacheBlock f 0 0) (\<lambda>b. fname b = f)) storage"
    obtain lru' where l: "remove_accesses ?ps lru = Inr lru'" "access_inv lru'"
      using remove_accesses_ok [OF inv(1)] by blast
    have run: "disk_ClearCache_file sha gfn dirs f (storage, fs, lru) = Inr (?st, ?fs', lru')"
      using l(1) check_sizes_ok [OF l(2)] by (simp add: disk_ClearCache_file_def Let_def)
    have "mgr_ClearCache_file sha gfn dirs f mgr fs =
        (None, mgr\<lparr>in_mem_cache_reader := ?mem, on_disk_cache_reader := Some (?st, lru')\<rparr>, ?fs')"
      using Some sl run by (simp add: mgr_ClearCache_file_def Let_def)
    then show ?thesis
      by (intro exI [of _ "mgr\<lparr>in_mem_cache_reader := ?mem, on_disk_cache_reader := Some (?st, lru')\<rparr>"] exI [of _ ?fs'])
        (use m Some sl inv(2) e in \<open>simp add: map_of_fold_remove\<close>)
  qed
qed

section \<open>Property\<close>



end
