(* ===== verification/Extension_Settings.thy ===== *)
theory Extension_Settings
  imports Cache_File_System
begin

text \<open>
  The extension as its user sees it (\<open>src/cache_httpfs_extension.cpp\<close>): the options with effects
  beyond the configuration, all options together as what a \<open>SET\<close> statement does, the registry of
  cache file systems of an instance (\<open>InstanceCacheFsRegistry\<close>) and the functions that clear caches.
\<close>

section \<open>Options with effects\<close>

definition SetCacheType :: "string \<Rightarrow> instance_state \<Rightarrow> cpp_error option \<times> instance_state" where
  "SetCacheType cache_type_str i =
     (if cache_type_str \<notin> set ALL_CACHE_TYPES then (Some (InvalidInputException ''Invalid cache_httpfs_type''), i)
      else let cfg = (is_config i)\<lparr>cfg_cache_type := cache_type_str\<rparr>
           in (None, i\<lparr>is_config := cfg, is_readers := SetCacheReader (cfg_cache_type cfg) (is_readers i)\<rparr>))"

text \<open>\<open>is_pow2\<close> is DuckDB's \<open>IsPowerOfTwo\<close>.\<close>

definition UpdateCacheBlockSize ::
  "(nat \<Rightarrow> bool) \<Rightarrow> idx_t \<Rightarrow> (nat \<Rightarrow> byte) \<Rightarrow> (nat \<Rightarrow> nat) \<Rightarrow> nat \<Rightarrow> nat \<Rightarrow> instance_state \<Rightarrow>
   (cpp_error option \<times> instance_state) option" where
  "UpdateCacheBlockSize is_pow2 page junk clk now new_bs i =
     (if new_bs = 0 then Some (Some (InvalidInputException ''cache_httpfs_cache_block_size must be greater than 0''), i)
      else if \<not> is_pow2 new_bs
      then Some (Some (InvalidInputException ''cache_httpfs_cache_block_size must be a power of two''), i)
      else (case (if cfg_cache_block_size (is_config i) \<noteq> new_bs
                  then RemapInMemoryDataCachesAfterBlockSizeChange page junk clk now new_bs (is_readers i)
                  else Some (None, is_readers i)) of
              None \<Rightarrow> None
            | Some (Some e, mgr) \<Rightarrow> Some (Some e, i\<lparr>is_readers := mgr\<rparr>)
            | Some (None, mgr) \<Rightarrow>
                Some (None, i\<lparr>is_readers := mgr, is_config := (is_config i)\<lparr>cfg_cache_block_size := new_bs\<rparr>\<rparr>)))"

text \<open>The type is stored first; the clean-up callback registered at the end is \<open>OnConnectionClosed\<close>.\<close>

definition UpdateProfileType :: "connection_t \<Rightarrow> string \<Rightarrow> instance_state \<Rightarrow> cpp_error option \<times> instance_state" where
  "UpdateProfileType conn profile_type_str i =
     (let i1 = i\<lparr>is_config := (is_config i)\<lparr>cfg_profile_type := profile_type_str\<rparr>\<rparr>
      in case SetProfileCollector conn profile_type_str (is_profiles i1) of
           (err, pm) \<Rightarrow> (err, i1\<lparr>is_profiles := pm\<rparr>))"

definition OnConnectionClosed :: "connection_t \<Rightarrow> instance_state \<Rightarrow> instance_state" where
  "OnConnectionClosed conn i = i\<lparr>is_profiles := RemoveProfileCollector conn (is_profiles i)\<rparr>"

fun sanitize_directories :: "string list \<Rightarrow> string list result" where
  "sanitize_directories [] = Inr []"
| "sanitize_directories (dir # dirs) =
     (if dir = [] then Inl (InvalidInputException ''cache_httpfs_cache_directory cannot be empty'')
      else case sanitize_directories dirs of
             Inl e \<Rightarrow> Inl e
           | Inr ds \<Rightarrow> Inr ((if last dir = CHR ''/'' then butlast dir else dir) # ds))"

fun create_directories :: "(string \<Rightarrow> cpp_error option) \<Rightarrow> string list \<Rightarrow> cpp_error option" where
  "create_directories CreateDirectory [] = None"
| "create_directories CreateDirectory (dir # dirs) =
     (case CreateDirectory dir of
        Some e \<Rightarrow> Some e
      | None \<Rightarrow> create_directories CreateDirectory dirs)"

text \<open>\<open>CreateDirectory\<close> is DuckDB's; creating a directory adds no file.\<close>

definition UpdateCacheDirectoriesImpl ::
  "(string \<Rightarrow> cpp_error option) \<Rightarrow> string list \<Rightarrow> instance_state \<Rightarrow> cpp_error option \<times> instance_state" where
  "UpdateCacheDirectoriesImpl CreateDirectory directories i =
     (case sanitize_directories directories of
        Inl e \<Rightarrow> (Some e, i)
      | Inr dirs \<Rightarrow>
          let ds = sort dirs
          in if ds = cfg_on_disk_cache_directories (is_config i) then (None, i)
             else case create_directories CreateDirectory ds of
                    Some e \<Rightarrow> (Some e, i)
                  | None \<Rightarrow> (None, i\<lparr>is_config := (is_config i)\<lparr>cfg_on_disk_cache_directories := ds\<rparr>\<rparr>))"

definition UpdateCacheDirectory ::
  "(string \<Rightarrow> cpp_error option) \<Rightarrow> string \<Rightarrow> string \<Rightarrow> instance_state \<Rightarrow> cpp_error option \<times> instance_state" where
  "UpdateCacheDirectory CreateDirectory default_directory dir i =
     UpdateCacheDirectoriesImpl CreateDirectory [if dir = [] then default_directory else dir] i"

text \<open>\<open>split\<close> is DuckDB's \<open>StringUtil::Split\<close> at semicolons.\<close>

definition UpdateCacheDirectoriesConfig ::
  "(string \<Rightarrow> cpp_error option) \<Rightarrow> (string \<Rightarrow> string list) \<Rightarrow> string \<Rightarrow> string \<Rightarrow> instance_state \<Rightarrow>
   cpp_error option \<times> instance_state" where
  "UpdateCacheDirectoriesConfig CreateDirectory split default_directory directories_str i =
     UpdateCacheDirectoriesImpl CreateDirectory
       (if directories_str \<noteq> [] then split directories_str else [default_directory]) i"

section \<open>All options\<close>

text \<open>What a \<open>SET\<close> statement carries: an option and its value, already of the option's type.\<close>

datatype setting =
    Cache_Type string
  | Cache_Block_Size nat
  | Profile_Type string
  | Max_Fanout_Subrequest nat
  | Parallel_Read_Mode string
  | Enable_Cache_Validation bool
  | Clear_Cache_On_Write bool
  | Cache_Directory string
  | Min_Disk_Bytes_For_Cache nat
  | Evict_Policy string
  | Cache_Directories_Config string
  | Disk_Reader_Enable_Memory_Cache bool
  | Disk_Reader_Mem_Block_Count nat
  | Disk_Reader_Mem_Timeout nat
  | Max_In_Mem_Block_Count nat
  | In_Mem_Block_Timeout nat
  | In_Mem_Storage string
  | Chunking string
  | In_Mem_Bytes nat
  | Eviction_Policy string
  | Policy_Scope string
  | File_Policies string
  | Sim_Latency_Us nat
  | Sim_Bandwidth_Gbps rat
  | Enable_Metadata_Cache bool
  | Metadata_Entry_Size nat
  | Metadata_Entry_Timeout nat
  | Enable_File_Handle_Cache bool
  | File_Handle_Entry_Size nat
  | File_Handle_Entry_Timeout nat
  | Enable_Glob_Cache bool
  | Glob_Entry_Size nat
  | Glob_Entry_Timeout nat

text \<open>What the callbacks use of DuckDB and of the machine, and the connection that issues the statement.\<close>

record setting_env =
  sv_conn :: connection_t
  sv_is_pow2 :: "nat \<Rightarrow> bool"
  sv_page :: idx_t
  sv_junk :: "nat \<Rightarrow> byte"
  sv_clk :: "nat \<Rightarrow> nat"
  sv_now :: nat
  sv_CreateDirectory :: "string \<Rightarrow> cpp_error option"
  sv_split :: "string \<Rightarrow> string list"
  sv_default_directory :: string

text \<open>A callback that checks and stores: an exception leaves everything as it was.\<close>

definition store_option :: "(InstanceConfig \<Rightarrow> InstanceConfig result) \<Rightarrow> instance_state \<Rightarrow> cpp_error option \<times> instance_state" where
  "store_option update i =
     (case update (is_config i) of
        Inl e \<Rightarrow> (Some e, i)
      | Inr cfg \<Rightarrow> (None, i\<lparr>is_config := cfg\<rparr>))"

fun config_option :: "setting \<Rightarrow> (InstanceConfig \<Rightarrow> InstanceConfig result) option" where
  "config_option (Max_Fanout_Subrequest n) = Some (UpdateMaxFanoutSubrequest n)"
| "config_option (Parallel_Read_Mode s) = Some (UpdateParallelReadMode s)"
| "config_option (Enable_Cache_Validation b) = Some (UpdateEnableCacheValidation b)"
| "config_option (Clear_Cache_On_Write b) = Some (UpdateClearCacheOnWrite b)"
| "config_option (Min_Disk_Bytes_For_Cache n) = Some (UpdateMinDiskBytesForCache n)"
| "config_option (Evict_Policy s) = Some (UpdateEvictPolicy s)"
| "config_option (Disk_Reader_Enable_Memory_Cache b) = Some (UpdateDiskCacheReaderEnableMemoryCache b)"
| "config_option (Disk_Reader_Mem_Block_Count n) = Some (UpdateDiskCacheReaderMemCacheBlockCount n)"
| "config_option (Disk_Reader_Mem_Timeout n) = Some (UpdateDiskCacheReaderMemCacheTimeout n)"
| "config_option (Max_In_Mem_Block_Count n) = Some (UpdateMaxInMemCacheBlockCount n)"
| "config_option (In_Mem_Block_Timeout n) = Some (UpdateInMemCacheBlockTimeout n)"
| "config_option (In_Mem_Storage s) = Some (UpdateInMemCacheStorage s)"
| "config_option (Chunking s) = Some (UpdateChunking s)"
| "config_option (In_Mem_Bytes n) = Some (UpdateInMemCacheBytes n)"
| "config_option (Eviction_Policy s) = Some (UpdateEvictionPolicy s)"
| "config_option (Policy_Scope s) = Some (UpdatePolicyScope s)"
| "config_option (File_Policies s) = Some (UpdateFilePolicies s)"
| "config_option (Sim_Latency_Us n) = Some (UpdateSimLatencyUs n)"
| "config_option (Sim_Bandwidth_Gbps x) = Some (UpdateSimBandwidthGbps x)"
| "config_option (Enable_Metadata_Cache b) = Some (UpdateEnableMetadataCache b)"
| "config_option (Metadata_Entry_Size n) = Some (UpdateMetadataCacheEntrySize n)"
| "config_option (Metadata_Entry_Timeout n) = Some (UpdateMetadataCacheEntryTimeout n)"
| "config_option (Enable_File_Handle_Cache b) = Some (UpdateEnableFileHandleCache b)"
| "config_option (File_Handle_Entry_Size n) = Some (UpdateFileHandleCacheEntrySize n)"
| "config_option (File_Handle_Entry_Timeout n) = Some (UpdateFileHandleCacheEntryTimeout n)"
| "config_option (Enable_Glob_Cache b) = Some (UpdateEnableGlobCache b)"
| "config_option (Glob_Entry_Size n) = Some (UpdateGlobCacheEntrySize n)"
| "config_option (Glob_Entry_Timeout n) = Some (UpdateGlobCacheEntryTimeout n)"
| "config_option _ = None"

definition apply_setting :: "setting_env \<Rightarrow> setting \<Rightarrow> instance_state \<Rightarrow> (cpp_error option \<times> instance_state) option" where
  "apply_setting v st i =
     (case st of
        Cache_Type s \<Rightarrow> Some (SetCacheType s i)
      | Cache_Block_Size n \<Rightarrow>
          UpdateCacheBlockSize (sv_is_pow2 v) (sv_page v) (sv_junk v) (sv_clk v) (sv_now v) n i
      | Profile_Type s \<Rightarrow> Some (UpdateProfileType (sv_conn v) s i)
      | Cache_Directory s \<Rightarrow> Some (UpdateCacheDirectory (sv_CreateDirectory v) (sv_default_directory v) s i)
      | Cache_Directories_Config s \<Rightarrow>
          Some (UpdateCacheDirectoriesConfig (sv_CreateDirectory v) (sv_split v) (sv_default_directory v) s i)
      | _ \<Rightarrow> (case config_option st of None \<Rightarrow> None | Some update \<Rightarrow> Some (store_option update i)))"

text \<open>The defaults \<open>LoadInternal\<close> registers the options with.\<close>

definition default_settings :: "string \<Rightarrow> setting list" where
  "default_settings default_directory =
     [Cache_Type ON_DISK_CACHE_TYPE, Cache_Block_Size (512 * 1024), Profile_Type NOOP_PROFILE_TYPE,
      Max_Fanout_Subrequest 0, Parallel_Read_Mode INTERNAL_THREAD_POOL_EXECUTOR, Enable_Cache_Validation False,
      Clear_Cache_On_Write False, Cache_Directory default_directory, Min_Disk_Bytes_For_Cache 0,
      Evict_Policy ON_DISK_CREATION_TIMESTAMP_EVICTION, Cache_Directories_Config [],
      Disk_Reader_Enable_Memory_Cache True, Disk_Reader_Mem_Block_Count 256, Disk_Reader_Mem_Timeout (1800 * 1000),
      Max_In_Mem_Block_Count 256, In_Mem_Block_Timeout (3600 * 1000), In_Mem_Storage EXT_BOUNDED_STORAGE,
      Chunking FIXED_CHUNKING, In_Mem_Bytes 0, Eviction_Policy ''lru'', Policy_Scope GLOBAL_POLICY_SCOPE,
      File_Policies [], Sim_Latency_Us 0, Sim_Bandwidth_Gbps 0, Enable_Metadata_Cache True, Metadata_Entry_Size 250,
      Metadata_Entry_Timeout (3600 * 1000), Enable_File_Handle_Cache True, File_Handle_Entry_Size 250,
      File_Handle_Entry_Timeout (3600 * 1000), Enable_Glob_Cache True, Glob_Entry_Size 64,
      Glob_Entry_Timeout (1800 * 1000)]"

section \<open>The registry and clearing everything\<close>

text \<open>The registered cache file systems by their address.\<close>

type_synonym fs_registry = "(nat \<times> cache_fs) list"

definition registry_Register :: "nat \<Rightarrow> cache_fs \<Rightarrow> fs_registry \<Rightarrow> fs_registry" where
  "registry_Register a c r = AList.update a c r"

definition registry_Unregister :: "nat \<Rightarrow> fs_registry \<Rightarrow> fs_registry" where
  "registry_Unregister a r = AList.delete a r"

definition registry_Reset :: "fs_registry \<Rightarrow> fs_registry" where
  "registry_Reset r = []"

text \<open>A visit of all registered file systems, in the order of the hash set.\<close>

fun clear_all_fs :: "fs_registry \<Rightarrow> instance_state \<Rightarrow> fs_registry \<times> instance_state" where
  "clear_all_fs [] i = ([], i)"
| "clear_all_fs ((a, c) # r) i =
     (case fs_ClearCache (c, i) of (c1, i1) \<Rightarrow>
        case clear_all_fs r i1 of (r1, i2) \<Rightarrow> ((a, c1) # r1, i2))"

fun clear_path_all_fs ::
  "open_flag_bits \<Rightarrow> (string \<Rightarrow> byte list) \<Rightarrow> (string \<Rightarrow> string) \<Rightarrow> string \<Rightarrow> fs_registry \<Rightarrow> instance_state \<Rightarrow>
   cpp_error option \<times> fs_registry \<times> instance_state" where
  "clear_path_all_fs bits sha gfn f [] i = (None, [], i)"
| "clear_path_all_fs bits sha gfn f ((a, c) # r) i =
     (case fs_ClearCache_path bits sha gfn f (c, i) of
        (Some e, c1, i1) \<Rightarrow> (Some e, (a, c1) # r, i1)
      | (None, c1, i1) \<Rightarrow>
          (case clear_path_all_fs bits sha gfn f r i1 of (err, r1, i2) \<Rightarrow> (err, (a, c1) # r1, i2)))"

definition ClearAllCache :: "connection_t \<Rightarrow> fs_registry \<times> instance_state \<Rightarrow> fs_registry \<times> instance_state" where
  "ClearAllCache conn st =
     (case st of (r, i) \<Rightarrow>
        let dirs = cfg_on_disk_cache_directories (is_config i);
            i1 = i\<lparr>is_disk := fold RemoveDirectory dirs (is_disk i)\<rparr>
        in case mgr_ClearCache dirs (is_readers i1) (is_disk i1) of (mgr, fs) \<Rightarrow>
             case clear_all_fs r (i1\<lparr>is_readers := mgr, is_disk := fs\<rparr>) of (r1, i2) \<Rightarrow>
               (r1, i2\<lparr>is_profiles := ResetProfileCollector conn (is_profiles i2)\<rparr>))"

definition ClearCacheForFile ::
  "open_flag_bits \<Rightarrow> (string \<Rightarrow> byte list) \<Rightarrow> (string \<Rightarrow> string) \<Rightarrow> string \<Rightarrow> fs_registry \<times> instance_state \<Rightarrow>
   cpp_error option \<times> fs_registry \<times> instance_state" where
  "ClearCacheForFile bits sha gfn filepath st =
     (case st of (r, i) \<Rightarrow>
        case mgr_ClearCache_file sha gfn (cfg_on_disk_cache_directories (is_config i)) filepath (is_readers i) (is_disk i) of
          (Some e, mgr, fs) \<Rightarrow> (Some e, r, i\<lparr>is_readers := mgr, is_disk := fs\<rparr>)
        | (None, mgr, fs) \<Rightarrow> clear_path_all_fs bits sha gfn filepath r (i\<lparr>is_readers := mgr, is_disk := fs\<rparr>))"

text \<open>The destructor of the instance state clears the caches the file systems hold in memory.\<close>

definition destroy_instance :: "fs_registry \<Rightarrow> fs_registry" where
  "destroy_instance r = map (\<lambda>(a, c). (a, fs_ClearInMemoryCache c)) r"

definition ResetProfileStats :: "connection_t \<Rightarrow> instance_state \<Rightarrow> instance_state" where
  "ResetProfileStats conn i = i\<lparr>is_profiles := ResetProfileCollector conn (is_profiles i)\<rparr>"

section \<open>Settings keep the instance in order\<close>

definition stores_all :: "(data_storage \<Rightarrow> bool) \<Rightarrow> reader_manager \<Rightarrow> bool" where
  "stores_all P mgr \<longleftrightarrow>
     (\<forall>s. in_mem_cache_reader mgr = Some (Some s) \<longrightarrow> P s) \<and>
     (\<forall>s lru. on_disk_cache_reader mgr = Some (Some s, lru) \<longrightarrow> P s)"

definition on_grid :: "idx_t \<Rightarrow> data_storage \<Rightarrow> bool" where
  "on_grid nbs s \<longleftrightarrow> (\<forall>k e. storage_entries s k = Some e \<longrightarrow> start_off k mod nbs = 0 \<and> blk_size k \<le> nbs)"

lemma stores_all_SetCacheReader: "stores_all P mgr \<Longrightarrow> stores_all P (SetCacheReader s mgr)"
  by (auto simp: stores_all_def SetCacheReader_def InitializeDiskCacheReader_def)

lemma disk_remap_eq:
  "disk_RemapInMemoryDataBlocksForNewBlockSize = RemapInMemoryDataBlocksForNewBlockSize"
  by (intro ext) (simp add: disk_RemapInMemoryDataBlocksForNewBlockSize_def RemapInMemoryDataBlocksForNewBlockSize_def)

lemma remap_reader_ok:
  assumes "remap_bounds content page nbs" "\<forall>s. storage = Some s \<longrightarrow> storage_sound content s"
  shows "\<exists>storage'. remap_reader (RemapInMemoryDataBlocksForNewBlockSize page junk clk now nbs) clk storage =
      Some (None, storage') \<and> (\<forall>s. storage' = Some s \<longrightarrow> storage_sound content s \<and> on_grid nbs s)"
proof (cases storage)
  case None
  then show ?thesis by (simp add: remap_reader_def RemapInMemoryDataBlocksForNewBlockSize_def)
next
  case (Some s)
  have "storage_sound content s" using assms(2) Some by simp
  from remap_storage_live [OF assms(1) this, of junk clk now] show ?thesis
    using Some by (auto simp: remap_reader_def on_grid_def)
qed

lemma remap_manager_ok:
  assumes b: "remap_bounds content page nbs" and mgr: "stores_all (storage_sound content) mgr"
  shows "\<exists>mgr'. RemapInMemoryDataCachesAfterBlockSizeChange page junk clk now nbs mgr = Some (None, mgr') \<and>
    stores_all (\<lambda>s. storage_sound content s \<and> on_grid nbs s) mgr'"
proof -
  let ?R = "remap_reader (RemapInMemoryDataBlocksForNewBlockSize page junk clk now nbs) clk"
  obtain mgr1 where m1: "(case in_mem_cache_reader mgr of None \<Rightarrow> Some (None, mgr)
      | Some storage \<Rightarrow> map_option (\<lambda>(err, storage'). (err, mgr\<lparr>in_mem_cache_reader := Some storage'\<rparr>)) (?R storage)) =
      Some (None, mgr1)" "on_disk_cache_reader mgr1 = on_disk_cache_reader mgr"
    "\<forall>s. in_mem_cache_reader mgr1 = Some (Some s) \<longrightarrow> storage_sound content s \<and> on_grid nbs s"
  proof (cases "in_mem_cache_reader mgr")
    case None
    show ?thesis by (rule that [of mgr]) (use None in simp_all)
  next
    case (Some storage)
    have "\<forall>s. storage = Some s \<longrightarrow> storage_sound content s" using mgr Some by (simp add: stores_all_def)
    from remap_reader_ok [OF b this, of junk clk now] obtain storage' where
      r: "?R storage = Some (None, storage')" "\<forall>s. storage' = Some s \<longrightarrow> storage_sound content s \<and> on_grid nbs s" by blast
    show ?thesis by (rule that [of "mgr\<lparr>in_mem_cache_reader := Some storage'\<rparr>"]) (use Some r in simp_all)
  qed
  show ?thesis
  proof (cases "on_disk_cache_reader mgr")
    case None
    then show ?thesis
      using m1 by (simp add: RemapInMemoryDataCachesAfterBlockSizeChange_def stores_all_def)
  next
    case (Some sl)
    obtain storage lru where sl: "sl = (storage, lru)" by (cases sl)
    have "\<forall>s. storage = Some s \<longrightarrow> storage_sound content s" using mgr Some sl by (simp add: stores_all_def)
    from remap_reader_ok [OF b this, of junk clk now] obtain storage' where
      r: "?R storage = Some (None, storage')" "\<forall>s. storage' = Some s \<longrightarrow> storage_sound content s \<and> on_grid nbs s" by blast
    then show ?thesis
      using m1 Some sl
      by (simp add: RemapInMemoryDataCachesAfterBlockSizeChange_def stores_all_def disk_remap_eq)
  qed
qed

lemma stores_all_mono: "stores_all P mgr \<Longrightarrow> (\<And>s. P s \<Longrightarrow> Q s) \<Longrightarrow> stores_all Q mgr"
  by (auto simp: stores_all_def)

lemmas config_update_defs =
  UpdateMaxFanoutSubrequest_def UpdateParallelReadMode_def UpdateEnableCacheValidation_def UpdateClearCacheOnWrite_def
  UpdateMinDiskBytesForCache_def UpdateEvictPolicy_def UpdateDiskCacheReaderEnableMemoryCache_def
  UpdateDiskCacheReaderMemCacheBlockCount_def UpdateDiskCacheReaderMemCacheTimeout_def
  UpdateMaxInMemCacheBlockCount_def UpdateInMemCacheBlockTimeout_def UpdateInMemCacheStorage_def UpdateChunking_def
  UpdateInMemCacheBytes_def UpdateEvictionPolicy_def UpdatePolicyScope_def UpdateFilePolicies_def
  UpdateSimLatencyUs_def UpdateSimBandwidthGbps_def UpdateEnableMetadataCache_def UpdateMetadataCacheEntrySize_def
  UpdateMetadataCacheEntryTimeout_def UpdateEnableFileHandleCache_def UpdateFileHandleCacheEntrySize_def
  UpdateFileHandleCacheEntryTimeout_def UpdateEnableGlobCache_def UpdateGlobCacheEntrySize_def
  UpdateGlobCacheEntryTimeout_def

lemma config_option_valid:
  assumes "config_option st = Some update" "config_valid cfg" "update cfg = Inr cfg'"
  shows "config_valid cfg'"
  using assms
  by (cases st; clarsimp simp: config_update_defs config_valid_def split: if_splits sum.splits)

lemma sanitize_length: "sanitize_directories ds = Inr ds' \<Longrightarrow> length ds' = length ds"
  by (induction ds arbitrary: ds') (auto split: if_splits sum.splits)

lemma directories_ok:
  assumes "config_valid (is_config i)" "directories \<noteq> []"
    and "UpdateCacheDirectoriesImpl mk directories i = (err, i')"
  shows "config_valid (is_config i') \<and> is_readers i' = is_readers i \<and> is_profiles i' = is_profiles i \<and>
    (err \<noteq> None \<longrightarrow> i' = i)"
proof -
  have ne: "sort ds \<noteq> []" if "sanitize_directories directories = Inr ds" for ds
    using sanitize_length [OF that] assms(2) by (metis length_0_conv length_sort)
  have valid: "config_valid ((is_config i)\<lparr>cfg_on_disk_cache_directories := sort ds\<rparr>)"
    if "sanitize_directories directories = Inr ds" for ds
    using assms(1) ne [OF that] by (simp add: config_valid_def)
  then show ?thesis
    using assms(1,3) by (auto simp: UpdateCacheDirectoriesImpl_def Let_def split: sum.splits if_splits option.splits)
qed

text \<open>What the callbacks rely on: DuckDB's test for powers of two and its splitting of strings.\<close>

definition setting_env_ok :: "setting_env \<Rightarrow> bool" where
  "setting_env_ok v \<longleftrightarrow> (\<forall>n. 0 < n \<longrightarrow> n < U64 \<longrightarrow> (sv_is_pow2 v n \<longleftrightarrow> power_of_two n)) \<and>
     (\<forall>s. s \<noteq> [] \<longrightarrow> sv_split v s \<noteq> [])"

text \<open>The new block size is small enough for the remap's arithmetic, where the option is the block size.\<close>

definition setting_fits :: "contents \<Rightarrow> setting_env \<Rightarrow> setting \<Rightarrow> bool" where
  "setting_fits content v st \<longleftrightarrow>
     (\<forall>n. st = Cache_Block_Size n \<longrightarrow> n \<noteq> 0 \<longrightarrow> remap_bounds content (sv_page v) n)"

definition instance_ok :: "contents \<Rightarrow> instance_state \<Rightarrow> bool" where
  "instance_ok content i \<longleftrightarrow> config_valid (is_config i) \<and> stores_all (storage_sound content) (is_readers i)"

lemma block_size_ok:
  assumes i: "instance_ok content i" and v: "setting_env_ok v" and fits: "setting_fits content v (Cache_Block_Size n)"
  shows "\<exists>err i'. UpdateCacheBlockSize (sv_is_pow2 v) (sv_page v) junk clk now n i = Some (err, i') \<and>
    instance_ok content i' \<and> (err \<noteq> None \<longrightarrow> i' = i) \<and>
    (err = None \<longrightarrow> power_of_two n \<and> is_config i' = (is_config i)\<lparr>cfg_cache_block_size := n\<rparr> \<and>
       (n \<noteq> cfg_cache_block_size (is_config i) \<longrightarrow> stores_all (on_grid n) (is_readers i')))"
proof (cases "n = 0 \<or> \<not> sv_is_pow2 v n")
  case True
  then show ?thesis using i by (auto simp: UpdateCacheBlockSize_def)
next
  case False
  then have b: "remap_bounds content (sv_page v) n" using fits by (simp add: setting_fits_def)
  then have "length (content [] []) + 2 * n + 2 * sv_page v < U64" by (simp add: remap_bounds_def)
  then have "n < U64" by simp
  then have pow: "power_of_two n" using v False unfolding setting_env_ok_def by blast
  have i0: "config_valid (is_config i)" "stores_all (storage_sound content) (is_readers i)"
    using i by (simp_all add: instance_ok_def)
  have cfg: "config_valid ((is_config i)\<lparr>cfg_cache_block_size := n\<rparr>)" using i0(1) pow by (simp add: config_valid_def)
  show ?thesis
  proof (cases "cfg_cache_block_size (is_config i) = n")
    case True
    then show ?thesis using False pow cfg i0 by (simp add: UpdateCacheBlockSize_def instance_ok_def)
  next
    case neq: False
    obtain mgr where m: "RemapInMemoryDataCachesAfterBlockSizeChange (sv_page v) junk clk now n (is_readers i) = Some (None, mgr)"
      "stores_all (\<lambda>s. storage_sound content s \<and> on_grid n s) mgr"
      using remap_manager_ok [OF b i0(2)] by blast
    have "stores_all (storage_sound content) mgr" "stores_all (on_grid n) mgr" using m(2) by (auto simp: stores_all_def)
    then show ?thesis using False neq m(1) pow cfg by (simp add: UpdateCacheBlockSize_def instance_ok_def)
  qed
qed


definition example_setting_env :: setting_env where
  "example_setting_env =
     \<lparr>sv_conn = 1, sv_is_pow2 = power_of_two, sv_page = 4096, sv_junk = (\<lambda>_. 0), sv_clk = (\<lambda>_. 0), sv_now = 0,
      sv_CreateDirectory = (\<lambda>_. None), sv_split = (\<lambda>s. [s]), sv_default_directory = ''d''\<rparr>"

definition new_instance :: "string \<Rightarrow> instance_state" where
  "new_instance default_directory =
     \<lparr>is_config = default_config default_directory, is_readers = reader_manager_new, is_profiles = profile_manager_new,
      is_disk = []\<rparr>"

lemma new_instance_ok: "instance_ok content (new_instance d)"
  by (simp add: instance_ok_def new_instance_def default_config_valid stores_all_def reader_manager_new_def)




text \<open>
  Property C36. Every option accepts the default it is registered with, and accepting it keeps the
  default configuration, with one exception: the default \<open>0\<close> of
  \<open>cache_httpfs_min_disk_bytes_for_cache\<close> is refused by its own callback.
\<close>

theorem registered_defaults_accepted:
  assumes "d \<noteq> []" "last d \<noteq> CHR ''/''" "sv_default_directory v = d" "sv_is_pow2 v (512 * 1024)"
    and "st \<in> set (default_settings d)"
  shows "\<exists>err i'. apply_setting v st (new_instance d) = Some (err, i') \<and> is_config i' = default_config d \<and>
    (err \<noteq> None \<longleftrightarrow> st = Min_Disk_Bytes_For_Cache 0)"
proof -
  have sp: "SetProfileCollector conn NOOP_PROFILE_TYPE profile_manager_new =
      (None, profile_manager_new\<lparr>profile_collectors := [(conn, NoopProfileCollector 0)]\<rparr>)" for conn
    by (simp add: SetProfileCollector_def profile_manager_new_def)
  have dirs: "UpdateCacheDirectoriesImpl mk [d] (new_instance d) = (None, new_instance d)" for mk
    using assms(1,2) by (simp add: UpdateCacheDirectoriesImpl_def new_instance_def default_config_def)
  note facts = apply_setting_def store_option_def config_update_defs new_instance_def default_config_def
    SetCacheType_def UpdateCacheBlockSize_def UpdateProfileType_def ParseParallelExecutorMode_def Let_def sp
    ON_DISK_CACHE_TYPE_def ALL_CACHE_TYPES_def EXT_BOUNDED_STORAGE_def ALL_IN_MEM_CACHE_STORAGES_def FIXED_CHUNKING_def
    ALL_CHUNKINGS_def IsValidEvictionPolicy_def GLOBAL_POLICY_SCOPE_def ALL_POLICY_SCOPES_def
  consider "st = Cache_Directory d" | "st = Cache_Directories_Config []"
    | "st \<in> set (default_settings d) - {Cache_Directory d, Cache_Directories_Config []}" using assms(5) by blast
  then show ?thesis
  proof cases
    case 3
    then show ?thesis
      using assms(4) by (simp add: default_settings_def) (elim conjE disjE; simp add: facts)
  qed (use assms(1,3) dirs in \<open>simp_all add: apply_setting_def UpdateCacheDirectory_def UpdateCacheDirectoriesConfig_def\<close>,
      simp_all add: new_instance_def)
qed

lemma registered_defaults_accepted_witness:
  "\<exists>err i'. apply_setting example_setting_env (Min_Disk_Bytes_For_Cache 0) (new_instance ''d'') = Some (err, i') \<and> err \<noteq> None"
proof -
  have "(512 * 1024 :: nat) = 2 ^ 19" by simp
  moreover have "(2 ^ 19 :: nat) \<in> set (map (\<lambda>k. 2 ^ k) [0..<64])" unfolding set_map by (rule imageI) simp
  ultimately have "sv_is_pow2 example_setting_env (512 * 1024)"
    unfolding example_setting_env_def power_of_two_def by (simp only: setting_env.simps)
  moreover have "Min_Disk_Bytes_For_Cache 0 \<in> set (default_settings ''d'')" by (simp add: default_settings_def)
  ultimately show ?thesis
    using registered_defaults_accepted [of "''d''" example_setting_env "Min_Disk_Bytes_For_Cache 0"]
    by (simp add: example_setting_env_def) blast
qed

section \<open>Clearing everything\<close>

definition under_directory :: "string \<Rightarrow> string \<Rightarrow> bool" where
  "under_directory dir path \<longleftrightarrow> take (length dir + 1) path = dir @ ''/''"

lemma map_of_RemoveDirectories:
  "map_of (fold RemoveDirectory dirs fs) p = (if \<exists>d \<in> set dirs. under_directory d p then None else map_of fs p)"
proof (induction dirs arbitrary: fs)
  case (Cons d dirs)
  have "map_of (RemoveDirectory d fs) p = (if under_directory d p then None else map_of fs p)"
    unfolding RemoveDirectory_def under_directory_def by (induction fs) auto
  with Cons show ?case by simp
qed simp

definition store_empty :: "data_storage \<Rightarrow> bool" where
  "store_empty s \<longleftrightarrow> storage_inv s \<and> storage_entries s = Map.empty"

definition fs_empty :: "cache_fs \<Rightarrow> bool" where
  "fs_empty c \<longleftrightarrow> (\<forall>m. cf_metadata c = Some m \<longrightarrow> lru_abs m = []) \<and> (\<forall>g. cf_glob c = Some g \<longrightarrow> lru_abs g = []) \<and>
     file_handle_cache (cf_handles c) = None"

definition readers_empty :: "reader_manager \<Rightarrow> bool" where
  "readers_empty mgr \<longleftrightarrow> stores_all store_empty mgr \<and>
     (\<forall>storage lru. on_disk_cache_reader mgr = Some (storage, lru) \<longrightarrow> lru = no_accesses)"

lemma storage_Clear_empty: "storage_inv s \<Longrightarrow> store_empty (storage_Clear s)"
  using storage.clear_law by (simp add: store_empty_def)

lemma mgr_ClearCache_empties:
  assumes "stores_all storage_inv mgr" "mgr_ClearCache dirs mgr fs = (mgr', fs')"
  shows "readers_empty mgr' \<and> fs' \<in> {fs, fold RemoveDirectory dirs fs}"
  using assms
  by (cases "on_disk_cache_reader mgr")
    (auto simp: mgr_ClearCache_def Let_def disk_ClearCache_def ClearCache_def readers_empty_def stores_all_def
      storage_Clear_empty)

lemma fs_ClearCache_empties:
  assumes "stores_all storage_inv (is_readers i)" "fs_ClearCache (c, i) = (c', i')"
  shows "fs_empty c' \<and> readers_empty (is_readers i') \<and> is_config i' = is_config i \<and> is_profiles i' = is_profiles i \<and>
    is_disk i' \<in> {is_disk i, fold RemoveDirectory (cfg_on_disk_cache_directories (is_config i)) (is_disk i)}"
proof -
  let ?dirs = "cfg_on_disk_cache_directories (is_config i)"
  obtain mgr fs where m: "mgr_ClearCache ?dirs (is_readers i) (is_disk i) = (mgr, fs)" by fastforce
  have "file_handle_cache (ClearFileHandleCache hs) = None" for hs
    by (auto simp: ClearFileHandleCache_def split: option.splits prod.splits)
  then show ?thesis
    using mgr_ClearCache_empties [OF assms(1) m] assms(2) m by (auto simp: fs_ClearCache_def fs_empty_def)
qed

lemma readers_empty_inv: "readers_empty mgr \<Longrightarrow> stores_all storage_inv mgr"
  by (auto simp: readers_empty_def stores_all_def store_empty_def)

lemma clear_all_fs_empties:
  assumes "readers_empty (is_readers i)" "clear_all_fs r i = (r', i')"
    and "\<forall>p. map_of (is_disk i) p = (if \<exists>d \<in> set (cfg_on_disk_cache_directories (is_config i)). under_directory d p
      then None else m p)"
  shows "map fst r' = map fst r \<and> (\<forall>c \<in> snd ` set r'. fs_empty c) \<and> readers_empty (is_readers i') \<and>
    is_config i' = is_config i \<and> is_profiles i' = is_profiles i \<and>
    (\<forall>p. map_of (is_disk i') p = (if \<exists>d \<in> set (cfg_on_disk_cache_directories (is_config i)). under_directory d p
      then None else m p))"
  using assms
proof (induction r arbitrary: i r' i')
  case (Cons ac r)
  obtain a c where ac: "ac = (a, c)" by (cases ac)
  obtain c1 i1 where c1: "fs_ClearCache (c, i) = (c1, i1)" by fastforce
  obtain r1 i2 where r1: "clear_all_fs r i1 = (r1, i2)" by fastforce
  note e = fs_ClearCache_empties [OF readers_empty_inv [OF Cons.prems(1)] c1]
  have "\<forall>p. map_of (is_disk i1) p = (if \<exists>d \<in> set (cfg_on_disk_cache_directories (is_config i1)). under_directory d p
      then None else m p)"
    using e Cons.prems(3) by (auto simp: map_of_RemoveDirectories)
  from Cons.IH [OF _ r1 this] e Cons.prems(2) show ?case by (auto simp: ac c1 r1)
qed simp



end
