(* ===== verification/Status_Functions.thy ===== *)
theory Status_Functions
  imports Extension_Settings
begin

text \<open>
  The functions that show the state of the extension to SQL: listings of cache entries, access
  counts, group statistics, exclusions and file systems (\<open>src/cache_status_query_function.cpp\<close>,
  \<open>src/policy_stats_query_function.cpp\<close>, \<open>src/cache_exclusion_utils.cpp\<close>,
  \<open>src/filesystem_status_query_function.cpp\<close>), and the configuration as a table
  (\<open>src/extension_config_query_function.cpp\<close>).

  A table function binds its columns, gathers its rows when it is initialised and is then called
  until it returns an empty chunk. DuckDB hands empty lists of columns to a bind, so its assertions
  hold; all functions but the status query run where the instance state exists. Chunks hold at most \<open>STANDARD_VECTOR_SIZE\<close> rows, a constant of
  DuckDB and a parameter here.
\<close>

section \<open>Values, columns and rows\<close>

datatype logical_type = VARCHAR | UBIGINT | LIST_VARCHAR

datatype sql_value = V_null | V_varchar string | V_bigint int | V_ubigint nat | V_list "string list"

type_synonym schema = "(string \<times> logical_type) list"
type_synonym row = "sql_value list"

text \<open>
  What \<open>DataChunk::SetValue\<close> stores in a column of a type: a value of that type, a null, or a
  signed integer an unsigned column can hold; any other cast fails.
\<close>

fun value_fits :: "logical_type \<Rightarrow> sql_value \<Rightarrow> bool" where
  "value_fits ty V_null = True"
| "value_fits ty (V_varchar s) = (ty = VARCHAR)"
| "value_fits ty (V_bigint i) = (ty = UBIGINT \<and> 0 \<le> i)"
| "value_fits ty (V_ubigint n) = (ty = UBIGINT)"
| "value_fits ty (V_list xs) = (ty = LIST_VARCHAR)"

definition row_fits :: "schema \<Rightarrow> row \<Rightarrow> bool" where
  "row_fits cols r \<longleftrightarrow> list_all2 value_fits (map snd cols) r"

definition result_bind :: "'a result \<Rightarrow> ('a \<Rightarrow> 'b result) \<Rightarrow> 'b result" where
  "result_bind m f = (case m of Inl e \<Rightarrow> Inl e | Inr x \<Rightarrow> f x)"

lemma result_bind_simps [simp]:
  "result_bind (Inr x) f = f x"
  "result_bind (Inl e) f = Inl e"
  by (simp_all add: result_bind_def)

section \<open>Emitting rows\<close>

record 'e emission =
  em_entries :: "'e list"
  em_offset :: nat

text \<open>The loop that fills a chunk: \<open>room\<close> is what is left of it.\<close>

fun emit_loop :: "('e \<Rightarrow> row) \<Rightarrow> nat \<Rightarrow> 'e emission \<Rightarrow> row list \<times> 'e emission" where
  "emit_loop to_row 0 d = ([], d)"
| "emit_loop to_row (Suc room) d =
     (if em_offset d < length (em_entries d)
      then (let (rows, d') = emit_loop to_row room (d\<lparr>em_offset := em_offset d + 1\<rparr>)
            in (to_row (em_entries d ! em_offset d) # rows, d'))
      else ([], d))"

definition emit :: "nat \<Rightarrow> ('e \<Rightarrow> row) \<Rightarrow> 'e emission \<Rightarrow> row list \<times> 'e emission" where
  "emit vector_size to_row d =
     (if length (em_entries d) \<le> em_offset d then ([], d) else emit_loop to_row vector_size d)"

definition start_emission :: "'e list \<Rightarrow> 'e emission" where
  "start_emission es = \<lparr>em_entries = es, em_offset = 0\<rparr>"

text \<open>A function that emits its single row once.\<close>

definition emit_once :: "row \<Rightarrow> bool \<Rightarrow> row list \<times> bool" where
  "emit_once r emitted = (if emitted then ([], emitted) else ([r], True))"

text \<open>A scan calls the function until the chunk it returns is empty.\<close>

partial_function (option) table_scan :: "('s \<Rightarrow> row list \<times> 's) \<Rightarrow> 's \<Rightarrow> row list list option" where
  "table_scan f s =
     (case f s of (chunk, s') \<Rightarrow>
        if chunk = [] then Some []
        else Option.bind (table_scan f s') (\<lambda>chunks. Some (chunk # chunks)))"

section \<open>Cache entries\<close>

definition DataCacheStatusQueryFuncBind :: schema where
  "DataCacheStatusQueryFuncBind =
     [(''cache_filepath'', VARCHAR), (''original_remote_path'', VARCHAR), (''start_offset'', UBIGINT),
      (''end_offset'', UBIGINT), (''cache_type'', VARCHAR)]"

definition entry_tie :: "DataCacheEntryInfo \<Rightarrow> string \<times> string \<times> nat \<times> nat \<times> string" where
  "entry_tie i = (ci_cache_filepath i, ci_original_remote_path i, ci_start_offset i, ci_end_offset i, ci_cache_type i)"

text \<open>
  The entries of one reader, where \<open>gfn\<close>, \<open>split\<close> and \<open>to_unsigned\<close> are DuckDB's string functions
  the on-disk reader uses.
\<close>

fun reader_entries ::
  "(string \<Rightarrow> string) \<Rightarrow> (string \<Rightarrow> string list) \<Rightarrow> (string \<Rightarrow> idx_t result) \<Rightarrow> instance_state \<Rightarrow> reader_kind \<Rightarrow>
   DataCacheEntryInfo list run" where
  "reader_entries gfn split to_unsigned i Noop_Reader = Some (Inr [])"
| "reader_entries gfn split to_unsigned i Memory_Reader =
     Some (Inr (case in_mem_cache_reader (is_readers i) of None \<Rightarrow> [] | Some s \<Rightarrow> GetCacheEntriesInfo s))"
| "reader_entries gfn split to_unsigned i Disk_Reader =
     (case on_disk_cache_reader (is_readers i) of
        None \<Rightarrow> Some (Inr [])
      | Some (s, _) \<Rightarrow>
          disk_GetCacheEntriesInfo gfn split to_unsigned (cfg_on_disk_cache_directories (is_config i)) s (is_disk i))"

text \<open>Without an instance state there is nothing to list. The on-disk reader is created if need be.\<close>

definition DataCacheStatusQueryFuncInit ::
  "(string \<Rightarrow> string) \<Rightarrow> (string \<Rightarrow> string list) \<Rightarrow> (string \<Rightarrow> idx_t result) \<Rightarrow> instance_state option \<Rightarrow>
   DataCacheEntryInfo emission run \<times> instance_state option" where
  "DataCacheStatusQueryFuncInit gfn split to_unsigned inst =
     (case inst of
        None \<Rightarrow> (Some (Inr (start_emission [])), None)
      | Some i \<Rightarrow>
          let i' = i\<lparr>is_readers := InitializeDiskCacheReader (is_readers i)\<rparr>
          in (run_bind (map_run (reader_entries gfn split to_unsigned i') (GetCacheReaders (is_readers i')))
                (\<lambda>ess. Some (Inr (start_emission (sort_key entry_tie (concat ess))))), Some i'))"

definition data_cache_status_row :: "DataCacheEntryInfo \<Rightarrow> row" where
  "data_cache_status_row entry =
     [V_varchar (ci_cache_filepath entry),
      if ci_original_remote_path entry = [] then V_null else V_varchar (ci_original_remote_path entry),
      V_bigint (from_idx (ci_start_offset entry)), V_bigint (from_idx (ci_end_offset entry)),
      V_varchar (ci_cache_type entry)]"

definition DataCacheStatusQueryTableFunc ::
  "nat \<Rightarrow> DataCacheEntryInfo emission \<Rightarrow> row list \<times> DataCacheEntryInfo emission" where
  "DataCacheStatusQueryTableFunc vector_size d = emit vector_size data_cache_status_row d"

section \<open>Access counts\<close>

definition CacheAccessInfoQueryFuncBind :: schema where
  "CacheAccessInfoQueryFuncBind =
     [(''cache_type'', VARCHAR), (''cache_hit_count'', UBIGINT), (''cache_miss_count'', UBIGINT),
      (''cache_miss_by_in_use (file handle cache)'', UBIGINT), (''number_bytes_to_read (data cache)'', UBIGINT),
      (''number_bytes_to_cache (data cache)'', UBIGINT), (''bytes_read_from_hits (data cache)'', UBIGINT),
      (''bytes_read_from_misses (data cache)'', UBIGINT)]"

definition no_access :: "nat \<Rightarrow> CacheAccessInfo" where
  "no_access idx =
     \<lparr>ca_cache_type = CACHE_ENTITY_NAMES ! idx, ca_cache_hit_count = 0, ca_cache_miss_count = 0,
      ca_cache_miss_by_in_use = 0, ca_total_bytes_to_read = None, ca_total_bytes_to_cache = None,
      ca_bytes_read_from_hits = None, ca_bytes_read_from_misses = None\<rparr>"

text \<open>
  A byte count added to a value that may be null. \<open>get_value\<close> is DuckDB's \<open>Value::GetValue\<close>, which a
  collector's value is read with.
\<close>

definition add_bytes :: "(nat option \<Rightarrow> nat result) \<Rightarrow> nat option \<Rightarrow> nat option \<Rightarrow> nat option result" where
  "add_bytes get_value so_far cur =
     result_bind (case so_far of None \<Rightarrow> Inr 0 | Some _ \<Rightarrow> get_value so_far)
       (\<lambda>t. result_bind (get_value cur) (\<lambda>n. Inr (Some (u64_add t n))))"

definition add_access ::
  "(nat option \<Rightarrow> nat result) \<Rightarrow> nat \<Rightarrow> CacheAccessInfo \<Rightarrow> CacheAccessInfo \<Rightarrow> CacheAccessInfo result" where
  "add_access get_value idx agg cur =
     (let agg1 = agg\<lparr>ca_cache_hit_count := u64_add (ca_cache_hit_count agg) (ca_cache_hit_count cur),
                     ca_cache_miss_count := u64_add (ca_cache_miss_count agg) (ca_cache_miss_count cur),
                     ca_cache_miss_by_in_use := u64_add (ca_cache_miss_by_in_use agg) (ca_cache_miss_by_in_use cur)\<rparr>
      in if idx = operation_index kRead
         then result_bind (add_bytes get_value (ca_total_bytes_to_read agg) (ca_total_bytes_to_read cur)) (\<lambda>to_read.
              result_bind (add_bytes get_value (ca_total_bytes_to_cache agg) (ca_total_bytes_to_cache cur)) (\<lambda>to_cache.
              result_bind (add_bytes get_value (ca_bytes_read_from_hits agg) (ca_bytes_read_from_hits cur)) (\<lambda>hits.
              result_bind (add_bytes get_value (ca_bytes_read_from_misses agg) (ca_bytes_read_from_misses cur)) (\<lambda>misses.
              Inr (agg1\<lparr>ca_total_bytes_to_read := to_read, ca_total_bytes_to_cache := to_cache,
                        ca_bytes_read_from_hits := hits, ca_bytes_read_from_misses := misses\<rparr>)))))
         else Inr agg1)"

fun add_all_accesses ::
  "(nat option \<Rightarrow> nat result) \<Rightarrow> nat \<Rightarrow> CacheAccessInfo list \<Rightarrow> CacheAccessInfo list \<Rightarrow> CacheAccessInfo list result" where
  "add_all_accesses get_value idx (a # as) (c # cs) =
     result_bind (add_access get_value idx a c)
       (\<lambda>a'. result_bind (add_all_accesses get_value (Suc idx) as cs) (\<lambda>as'. Inr (a' # as')))"
| "add_all_accesses get_value idx as cs = Inr as"

definition CacheAccessInfoQueryFuncInit ::
  "(nat option \<Rightarrow> nat result) \<Rightarrow> connection_t \<Rightarrow> instance_state \<Rightarrow> CacheAccessInfo emission result" where
  "CacheAccessInfoQueryFuncInit get_value conn i =
     (let none = map no_access [0..<kCacheEntityCount]
      in if \<not> HasExplicitProfileCollector conn (is_profiles i) then Inr (start_emission none)
         else result_bind (GetProfileCollectorOrThrow conn (is_profiles i)) (\<lambda>collector.
              if length (GetCacheAccessInfo collector) \<noteq> kCacheEntityCount
              then Inl (AssertionFailure ''cache_access_info.size() == kCacheEntityCount'')
              else result_bind (add_all_accesses get_value 0 none (GetCacheAccessInfo collector))
                     (\<lambda>infos. Inr (start_emission infos))))"

definition optional_count :: "nat option \<Rightarrow> sql_value" where
  "optional_count v = (case v of None \<Rightarrow> V_null | Some n \<Rightarrow> V_ubigint n)"

definition cache_access_row :: "CacheAccessInfo \<Rightarrow> row" where
  "cache_access_row entry =
     [V_varchar (ca_cache_type entry), V_bigint (from_idx (ca_cache_hit_count entry)),
      V_bigint (from_idx (ca_cache_miss_count entry)), V_bigint (from_idx (ca_cache_miss_by_in_use entry)),
      optional_count (ca_total_bytes_to_read entry), optional_count (ca_total_bytes_to_cache entry),
      optional_count (ca_bytes_read_from_hits entry), optional_count (ca_bytes_read_from_misses entry)]"

definition CacheAccessInfoQueryTableFunc ::
  "nat \<Rightarrow> CacheAccessInfo emission \<Rightarrow> row list \<times> CacheAccessInfo emission" where
  "CacheAccessInfoQueryTableFunc vector_size d = emit vector_size cache_access_row d"

section \<open>File systems and exclusions\<close>

definition names_row :: "string \<Rightarrow> row" where
  "names_row entry = [V_varchar entry]"

definition WrappedCacheFileSystemsFuncBind :: schema where
  "WrappedCacheFileSystemsFuncBind = [(''wrapped_filesystems'', VARCHAR)]"

text \<open>\<open>internal_name\<close> is the name of the file system wrapped by the one at an address.\<close>

definition WrappedCacheFileSystemsFuncInit :: "(nat \<Rightarrow> string) \<Rightarrow> fs_registry \<Rightarrow> string emission" where
  "WrappedCacheFileSystemsFuncInit internal_name registry = start_emission (map (internal_name \<circ> fst) registry)"

definition WrappedCacheFileSystemsTableFunc :: "nat \<Rightarrow> string emission \<Rightarrow> row list \<times> string emission" where
  "WrappedCacheFileSystemsTableFunc vector_size d = emit vector_size names_row d"

definition ListFileSystemQueryFuncBind :: schema where
  "ListFileSystemQueryFuncBind = [(''registered_filesystems'', VARCHAR)]"

text \<open>\<open>filesystems\<close> is what DuckDB's virtual file system lists.\<close>

definition ListFileSystemQueryFuncInit :: "string list \<Rightarrow> string emission" where
  "ListFileSystemQueryFuncInit filesystems = start_emission (sort filesystems)"

definition ListFileSystemQueryTableFunc :: "nat \<Rightarrow> string emission \<Rightarrow> row list \<times> string emission" where
  "ListFileSystemQueryTableFunc vector_size d = emit vector_size names_row d"

definition ListCacheExclusionRegexQueryFuncBind :: schema where
  "ListCacheExclusionRegexQueryFuncBind = [(''cache_exclusion_regex'', VARCHAR)]"

definition ListCacheExclusionRegexQueryFuncInit :: "exclusion_manager \<Rightarrow> string emission" where
  "ListCacheExclusionRegexQueryFuncInit xm = start_emission (sort (GetExclusionRegex xm))"

definition ListCacheExclusionRegexQueryTableFunc :: "nat \<Rightarrow> string emission \<Rightarrow> row list \<times> string emission" where
  "ListCacheExclusionRegexQueryTableFunc vector_size d = emit vector_size names_row d"

text \<open>The SQL functions that change the exclusions; \<open>compiles\<close> is the regex library.\<close>

definition AddCacheExclusionRegex :: "(string \<Rightarrow> bool) \<Rightarrow> string list \<Rightarrow> exclusion_manager \<Rightarrow> exclusion_manager result" where
  "AddCacheExclusionRegex compiles args xm =
     (case args of
        [regex] \<Rightarrow> AddExclusionRegex compiles regex xm
      | _ \<Rightarrow> Inl (AssertionFailure ''args.ColumnCount() == 1''))"

definition ResetCacheExclusionRegex :: "exclusion_manager \<Rightarrow> exclusion_manager" where
  "ResetCacheExclusionRegex xm = ResetExclusionRegex xm"

section \<open>Group statistics\<close>

definition PolicyStatsBind :: schema where
  "PolicyStatsBind =
     [(''policy_group'', VARCHAR), (''policy'', VARCHAR), (''capacity_bytes'', UBIGINT), (''used_bytes'', UBIGINT),
      (''entry_count'', UBIGINT), (''hits'', UBIGINT), (''misses'', UBIGINT), (''evictions'', UBIGINT),
      (''bytes_admitted'', UBIGINT), (''bytes_evicted'', UBIGINT), (''min_entry_bytes'', UBIGINT),
      (''max_entry_bytes'', UBIGINT)]"

definition PolicyStatsInit :: "instance_state \<Rightarrow> PolicyGroupStats emission" where
  "PolicyStatsInit i =
     start_emission (concat (map (\<lambda>reader. case (reader, in_mem_cache_reader (is_readers i)) of
          (Memory_Reader, Some s) \<Rightarrow> GetPolicyStats s
        | _ \<Rightarrow> []) (GetCacheReaders (is_readers i))))"

definition policy_stats_row :: "PolicyGroupStats \<Rightarrow> row" where
  "policy_stats_row r =
     [V_varchar (st_group r), V_varchar (st_policy r), V_ubigint (st_capacity_bytes r), V_ubigint (st_used_bytes r),
      V_ubigint (st_entry_count r), V_ubigint (st_hits r), V_ubigint (st_misses r), V_ubigint (st_evictions r),
      V_ubigint (st_bytes_admitted r), V_ubigint (st_bytes_evicted r), V_ubigint (st_min_entry_bytes r),
      V_ubigint (st_max_entry_bytes r)]"

definition PolicyStatsTableFunc :: "nat \<Rightarrow> PolicyGroupStats emission \<Rightarrow> row list \<times> PolicyGroupStats emission" where
  "PolicyStatsTableFunc vector_size d =
     (let count = min vector_size (u64_sub (length (em_entries d)) (em_offset d))
      in if count = 0 then ([], d)
         else (map (\<lambda>i. policy_stats_row (em_entries d ! (em_offset d + i))) [0..<count],
               d\<lparr>em_offset := em_offset d + count\<rparr>))"

section \<open>The configuration as a table\<close>

definition GetDiskCacheReaderMemoryCacheType :: "InstanceConfig \<Rightarrow> sql_value" where
  "GetDiskCacheReaderMemoryCacheType cfg =
     V_varchar (if cfg_enable_disk_reader_mem_cache cfg then ''on-disk-memory-cache'' else ''page-cache'')"

definition GetDiskCacheDirectories :: "InstanceConfig \<Rightarrow> sql_value" where
  "GetDiskCacheDirectories cfg = V_list (cfg_on_disk_cache_directories cfg)"

definition GetCacheExclusionRegexes :: "exclusion_manager \<Rightarrow> sql_value" where
  "GetCacheExclusionRegexes xm = V_list (GetExclusionRegex xm)"

definition DataCacheConfigQueryFuncBindImpl :: "InstanceConfig \<Rightarrow> schema" where
  "DataCacheConfigQueryFuncBindImpl cfg =
     (''data cache type'', VARCHAR) #
     (if cfg_cache_type cfg = ON_DISK_CACHE_TYPE
      then [(''disk cache directories'', LIST_VARCHAR), (''disk cache block size'', UBIGINT),
            (''disk cache eviction policy'', VARCHAR), (''disk cache memory cache'', VARCHAR)]
      else if cfg_cache_type cfg = IN_MEM_CACHE_TYPE
      then [(''in-memory cache block size'', UBIGINT), (''in-memory cache eviction policy'', VARCHAR)]
      else [])"

definition FillDataCacheConfig :: "InstanceConfig \<Rightarrow> row" where
  "FillDataCacheConfig cfg =
     V_varchar (cfg_cache_type cfg) #
     (if cfg_cache_type cfg = ON_DISK_CACHE_TYPE
      then [GetDiskCacheDirectories cfg, V_ubigint (cfg_cache_block_size cfg),
            V_varchar (cfg_on_disk_eviction_policy cfg), GetDiskCacheReaderMemoryCacheType cfg]
      else if cfg_cache_type cfg = IN_MEM_CACHE_TYPE
      then [V_ubigint (cfg_cache_block_size cfg), V_varchar ''lru'']
      else [])"

definition MetadataCacheConfigQueryFuncBindImpl :: "InstanceConfig \<Rightarrow> schema" where
  "MetadataCacheConfigQueryFuncBindImpl cfg =
     (''metadata cache type'', VARCHAR) #
     (if enable_metadata_cache (cfg_metadata cfg) then [(''metadata cache entry size'', UBIGINT)] else [])"

definition FillMetadataCacheConfig :: "InstanceConfig \<Rightarrow> row" where
  "FillMetadataCacheConfig cfg =
     (if enable_metadata_cache (cfg_metadata cfg)
      then [V_varchar ''enabled'', V_ubigint (max_metadata_cache_entry (cfg_metadata cfg))]
      else [V_varchar ''disabled''])"

definition FileHandleCacheConfigQueryFuncBindImpl :: "InstanceConfig \<Rightarrow> schema" where
  "FileHandleCacheConfigQueryFuncBindImpl cfg =
     (''file handle cache type'', VARCHAR) #
     (if enable_file_handle_cache (cfg_handles cfg) then [(''file handle cache entry size'', UBIGINT)] else [])"

definition FillFileHandleCacheConfig :: "InstanceConfig \<Rightarrow> row" where
  "FillFileHandleCacheConfig cfg =
     (if enable_file_handle_cache (cfg_handles cfg)
      then [V_varchar ''enabled'', V_ubigint (max_file_handle_cache_entry (cfg_handles cfg))]
      else [V_varchar ''disabled''])"

definition GlobCacheConfigQueryFuncBindImpl :: "InstanceConfig \<Rightarrow> schema" where
  "GlobCacheConfigQueryFuncBindImpl cfg =
     (''glob cache type'', VARCHAR) #
     (if enable_glob_cache (cfg_glob cfg) then [(''glob cache entry size'', UBIGINT)] else [])"

definition FillGlobCacheConfig :: "InstanceConfig \<Rightarrow> row" where
  "FillGlobCacheConfig cfg =
     (if enable_glob_cache (cfg_glob cfg)
      then [V_varchar ''enabled'', V_ubigint (max_glob_cache_entry (cfg_glob cfg))]
      else [V_varchar ''disabled''])"

text \<open>
  The six functions: each binds its columns to the configuration at that moment and fills its row
  from the configuration when it runs.
\<close>

definition DataCacheConfigQueryTableFunc :: "InstanceConfig \<Rightarrow> bool \<Rightarrow> row list \<times> bool" where
  "DataCacheConfigQueryTableFunc cfg emitted = emit_once (FillDataCacheConfig cfg) emitted"

definition MetadataCacheConfigQueryTableFunc :: "InstanceConfig \<Rightarrow> bool \<Rightarrow> row list \<times> bool" where
  "MetadataCacheConfigQueryTableFunc cfg emitted = emit_once (FillMetadataCacheConfig cfg) emitted"

definition FileHandleCacheConfigQueryTableFunc :: "InstanceConfig \<Rightarrow> bool \<Rightarrow> row list \<times> bool" where
  "FileHandleCacheConfigQueryTableFunc cfg emitted = emit_once (FillFileHandleCacheConfig cfg) emitted"

definition GlobCacheConfigQueryTableFunc :: "InstanceConfig \<Rightarrow> bool \<Rightarrow> row list \<times> bool" where
  "GlobCacheConfigQueryTableFunc cfg emitted = emit_once (FillGlobCacheConfig cfg) emitted"

definition CacheTypeQueryFuncBind :: schema where
  "CacheTypeQueryFuncBind =
     [(''data cache'', VARCHAR), (''metadata cache'', VARCHAR), (''file handle cache'', VARCHAR), (''glob cache'', VARCHAR)]"

definition CacheTypeQueryTableFunc :: "InstanceConfig \<Rightarrow> bool \<Rightarrow> row list \<times> bool" where
  "CacheTypeQueryTableFunc cfg emitted =
     emit_once
       [V_varchar (cfg_cache_type cfg),
        V_varchar (if enable_metadata_cache (cfg_metadata cfg) then ''enabled'' else ''disabled''),
        V_varchar (if enable_file_handle_cache (cfg_handles cfg) then ''enabled'' else ''disabled''),
        V_varchar (if enable_glob_cache (cfg_glob cfg) then ''enabled'' else ''disabled'')] emitted"

definition CacheConfigQueryFuncBind :: "InstanceConfig \<Rightarrow> schema" where
  "CacheConfigQueryFuncBind cfg =
     DataCacheConfigQueryFuncBindImpl cfg @ MetadataCacheConfigQueryFuncBindImpl cfg @
     FileHandleCacheConfigQueryFuncBindImpl cfg @ GlobCacheConfigQueryFuncBindImpl cfg @
     [(''cache exclusion regexes'', LIST_VARCHAR)]"

definition CacheConfigQueryTableFunc :: "InstanceConfig \<Rightarrow> exclusion_manager \<Rightarrow> bool \<Rightarrow> row list \<times> bool" where
  "CacheConfigQueryTableFunc cfg xm emitted =
     emit_once
       (FillDataCacheConfig cfg @ FillMetadataCacheConfig cfg @ FillFileHandleCacheConfig cfg @ FillGlobCacheConfig cfg @
        [GetCacheExclusionRegexes xm]) emitted"

text \<open>
  The function \<open>cache_httpfs_get_ondisk_data_cache_size\<close>: every file of the directories counts, also
  a temporary one. A file that cannot be opened is an error. The sum is an \<open>int64_t\<close>.
\<close>

fun add_file_sizes :: "local_fs \<Rightarrow> string list \<Rightarrow> nat \<Rightarrow> nat result" where
  "add_file_sizes fs [] total_size = Inr total_size"
| "add_file_sizes fs (path # paths) total_size =
     (case map_of fs path of
        None \<Rightarrow> Inl (IOException ''Cannot open file'')
      | Some f \<Rightarrow> add_file_sizes fs paths (total_size + length (lf_content f)))"

definition GetOnDiskDataCacheSize :: "string list \<Rightarrow> local_fs \<Rightarrow> nat result" where
  "GetOnDiskDataCacheSize cache_directories fs =
     add_file_sizes fs (concat (map (\<lambda>dir. map (full_name dir) (ListFiles dir fs)) cache_directories)) 0"

section \<open>Scans\<close>

lemma emit_loop_chunk:
  assumes "em_offset d \<le> length (em_entries d)"
  shows "emit_loop to_row n d =
    (map to_row (take n (drop (em_offset d) (em_entries d))),
     d\<lparr>em_offset := min (length (em_entries d)) (em_offset d + n)\<rparr>)"
  using assms
proof (induction n arbitrary: d)
  case 0
  then show ?case by (simp add: min_def)
next
  case (Suc n)
  show ?case
  proof (cases "em_offset d < length (em_entries d)")
    case True
    let ?d = "d\<lparr>em_offset := em_offset d + 1\<rparr>"
    have "drop (em_offset d) (em_entries d) = em_entries d ! em_offset d # drop (em_offset ?d) (em_entries ?d)"
      using True by (simp add: Cons_nth_drop_Suc)
    with True Suc.IH [of ?d] show ?thesis by simp
  next
    case False
    with Suc.prems show ?thesis by (simp add: min_def)
  qed
qed

lemma emit_chunk:
  assumes "em_offset d \<le> length (em_entries d)"
  shows "emit n to_row d =
    (map to_row (take n (drop (em_offset d) (em_entries d))),
     d\<lparr>em_offset := min (length (em_entries d)) (em_offset d + n)\<rparr>)"
  using assms by (auto simp: emit_def emit_loop_chunk)

text \<open>The statistics are emitted by another loop that does the same.\<close>

lemma PolicyStatsTableFunc_emit:
  assumes "em_offset d \<le> length (em_entries d)" "length (em_entries d) < U64"
  shows "PolicyStatsTableFunc n d = emit n policy_stats_row d"
proof -
  let ?c = "min n (length (em_entries d) - em_offset d)"
  have "u64_sub (length (em_entries d)) (em_offset d) = length (em_entries d) - em_offset d"
    using assms by (simp add: u64_exact)
  moreover have "map (\<lambda>i. policy_stats_row (em_entries d ! (em_offset d + i))) [0..<?c] =
      map policy_stats_row (take n (drop (em_offset d) (em_entries d)))"
    using assms(1) by (intro nth_equalityI) auto
  moreover have "em_offset d + ?c = min (length (em_entries d)) (em_offset d + n)" using assms(1) by linarith
  ultimately show ?thesis
    using assms(1) by (auto simp: PolicyStatsTableFunc_def emit_chunk Let_def)
qed

text \<open>A scan of an emission ends, in chunks that fit, after every entry was emitted once and in order.\<close>

definition scan_of :: "nat \<Rightarrow> row list \<Rightarrow> row list list option \<Rightarrow> bool" where
  "scan_of vector_size rows r \<longleftrightarrow>
     (\<exists>chunks. r = Some chunks \<and> concat chunks = rows \<and> list_all (\<lambda>c. c \<noteq> [] \<and> length c \<le> vector_size) chunks)"

lemma scan_emission:
  assumes "0 < n" "em_offset d \<le> length (em_entries d)"
    and f: "\<forall>d. em_offset d \<le> length (em_entries d) \<and> length (em_entries d) \<le> m \<longrightarrow> f d = emit n to_row d"
    and m: "length (em_entries d) \<le> m"
  shows "scan_of n (map to_row (drop (em_offset d) (em_entries d))) (table_scan f d)"
  using assms(2) m
proof (induction "length (em_entries d) - em_offset d" arbitrary: d rule: less_induct)
  case less
  let ?rest = "drop (em_offset d) (em_entries d)"
  let ?d = "d\<lparr>em_offset := min (length (em_entries d)) (em_offset d + n)\<rparr>"
  have fd: "f d = (map to_row (take n ?rest), ?d)" using less.prems f by (simp add: emit_chunk)
  show ?case
  proof (cases "?rest = []")
    case True
    with fd show ?thesis by (subst table_scan.simps) (simp add: scan_of_def)
  next
    case False
    with less.prems assms(1) have ne: "take n ?rest \<noteq> []" by simp
    have "scan_of n (map to_row (drop (em_offset ?d) (em_entries ?d))) (table_scan f ?d)"
      using False assms(1) less.prems by (intro less.hyps) auto
    moreover have "drop (em_offset ?d) (em_entries ?d) = drop n ?rest"
      using less.prems by (cases "em_offset d + n \<le> length (em_entries d)") (simp_all add: add.commute min_def)
    ultimately obtain chunks where "table_scan f ?d = Some chunks" "concat chunks = map to_row (drop n ?rest)"
      "list_all (\<lambda>c. c \<noteq> [] \<and> length c \<le> n) chunks"
      unfolding scan_of_def by auto
    moreover have "map to_row (take n ?rest) @ map to_row (drop n ?rest) = map to_row ?rest"
      by (simp only: map_append [symmetric] append_take_drop_id)
    ultimately show ?thesis
      using fd ne unfolding scan_of_def
      by (intro exI [of _ "map to_row (take n ?rest) # chunks"], subst table_scan.simps) simp
  qed
qed

lemma scan_all:
  assumes "0 < n"
  shows "scan_of n (map to_row es) (table_scan (emit n to_row) (start_emission es))"
  using scan_emission [of n "start_emission es" "length es" "emit n to_row" to_row] assms
  by (simp add: start_emission_def)

lemma scan_once: "table_scan (emit_once r) False = Some [[r]]"
proof -
  have "table_scan (emit_once r) True = Some []" by (subst table_scan.simps) (simp add: emit_once_def)
  then show ?thesis by (subst table_scan.simps) (simp add: emit_once_def)
qed

section \<open>The configuration tables\<close>

definition data_shape :: "InstanceConfig \<Rightarrow> nat" where
  "data_shape cfg =
     (if cfg_cache_type cfg = ON_DISK_CACHE_TYPE then 2 else if cfg_cache_type cfg = IN_MEM_CACHE_TYPE then 1 else 0)"

definition one_row :: "(bool \<Rightarrow> row list \<times> bool) \<Rightarrow> (row \<Rightarrow> bool) \<Rightarrow> bool" where
  "one_row f P \<longleftrightarrow> (\<exists>r. table_scan f False = Some [[r]] \<and> P r)"

lemma one_row_once: "one_row (emit_once r) P \<longleftrightarrow> P r"
  by (simp add: one_row_def scan_once)

lemmas config_tables = DataCacheConfigQueryFuncBindImpl_def FillDataCacheConfig_def GetDiskCacheDirectories_def
  GetDiskCacheReaderMemoryCacheType_def MetadataCacheConfigQueryFuncBindImpl_def FillMetadataCacheConfig_def
  FileHandleCacheConfigQueryFuncBindImpl_def FillFileHandleCacheConfig_def
  GlobCacheConfigQueryFuncBindImpl_def FillGlobCacheConfig_def

lemma whole_config_fits:
  "row_fits (CacheConfigQueryFuncBind cfg)
     (FillDataCacheConfig cfg' @ FillMetadataCacheConfig cfg' @ FillFileHandleCacheConfig cfg' @
      FillGlobCacheConfig cfg' @ [GetCacheExclusionRegexes xm]) \<longleftrightarrow>
   data_shape cfg = data_shape cfg' \<and>
   (enable_metadata_cache (cfg_metadata cfg) \<longleftrightarrow> enable_metadata_cache (cfg_metadata cfg')) \<and>
   (enable_file_handle_cache (cfg_handles cfg) \<longleftrightarrow> enable_file_handle_cache (cfg_handles cfg')) \<and>
   (enable_glob_cache (cfg_glob cfg) \<longleftrightarrow> enable_glob_cache (cfg_glob cfg'))"
  by (simp add: row_fits_def CacheConfigQueryFuncBind_def config_tables GetCacheExclusionRegexes_def data_shape_def)

text \<open>
  Property C39. Each configuration table has exactly one row, and the row fits the columns exactly when
  the configuration it was filled from has the caches switched on that the configuration its columns
  were bound to had: the same data cache type, and the same of the metadata, handle and glob caches
  enabled. With the configuration unchanged this is always so; when a \<open>SET\<close> comes between binding and
  running, as with a prepared statement, the row has other columns than were announced. The overview
  of cache types always fits.
\<close>
theorem config_rows_fit_columns:
  "one_row (DataCacheConfigQueryTableFunc cfg')
     (\<lambda>r. row_fits (DataCacheConfigQueryFuncBindImpl cfg) r \<longleftrightarrow> data_shape cfg = data_shape cfg') \<and>
   one_row (MetadataCacheConfigQueryTableFunc cfg')
     (\<lambda>r. row_fits (MetadataCacheConfigQueryFuncBindImpl cfg) r \<longleftrightarrow>
        enable_metadata_cache (cfg_metadata cfg) = enable_metadata_cache (cfg_metadata cfg')) \<and>
   one_row (FileHandleCacheConfigQueryTableFunc cfg')
     (\<lambda>r. row_fits (FileHandleCacheConfigQueryFuncBindImpl cfg) r \<longleftrightarrow>
        enable_file_handle_cache (cfg_handles cfg) = enable_file_handle_cache (cfg_handles cfg')) \<and>
   one_row (GlobCacheConfigQueryTableFunc cfg')
     (\<lambda>r. row_fits (GlobCacheConfigQueryFuncBindImpl cfg) r \<longleftrightarrow>
        enable_glob_cache (cfg_glob cfg) = enable_glob_cache (cfg_glob cfg')) \<and>
   one_row (CacheConfigQueryTableFunc cfg' xm)
     (\<lambda>r. row_fits (CacheConfigQueryFuncBind cfg) r \<longleftrightarrow>
        data_shape cfg = data_shape cfg' \<and>
        enable_metadata_cache (cfg_metadata cfg) = enable_metadata_cache (cfg_metadata cfg') \<and>
        enable_file_handle_cache (cfg_handles cfg) = enable_file_handle_cache (cfg_handles cfg') \<and>
        enable_glob_cache (cfg_glob cfg) = enable_glob_cache (cfg_glob cfg')) \<and>
   one_row (CacheTypeQueryTableFunc cfg') (row_fits CacheTypeQueryFuncBind)"
proof (intro conjI)
  show "one_row (DataCacheConfigQueryTableFunc cfg')
     (\<lambda>r. row_fits (DataCacheConfigQueryFuncBindImpl cfg) r \<longleftrightarrow> data_shape cfg = data_shape cfg')"
    unfolding DataCacheConfigQueryTableFunc_def one_row_once by (simp add: row_fits_def config_tables data_shape_def)
  show "one_row (MetadataCacheConfigQueryTableFunc cfg')
     (\<lambda>r. row_fits (MetadataCacheConfigQueryFuncBindImpl cfg) r \<longleftrightarrow>
        enable_metadata_cache (cfg_metadata cfg) = enable_metadata_cache (cfg_metadata cfg'))"
    unfolding MetadataCacheConfigQueryTableFunc_def one_row_once by (simp add: row_fits_def config_tables)
  show "one_row (FileHandleCacheConfigQueryTableFunc cfg')
     (\<lambda>r. row_fits (FileHandleCacheConfigQueryFuncBindImpl cfg) r \<longleftrightarrow>
        enable_file_handle_cache (cfg_handles cfg) = enable_file_handle_cache (cfg_handles cfg'))"
    unfolding FileHandleCacheConfigQueryTableFunc_def one_row_once by (simp add: row_fits_def config_tables)
  show "one_row (GlobCacheConfigQueryTableFunc cfg')
     (\<lambda>r. row_fits (GlobCacheConfigQueryFuncBindImpl cfg) r \<longleftrightarrow>
        enable_glob_cache (cfg_glob cfg) = enable_glob_cache (cfg_glob cfg'))"
    unfolding GlobCacheConfigQueryTableFunc_def one_row_once by (simp add: row_fits_def config_tables)
  show "one_row (CacheConfigQueryTableFunc cfg' xm)
     (\<lambda>r. row_fits (CacheConfigQueryFuncBind cfg) r \<longleftrightarrow>
        data_shape cfg = data_shape cfg' \<and>
        enable_metadata_cache (cfg_metadata cfg) = enable_metadata_cache (cfg_metadata cfg') \<and>
        enable_file_handle_cache (cfg_handles cfg) = enable_file_handle_cache (cfg_handles cfg') \<and>
        enable_glob_cache (cfg_glob cfg) = enable_glob_cache (cfg_glob cfg'))"
    unfolding CacheConfigQueryTableFunc_def one_row_once whole_config_fits by (rule refl)
  show "one_row (CacheTypeQueryTableFunc cfg') (row_fits CacheTypeQueryFuncBind)"
    unfolding CacheTypeQueryTableFunc_def one_row_once by (simp add: row_fits_def CacheTypeQueryFuncBind_def)
qed

section \<open>The listings\<close>

definition memory_blocks :: "instance_state \<Rightarrow> InMemCacheBlock set" where
  "memory_blocks i =
     (case in_mem_cache_reader (is_readers i) of
        Some (Some s) \<Rightarrow> dom (storage_entries s)
      | _ \<Rightarrow> {})"

definition disk_front :: "instance_state \<Rightarrow> data_storage option" where
  "disk_front i = (case on_disk_cache_reader (is_readers i) of None \<Rightarrow> None | Some (s, _) \<Rightarrow> s)"

lemma GetCacheEntriesInfo_blocks:
  assumes "storage_inv s"
  shows "mset (GetCacheEntriesInfo (Some s)) = image_mset entry_info (mset_set (dom (storage_entries s)))"
  using storage.keys_law [OF assms] by (simp add: GetCacheEntriesInfo_def mset_set_set [symmetric])

lemma map_run_all2: "map_run f xs = Some (Inr ys) \<Longrightarrow> list_all2 (\<lambda>x y. f x = Some (Inr y)) xs ys"
  by (induction f xs arbitrary: ys rule: map_run.induct)
     (auto simp: run_bind_def split: option.splits sum.splits)

text \<open>What the on-disk reader lists: the blocks in front of it, then its cache files.\<close>

lemma disk_listing_files:
  assumes "disk_GetCacheEntriesInfo gfn split to_unsigned dirs front fs = Some (Inr es)"
  shows "map ci_cache_filepath (filter (\<lambda>e. ci_cache_type e = ''on-disk'') es) =
    concat (map (\<lambda>dir. map (full_name dir) (filter (\<lambda>n. \<not> IsTempCacheFile n) (ListFiles dir fs))) dirs)"
    (is "_ = ?paths")
proof -
  obtain on_disk where run: "map_run (disk_entry_info gfn split to_unsigned fs) ?paths = Some (Inr on_disk)"
    and es: "es = (case front of None \<Rightarrow> [] | Some s \<Rightarrow> map mem_entry_info (storage_Keys s)) @ on_disk"
    using assms unfolding disk_GetCacheEntriesInfo_def Let_def run_bind_def
    by (auto split: option.splits sum.splits)
  have "list_all2 (\<lambda>x y. ci_cache_filepath y = x \<and> ci_cache_type y = ''on-disk'') ?paths on_disk"
    using map_run_all2 [OF run]
    by (rule list_all2_mono) (auto simp: disk_entry_info_def run_bind_def split: option.splits sum.splits)
  then have "map ci_cache_filepath on_disk = ?paths" "filter (\<lambda>e. ci_cache_type e = ''on-disk'') on_disk = on_disk"
    by (induction rule: list_all2_induct) simp_all
  moreover have "filter (\<lambda>e. ci_cache_type e = ''on-disk'')
      (case front of None \<Rightarrow> [] | Some s \<Rightarrow> map mem_entry_info (storage_Keys s)) = []"
    by (simp add: mem_entry_info_def filter_map o_def split: option.split)
  ultimately show ?thesis by (simp add: es)
qed

lemma status_entries:
  assumes "stores_all storage_inv (is_readers i)"
    and "disk_GetCacheEntriesInfo gfn split to_unsigned (cfg_on_disk_cache_directories (is_config i)) (disk_front i)
           (is_disk i) = Some (Inr on_disk)"
    and "i' = i\<lparr>is_readers := InitializeDiskCacheReader (is_readers i)\<rparr>"
  shows "\<exists>ess. map_run (reader_entries gfn split to_unsigned i') (GetCacheReaders (is_readers i')) = Some (Inr ess) \<and>
    mset (concat ess) = image_mset entry_info (mset_set (memory_blocks i)) + mset on_disk"
proof -
  have disk: "reader_entries gfn split to_unsigned i' Disk_Reader = Some (Inr on_disk)"
    using assms(2) unfolding assms(3) disk_front_def InitializeDiskCacheReader_def
    by (auto split: option.splits prod.splits)
  show ?thesis
  proof (cases "in_mem_cache_reader (is_readers i)")
    case None
    then show ?thesis
      using disk by (auto simp: assms(3) GetCacheReaders_def InitializeDiskCacheReader_def memory_blocks_def)
  next
    case (Some st)
    have "mset (GetCacheEntriesInfo st) = image_mset entry_info (mset_set (memory_blocks i))"
    proof (cases st)
      case None
      with Some show ?thesis by (simp add: memory_blocks_def GetCacheEntriesInfo_def)
    next
      case (Some s)
      with \<open>in_mem_cache_reader (is_readers i) = Some st\<close> assms(1) show ?thesis
        by (simp add: memory_blocks_def stores_all_def GetCacheEntriesInfo_blocks)
    qed
    moreover have "GetCacheReaders (is_readers i') = [Memory_Reader, Disk_Reader]"
      "in_mem_cache_reader (is_readers i') = Some st"
      using Some by (auto simp: assms(3) GetCacheReaders_def InitializeDiskCacheReader_def)
    ultimately show ?thesis using disk by (simp del: reader_entries.simps(3))
  qed
qed


definition example_store :: data_storage where
  "example_store =
     ExtensionBounded (ext_Put (InMemCacheBlock ''f'' 0 4) \<lparr>pc_data = [1, 2, 3, 4], pc_length = 4, pc_capacity = 4\<rparr> ''v'' 0
       (ext_new 2 0))"

lemma example_store_ok: "storage_inv example_store" "dom (storage_entries example_store) = {InMemCacheBlock ''f'' 0 4}"
proof -
  have "storage_inv (ExtensionBounded (ext_new 2 0))" by (simp add: ext_new_def)
  then show inv: "storage_inv example_store"
    unfolding example_store_def storage_Put.simps(1) [symmetric] by (rule storage.put_inv)
  have "storage_Keys example_store = [InMemCacheBlock ''f'' 0 4]" unfolding example_store_def by code_simp
  with storage.keys_law [OF inv] show "dom (storage_entries example_store) = {InMemCacheBlock ''f'' 0 4}" by auto
qed

definition example_listing :: instance_state where
  "example_listing = (new_instance ''d'')\<lparr>is_readers := reader_manager_new\<lparr>in_mem_cache_reader := Some (Some example_store)\<rparr>\<rparr>"


section \<open>Access counts and sizes\<close>

text \<open>
  What the access query shows: the counts of the connection's own collector, byte counts of the data
  cache only, and zeros for a connection that has none.
\<close>

definition count_exact :: "CacheAccessInfo \<Rightarrow> bool" where
  "count_exact c \<longleftrightarrow> ca_cache_hit_count c < U64 \<and> ca_cache_miss_count c < U64 \<and> ca_cache_miss_by_in_use c < U64"

definition shown_access :: "nat \<Rightarrow> CacheAccessInfo \<Rightarrow> CacheAccessInfo" where
  "shown_access idx c =
     (if idx = operation_index kRead then c
      else c\<lparr>ca_total_bytes_to_read := None, ca_total_bytes_to_cache := None, ca_bytes_read_from_hits := None,
             ca_bytes_read_from_misses := None\<rparr>)"

definition bytes_known :: "CacheAccessInfo \<Rightarrow> bool" where
  "bytes_known c \<longleftrightarrow> list_all (\<lambda>v. \<exists>n. v = Some n \<and> n < U64)
     [ca_total_bytes_to_read c, ca_total_bytes_to_cache c, ca_bytes_read_from_hits c, ca_bytes_read_from_misses c]"

lemma add_access_shown:
  assumes "\<forall>n. get_value (Some n) = Inr n" "count_exact c" "ca_cache_type c = CACHE_ENTITY_NAMES ! idx"
    and "idx = operation_index kRead \<longrightarrow> bytes_known c"
  shows "add_access get_value idx (no_access idx) c = Inr (shown_access idx c)"
  using assms
  by (cases c) (auto simp: add_access_def no_access_def shown_access_def add_bytes_def u64_exact count_exact_def bytes_known_def)

lemma add_all_accesses_shown:
  assumes "\<forall>n. get_value (Some n) = Inr n"
    and "\<forall>j < length cs. count_exact (cs ! j) \<and> ca_cache_type (cs ! j) = CACHE_ENTITY_NAMES ! (idx + j) \<and>
      (idx + j = operation_index kRead \<longrightarrow> bytes_known (cs ! j))"
  shows "add_all_accesses get_value idx (map no_access [idx..<idx + length cs]) cs =
    Inr (map (\<lambda>j. shown_access (idx + j) (cs ! j)) [0..<length cs])"
  using assms(2)
proof (induction cs arbitrary: idx)
  case (Cons c cs)
  have "add_access get_value idx (no_access idx) c = Inr (shown_access idx c)"
    using Cons.prems [rule_format, of 0] assms(1) by (intro add_access_shown) auto
  moreover have "\<forall>j < length cs. count_exact (cs ! j) \<and> ca_cache_type (cs ! j) = CACHE_ENTITY_NAMES ! (Suc idx + j) \<and>
      (Suc idx + j = operation_index kRead \<longrightarrow> bytes_known (cs ! j))"
    using Cons.prems by (metis Suc_less_eq add_Suc_shift length_Cons nth_Cons_Suc)
  note Cons.IH [OF this]
  moreover have "map no_access [idx..<idx + length (c # cs)] = no_access idx # map no_access [Suc idx..<Suc idx + length cs]"
    by (simp add: upt_rec)
  moreover have "[0..<length (c # cs)] = 0 # map Suc [0..<length cs]" by (simp add: map_Suc_upt upt_conv_Cons del: upt_Suc)
  ultimately show ?case by (simp add: o_def)
qed simp

lemma access_query_shows_collector:
  assumes "\<forall>n. get_value (Some n) = Inr n"
    and "map_of (profile_collectors (is_profiles i)) conn = Some (TempCollector t)"
    and "length (cache_access_count t) = kCacheEntityCount * kCacheAccessCount" "\<forall>n \<in> set (cache_access_count t). n < U64"
    and "total_bytes_to_read t < U64" "total_bytes_to_cache t < U64" "bytes_read_from_hits t < U64" "bytes_read_from_misses t < U64"
  shows "CacheAccessInfoQueryFuncInit get_value conn i = Inr (start_emission (temp_GetCacheAccessInfo t))"
proof -
  let ?cs = "temp_GetCacheAccessInfo t"
  have len: "length ?cs = kCacheEntityCount" by (simp add: temp_GetCacheAccessInfo_def)
  have nth: "cache_access_count t ! k < U64" if "k < kCacheEntityCount * kCacheAccessCount" for k
    using assms(3,4) that by simp
  have access: "cache_access_count t ! (j * kCacheAccessCount) < U64 \<and> cache_access_count t ! Suc (j * kCacheAccessCount) < U64 \<and>
      cache_access_count t ! Suc (Suc (j * kCacheAccessCount)) < U64" if "j < kCacheEntityCount" for j
    using that by (intro conjI nth) (simp_all add: kCacheAccessCount_def kCacheEntityCount_def)
  have ok: "count_exact (?cs ! j) \<and> ca_cache_type (?cs ! j) = CACHE_ENTITY_NAMES ! j \<and>
      (j = operation_index kRead \<longrightarrow> bytes_known (?cs ! j)) \<and> shown_access j (?cs ! j) = ?cs ! j" if "j < length ?cs" for j
    using that assms(5-8) len
    by (simp add: temp_GetCacheAccessInfo_def count_exact_def bytes_known_def shown_access_def access)
  then have "add_all_accesses get_value 0 (map no_access [0..<kCacheEntityCount]) ?cs =
      Inr (map (\<lambda>j. shown_access j (?cs ! j)) [0..<length ?cs])"
    using add_all_accesses_shown [OF assms(1), of ?cs 0] len by simp
  moreover have "map (\<lambda>j. shown_access j (?cs ! j)) [0..<length ?cs] = ?cs"
    using ok by (intro nth_equalityI) simp_all
  ultimately show ?thesis
    using assms(2) len
    by (simp add: CacheAccessInfoQueryFuncInit_def HasExplicitProfileCollector_def GetProfileCollectorOrThrow_def)
qed

lemma access_query_no_collector:
  "map_of (profile_collectors (is_profiles i)) conn = None \<Longrightarrow>
   CacheAccessInfoQueryFuncInit get_value conn i = Inr (start_emission (map no_access [0..<kCacheEntityCount]))"
  by (simp add: CacheAccessInfoQueryFuncInit_def HasExplicitProfileCollector_def)

text \<open>The listing of exclusions after one was added.\<close>

lemma exclusions_listed:
  assumes "0 < n" "AddCacheExclusionRegex compiles [regex] xm = Inr xm'"
  shows "scan_of n (map names_row (insort regex (sort (GetExclusionRegex xm))))
    (table_scan (ListCacheExclusionRegexQueryTableFunc n) (ListCacheExclusionRegexQueryFuncInit xm'))"
proof -
  have "ListCacheExclusionRegexQueryTableFunc n = emit n names_row"
    by (intro ext) (simp add: ListCacheExclusionRegexQueryTableFunc_def)
  moreover have "sort (GetExclusionRegex xm') = insort regex (sort (GetExclusionRegex xm))"
    using assms(2) by (auto simp: AddCacheExclusionRegex_def AddExclusionRegex_def GetExclusionRegex_def
        intro!: properties_for_sort simp: sorted_insort split: if_splits)
  ultimately show ?thesis using scan_all [OF assms(1)] by (simp add: ListCacheExclusionRegexQueryFuncInit_def)
qed

text \<open>The size of the cache on disk: no file of a listing fails to open.\<close>

lemma add_file_sizes_sum:
  "\<forall>p \<in> set ps. map_of fs p \<noteq> None \<Longrightarrow>
   add_file_sizes fs ps k = Inr (k + sum_list (map (\<lambda>p. length (lf_content (the (map_of fs p)))) ps))"
  by (induction fs ps k rule: add_file_sizes.induct) (auto split: option.splits)

end
