(* ===== verification/Thread_Pool.thy ===== *)
theory Thread_Pool
  imports Chunk_Plan Instance_Config
begin

text \<open>
  The thread pool (\<open>src/utils/thread_pool.cpp\<close>) and the executor the readers schedule their chunks on
  (\<open>src/utils/thread_pool_parallel_executor.cpp\<close>, \<open>src/utils/duckdb_task_parallel_executor.cpp\<close>). A step is
  what one thread does between two operations on the mutex; a condition variable is the set of
  threads asleep on it, so that a wake-up that finds nobody is lost.
\<close>

section \<open>State\<close>

datatype worker =
    Checking
  | Sleeping
  | Running nat
  | Returning
  | Exited

datatype waiter = Testing | Blocked | Released

text \<open>
  The pool with its worker threads and the threads inside \<open>Wait\<close>. Jobs are numbered. The last three
  fields are history: the jobs pushed, taken from the queue and run to the end, in this order.
\<close>

record pool_state =
  idle_num :: nat
  stopped :: bool
  jobs :: "nat list"
  workers :: "worker list"
  waiters :: "waiter list"
  pushed :: "nat list"
  started :: "nat list"
  finished :: "nat list"

definition pool_new :: "nat \<Rightarrow> pool_state" where
  "pool_new thread_num =
     \<lparr>idle_num = thread_num, stopped = False, jobs = [], workers = replicate thread_num Checking, waiters = [],
      pushed = [], started = [], finished = []\<rparr>"

section \<open>Steps\<close>

text \<open>\<open>notify_one\<close>: some sleeper wakes up, or there is none.\<close>

definition notify_one :: "'t \<Rightarrow> 't \<Rightarrow> 't list \<Rightarrow> 't list \<Rightarrow> bool" where
  "notify_one asleep awake ts ts' \<longleftrightarrow>
     (\<exists>k < length ts. ts ! k = asleep \<and> ts' = ts[k := awake]) \<or> (asleep \<notin> set ts \<and> ts' = ts)"

definition notify_all :: "'t \<Rightarrow> 't \<Rightarrow> 't list \<Rightarrow> 't list" where
  "notify_all asleep awake ts = map (\<lambda>t. if t = asleep then awake else t) ts"

definition wait_done :: "pool_state \<Rightarrow> bool" where
  "wait_done st \<longleftrightarrow> stopped st \<or> (idle_num st = length (workers st) \<and> jobs st = [])"

datatype pool_label = Push nat | Work | Spurious | Wait_Call | Stop

inductive pool_step :: "pool_label \<Rightarrow> pool_state \<Rightarrow> pool_state \<Rightarrow> bool" where
  push: "notify_one Sleeping Checking (workers st) ws \<Longrightarrow>
    pool_step (Push j) st (st\<lparr>jobs := jobs st @ [j], workers := ws, pushed := pushed st @ [j]\<rparr>)"
| exit: "k < length (workers st) \<Longrightarrow> workers st ! k = Checking \<Longrightarrow> stopped st \<Longrightarrow>
    pool_step Work st (st\<lparr>workers := (workers st)[k := Exited]\<rparr>)"
| sleep: "k < length (workers st) \<Longrightarrow> workers st ! k = Checking \<Longrightarrow> \<not> stopped st \<Longrightarrow> jobs st = [] \<Longrightarrow>
    pool_step Work st (st\<lparr>workers := (workers st)[k := Sleeping]\<rparr>)"
| take: "k < length (workers st) \<Longrightarrow> workers st ! k = Checking \<Longrightarrow> \<not> stopped st \<Longrightarrow> jobs st = j # js \<Longrightarrow>
    pool_step Work st (st\<lparr>workers := (workers st)[k := Running j], jobs := js, idle_num := idle_num st - 1,
      started := started st @ [j]\<rparr>)"
| run: "k < length (workers st) \<Longrightarrow> workers st ! k = Running j \<Longrightarrow>
    pool_step Work st (st\<lparr>workers := (workers st)[k := Returning], finished := finished st @ [j]\<rparr>)"
| return: "k < length (workers st) \<Longrightarrow> workers st ! k = Returning \<Longrightarrow> notify_one Blocked Testing (waiters st) ts \<Longrightarrow>
    pool_step Work st (st\<lparr>workers := (workers st)[k := Checking], idle_num := idle_num st + 1, waiters := ts\<rparr>)"
| wait_return: "k < length (waiters st) \<Longrightarrow> waiters st ! k = Testing \<Longrightarrow> wait_done st \<Longrightarrow>
    pool_step Work st (st\<lparr>waiters := (waiters st)[k := Released]\<rparr>)"
| wait_block: "k < length (waiters st) \<Longrightarrow> waiters st ! k = Testing \<Longrightarrow> \<not> wait_done st \<Longrightarrow>
    pool_step Work st (st\<lparr>waiters := (waiters st)[k := Blocked]\<rparr>)"
| wake_worker: "k < length (workers st) \<Longrightarrow> workers st ! k = Sleeping \<Longrightarrow>
    pool_step Spurious st (st\<lparr>workers := (workers st)[k := Checking]\<rparr>)"
| wake_waiter: "k < length (waiters st) \<Longrightarrow> waiters st ! k = Blocked \<Longrightarrow>
    pool_step Spurious st (st\<lparr>waiters := (waiters st)[k := Testing]\<rparr>)"
| wait_call: "pool_step Wait_Call st (st\<lparr>waiters := waiters st @ [Testing]\<rparr>)"
| stop: "pool_step Stop st (st\<lparr>stopped := True, workers := notify_all Sleeping Checking (workers st)\<rparr>)"

inductive_cases WorkE: "pool_step Work st st'"
inductive_cases SpuriousE: "pool_step Spurious st st'"
inductive_cases PushE: "pool_step (Push j) st st'"
inductive_cases Wait_CallE: "pool_step Wait_Call st st'"

section \<open>The executor\<close>

text \<open>
  \<open>ThreadPoolParallelExecutor\<close>: one thread schedules jobs and then waits for all of them; the pool is
  destroyed after that. Workers run meanwhile, and may wake up for no reason.
\<close>

inductive executor_step :: "pool_state \<Rightarrow> pool_state \<Rightarrow> bool" where
  schedule: "waiters st = [] \<Longrightarrow> pool_step (Push j) st st' \<Longrightarrow> executor_step st st'"
| wait: "waiters st = [] \<Longrightarrow> pool_step Wait_Call st st' \<Longrightarrow> executor_step st st'"
| work: "pool_step Work st st' \<Longrightarrow> executor_step st st'"
| spurious: "pool_step Spurious st st' \<Longrightarrow> executor_step st st'"

text \<open>\<open>WaitAll\<close> after \<open>Wait\<close>: the futures in the order of scheduling; \<open>get\<close> rethrows what the job threw.\<close>

fun get_futures :: "(nat \<Rightarrow> unit result) \<Rightarrow> nat list \<Rightarrow> unit result" where
  "get_futures outcome [] = Inr ()"
| "get_futures outcome (j # js) = (case outcome j of Inl e \<Rightarrow> Inl e | Inr _ \<Rightarrow> get_futures outcome js)"

definition executor_WaitAll :: "(nat \<Rightarrow> unit result) \<Rightarrow> pool_state \<Rightarrow> unit result option" where
  "executor_WaitAll outcome st = (if waiters st = [Released] then Some (get_futures outcome (pushed st)) else None)"

datatype parallel_executor = DuckDBTaskParallelExecutor | ThreadPoolParallelExecutor nat

definition CreateParallelExecutor :: "bool \<Rightarrow> ParallelExecutorMode \<Rightarrow> nat \<Rightarrow> parallel_executor" where
  "CreateParallelExecutor has_db mode thread_count =
     (if has_db \<and> mode = DUCKDB_TASK_SCHEDULER then DuckDBTaskParallelExecutor
      else ThreadPoolParallelExecutor thread_count)"

section \<open>Counting over threads\<close>

lemma sum_list_update:
  fixes f :: "'a \<Rightarrow> 'b::comm_monoid_add"
  shows "k < length xs \<Longrightarrow> sum_list (map f (xs[k := y])) + f (xs ! k) = sum_list (map f xs) + f y"
proof (induction xs arbitrary: k)
  case (Cons x xs)
  then show ?case by (cases k) (auto simp: ac_simps)
qed simp

fun busy_of :: "worker \<Rightarrow> nat" where
  "busy_of (Running _) = 1" | "busy_of Returning = 1" | "busy_of _ = 0"

fun running_of :: "worker \<Rightarrow> nat multiset" where
  "running_of (Running j) = {#j#}" | "running_of _ = {#}"

abbreviation busy :: "worker list \<Rightarrow> nat" where
  "busy ws \<equiv> sum_list (map busy_of ws)"

abbreviation running :: "worker list \<Rightarrow> nat multiset" where
  "running ws \<equiv> sum_list (map running_of ws)"

lemma busy_le: "busy ws \<le> length ws"
proof (induction ws)
  case (Cons w ws)
  then show ?case by (cases w) simp_all
qed simp

lemma busy_zero: "busy ws = 0 \<Longrightarrow> running ws = {#}"
proof (induction ws)
  case (Cons w ws)
  then show ?case by (cases w) simp_all
qed simp

text \<open>Who may be waiting, and what that says about the pool.\<close>

definition waiter_ok :: "pool_state \<Rightarrow> waiter \<Rightarrow> bool" where
  "waiter_ok st w \<longleftrightarrow> (w = Blocked \<longrightarrow> \<not> wait_done st) \<and> (w = Released \<longrightarrow> jobs st = [] \<and> busy (workers st) = 0)"

definition pool_inv :: "nat \<Rightarrow> pool_state \<Rightarrow> bool" where
  "pool_inv n st \<longleftrightarrow>
     length (workers st) = n \<and> \<not> stopped st \<and> idle_num st + busy (workers st) = n \<and>
     started st @ jobs st = pushed st \<and> mset (started st) = running (workers st) + mset (finished st) \<and>
     (jobs st \<noteq> [] \<longrightarrow> (\<exists>w \<in> set (workers st). w \<noteq> Sleeping)) \<and> Exited \<notin> set (workers st) \<and>
     (waiters st = [] \<or> (\<exists>w. waiters st = [w] \<and> waiter_ok st w))"

lemma pool_inv_new: "pool_inv n (pool_new n)"
proof -
  have "busy (replicate n Checking) = 0" "running (replicate n Checking) = {#}"
    by (induction n) simp_all
  then show ?thesis by (simp add: pool_inv_def pool_new_def)
qed

lemma worker_update:
  assumes "k < length ws" "ws ! k = a"
  shows "busy (ws[k := b]) + busy_of a = busy ws + busy_of b"
    and "running (ws[k := b]) + running_of a = running ws + running_of b"
  using sum_list_update [OF assms(1), of busy_of b] sum_list_update [OF assms(1), of running_of b] assms(2) by simp_all

lemma notify_workers:
  assumes "notify_one Sleeping Checking ws ws'"
  shows "length ws' = length ws" "busy ws' = busy ws" "running ws' = running ws" "Exited \<in> set ws' \<longrightarrow> Exited \<in> set ws"
    "ws \<noteq> [] \<Longrightarrow> \<exists>w \<in> set ws'. w \<noteq> Sleeping"
proof -
  from assms consider k where "k < length ws" "ws ! k = Sleeping" "ws' = ws[k := Checking]"
    | "Sleeping \<notin> set ws" "ws' = ws" by (auto simp: notify_one_def)
  then have "length ws' = length ws \<and> busy ws' = busy ws \<and> running ws' = running ws \<and>
      (Exited \<in> set ws' \<longrightarrow> Exited \<in> set ws) \<and> (ws \<noteq> [] \<longrightarrow> (\<exists>w \<in> set ws'. w \<noteq> Sleeping))"
  proof cases
    case 1
    have "Checking \<in> set ws'" using 1 by (simp add: set_update_memI)
    moreover have "set ws' \<subseteq> insert Checking (set ws)" using 1 by (simp add: set_update_subset_insert)
    ultimately show ?thesis using worker_update [OF 1(1,2), of Checking] 1(3) by auto
  next
    case 2
    then show ?thesis by (cases ws) auto
  qed
  then show "length ws' = length ws" "busy ws' = busy ws" "running ws' = running ws"
    "Exited \<in> set ws' \<longrightarrow> Exited \<in> set ws" "ws \<noteq> [] \<Longrightarrow> \<exists>w \<in> set ws'. w \<noteq> Sleeping" by simp_all
qed

lemma inv_push:
  assumes "pool_inv n st" "0 < n" "waiters st = []" "pool_step (Push j) st st'"
  shows "pool_inv n st'"
  using assms(4)
proof cases
  case (push ws)
  have "workers st \<noteq> []" using assms(1,2) by (auto simp: pool_inv_def)
  with notify_workers [OF push(2)] show ?thesis using assms(1,3) push(1) by (auto simp: pool_inv_def)
qed

lemma inv_wait_call:
  assumes "pool_inv n st" "waiters st = []" "pool_step Wait_Call st st'"
  shows "pool_inv n st'"
  using assms(3)
proof cases
  case wait_call
  then show ?thesis using assms(1,2) by (auto simp: pool_inv_def waiter_ok_def)
qed

text \<open>A worker that changes to \<open>b\<close>: everything the invariant says about workers follows.\<close>

lemma inv_worker:
  assumes inv: "pool_inv n st" and k: "k < length (workers st)" "workers st ! k = a" and b: "b \<noteq> Exited"
    and st': "workers st' = (workers st)[k := b]" "stopped st' = stopped st" "pushed st' = pushed st"
    and idle: "idle_num st' + busy_of b = idle_num st + busy_of a"
    and order: "started st' @ jobs st' = started st @ jobs st"
    and hist: "mset (started st') + running_of a + mset (finished st) = mset (started st) + running_of b + mset (finished st')"
    and awake: "jobs st' \<noteq> [] \<longrightarrow> b \<noteq> Sleeping"
    and waiting: "waiters st' = [] \<or> (\<exists>w. waiters st' = [w] \<and> waiter_ok st' w)"
  shows "pool_inv n st'"
proof -
  let ?ws = "(workers st)[k := b]"
  note i = inv [unfolded pool_inv_def]
  have bu: "busy ?ws + busy_of a = busy (workers st) + busy_of b"
    and ru: "running ?ws + running_of a = running (workers st) + running_of b" using worker_update [OF k] by simp_all
  have "idle_num st' + busy ?ws = n" using bu idle i by linarith
  moreover have "mset (started st') = running ?ws + mset (finished st')"
  proof -
    have "mset (started st') + (running_of a + mset (finished st)) =
        running (workers st) + mset (finished st) + running_of b + mset (finished st')"
      using hist i by (simp add: ac_simps)
    also have "\<dots> = running ?ws + running_of a + mset (finished st) + mset (finished st')"
      using ru by (simp add: ac_simps)
    finally have "mset (started st') + (running_of a + mset (finished st)) =
        (running ?ws + mset (finished st')) + (running_of a + mset (finished st))" by (simp add: ac_simps)
    then show ?thesis by simp
  qed
  moreover have "\<exists>w \<in> set ?ws. w \<noteq> Sleeping" if "jobs st' \<noteq> []"
    using that awake k(1) by (auto intro!: bexI [of _ b] set_update_memI)
  moreover have "Exited \<notin> set ?ws"
    using i b set_update_subset_insert [of "workers st" k b] by auto
  ultimately show ?thesis using i st' order waiting by (simp add: pool_inv_def)
qed

lemma waiter_same:
  assumes "waiters st = [] \<or> (\<exists>w. waiters st = [w] \<and> waiter_ok st w)" "waiters st' = waiters st"
    and "wait_done st' \<longrightarrow> wait_done st" "jobs st = [] \<and> busy (workers st) = 0 \<longrightarrow> jobs st' = [] \<and> busy (workers st') = 0"
  shows "waiters st' = [] \<or> (\<exists>w. waiters st' = [w] \<and> waiter_ok st' w)"
  using assms by (auto simp: waiter_ok_def)

lemma notify_waiter:
  assumes "waiters st = [] \<or> (\<exists>w. waiters st = [w] \<and> waiter_ok st w)" "notify_one Blocked Testing (waiters st) ts"
  shows "ts = [] \<or> ts = [Testing] \<or> ts = [Released] \<and> waiters st = [Released]"
proof -
  from assms(1) consider "waiters st = []" | w where "waiters st = [w]" by blast
  then show ?thesis
  proof cases
    case 2
    then show ?thesis using assms(2) by (cases w) (auto simp: notify_one_def)
  qed (use assms(2) in \<open>auto simp: notify_one_def\<close>)
qed

lemma inv_work:
  assumes inv: "pool_inv n st" and step: "pool_step Work st st'"
  shows "pool_inv n st'"
  using step
proof cases
  case (exit k)
  then show ?thesis using inv by (simp add: pool_inv_def)
next
  case (sleep k)
  have w: "busy ((workers st)[k := Sleeping]) = busy (workers st)"
    using worker_update(1) [OF sleep(2,3), of Sleeping] by simp
  have "waiters st = [] \<or> (\<exists>w. waiters st = [w] \<and> waiter_ok st w)" using inv by (simp add: pool_inv_def)
  then have "waiters st' = [] \<or> (\<exists>w. waiters st' = [w] \<and> waiter_ok st' w)"
    by (rule waiter_same) (use sleep w in \<open>auto simp: wait_done_def\<close>)
  then show ?thesis by (intro inv_worker [OF inv sleep(2,3), of Sleeping]) (use sleep in auto)
next
  case (take k j js)
  let ?ws = "(workers st)[k := Running j]"
  have w: "busy ?ws = busy (workers st) + 1" using worker_update(1) [OF take(2,3), of "Running j"] by simp
  have idle: "0 < idle_num st"
    using w busy_le [of ?ws] inv by (simp add: pool_inv_def)
  have "waiters st = [] \<or> (\<exists>w. waiters st = [w] \<and> waiter_ok st w)" using inv by (simp add: pool_inv_def)
  then have "waiters st' = [] \<or> (\<exists>w. waiters st' = [w] \<and> waiter_ok st' w)"
    by (rule waiter_same) (use take idle inv in \<open>auto simp: wait_done_def pool_inv_def\<close>)
  then show ?thesis
    by (intro inv_worker [OF inv take(2,3), of "Running j"]) (use take idle in \<open>auto\<close>)
next
  case (run k j)
  have "waiters st = [] \<or> (\<exists>w. waiters st = [w] \<and> waiter_ok st w)" using inv by (simp add: pool_inv_def)
  then have "waiters st' = [] \<or> (\<exists>w. waiters st' = [w] \<and> waiter_ok st' w)"
    by (rule waiter_same) (use run worker_update(1) [OF run(2,3), of Returning] in \<open>auto simp: wait_done_def\<close>)
  then show ?thesis by (intro inv_worker [OF inv run(2,3), of Returning]) (use run in auto)
next
  case (return k ts)
  have ws: "waiters st = [] \<or> (\<exists>w. waiters st = [w] \<and> waiter_ok st w)" using inv by (simp add: pool_inv_def)
  have "0 < busy (workers st)" using worker_update(1) [OF return(2,3), of Checking] by simp
  then have "waiters st \<noteq> [Released]" using ws by (auto simp: waiter_ok_def simp del: sum_list_eq_0_iff)
  then have "ts = [] \<or> ts = [Testing]" using notify_waiter [OF ws return(4)] by auto
  then show ?thesis by (intro inv_worker [OF inv return(2,3), of Checking]) (use return in \<open>auto simp: waiter_ok_def\<close>)
next
  case (wait_return k)
  have "waiters st = [Testing]" "k = 0" using wait_return inv by (auto simp: pool_inv_def)
  moreover have "jobs st = []" "busy (workers st) = 0" using wait_return(4) inv by (auto simp: wait_done_def pool_inv_def)
  ultimately show ?thesis using wait_return(1) inv by (auto simp: pool_inv_def waiter_ok_def)
next
  case (wait_block k)
  have "waiters st = [Testing]" "k = 0" using wait_block inv by (auto simp: pool_inv_def)
  then show ?thesis using wait_block(1,4) inv by (simp add: pool_inv_def waiter_ok_def wait_done_def)
qed

lemma inv_spurious:
  assumes inv: "pool_inv n st" and step: "pool_step Spurious st st'"
  shows "pool_inv n st'"
  using step
proof cases
  case (wake_worker k)
  have "waiters st = [] \<or> (\<exists>w. waiters st = [w] \<and> waiter_ok st w)" using inv by (simp add: pool_inv_def)
  then have "waiters st' = [] \<or> (\<exists>w. waiters st' = [w] \<and> waiter_ok st' w)"
    by (rule waiter_same) (use wake_worker worker_update(1) [OF wake_worker(2,3), of Checking] in \<open>auto simp: wait_done_def\<close>)
  then show ?thesis by (intro inv_worker [OF inv wake_worker(2,3), of Checking]) (use wake_worker in auto)
next
  case (wake_waiter k)
  have "waiters st = [Blocked]" "k = 0" using wake_waiter inv by (auto simp: pool_inv_def)
  then show ?thesis using wake_waiter(1) inv by (simp add: pool_inv_def waiter_ok_def)
qed

lemma executor_inv:
  assumes "executor_step\<^sup>*\<^sup>* (pool_new n) st" "0 < n"
  shows "pool_inv n st"
  using assms(1)
proof induction
  case base
  show ?case by (rule pool_inv_new)
next
  case (step st st')
  from step(2) show ?case
    by cases (use step(3) assms(2) inv_push inv_wait_call inv_work inv_spurious in blast)+
qed

section \<open>Progress\<close>

fun worker_weight :: "worker \<Rightarrow> nat" where
  "worker_weight Checking = 1" | "worker_weight (Running _) = 4" | "worker_weight Returning = 3"
| "worker_weight Sleeping = 0" | "worker_weight Exited = 0"

fun waiter_weight :: "waiter \<Rightarrow> nat" where
  "waiter_weight Testing = 1" | "waiter_weight _ = 0"

definition work_left :: "pool_state \<Rightarrow> nat" where
  "work_left st = 4 * length (jobs st) + sum_list (map worker_weight (workers st)) + sum_list (map waiter_weight (waiters st))"

lemma weight_update:
  assumes "k < length ws" "ws ! k = a"
  shows "sum_list (map worker_weight (ws[k := b])) + worker_weight a = sum_list (map worker_weight ws) + worker_weight b"
  using sum_list_update [OF assms(1), of worker_weight b] assms(2) by simp

lemma waiter_weight_update:
  assumes "k < length ts" "ts ! k = a"
  shows "sum_list (map waiter_weight (ts[k := b])) + waiter_weight a = sum_list (map waiter_weight ts) + waiter_weight b"
  using sum_list_update [OF assms(1), of waiter_weight b] assms(2) by simp

lemma notify_weight:
  "notify_one Blocked Testing ts ts' \<Longrightarrow> sum_list (map waiter_weight ts') \<le> sum_list (map waiter_weight ts) + 1"
  unfolding notify_one_def using waiter_weight_update [where a = Blocked and b = Testing and ts = ts] by fastforce

lemma work_decreases:
  assumes "pool_step Work st st'"
  shows "work_left st' < work_left st"
  using assms
proof cases
  case (exit k)
  then show ?thesis using weight_update [OF exit(2,3), of Exited] by (simp add: work_left_def)
next
  case (sleep k)
  then show ?thesis using weight_update [OF sleep(2,3), of Sleeping] by (simp add: work_left_def)
next
  case (take k j js)
  then show ?thesis using weight_update [OF take(2,3), of "Running j"] by (simp add: work_left_def)
next
  case (run k j)
  then show ?thesis using weight_update [OF run(2,3), of Returning] by (simp add: work_left_def)
next
  case (return k ts)
  then show ?thesis
    using weight_update [OF return(2,3), of Checking] notify_weight [OF return(4)] by (simp add: work_left_def)
next
  case (wait_return k)
  then show ?thesis using waiter_weight_update [OF wait_return(2,3), of Released] by (simp add: work_left_def)
next
  case (wait_block k)
  then show ?thesis using waiter_weight_update [OF wait_block(2,3), of Blocked] by (simp add: work_left_def)
qed

lemma notify_exists: "\<exists>ts'. notify_one a b ts ts'"
  by (auto simp: notify_one_def in_set_conv_nth)

lemma stuck_sleeping:
  assumes inv: "pool_inv n st" and stuck: "\<nexists>st'. pool_step Work st st'"
  shows "workers st = replicate n Sleeping"
proof (rule replicate_eqI)
  show "length (workers st) = n" using inv by (simp add: pool_inv_def)
  fix w assume "w \<in> set (workers st)"
  then obtain k where k: "k < length (workers st)" "workers st ! k = w" by (auto simp: in_set_conv_nth)
  have ns: "\<not> stopped st" "w \<noteq> Exited" using inv \<open>w \<in> set (workers st)\<close> by (auto simp: pool_inv_def)
  obtain ts where ts: "notify_one Blocked Testing (waiters st) ts"
    using notify_exists [of Blocked Testing "waiters st"] by (elim exE)
  show "w = Sleeping"
  proof (cases w)
    case Checking
    then show ?thesis using stuck k ns by (cases "jobs st") (blast intro: pool_step.sleep pool_step.take)+
  next
    case (Running j)
    then show ?thesis using stuck k by (blast intro: pool_step.run)
  next
    case Returning
    then show ?thesis using stuck k ts by (blast intro: pool_step.return)
  qed (use ns in simp_all)
qed

lemma stuck_done:
  assumes inv: "pool_inv n st" and stuck: "\<nexists>st'. pool_step Work st st'"
  shows "jobs st = []" "mset (finished st) = mset (pushed st)" "waiters st \<in> {[], [Released]}"
proof -
  have ws: "workers st = replicate n Sleeping" by (rule stuck_sleeping [OF assms])
  have z: "busy (replicate n Sleeping) = 0" by (induction n) simp_all
  show j: "jobs st = []" using inv ws by (auto simp: pool_inv_def)
  have "busy (workers st) = 0" by (simp only: ws z)
  then have "running (workers st) = {#}" by (rule busy_zero)
  then have "started st = pushed st" "mset (started st) = mset (finished st)" using inv j by (auto simp: pool_inv_def)
  then show "mset (finished st) = mset (pushed st)" by simp
  have "wait_done st" using inv j \<open>busy (workers st) = 0\<close> by (auto simp: pool_inv_def wait_done_def)
  from inv consider "waiters st = []" | w where "waiters st = [w]" "waiter_ok st w" by (auto simp: pool_inv_def)
  then show "waiters st \<in> {[], [Released]}"
  proof cases
    case (2 w)
    have "w \<noteq> Blocked" using 2(2) \<open>wait_done st\<close> by (simp add: waiter_ok_def)
    moreover have "w \<noteq> Testing" using 2(1) stuck \<open>wait_done st\<close> pool_step.wait_return [of 0 st] by auto
    ultimately show ?thesis using 2(1) by (cases w) simp_all
  qed simp
qed

lemma work_ends:
  assumes "pool_inv n st"
  shows "\<exists>st'. (pool_step Work)\<^sup>*\<^sup>* st st' \<and> pool_inv n st' \<and> (\<nexists>st''. pool_step Work st' st'')"
  using assms
proof (induction "work_left st" arbitrary: st rule: less_induct)
  case less
  show ?case
  proof (cases "\<exists>st'. pool_step Work st st'")
    case True
    then obtain st1 where s: "pool_step Work st st1" by blast
    from less.hyps [OF work_decreases [OF s] inv_work [OF less.prems s]] s show ?thesis
      by (meson converse_rtranclp_into_rtranclp)
  next
    case False
    then show ?thesis using less.prems by blast
  qed
qed

lemma released_done:
  assumes "pool_inv n st" "waiters st = [Released]"
  shows "mset (finished st) = mset (pushed st)"
  using assms busy_zero by (fastforce simp: pool_inv_def waiter_ok_def)

lemma work_keeps:
  assumes "(pool_step Work)\<^sup>*\<^sup>* st st'"
  shows "pushed st' = pushed st \<and> length (waiters st') = length (waiters st)"
  using assms
proof induction
  case (step st1 st2)
  have "length ts = length (waiters st1)" if "notify_one Blocked Testing (waiters st1) ts" for ts
    using that by (auto simp: notify_one_def)
  with step(2,3) show ?case by (auto elim!: WorkE)
qed simp

text \<open>
  Property C6. The executor runs every scheduled job exactly once and \<open>WaitAll\<close> returns. In every
  state a scheduling thread and at least one worker can reach, in any interleaving and with spurious
  wake-ups: jobs have been started in the order of scheduling and none twice; what the threads can
  still do on their own is bounded by a number every step lowers, so it ends, no wake-up being lost;
  where it ends all jobs have run and the waiting thread has returned; and whenever it has returned,
  all jobs have run, and \<open>WaitAll\<close> yields success, or the exception of the first job in the order of
  scheduling that threw one.
\<close>

theorem executor_completes:
  assumes "0 < n" "executor_step\<^sup>*\<^sup>* (pool_new n) st"
  shows "(\<exists>js. started st @ js = pushed st) \<and> mset (finished st) \<subseteq># mset (started st) \<and>
    (\<forall>st'. pool_step Work st st' \<longrightarrow> work_left st' < work_left st) \<and>
    ((\<nexists>st'. pool_step Work st st') \<longrightarrow> mset (finished st) = mset (pushed st) \<and> waiters st \<in> {[], [Released]}) \<and>
    (\<exists>st'. (pool_step Work)\<^sup>*\<^sup>* st st' \<and> pushed st' = pushed st \<and> mset (finished st') = mset (pushed st) \<and>
       (waiters st \<noteq> [] \<longrightarrow> executor_WaitAll outcome st' = Some (get_futures outcome (pushed st)))) \<and>
    (executor_WaitAll outcome st \<noteq> None \<longrightarrow> mset (finished st) = mset (pushed st))"
proof -
  have inv: "pool_inv n st" by (rule executor_inv [OF assms(2,1)])
  have "\<exists>js. started st @ js = pushed st" "mset (finished st) \<subseteq># mset (started st)"
    using inv by (auto simp: pool_inv_def)
  moreover have "\<forall>st'. pool_step Work st st' \<longrightarrow> work_left st' < work_left st" using work_decreases by blast
  moreover have "(\<nexists>st'. pool_step Work st st') \<longrightarrow> mset (finished st) = mset (pushed st) \<and> waiters st \<in> {[], [Released]}"
    using stuck_done [OF inv] by blast
  moreover have "executor_WaitAll outcome st \<noteq> None \<longrightarrow> mset (finished st) = mset (pushed st)"
    using released_done [OF inv] by (simp add: executor_WaitAll_def)
  moreover have "\<exists>st'. (pool_step Work)\<^sup>*\<^sup>* st st' \<and> pushed st' = pushed st \<and> mset (finished st') = mset (pushed st) \<and>
       (waiters st \<noteq> [] \<longrightarrow> executor_WaitAll outcome st' = Some (get_futures outcome (pushed st)))"
  proof -
    obtain st' where st': "(pool_step Work)\<^sup>*\<^sup>* st st'" "pool_inv n st'" "\<nexists>st''. pool_step Work st' st''"
      using work_ends [OF inv] by blast
    note k = work_keeps [OF st'(1)] and d = stuck_done [OF st'(2,3)]
    have "waiters st \<noteq> [] \<Longrightarrow> waiters st' = [Released]" using k d(3) by auto
    then show ?thesis using st'(1) k d by (auto simp: executor_WaitAll_def)
  qed
  ultimately show ?thesis by blast
qed

lemma executor_completes_witness:
  "\<exists>st'. (pool_step Work)\<^sup>*\<^sup>* ((pool_new 1)\<lparr>jobs := [7], pushed := [7], waiters := [Testing]\<rparr>) st' \<and>
     finished st' = [7] \<and> executor_WaitAll (\<lambda>j. Inl (IOException ''timeout'')) st' = Some (Inl (IOException ''timeout''))"
proof -
  let ?s1 = "(pool_new 1)\<lparr>jobs := [7], pushed := [7]\<rparr>" and ?s2 = "(pool_new 1)\<lparr>jobs := [7], pushed := [7], waiters := [Testing]\<rparr>"
  have "pool_step (Push 7) (pool_new 1) ?s1"
    using pool_step.push [of "pool_new 1" "workers (pool_new 1)" 7] by (simp add: notify_one_def pool_new_def)
  then have a: "executor_step (pool_new 1) ?s1" by (intro executor_step.schedule) (simp_all add: pool_new_def)
  have "pool_step Wait_Call ?s1 ?s2" using pool_step.wait_call [of ?s1] by (simp add: pool_new_def)
  then have b: "executor_step ?s1 ?s2" by (intro executor_step.wait) (simp_all add: pool_new_def)
  have "executor_step\<^sup>*\<^sup>* (pool_new 1) ?s2" using a b by (meson rtranclp.rtrancl_refl rtranclp.rtrancl_into_rtrancl)
  from executor_completes [OF _ this, of "\<lambda>j. Inl (IOException ''timeout'')"] show ?thesis by auto
qed

section \<open>Two waiting threads\<close>


end
